(* ===== verification/Zlib_Prelude.thy ===== *)
theory Zlib_Prelude
  imports Main "HOL-Library.Word"
begin

text \<open>
  Shared vocabulary of the development: the machine types of the C sources, results of code
  that can fail, checked array access, and the bit strings that the DEFLATE format is
  written in. A byte contributes its bits from the least significant one upwards, so a
  number written on \<open>n\<close> bits is the list of its bits \<open>0, \<dots>, n - 1\<close>.
\<close>

unbundle bit_operations_syntax

type_synonym byte = "8 word"
type_synonym ush = "16 word"
type_synonym uint = "32 word"
type_synonym bitstring = "bool list"

named_theorems bitsimps \<open>bit strings of numbers, bytes and byte lists\<close>
named_theorems arraysimps \<open>checked array reads and writes\<close>

section \<open>Results that may fail\<close>

text \<open>Sequencing of computations in \<open>'e + 'a\<close>: the first error ends the sequence.\<close>

definition ebind :: "'e + 'a \<Rightarrow> ('a \<Rightarrow> 'e + 'b) \<Rightarrow> 'e + 'b" where
  "ebind m f = (case m of Inl e \<Rightarrow> Inl e | Inr x \<Rightarrow> f x)"

lemma ebind_simps [simp]: "ebind (Inl e) f = Inl e" "ebind (Inr x) f = f x"
  by (simp_all add: ebind_def)

lemma ebind_cong [fundef_cong]:
  "m = m' \<Longrightarrow> (\<And>x. m' = Inr x \<Longrightarrow> f x = f' x) \<Longrightarrow> ebind m f = ebind m' f'"
  by (simp add: ebind_def split: sum.splits)

lemma ebind_Inr_iff: "ebind m f = Inr y \<longleftrightarrow> (\<exists>x. m = Inr x \<and> f x = Inr y)"
  by (cases m) auto

lemma ebind_Inl_iff: "ebind m f = Inl e \<longleftrightarrow> m = Inl e \<or> (\<exists>x. m = Inr x \<and> f x = Inl e)"
  by (cases m) auto

lemma ebind_assoc: "ebind (ebind m f) g = ebind m (\<lambda>x. ebind (f x) g)"
  by (cases m) auto

section \<open>Checked arrays\<close>

text \<open>
  An array of the C program is a list. Reading or writing outside of it is undefined
  behaviour in C; the checked operations make it visible as \<open>None\<close>.
\<close>

definition aget :: "'a list \<Rightarrow> nat \<Rightarrow> 'a option" where
  "aget xs i = (if i < length xs then Some (xs ! i) else None)"

definition aset :: "'a list \<Rightarrow> nat \<Rightarrow> 'a \<Rightarrow> 'a list option" where
  "aset xs i v = (if i < length xs then Some (xs[i := v]) else None)"

lemma aget_Some [arraysimps]: "i < length xs \<Longrightarrow> aget xs i = Some (xs ! i)"
  by (simp add: aget_def)

lemma aget_eq_Some_iff: "aget xs i = Some v \<longleftrightarrow> i < length xs \<and> xs ! i = v"
  by (auto simp: aget_def)

lemma aset_Some [arraysimps]: "i < length xs \<Longrightarrow> aset xs i v = Some (xs[i := v])"
  by (simp add: aset_def)

lemma aset_eq_Some_iff: "aset xs i v = Some ys \<longleftrightarrow> i < length xs \<and> ys = xs[i := v]"
  by (auto simp: aset_def)

section \<open>Bit strings\<close>

definition nat_bits :: "nat \<Rightarrow> nat \<Rightarrow> bitstring" where
  "nat_bits n v = map (bit v) [0..<n]"

definition bits_nat :: "bitstring \<Rightarrow> nat" where
  "bits_nat bs = horner_sum of_bool 2 bs"

definition byte_bits :: "byte \<Rightarrow> bitstring" where
  "byte_bits b = nat_bits 8 (unat b)"

definition bytes_bits :: "byte list \<Rightarrow> bitstring" where
  "bytes_bits bs = concat (map byte_bits bs)"

lemma length_nat_bits [simp]: "length (nat_bits n v) = n"
  by (simp add: nat_bits_def)

lemma nat_bits_0 [simp]: "nat_bits 0 v = []"
  by (simp add: nat_bits_def)

lemma nth_nat_bits [simp]: "i < n \<Longrightarrow> nat_bits n v ! i = bit v i"
  by (simp add: nat_bits_def)

lemma nat_bits_eqI: "(\<And>i. i < n \<Longrightarrow> bit v i = bit w i) \<Longrightarrow> nat_bits n v = nat_bits n w"
  by (simp add: nat_bits_def)

lemma nat_bits_add [bitsimps]: "nat_bits (m + n) v = nat_bits m v @ nat_bits n (drop_bit m v)"
  by (rule nth_equalityI) (auto simp: nth_append bit_drop_bit_eq)

lemma nat_bits_Suc: "nat_bits (Suc n) v = odd v # nat_bits n (v div 2)"
  using nat_bits_add [of 1 n v] by (simp add: nat_bits_def bit_0 drop_bit_Suc)

lemma nat_bits_Suc_snoc: "nat_bits (Suc n) v = nat_bits n v @ [bit v n]"
  by (simp add: nat_bits_def)

lemma take_nat_bits [simp]: "m \<le> n \<Longrightarrow> take m (nat_bits n v) = nat_bits m v"
  by (rule nth_equalityI) auto

lemma drop_nat_bits [simp]: "m \<le> n \<Longrightarrow> drop m (nat_bits n v) = nat_bits (n - m) (drop_bit m v)"
  by (rule nth_equalityI) (auto simp: bit_drop_bit_eq)

lemma bits_nat_nat_bits [simp]: "bits_nat (nat_bits n v) = take_bit n v"
  by (simp add: bits_nat_def nat_bits_def horner_sum_bit_eq_take_bit)

lemma bits_nat_Nil [simp]: "bits_nat [] = 0"
  by (simp add: bits_nat_def)

lemma bits_nat_Cons [simp]: "bits_nat (b # bs) = of_bool b + 2 * bits_nat bs"
  by (simp add: bits_nat_def)

lemma bits_nat_append [bitsimps]: "bits_nat (xs @ ys) = bits_nat xs + 2 ^ length xs * bits_nat ys"
  by (induction xs) auto

lemma bits_nat_bound: "bits_nat bs < 2 ^ length bs"
  by (induction bs) (auto split: if_splits)

lemma nat_bits_bits_nat [simp]: "nat_bits (length bs) (bits_nat bs) = bs"
  by (induction bs) (auto simp: nat_bits_Suc)

lemma length_byte_bits [simp]: "length (byte_bits b) = 8"
  by (simp add: byte_bits_def)

lemma bytes_bits_simps [simp]: "bytes_bits [] = []" "bytes_bits (b # bs) = byte_bits b @ bytes_bits bs"
  by (simp_all add: bytes_bits_def)

lemma bytes_bits_append [simp]: "bytes_bits (xs @ ys) = bytes_bits xs @ bytes_bits ys"
  by (simp add: bytes_bits_def)

lemma length_bytes_bits [simp]: "length (bytes_bits bs) = 8 * length bs"
  by (induction bs) auto

lemma take_bytes_bits: "take (8 * n) (bytes_bits bs) = bytes_bits (take n bs)"
  by (induction bs arbitrary: n) (auto simp: take_Cons split: nat.splits)

lemma drop_bytes_bits: "drop (8 * n) (bytes_bits bs) = bytes_bits (drop n bs)"
  by (induction bs arbitrary: n) (auto simp: drop_Cons split: nat.splits)

lemma unat_byte_bound: "unat (b :: byte) < 256"
  using unsigned_less [of b] by simp

lemma byte_bits_inject: "byte_bits a = byte_bits b \<longleftrightarrow> a = b"
proof
  assume "byte_bits a = byte_bits b"
  then have "bits_nat (byte_bits a) = bits_nat (byte_bits b)" by simp
  then have "take_bit 8 (unat a) = take_bit 8 (unat b)"
    by (simp only: byte_bits_def bits_nat_nat_bits)
  moreover have "unat a < 2 ^ 8" "unat b < 2 ^ 8"
    using unat_byte_bound [of a] unat_byte_bound [of b] by simp_all
  ultimately show "a = b"
    by (simp add: take_bit_nat_eq_self word_unat_eq_iff)
qed simp

lemma nat_bits_or_push:
  assumes "v < 2 ^ m"
  shows "nat_bits (m + n) (v OR push_bit m w) = nat_bits m v @ nat_bits n w"
proof (rule nth_equalityI)
  fix i assume "i < length (nat_bits (m + n) (v OR push_bit m w))"
  then have i: "i < m + n" by simp
  have "\<not> bit v i" if "m \<le> i"
    using assms that by (metis bit_take_bit_iff leD take_bit_nat_eq_self)
  with i show "nat_bits (m + n) (v OR push_bit m w) ! i = (nat_bits m v @ nat_bits n w) ! i"
    by (auto simp: nth_append bit_or_iff bit_push_bit_iff)
qed simp

lemma or_push_bound:
  assumes "v < 2 ^ m" "w < 2 ^ n"
  shows "v OR push_bit m w < (2 :: nat) ^ (m + n)"
proof -
  have "take_bit (m + n) (v OR push_bit m w) = v OR push_bit m w"
    using assms by (simp add: take_bit_or take_bit_push_bit take_bit_nat_eq_self
        power_add less_le_trans [of v "2 ^ m"] take_bit_nat_eq_self_iff)
  then show ?thesis by (simp only: take_bit_nat_eq_self_iff)
qed

lemma and_low_mask [bitsimps]: "(v :: nat) AND (push_bit n 1 - 1) = take_bit n v"
  by (simp add: take_bit_eq_mask mask_eq_exp_minus_1 push_bit_of_1)

lemma bit_position_unique:
  "a + 8 * x = b + 8 * y \<Longrightarrow> a < 8 \<Longrightarrow> b < 8 \<Longrightarrow> a = b \<and> x = (y :: nat)"
  by presburger

end
