(* ===== verification/Trees.thy ===== *)
theory Trees
  imports Zlib_Prelude
begin

text \<open>
  The block writer \<open>trees.c\<close> of the compressor, with its static tables \<open>trees.h\<close>.
  \<open>trees_state\<close> has the fields of \<open>deflate_state\<close> that this file uses. A \<open>ct_data\<close> has two
  unions of 16 bit fields: \<open>fc\<close> is \<open>Freq\<close> and \<open>Code\<close>, \<open>dl\<close> is \<open>Dad\<close> and \<open>Len\<close>.
  \<open>pending_buf\<close> is the list of the \<open>pending\<close> bytes written so far; \<open>sym_buf\<close>, which in C
  lies in the upper part of the same allocation, is an array of its own.
\<close>

section \<open>Data\<close>

record ct_data =
  fc :: ush
  dl :: ush

definition LENGTH_CODES :: nat where "LENGTH_CODES = 29"
definition LITERALS :: nat where "LITERALS = 256"
definition L_CODES :: nat where "L_CODES = LITERALS + 1 + LENGTH_CODES"
definition D_CODES :: nat where "D_CODES = 30"
definition BL_CODES :: nat where "BL_CODES = 19"
definition HEAP_SIZE :: nat where "HEAP_SIZE = 2 * L_CODES + 1"
definition MAX_BITS :: nat where "MAX_BITS = 15"
definition Buf_size :: nat where "Buf_size = 16"
definition MAX_BL_BITS :: nat where "MAX_BL_BITS = 7"
definition END_BLOCK :: nat where "END_BLOCK = 256"
definition REP_3_6 :: nat where "REP_3_6 = 16"
definition REPZ_3_10 :: nat where "REPZ_3_10 = 17"
definition REPZ_11_138 :: nat where "REPZ_11_138 = 18"
definition STORED_BLOCK :: nat where "STORED_BLOCK = 0"
definition STATIC_TREES :: nat where "STATIC_TREES = 1"
definition DYN_TREES :: nat where "DYN_TREES = 2"
definition SMALLEST :: nat where "SMALLEST = 1"

definition extra_lbits :: "nat list" where
  "extra_lbits = [0, 0, 0, 0, 0, 0, 0, 0, 1, 1, 1, 1, 2, 2, 2, 2, 3, 3, 3, 3, 4, 4, 4, 4, 5, 5, 5, 5, 0]"

definition extra_dbits :: "nat list" where
  "extra_dbits = [0, 0, 0, 0, 1, 1, 2, 2, 3, 3, 4, 4, 5, 5, 6, 6, 7, 7, 8, 8, 9, 9, 10, 10, 11, 11, 12, 12, 13, 13]"

definition extra_blbits :: "nat list" where
  "extra_blbits = [0, 0, 0, 0, 0, 0, 0, 0, 0, 0, 0, 0, 0, 0, 0, 0, 2, 3, 7]"

definition bl_order :: "nat list" where
  "bl_order = [16, 17, 18, 0, 8, 7, 9, 6, 10, 5, 11, 4, 12, 3, 13, 2, 14, 1, 15]"

record trees_state =
  pending_buf :: "byte list"
  bi_buf :: ush
  bi_valid :: nat
  dyn_ltree :: "ct_data list"
  dyn_dtree :: "ct_data list"
  bl_tree :: "ct_data list"
  l_max_code :: nat
  d_max_code :: nat
  bl_max_code :: nat
  bl_count :: "ush list"
  heap :: "nat list"
  heap_len :: nat
  heap_max :: nat
  depth :: "byte list"
  sym_buf :: "byte list"
  sym_next :: nat
  sym_end :: nat
  opt_len :: "64 word"
  static_len :: "64 word"
  matches :: uint
  comp_level :: int
  strategy :: int
  data_type :: int

section \<open>Writing bits\<close>

definition put_byte :: "trees_state \<Rightarrow> byte \<Rightarrow> trees_state" where
  "put_byte s c = s\<lparr>pending_buf := pending_buf s @ [c]\<rparr>"

definition put_short :: "trees_state \<Rightarrow> ush \<Rightarrow> trees_state" where
  "put_short s w = put_byte (put_byte s (ucast (w AND 255))) (ucast (drop_bit 8 w))"

text \<open>\<open>bi_valid > Buf_size - len\<close> is \<open>bi_valid + len > Buf_size\<close> on the C integers.\<close>

definition send_bits :: "trees_state \<Rightarrow> nat \<Rightarrow> nat \<Rightarrow> trees_state" where
  "send_bits s value len =
     (if bi_valid s + len > Buf_size
      then let val = of_nat value :: ush;
               s1 = put_short (s\<lparr>bi_buf := bi_buf s OR push_bit (bi_valid s) val\<rparr>)
                      (bi_buf s OR push_bit (bi_valid s) val)
           in s1\<lparr>bi_buf := drop_bit (Buf_size - bi_valid s) val, bi_valid := bi_valid s + len - Buf_size\<rparr>
      else s\<lparr>bi_buf := bi_buf s OR push_bit (bi_valid s) (of_nat value), bi_valid := bi_valid s + len\<rparr>)"

definition Code :: "ct_data list \<Rightarrow> nat \<Rightarrow> nat" where "Code tree c = unat (fc (tree ! c))"
definition Len :: "ct_data list \<Rightarrow> nat \<Rightarrow> nat" where "Len tree c = unat (dl (tree ! c))"

definition send_code :: "trees_state \<Rightarrow> nat \<Rightarrow> ct_data list \<Rightarrow> trees_state" where
  "send_code s c tree = send_bits s (Code tree c) (Len tree c)"

definition bi_flush :: "trees_state \<Rightarrow> trees_state" where
  "bi_flush s =
     (if bi_valid s = 16 then (put_short s (bi_buf s))\<lparr>bi_buf := 0, bi_valid := 0\<rparr>
      else if bi_valid s \<ge> 8
      then (put_byte s (ucast (bi_buf s)))\<lparr>bi_buf := drop_bit 8 (bi_buf s), bi_valid := bi_valid s - 8\<rparr>
      else s)"

definition bi_windup :: "trees_state \<Rightarrow> trees_state" where
  "bi_windup s =
     (let s1 = (if bi_valid s > 8 then put_short s (bi_buf s)
                else if bi_valid s > 0 then put_byte s (ucast (bi_buf s)) else s)
      in s1\<lparr>bi_buf := 0, bi_valid := 0\<rparr>)"

section \<open>Codes\<close>

text \<open>\<open>do { \<dots> } while (--len > 0)\<close>\<close>

fun bi_reverse_loop :: "nat \<Rightarrow> uint \<Rightarrow> uint \<Rightarrow> uint" where
  "bi_reverse_loop len code res =
     (let res = push_bit 1 (res OR (code AND 1)); code = drop_bit 1 code in
      if len \<le> 1 then res else bi_reverse_loop (len - 1) code res)"

declare bi_reverse_loop.simps [simp del]

definition bi_reverse :: "uint \<Rightarrow> nat \<Rightarrow> uint" where
  "bi_reverse code len = drop_bit 1 (bi_reverse_loop len code 0)"

text \<open>The first loop of \<open>gen_codes\<close>, over the values of \<open>bits\<close>.\<close>

fun next_codes :: "ush list \<Rightarrow> uint \<Rightarrow> nat list \<Rightarrow> ush list \<Rightarrow> ush list" where
  "next_codes blc code [] next_code = next_code"
| "next_codes blc code (bits # bs) next_code =
     (let code = push_bit 1 (code + ucast (blc ! (bits - 1)))
      in next_codes blc code bs (next_code[bits := ucast code]))"

fun assign_codes :: "nat list \<Rightarrow> ush list \<Rightarrow> ct_data list \<Rightarrow> ct_data list" where
  "assign_codes [] next_code tree = tree"
| "assign_codes (n # ns) next_code tree =
     (let len = Len tree n in
      if len = 0 then assign_codes ns next_code tree
      else assign_codes ns (next_code[len := next_code ! len + 1])
             (tree[n := (tree ! n)\<lparr>fc := ucast (bi_reverse (ucast (next_code ! len)) len)\<rparr>]))"

definition gen_codes :: "ct_data list \<Rightarrow> nat \<Rightarrow> ush list \<Rightarrow> ct_data list" where
  "gen_codes tree max_code blc =
     assign_codes [0..<max_code + 1]
       (next_codes blc 0 [1..<MAX_BITS + 1] (replicate (MAX_BITS + 1) 0)) tree"

section \<open>The static tables\<close>

text \<open>\<open>trees.h\<close>, which a standard build includes.\<close>

definition static_ltree :: "ct_data list" where
  "static_ltree = map (\<lambda>(c, l). \<lparr>fc = c, dl = l\<rparr>) [
     (12, 8), (140, 8), (76, 8), (204, 8), (44, 8), (172, 8), (108, 8), (236, 8), (28, 8), (156, 8),
     (92, 8), (220, 8), (60, 8), (188, 8), (124, 8), (252, 8), (2, 8), (130, 8), (66, 8), (194, 8),
     (34, 8), (162, 8), (98, 8), (226, 8), (18, 8), (146, 8), (82, 8), (210, 8), (50, 8), (178, 8),
     (114, 8), (242, 8), (10, 8), (138, 8), (74, 8), (202, 8), (42, 8), (170, 8), (106, 8), (234, 8),
     (26, 8), (154, 8), (90, 8), (218, 8), (58, 8), (186, 8), (122, 8), (250, 8), (6, 8), (134, 8),
     (70, 8), (198, 8), (38, 8), (166, 8), (102, 8), (230, 8), (22, 8), (150, 8), (86, 8), (214, 8),
     (54, 8), (182, 8), (118, 8), (246, 8), (14, 8), (142, 8), (78, 8), (206, 8), (46, 8), (174, 8),
     (110, 8), (238, 8), (30, 8), (158, 8), (94, 8), (222, 8), (62, 8), (190, 8), (126, 8), (254, 8),
     (1, 8), (129, 8), (65, 8), (193, 8), (33, 8), (161, 8), (97, 8), (225, 8), (17, 8), (145, 8),
     (81, 8), (209, 8), (49, 8), (177, 8), (113, 8), (241, 8), (9, 8), (137, 8), (73, 8), (201, 8),
     (41, 8), (169, 8), (105, 8), (233, 8), (25, 8), (153, 8), (89, 8), (217, 8), (57, 8), (185, 8),
     (121, 8), (249, 8), (5, 8), (133, 8), (69, 8), (197, 8), (37, 8), (165, 8), (101, 8), (229, 8),
     (21, 8), (149, 8), (85, 8), (213, 8), (53, 8), (181, 8), (117, 8), (245, 8), (13, 8), (141, 8),
     (77, 8), (205, 8), (45, 8), (173, 8), (109, 8), (237, 8), (29, 8), (157, 8), (93, 8), (221, 8),
     (61, 8), (189, 8), (125, 8), (253, 8), (19, 9), (275, 9), (147, 9), (403, 9), (83, 9), (339, 9),
     (211, 9), (467, 9), (51, 9), (307, 9), (179, 9), (435, 9), (115, 9), (371, 9), (243, 9), (499, 9),
     (11, 9), (267, 9), (139, 9), (395, 9), (75, 9), (331, 9), (203, 9), (459, 9), (43, 9), (299, 9),
     (171, 9), (427, 9), (107, 9), (363, 9), (235, 9), (491, 9), (27, 9), (283, 9), (155, 9), (411, 9),
     (91, 9), (347, 9), (219, 9), (475, 9), (59, 9), (315, 9), (187, 9), (443, 9), (123, 9), (379, 9),
     (251, 9), (507, 9), (7, 9), (263, 9), (135, 9), (391, 9), (71, 9), (327, 9), (199, 9), (455, 9),
     (39, 9), (295, 9), (167, 9), (423, 9), (103, 9), (359, 9), (231, 9), (487, 9), (23, 9), (279, 9),
     (151, 9), (407, 9), (87, 9), (343, 9), (215, 9), (471, 9), (55, 9), (311, 9), (183, 9), (439, 9),
     (119, 9), (375, 9), (247, 9), (503, 9), (15, 9), (271, 9), (143, 9), (399, 9), (79, 9), (335, 9),
     (207, 9), (463, 9), (47, 9), (303, 9), (175, 9), (431, 9), (111, 9), (367, 9), (239, 9), (495, 9),
     (31, 9), (287, 9), (159, 9), (415, 9), (95, 9), (351, 9), (223, 9), (479, 9), (63, 9), (319, 9),
     (191, 9), (447, 9), (127, 9), (383, 9), (255, 9), (511, 9), (0, 7), (64, 7), (32, 7), (96, 7),
     (16, 7), (80, 7), (48, 7), (112, 7), (8, 7), (72, 7), (40, 7), (104, 7), (24, 7), (88, 7),
     (56, 7), (120, 7), (4, 7), (68, 7), (36, 7), (100, 7), (20, 7), (84, 7), (52, 7), (116, 7),
     (3, 8), (131, 8), (67, 8), (195, 8), (35, 8), (163, 8), (99, 8), (227, 8)]"

definition static_dtree :: "ct_data list" where
  "static_dtree = map (\<lambda>(c, l). \<lparr>fc = c, dl = l\<rparr>) [
     (0, 5), (16, 5), (8, 5), (24, 5), (4, 5), (20, 5), (12, 5), (28, 5), (2, 5), (18, 5),
     (10, 5), (26, 5), (6, 5), (22, 5), (14, 5), (30, 5), (1, 5), (17, 5), (9, 5), (25, 5),
     (5, 5), (21, 5), (13, 5), (29, 5), (3, 5), (19, 5), (11, 5), (27, 5), (7, 5), (23, 5)]"

definition dist_code :: "nat list" where
  "dist_code = [
     0, 1, 2, 3, 4, 4, 5, 5, 6, 6, 6, 6, 7, 7, 7, 7, 8, 8, 8, 8, 8, 8, 8, 8,
     9, 9, 9, 9, 9, 9, 9, 9, 10, 10, 10, 10, 10, 10, 10, 10, 10, 10, 10, 10, 10, 10, 10, 10,
     11, 11, 11, 11, 11, 11, 11, 11, 11, 11, 11, 11, 11, 11, 11, 11, 12, 12, 12, 12, 12, 12, 12, 12,
     12, 12, 12, 12, 12, 12, 12, 12, 12, 12, 12, 12, 12, 12, 12, 12, 12, 12, 12, 12, 12, 12, 12, 12,
     13, 13, 13, 13, 13, 13, 13, 13, 13, 13, 13, 13, 13, 13, 13, 13, 13, 13, 13, 13, 13, 13, 13, 13,
     13, 13, 13, 13, 13, 13, 13, 13, 14, 14, 14, 14, 14, 14, 14, 14, 14, 14, 14, 14, 14, 14, 14, 14,
     14, 14, 14, 14, 14, 14, 14, 14, 14, 14, 14, 14, 14, 14, 14, 14, 14, 14, 14, 14, 14, 14, 14, 14,
     14, 14, 14, 14, 14, 14, 14, 14, 14, 14, 14, 14, 14, 14, 14, 14, 14, 14, 14, 14, 14, 14, 14, 14,
     15, 15, 15, 15, 15, 15, 15, 15, 15, 15, 15, 15, 15, 15, 15, 15, 15, 15, 15, 15, 15, 15, 15, 15,
     15, 15, 15, 15, 15, 15, 15, 15, 15, 15, 15, 15, 15, 15, 15, 15, 15, 15, 15, 15, 15, 15, 15, 15,
     15, 15, 15, 15, 15, 15, 15, 15, 15, 15, 15, 15, 15, 15, 15, 15, 0, 0, 16, 17, 18, 18, 19, 19,
     20, 20, 20, 20, 21, 21, 21, 21, 22, 22, 22, 22, 22, 22, 22, 22, 23, 23, 23, 23, 23, 23, 23, 23,
     24, 24, 24, 24, 24, 24, 24, 24, 24, 24, 24, 24, 24, 24, 24, 24, 25, 25, 25, 25, 25, 25, 25, 25,
     25, 25, 25, 25, 25, 25, 25, 25, 26, 26, 26, 26, 26, 26, 26, 26, 26, 26, 26, 26, 26, 26, 26, 26,
     26, 26, 26, 26, 26, 26, 26, 26, 26, 26, 26, 26, 26, 26, 26, 26, 27, 27, 27, 27, 27, 27, 27, 27,
     27, 27, 27, 27, 27, 27, 27, 27, 27, 27, 27, 27, 27, 27, 27, 27, 27, 27, 27, 27, 27, 27, 27, 27,
     28, 28, 28, 28, 28, 28, 28, 28, 28, 28, 28, 28, 28, 28, 28, 28, 28, 28, 28, 28, 28, 28, 28, 28,
     28, 28, 28, 28, 28, 28, 28, 28, 28, 28, 28, 28, 28, 28, 28, 28, 28, 28, 28, 28, 28, 28, 28, 28,
     28, 28, 28, 28, 28, 28, 28, 28, 28, 28, 28, 28, 28, 28, 28, 28, 29, 29, 29, 29, 29, 29, 29, 29,
     29, 29, 29, 29, 29, 29, 29, 29, 29, 29, 29, 29, 29, 29, 29, 29, 29, 29, 29, 29, 29, 29, 29, 29,
     29, 29, 29, 29, 29, 29, 29, 29, 29, 29, 29, 29, 29, 29, 29, 29, 29, 29, 29, 29, 29, 29, 29, 29,
     29, 29, 29, 29, 29, 29, 29, 29]"

definition length_code :: "nat list" where
  "length_code = [
     0, 1, 2, 3, 4, 5, 6, 7, 8, 8, 9, 9, 10, 10, 11, 11, 12, 12, 12, 12, 13, 13, 13, 13,
     14, 14, 14, 14, 15, 15, 15, 15, 16, 16, 16, 16, 16, 16, 16, 16, 17, 17, 17, 17, 17, 17, 17, 17,
     18, 18, 18, 18, 18, 18, 18, 18, 19, 19, 19, 19, 19, 19, 19, 19, 20, 20, 20, 20, 20, 20, 20, 20,
     20, 20, 20, 20, 20, 20, 20, 20, 21, 21, 21, 21, 21, 21, 21, 21, 21, 21, 21, 21, 21, 21, 21, 21,
     22, 22, 22, 22, 22, 22, 22, 22, 22, 22, 22, 22, 22, 22, 22, 22, 23, 23, 23, 23, 23, 23, 23, 23,
     23, 23, 23, 23, 23, 23, 23, 23, 24, 24, 24, 24, 24, 24, 24, 24, 24, 24, 24, 24, 24, 24, 24, 24,
     24, 24, 24, 24, 24, 24, 24, 24, 24, 24, 24, 24, 24, 24, 24, 24, 25, 25, 25, 25, 25, 25, 25, 25,
     25, 25, 25, 25, 25, 25, 25, 25, 25, 25, 25, 25, 25, 25, 25, 25, 25, 25, 25, 25, 25, 25, 25, 25,
     26, 26, 26, 26, 26, 26, 26, 26, 26, 26, 26, 26, 26, 26, 26, 26, 26, 26, 26, 26, 26, 26, 26, 26,
     26, 26, 26, 26, 26, 26, 26, 26, 27, 27, 27, 27, 27, 27, 27, 27, 27, 27, 27, 27, 27, 27, 27, 27,
     27, 27, 27, 27, 27, 27, 27, 27, 27, 27, 27, 27, 27, 27, 27, 28]"

definition base_length :: "nat list" where
  "base_length = [
     0, 1, 2, 3, 4, 5, 6, 7, 8, 10, 12, 14, 16, 20, 24, 28, 32, 40, 48, 56, 64, 80, 96, 112,
     128, 160, 192, 224, 0]"

definition base_dist :: "nat list" where
  "base_dist = [
     0, 1, 2, 3, 4, 6, 8, 12, 16, 24, 32, 48, 64, 96, 128, 192, 256, 384, 512, 768, 1024, 1536, 2048, 3072,
     4096, 6144, 8192, 12288, 16384, 24576]"

text \<open>
  \<open>tr_static_init\<close>, which computes the same tables. The loops fill their arrays from the
  front, so the model appends: \<open>bases\<close> grows by the number of entries so far and \<open>codes\<close>
  by one run per code.
\<close>

fun fill_codes :: "(nat \<Rightarrow> nat) \<Rightarrow> nat list \<Rightarrow> nat list \<times> nat list \<Rightarrow> nat list \<times> nat list" where
  "fill_codes runlen [] (bases, cods) = (bases, cods)"
| "fill_codes runlen (c # cs) (bases, cods) =
     fill_codes runlen cs (bases @ [length cods], cods @ replicate (runlen c) c)"

definition init_lengths :: "nat list \<times> nat list" where
  "init_lengths =
     (let (bases, cods) = fill_codes (\<lambda>c. 2 ^ (extra_lbits ! c)) [0..<LENGTH_CODES - 1] ([], [])
      in (bases @ [0], cods[length cods - 1 := LENGTH_CODES - 1]))"

text \<open>From code 16 on distances are divided by 128; the first two entries are never written.\<close>

definition init_dists :: "nat list \<times> nat list" where
  "init_dists =
     (let (bases1, codes1) = fill_codes (\<lambda>c. 2 ^ (extra_dbits ! c)) [0..<16] ([], []);
          (bases2, codes2) = fill_codes (\<lambda>c. 2 ^ (extra_dbits ! c - 7)) [16..<D_CODES]
                               ([], replicate (length codes1 div 128) 0)
      in (bases1 @ map (\<lambda>d. d * 128) bases2, codes1 @ codes2))"

definition static_llens :: "nat list" where
  "static_llens = replicate 144 8 @ replicate 112 9 @ replicate 24 7 @ replicate 8 8"

definition init_ltree :: "ct_data list" where
  "init_ltree = gen_codes (map (\<lambda>l. \<lparr>fc = 0, dl = of_nat l\<rparr>) static_llens) (L_CODES + 1)
     (map (\<lambda>l. of_nat (count_list static_llens l)) [0..<MAX_BITS + 1])"

definition init_dtree :: "ct_data list" where
  "init_dtree = map (\<lambda>n. \<lparr>fc = ucast (bi_reverse (of_nat n) 5), dl = 5\<rparr>) [0..<D_CODES]"

definition d_code :: "nat \<Rightarrow> nat" where
  "d_code dist = (if dist < 256 then dist_code ! dist else dist_code ! (256 + dist div 128))"

section \<open>Starting a block\<close>

definition clear_freq :: "nat \<Rightarrow> ct_data list \<Rightarrow> ct_data list" where
  "clear_freq n tree = map (\<lambda>c. c\<lparr>fc := 0\<rparr>) (take n tree) @ drop n tree"

definition init_block :: "trees_state \<Rightarrow> trees_state" where
  "init_block s =
     (let lt = clear_freq L_CODES (dyn_ltree s)
      in s\<lparr>dyn_ltree := lt[END_BLOCK := (lt ! END_BLOCK)\<lparr>fc := 1\<rparr>],
           dyn_dtree := clear_freq D_CODES (dyn_dtree s),
           bl_tree := clear_freq BL_CODES (bl_tree s),
           opt_len := 0, static_len := 0, sym_next := 0, matches := 0\<rparr>)"

definition tr_init :: "trees_state \<Rightarrow> trees_state" where
  "tr_init s = init_block (s\<lparr>bi_buf := 0, bi_valid := 0\<rparr>)"

section \<open>Building Huffman trees\<close>

record static_tree_desc =
  static_tree :: "ct_data list option"
  extra_bits :: "nat list"
  extra_base :: nat
  elems :: nat
  max_length :: nat

datatype tree_kind = LTree | DTree | BLTree

fun stat_desc :: "tree_kind \<Rightarrow> static_tree_desc" where
  "stat_desc LTree = \<lparr>static_tree = Some static_ltree, extra_bits = extra_lbits,
     extra_base = LITERALS + 1, elems = L_CODES, max_length = MAX_BITS\<rparr>"
| "stat_desc DTree = \<lparr>static_tree = Some static_dtree, extra_bits = extra_dbits,
     extra_base = 0, elems = D_CODES, max_length = MAX_BITS\<rparr>"
| "stat_desc BLTree = \<lparr>static_tree = None, extra_bits = extra_blbits,
     extra_base = 0, elems = BL_CODES, max_length = MAX_BL_BITS\<rparr>"

fun dyn_tree :: "tree_kind \<Rightarrow> trees_state \<Rightarrow> ct_data list" where
  "dyn_tree LTree s = dyn_ltree s"
| "dyn_tree DTree s = dyn_dtree s"
| "dyn_tree BLTree s = bl_tree s"

fun set_dyn_tree :: "tree_kind \<Rightarrow> ct_data list \<Rightarrow> nat \<Rightarrow> trees_state \<Rightarrow> trees_state" where
  "set_dyn_tree LTree t m s = s\<lparr>dyn_ltree := t, l_max_code := m\<rparr>"
| "set_dyn_tree DTree t m s = s\<lparr>dyn_dtree := t, d_max_code := m\<rparr>"
| "set_dyn_tree BLTree t m s = s\<lparr>bl_tree := t, bl_max_code := m\<rparr>"

definition smaller :: "ct_data list \<Rightarrow> byte list \<Rightarrow> nat \<Rightarrow> nat \<Rightarrow> bool" where
  "smaller tree dep n m \<longleftrightarrow> fc (tree ! n) < fc (tree ! m) \<or>
     (fc (tree ! n) = fc (tree ! m) \<and> dep ! n \<le> dep ! m)"

text \<open>
  The loop of \<open>pqdownheap\<close>. Nodes are numbered from \<open>SMALLEST\<close>, so \<open>j\<close> is never zero.
\<close>

function pqdown_loop ::
  "ct_data list \<Rightarrow> byte list \<Rightarrow> nat \<Rightarrow> nat \<Rightarrow> nat list \<Rightarrow> nat \<Rightarrow> nat \<Rightarrow> nat list" where
  "pqdown_loop tree dep hlen v hp k j =
     (if 0 < j \<and> j \<le> hlen
      then let j = (if j < hlen \<and> smaller tree dep (hp ! (j + 1)) (hp ! j) then j + 1 else j) in
           if smaller tree dep v (hp ! j) then hp[k := v]
           else pqdown_loop tree dep hlen v (hp[k := hp ! j]) j (2 * j)
      else hp[k := v])"
  by pat_completeness auto
termination by (relation "measure (\<lambda>(tree, dep, hlen, v, hp, k, j). Suc hlen - j)") (auto simp: Let_def)

declare pqdown_loop.simps [simp del]

definition pqdownheap :: "trees_state \<Rightarrow> ct_data list \<Rightarrow> nat \<Rightarrow> trees_state" where
  "pqdownheap s tree k =
     s\<lparr>heap := pqdown_loop tree (depth s) (heap_len s) (heap s ! k) (heap s) k (2 * k)\<rparr>"

definition pqremove :: "trees_state \<Rightarrow> ct_data list \<Rightarrow> nat \<times> trees_state" where
  "pqremove s tree =
     (heap s ! SMALLEST,
      pqdownheap (s\<lparr>heap := (heap s)[SMALLEST := heap s ! heap_len s], heap_len := heap_len s - 1\<rparr>)
        tree SMALLEST)"

text \<open>The first loop of \<open>build_tree\<close>: \<open>max_code\<close> is \<open>-1\<close> before the first used symbol.\<close>

fun init_heap :: "nat list \<Rightarrow> ct_data list \<Rightarrow> int \<Rightarrow> trees_state \<Rightarrow> ct_data list \<times> int \<times> trees_state" where
  "init_heap [] tree max_code s = (tree, max_code, s)"
| "init_heap (n # ns) tree max_code s =
     (if fc (tree ! n) \<noteq> 0
      then init_heap ns tree (int n)
             (s\<lparr>heap_len := heap_len s + 1, heap := (heap s)[heap_len s + 1 := n], depth := (depth s)[n := 0]\<rparr>)
      else init_heap ns (tree[n := (tree ! n)\<lparr>dl := 0\<rparr>]) max_code s)"

text \<open>\<open>while (s->heap_len < 2)\<close>: at least two codes of non zero frequency.\<close>

function force_codes ::
  "ct_data list option \<Rightarrow> ct_data list \<Rightarrow> int \<Rightarrow> trees_state \<Rightarrow> ct_data list \<times> int \<times> trees_state" where
  "force_codes stree tree max_code s =
     (if heap_len s < 2
      then let max_code' = (if max_code < 2 then max_code + 1 else max_code);
               node = (if max_code < 2 then nat (max_code + 1) else 0);
               s = s\<lparr>heap_len := heap_len s + 1, heap := (heap s)[heap_len s + 1 := node],
                     depth := (depth s)[node := 0], opt_len := opt_len s - 1\<rparr>;
               s = (case stree of None \<Rightarrow> s
                    | Some st \<Rightarrow> s\<lparr>static_len := static_len s - of_nat (Len st node)\<rparr>)
           in force_codes stree (tree[node := (tree ! node)\<lparr>fc := 1\<rparr>]) max_code' s
      else (tree, max_code, s))"
  by pat_completeness auto
termination
  by (relation "measure (\<lambda>(st, t, m, s). 2 - heap_len s)") (auto simp: Let_def split: option.splits)

declare force_codes.simps [simp del]

definition heapify :: "ct_data list \<Rightarrow> trees_state \<Rightarrow> trees_state" where
  "heapify tree s = foldl (\<lambda>s n. pqdownheap s tree n) s (rev [1..<heap_len s div 2 + 1])"

text \<open>
  The loop that combines the two least frequent nodes. It runs while two nodes are left; the
  C loop tests at its end, and there are two nodes before its first pass.
\<close>

definition merge_nodes :: "ct_data list \<Rightarrow> nat \<Rightarrow> trees_state \<Rightarrow> ct_data list \<times> trees_state" where
  "merge_nodes tree node s =
     (let (n, s) = pqremove s tree; m = heap s ! SMALLEST;
          s = s\<lparr>heap := (heap s)[heap_max s - 1 := n, heap_max s - 2 := m], heap_max := heap_max s - 2\<rparr>;
          tree = tree[node := (tree ! node)\<lparr>fc := fc (tree ! n) + fc (tree ! m)\<rparr>];
          s = s\<lparr>depth := (depth s)[node := (if depth s ! n \<ge> depth s ! m then depth s ! n else depth s ! m) + 1]\<rparr>;
          tree = tree[n := (tree ! n)\<lparr>dl := of_nat node\<rparr>];
          tree = tree[m := (tree ! m)\<lparr>dl := of_nat node\<rparr>]
      in (tree, pqdownheap (s\<lparr>heap := (heap s)[SMALLEST := node]\<rparr>) tree SMALLEST))"

lemma merge_nodes_heap_len: "merge_nodes tree node s = (tree', s') \<Longrightarrow> heap_len s' = heap_len s - 1"
  by (auto simp: merge_nodes_def pqremove_def pqdownheap_def Let_def)

function merge_loop :: "ct_data list \<Rightarrow> nat \<Rightarrow> trees_state \<Rightarrow> ct_data list \<times> trees_state" where
  "merge_loop tree node s =
     (if heap_len s \<ge> 2
      then let (tree, s) = merge_nodes tree node s in merge_loop tree (node + 1) s
      else (tree, s))"
  by pat_completeness auto
termination
  by (relation "measure (\<lambda>(t, n, s). heap_len s)") (auto dest!: merge_nodes_heap_len [OF sym])

declare merge_loop.simps [simp del]

subsection \<open>Bit lengths\<close>

text \<open>
  The first pass of \<open>gen_bitlen\<close>, over the heap indices \<open>h\<close>; the third result counts the
  nodes that are too deep.
\<close>

fun bitlen_pass ::
  "static_tree_desc \<Rightarrow> nat \<Rightarrow> nat list \<Rightarrow> ct_data list \<Rightarrow> trees_state \<Rightarrow> int \<Rightarrow> ct_data list \<times> trees_state \<times> int" where
  "bitlen_pass desc max_code [] tree s overflow = (tree, s, overflow)"
| "bitlen_pass desc max_code (h # hs) tree s overflow =
     (let n = heap s ! h;
          bits0 = Len tree (unat (dl (tree ! n))) + 1;
          bits = (if bits0 > max_length desc then max_length desc else bits0);
          overflow = (if bits0 > max_length desc then overflow + 1 else overflow);
          tree = tree[n := (tree ! n)\<lparr>dl := of_nat bits\<rparr>] in
      if n > max_code then bitlen_pass desc max_code hs tree s overflow
      else
        let xbits = (if n \<ge> extra_base desc then extra_bits desc ! (n - extra_base desc) else 0);
            f = fc (tree ! n);
            s = s\<lparr>bl_count := (bl_count s)[bits := bl_count s ! bits + 1],
                  opt_len := opt_len s + ucast f * of_nat (bits + xbits)\<rparr>;
            s = (case static_tree desc of None \<Rightarrow> s
                 | Some st \<Rightarrow> s\<lparr>static_len := static_len s + ucast f * of_nat (Len st n + xbits)\<rparr>)
        in bitlen_pass desc max_code hs tree s overflow)"

text \<open>\<open>while (s->bl_count[bits] == 0) bits--;\<close> finds a length in use before it reaches zero.\<close>

fun find_bits :: "ush list \<Rightarrow> nat \<Rightarrow> nat" where
  "find_bits blc 0 = 0"
| "find_bits blc (Suc b) = (if blc ! Suc b = 0 then find_bits blc b else Suc b)"

function fix_overflow :: "nat \<Rightarrow> ush list \<Rightarrow> int \<Rightarrow> ush list" where
  "fix_overflow maxlen blc overflow =
     (let bits = find_bits blc (maxlen - 1);
          blc = blc[bits := blc ! bits - 1];
          blc = blc[bits + 1 := blc ! (bits + 1) + 2];
          blc = blc[maxlen := blc ! maxlen - 1];
          overflow = overflow - 2
      in if overflow > 0 then fix_overflow maxlen blc overflow else blc)"
  by pat_completeness auto
termination by (relation "measure (\<lambda>(m, b, ov). nat ov)") (auto simp: Let_def)

declare fix_overflow.simps [simp del]

text \<open>
  The last pass for one value of \<open>bits\<close>: \<open>n\<close> leaves are still to be found going down from
  heap index \<open>h\<close>, where \<open>heap[--h]\<close> is read.
\<close>

fun recompute_len ::
  "nat \<Rightarrow> nat \<Rightarrow> nat list \<Rightarrow> nat \<Rightarrow> nat \<Rightarrow> ct_data list \<Rightarrow> 64 word \<Rightarrow> nat \<times> ct_data list \<times> 64 word" where
  "recompute_len bits max_code hp 0 n tree opt = (0, tree, opt)"
| "recompute_len bits max_code hp (Suc h) n tree opt =
     (if n = 0 then (Suc h, tree, opt)
      else let m = hp ! h in
        if m > max_code then recompute_len bits max_code hp h n tree opt
        else if Len tree m \<noteq> bits
        then recompute_len bits max_code hp h (n - 1) (tree[m := (tree ! m)\<lparr>dl := of_nat bits\<rparr>])
               (opt + (of_nat bits - ucast (dl (tree ! m))) * ucast (fc (tree ! m)))
        else recompute_len bits max_code hp h (n - 1) tree opt)"

fun recompute_lens ::
  "nat list \<Rightarrow> nat \<Rightarrow> nat list \<Rightarrow> ush list \<Rightarrow> nat \<times> ct_data list \<times> 64 word \<Rightarrow> nat \<times> ct_data list \<times> 64 word" where
  "recompute_lens [] max_code hp blc (h, tree, opt) = (h, tree, opt)"
| "recompute_lens (bits # bs) max_code hp blc (h, tree, opt) =
     recompute_lens bs max_code hp blc (recompute_len bits max_code hp h (unat (blc ! bits)) tree opt)"

definition gen_bitlen :: "static_tree_desc \<Rightarrow> nat \<Rightarrow> ct_data list \<Rightarrow> trees_state \<Rightarrow> ct_data list \<times> trees_state" where
  "gen_bitlen desc max_code tree s =
     (let s = s\<lparr>bl_count := replicate (MAX_BITS + 1) 0\<rparr>;
          root = heap s ! heap_max s;
          tree = tree[root := (tree ! root)\<lparr>dl := 0\<rparr>];
          (tree, s, overflow) = bitlen_pass desc max_code [heap_max s + 1..<HEAP_SIZE] tree s 0 in
      if overflow = 0 then (tree, s)
      else
        let s = s\<lparr>bl_count := fix_overflow (max_length desc) (bl_count s) overflow\<rparr>;
            (h, tree, opt) = recompute_lens (rev [1..<max_length desc + 1]) max_code (heap s) (bl_count s)
                               (HEAP_SIZE, tree, opt_len s)
        in (tree, s\<lparr>opt_len := opt\<rparr>))"

definition build_tree :: "trees_state \<Rightarrow> tree_kind \<Rightarrow> trees_state" where
  "build_tree s k =
     (let desc = stat_desc k; tree = dyn_tree k s;
          s = s\<lparr>heap_len := 0, heap_max := HEAP_SIZE\<rparr>;
          (tree, max_code, s) = init_heap [0..<elems desc] tree (- 1) s;
          (tree, max_code, s) = force_codes (static_tree desc) tree max_code s;
          s = heapify tree s;
          (tree, s) = merge_loop tree (elems desc) s;
          s = s\<lparr>heap := (heap s)[heap_max s - 1 := heap s ! SMALLEST], heap_max := heap_max s - 1\<rparr>;
          (tree, s) = gen_bitlen desc (nat max_code) tree s;
          tree = gen_codes tree (nat max_code) (bl_count s)
      in set_dyn_tree k tree (nat max_code) s)"

section \<open>Sending the trees\<close>

text \<open>The counters that \<open>scan_tree\<close> and \<open>send_tree\<close> set after a run: \<open>(max_count, min_count)\<close>.\<close>

definition run_limits :: "nat \<Rightarrow> nat \<Rightarrow> nat \<times> nat" where
  "run_limits curlen nextlen =
     (if nextlen = 0 then (138, 3) else if curlen = nextlen then (6, 3) else (7, 4))"

definition bump_freq :: "nat \<Rightarrow> nat \<Rightarrow> ct_data list \<Rightarrow> ct_data list" where
  "bump_freq c k tree = tree[c := (tree ! c)\<lparr>fc := fc (tree ! c) + of_nat k\<rparr>]"

fun scan_loop ::
  "ct_data list \<Rightarrow> nat list \<Rightarrow> int \<Rightarrow> nat \<Rightarrow> nat \<Rightarrow> nat \<Rightarrow> nat \<Rightarrow> ct_data list \<Rightarrow> ct_data list" where
  "scan_loop tree [] prevlen nextlen cnt max_count min_count blt = blt"
| "scan_loop tree (n # ns) prevlen nextlen cnt max_count min_count blt =
     (let curlen = nextlen; nextlen = Len tree (n + 1); cnt = cnt + 1 in
      if cnt < max_count \<and> curlen = nextlen
      then scan_loop tree ns prevlen nextlen cnt max_count min_count blt
      else
        let blt = (if cnt < min_count then bump_freq curlen cnt blt
                   else if curlen \<noteq> 0
                   then bump_freq REP_3_6 1 (if int curlen \<noteq> prevlen then bump_freq curlen 1 blt else blt)
                   else if cnt \<le> 10 then bump_freq REPZ_3_10 1 blt
                   else bump_freq REPZ_11_138 1 blt);
            (maxc, minc) = run_limits curlen nextlen
        in scan_loop tree ns (int curlen) nextlen 0 maxc minc blt)"

definition first_limits :: "nat \<Rightarrow> nat \<times> nat" where
  "first_limits nextlen = (if nextlen = 0 then (138, 3) else (7, 4))"

definition set_guard :: "nat \<Rightarrow> ct_data list \<Rightarrow> ct_data list" where
  "set_guard max_code tree = tree[max_code + 1 := (tree ! (max_code + 1))\<lparr>dl := 0xffff\<rparr>]"

definition scan_tree :: "ct_data list \<Rightarrow> nat \<Rightarrow> ct_data list \<Rightarrow> ct_data list" where
  "scan_tree tree max_code blt =
     (let nextlen = Len tree 0; (maxc, minc) = first_limits nextlen
      in scan_loop (set_guard max_code tree) [0..<max_code + 1] (- 1) nextlen 0 maxc minc blt)"

fun send_codes :: "trees_state \<Rightarrow> nat \<Rightarrow> nat \<Rightarrow> trees_state" where
  "send_codes s c 0 = s"
| "send_codes s c (Suc k) = send_codes (send_code s c (bl_tree s)) c k"

fun send_loop ::
  "ct_data list \<Rightarrow> nat list \<Rightarrow> int \<Rightarrow> nat \<Rightarrow> nat \<Rightarrow> nat \<Rightarrow> nat \<Rightarrow> trees_state \<Rightarrow> trees_state" where
  "send_loop tree [] prevlen nextlen cnt max_count min_count s = s"
| "send_loop tree (n # ns) prevlen nextlen cnt max_count min_count s =
     (let curlen = nextlen; nextlen = Len tree (n + 1); cnt = cnt + 1 in
      if cnt < max_count \<and> curlen = nextlen
      then send_loop tree ns prevlen nextlen cnt max_count min_count s
      else
        let s = (if cnt < min_count then send_codes s curlen cnt
                 else if curlen \<noteq> 0
                 then let (s, cnt) = (if int curlen \<noteq> prevlen then (send_code s curlen (bl_tree s), cnt - 1) else (s, cnt))
                      in send_bits (send_code s REP_3_6 (bl_tree s)) (cnt - 3) 2
                 else if cnt \<le> 10 then send_bits (send_code s REPZ_3_10 (bl_tree s)) (cnt - 3) 3
                 else send_bits (send_code s REPZ_11_138 (bl_tree s)) (cnt - 11) 7);
            (maxc, minc) = run_limits curlen nextlen
        in send_loop tree ns (int curlen) nextlen 0 maxc minc s)"

definition send_tree :: "ct_data list \<Rightarrow> nat \<Rightarrow> trees_state \<Rightarrow> trees_state" where
  "send_tree tree max_code s =
     (let nextlen = Len tree 0; (maxc, minc) = first_limits nextlen
      in send_loop tree [0..<max_code + 1] (- 1) nextlen 0 maxc minc s)"

text \<open>\<open>for (max_blindex = BL_CODES-1; max_blindex >= 3; max_blindex--)\<close>: ends at 2 if all are zero.\<close>

fun last_blindex :: "ct_data list \<Rightarrow> nat \<Rightarrow> nat" where
  "last_blindex blt 0 = 0"
| "last_blindex blt (Suc m) =
     (if Suc m < 3 \<or> Len blt (bl_order ! Suc m) \<noteq> 0 then Suc m else last_blindex blt m)"

definition build_bl_tree :: "trees_state \<Rightarrow> nat \<times> trees_state" where
  "build_bl_tree s =
     (let s = s\<lparr>bl_tree := scan_tree (dyn_ltree s) (l_max_code s) (bl_tree s),
                dyn_ltree := set_guard (l_max_code s) (dyn_ltree s)\<rparr>;
          s = s\<lparr>bl_tree := scan_tree (dyn_dtree s) (d_max_code s) (bl_tree s),
                dyn_dtree := set_guard (d_max_code s) (dyn_dtree s)\<rparr>;
          s = build_tree s BLTree;
          max_blindex = last_blindex (bl_tree s) (BL_CODES - 1)
      in (max_blindex, s\<lparr>opt_len := opt_len s + (3 * (of_nat max_blindex + 1) + 5 + 5 + 4)\<rparr>))"

definition send_all_trees :: "trees_state \<Rightarrow> nat \<Rightarrow> nat \<Rightarrow> nat \<Rightarrow> trees_state" where
  "send_all_trees s lcodes dcodes blcodes =
     (let s = send_bits s (lcodes - 257) 5;
          s = send_bits s (dcodes - 1) 5;
          s = send_bits s (blcodes - 4) 4;
          s = foldl (\<lambda>s rank. send_bits s (Len (bl_tree s) (bl_order ! rank)) 3) s [0..<blcodes];
          s = send_tree (dyn_ltree s) (lcodes - 1) s
      in send_tree (dyn_dtree s) (dcodes - 1) s)"

section \<open>Sending blocks\<close>

definition tr_stored_block :: "trees_state \<Rightarrow> byte list \<Rightarrow> bool \<Rightarrow> trees_state" where
  "tr_stored_block s buf is_last =
     (let s = send_bits s (2 * STORED_BLOCK + of_bool is_last) 3;
          s = bi_windup s;
          s = put_short s (of_nat (length buf));
          s = put_short s (NOT (of_nat (length buf)))
      in s\<lparr>pending_buf := pending_buf s @ buf\<rparr>)"

definition tr_flush_bits :: "trees_state \<Rightarrow> trees_state" where
  "tr_flush_bits s = bi_flush s"

definition tr_align :: "trees_state \<Rightarrow> trees_state" where
  "tr_align s = bi_flush (send_code (send_bits s (2 * STATIC_TREES) 3) END_BLOCK static_ltree)"

text \<open>
  The loop of \<open>compress_block\<close> over the entries of \<open>sym_buf\<close>: two bytes of distance and a
  literal or a match length.
\<close>

definition send_match :: "trees_state \<Rightarrow> ct_data list \<Rightarrow> ct_data list \<Rightarrow> nat \<Rightarrow> nat \<Rightarrow> trees_state" where
  "send_match s ltree dtree dist lc =
     (let code = length_code ! lc;
          s = send_code s (code + LITERALS + 1) ltree;
          extra = extra_lbits ! code;
          s = (if extra \<noteq> 0 then send_bits s (lc - base_length ! code) extra else s);
          dist = dist - 1;
          code = d_code dist;
          s = send_code s code dtree;
          extra = extra_dbits ! code
      in if extra \<noteq> 0 then send_bits s (dist - base_dist ! code) extra else s)"

definition send_symbol :: "trees_state \<Rightarrow> ct_data list \<Rightarrow> ct_data list \<Rightarrow> nat \<Rightarrow> nat \<Rightarrow> trees_state" where
  "send_symbol s ltree dtree dist lc =
     (if dist = 0 then send_code s lc ltree else send_match s ltree dtree dist lc)"

definition sym_dist :: "byte list \<Rightarrow> nat \<Rightarrow> nat" where
  "sym_dist buf sx = unat (buf ! sx) + 256 * unat (buf ! (sx + 1))"

function compress_loop :: "ct_data list \<Rightarrow> ct_data list \<Rightarrow> nat \<Rightarrow> nat \<Rightarrow> trees_state \<Rightarrow> trees_state" where
  "compress_loop ltree dtree end_sx sx s =
     (let s = send_symbol s ltree dtree (sym_dist (sym_buf s) sx) (unat (sym_buf s ! (sx + 2))) in
      if sx + 3 < end_sx then compress_loop ltree dtree end_sx (sx + 3) s else s)"
  by pat_completeness auto
termination by (relation "measure (\<lambda>(l, d, e, sx, s). e - sx)") auto

declare compress_loop.simps [simp del]

definition compress_block :: "trees_state \<Rightarrow> ct_data list \<Rightarrow> ct_data list \<Rightarrow> trees_state" where
  "compress_block s ltree dtree =
     (let s = (if sym_next s \<noteq> 0 then compress_loop ltree dtree (sym_next s) 0 s else s)
      in send_code s END_BLOCK ltree)"

section \<open>Collecting symbols\<close>

definition Z_BINARY :: int where "Z_BINARY = 0"
definition Z_TEXT :: int where "Z_TEXT = 1"
definition Z_UNKNOWN :: int where "Z_UNKNOWN = 2"
definition Z_FIXED :: int where "Z_FIXED = 4"

definition store_sym :: "trees_state \<Rightarrow> byte \<Rightarrow> byte \<Rightarrow> byte \<Rightarrow> trees_state" where
  "store_sym s a b c =
     s\<lparr>sym_buf := (sym_buf s)[sym_next s := a, sym_next s + 1 := b, sym_next s + 2 := c], sym_next := sym_next s + 3\<rparr>"

definition tr_tally :: "trees_state \<Rightarrow> uint \<Rightarrow> uint \<Rightarrow> bool \<times> trees_state" where
  "tr_tally s dist lc =
     (let s = store_sym s (ucast dist) (ucast (drop_bit 8 dist)) (ucast lc);
          s = (if dist = 0 then s\<lparr>dyn_ltree := bump_freq (unat lc) 1 (dyn_ltree s)\<rparr>
               else s\<lparr>matches := matches s + 1,
                      dyn_ltree := bump_freq (length_code ! unat lc + LITERALS + 1) 1 (dyn_ltree s),
                      dyn_dtree := bump_freq (d_code (unat (dist - 1))) 1 (dyn_dtree s)\<rparr>)
      in (sym_next s = sym_end s, s))"

text \<open>The inline versions of \<open>deflate.h\<close>, which a build without \<open>ZLIB_DEBUG\<close> uses.\<close>

definition tr_tally_lit :: "trees_state \<Rightarrow> byte \<Rightarrow> bool \<times> trees_state" where
  "tr_tally_lit s c =
     (let s = store_sym s 0 0 c;
          s = s\<lparr>dyn_ltree := bump_freq (unat c) 1 (dyn_ltree s)\<rparr>
      in (sym_next s = sym_end s, s))"

definition tr_tally_dist :: "trees_state \<Rightarrow> ush \<Rightarrow> byte \<Rightarrow> bool \<times> trees_state" where
  "tr_tally_dist s dist len =
     (let s = store_sym s (ucast dist) (ucast (drop_bit 8 dist)) len;
          s = s\<lparr>dyn_ltree := bump_freq (length_code ! unat len + LITERALS + 1) 1 (dyn_ltree s),
                dyn_dtree := bump_freq (d_code (unat (dist - 1))) 1 (dyn_dtree s)\<rparr>
      in (sym_next s = sym_end s, s))"

definition block_mask :: "64 word" where "block_mask = 0xf3ffc07f"

definition detect_data_type :: "trees_state \<Rightarrow> int" where
  "detect_data_type s =
     (if list_ex (\<lambda>n. bit block_mask n \<and> fc (dyn_ltree s ! n) \<noteq> 0) [0..<32] then Z_BINARY
      else if fc (dyn_ltree s ! 9) \<noteq> 0 \<or> fc (dyn_ltree s ! 10) \<noteq> 0 \<or> fc (dyn_ltree s ! 13) \<noteq> 0 then Z_TEXT
      else if list_ex (\<lambda>n. fc (dyn_ltree s ! n) \<noteq> 0) [32..<LITERALS] then Z_TEXT
      else Z_BINARY)"

section \<open>Choosing the encoding of a block\<close>

text \<open>
  \<open>buf\<close> is the input block, \<open>None\<close> for \<open>NULL\<close>; its length is \<open>stored_len\<close>. The first result
  of \<open>block_lens\<close> are \<open>opt_lenb\<close> and \<open>static_lenb\<close>.
\<close>

definition block_lens :: "trees_state \<Rightarrow> nat \<Rightarrow> (64 word \<times> 64 word \<times> nat) \<times> trees_state" where
  "block_lens s stored_len =
     (if comp_level s > 0
      then let s = (if data_type s = Z_UNKNOWN then s\<lparr>data_type := detect_data_type s\<rparr> else s);
               s = build_tree s LTree;
               s = build_tree s DTree;
               (max_blindex, s) = build_bl_tree s;
               opt_lenb = drop_bit 3 (opt_len s + 3 + 7);
               static_lenb = drop_bit 3 (static_len s + 3 + 7);
               opt_lenb = (if static_lenb \<le> opt_lenb \<or> strategy s = Z_FIXED then static_lenb else opt_lenb)
           in ((opt_lenb, static_lenb, max_blindex), s)
      else ((of_nat stored_len + 5, of_nat stored_len + 5, 0), s))"

definition tr_flush_block :: "trees_state \<Rightarrow> byte list option \<Rightarrow> nat \<Rightarrow> bool \<Rightarrow> trees_state" where
  "tr_flush_block s buf stored_len is_last =
     (let ((opt_lenb, static_lenb, max_blindex), s) = block_lens s stored_len;
          s = (if of_nat stored_len + 4 \<le> opt_lenb \<and> buf \<noteq> None
               then tr_stored_block s (take stored_len (the buf)) is_last
               else if static_lenb = opt_lenb
               then compress_block (send_bits s (2 * STATIC_TREES + of_bool is_last) 3) static_ltree static_dtree
               else let s = send_bits s (2 * DYN_TREES + of_bool is_last) 3;
                        s = send_all_trees s (l_max_code s + 1) (d_max_code s + 1) (max_blindex + 1)
                    in compress_block s (dyn_ltree s) (dyn_dtree s));
          s = init_block s
      in if is_last then bi_windup s else s)"

end
