(* ===== verification/Adler32.thy ===== *)
theory Adler32
  imports Zlib_Prelude
begin

text \<open>
  The Adler-32 checksum of \<open>adler32.c\<close>. An \<open>unsigned long\<close> is a word of at least 32 bits, so
  the definitions are polymorphic in the word length and the theorems hold for 32 and 64 bit
  longs. A buffer is a list of its \<open>len\<close> bytes, \<open>None\<close> for \<open>Z_NULL\<close>.
\<close>

section \<open>Definitions\<close>

definition BASE :: "'a :: len word" where "BASE = 65521"
definition NMAX :: nat where "NMAX = 5552"

definition DO1 :: "'a :: len word \<times> 'a word \<Rightarrow> byte \<Rightarrow> 'a word \<times> 'a word" where
  "DO1 = (\<lambda>(adler, sum2) c. (adler + ucast c, sum2 + (adler + ucast c)))"

definition DO16 :: "'a :: len word \<times> 'a word \<Rightarrow> byte list \<Rightarrow> 'a word \<times> 'a word" where
  "DO16 st buf = foldl (\<lambda>st i. DO1 st (buf ! i)) st [0..<16]"

definition MOD :: "'a :: len word \<Rightarrow> 'a word" where "MOD a = a mod BASE"

definition MODs :: "'a :: len word \<times> 'a word \<Rightarrow> 'a word \<times> 'a word" where
  "MODs = (\<lambda>(adler, sum2). (MOD adler, MOD sum2))"

text \<open>\<open>do { DO16(buf); buf += 16; } while (--n);\<close>\<close>

primrec do16_loop :: "nat \<Rightarrow> 'a :: len word \<times> 'a word \<Rightarrow> byte list \<Rightarrow> ('a word \<times> 'a word) \<times> byte list" where
  "do16_loop 0 st buf = (st, buf)"
| "do16_loop (Suc n) st buf = do16_loop n (DO16 st buf) (drop 16 buf)"

lemma do16_loop_rest: "snd (do16_loop n st buf) = drop (16 * n) buf"
  by (induction n arbitrary: st buf) (auto simp: add.commute)

function nmax_loop :: "'a :: len word \<times> 'a word \<Rightarrow> byte list \<Rightarrow> ('a word \<times> 'a word) \<times> byte list" where
  "nmax_loop st buf =
     (if length buf \<ge> NMAX
      then let (st, buf) = do16_loop (NMAX div 16) st buf in nmax_loop (MODs st) buf
      else (st, buf))"
  by pat_completeness auto
termination
proof (relation "measure (\<lambda>(st, buf). length buf)", simp)
  fix st st1 :: "'a word \<times> 'a word" and buf x y
  assume "NMAX \<le> length buf" and x: "x = do16_loop (NMAX div 16) st buf" "(st1, y) = x"
  from x have "y = drop (16 * (NMAX div 16)) buf"
    using do16_loop_rest [of "NMAX div 16" st buf] by (metis snd_conv)
  with \<open>NMAX \<le> length buf\<close> show "((MODs st1, y), st, buf) \<in> measure (\<lambda>(st, buf). length buf)"
    by (simp add: NMAX_def)
qed

declare nmax_loop.simps [simp del]

function tail_loop :: "'a :: len word \<times> 'a word \<Rightarrow> byte list \<Rightarrow> ('a word \<times> 'a word) \<times> byte list" where
  "tail_loop st buf = (if length buf \<ge> 16 then tail_loop (DO16 st buf) (drop 16 buf) else (st, buf))"
  by pat_completeness auto
termination by (relation "measure (\<lambda>(st, buf). length buf)") auto

declare tail_loop.simps [simp del]

definition chop_base :: "'a :: len word \<Rightarrow> 'a word" where
  "chop_base a = (if a \<ge> BASE then a - BASE else a)"

definition combine_sums :: "'a :: len word \<times> 'a word \<Rightarrow> 'a word" where
  "combine_sums = (\<lambda>(adler, sum2). adler OR push_bit 16 sum2)"

definition adler32_tail :: "'a :: len word \<times> 'a word \<Rightarrow> byte list \<Rightarrow> 'a word \<times> 'a word" where
  "adler32_tail st buf = (if buf = [] then st else let (st, buf) = tail_loop st buf in MODs (foldl DO1 st buf))"

definition adler32_z :: "'a :: len word \<Rightarrow> byte list option \<Rightarrow> 'a word" where
  "adler32_z adler buf =
     (let sum2 = drop_bit 16 adler AND 0xffff; adler = adler AND 0xffff in
      case buf of
        None \<Rightarrow> 1
      | Some buf \<Rightarrow>
          if length buf = 1
          then let adler = chop_base (adler + ucast (buf ! 0)) in combine_sums (adler, chop_base (sum2 + adler))
          else if length buf < 16
          then let (adler, sum2) = foldl DO1 (adler, sum2) buf in combine_sums (chop_base adler, MOD sum2)
          else let (st, buf) = nmax_loop (adler, sum2) buf in combine_sums (adler32_tail st buf))"

text \<open>\<open>len2\<close> is signed; \<open>rem\<close> is a 32 bit unsigned and \<open>sum2\<close> an unsigned long.\<close>

definition adler32_combine_impl :: "'a :: len word \<Rightarrow> 'a word \<Rightarrow> int \<Rightarrow> 'a word" where
  "adler32_combine_impl adler1 adler2 len2 =
     (if len2 < 0 then 0xffffffff
      else let rem = of_int (len2 mod 65521);
               sum1 = adler1 AND 0xffff;
               sum2 = MOD (rem * sum1);
               sum1 = sum1 + ((adler2 AND 0xffff) + BASE - 1);
               sum2 = sum2 + ((drop_bit 16 adler1 AND 0xffff) + (drop_bit 16 adler2 AND 0xffff) + BASE - rem);
               sum1 = chop_base sum1;
               sum1 = chop_base sum1;
               sum2 = (if sum2 \<ge> push_bit 1 BASE then sum2 - push_bit 1 BASE else sum2);
               sum2 = chop_base sum2
           in combine_sums (sum1, sum2))"

definition adler32 :: "'a :: len word \<Rightarrow> byte list option \<Rightarrow> 'a word" where
  "adler32 adler buf = adler32_z adler buf"

definition adler32_combine :: "'a :: len word \<Rightarrow> 'a word \<Rightarrow> int \<Rightarrow> 'a word" where
  "adler32_combine adler1 adler2 len2 = adler32_combine_impl adler1 adler2 len2"

text \<open>The divisions of a build with \<open>NO_DIVIDE\<close>.\<close>

definition CHOP_nd :: "'a :: len word \<Rightarrow> 'a word" where
  "CHOP_nd a = (let tmp = drop_bit 16 a in (a AND 0xffff) + (push_bit 4 tmp - tmp))"

definition MOD28_nd :: "'a :: len word \<Rightarrow> 'a word" where "MOD28_nd a = chop_base (CHOP_nd a)"

definition MOD_nd :: "'a :: len word \<Rightarrow> 'a word" where "MOD_nd a = MOD28_nd (CHOP_nd a)"

definition MOD63_nd :: "int \<Rightarrow> int" where
  "MOD63_nd a =
     (let tmp = drop_bit 32 a;
          a = (a AND 0xffffffff) + (push_bit 8 tmp - push_bit 5 tmp + tmp);
          tmp = drop_bit 16 a;
          a = (a AND 0xffff) + (push_bit 4 tmp - tmp);
          tmp = drop_bit 16 a;
          a = (a AND 0xffff) + (push_bit 4 tmp - tmp)
      in if a \<ge> 65521 then a - 65521 else a)"

end
