(* ===== verification/Crc32.thy ===== *)
theory Crc32
  imports Crc32_Tables
begin

text \<open>
  \<open>crc32.c\<close> for a 64 bit machine without the ARM instructions: table generation, the braided
  calculation on five braids of eight byte words in both byte orders, and the combination of
  CRCs. A CRC is a polynomial over GF(2) with the lowest power in the most significant bit.
  \<open>unsigned long\<close> and \<open>z_word_t\<close> have 64 bits, \<open>z_crc_t\<close> has 32.
\<close>

section \<open>Constants and byte order\<close>

type_synonym z_word = "64 word"

definition N_braids :: nat where "N_braids = 5"
definition W_bytes :: nat where "W_bytes = 8"

definition POLY :: uint where "POLY = 0xedb88320"

definition byte_swap :: "z_word \<Rightarrow> z_word" where
  "byte_swap word =
     drop_bit 56 (word AND 0xff00000000000000) OR
     drop_bit 40 (word AND 0xff000000000000) OR
     drop_bit 24 (word AND 0xff0000000000) OR
     drop_bit 8 (word AND 0xff00000000) OR
     push_bit 8 (word AND 0xff000000) OR
     push_bit 24 (word AND 0xff0000) OR
     push_bit 40 (word AND 0xff00) OR
     push_bit 56 (word AND 0xff)"

section \<open>Arithmetic modulo the polynomial\<close>

text \<open>\<open>p & 1 ? (p >> 1) ^ POLY : p >> 1\<close>: multiplication by \<open>x\<close>.\<close>

definition crc_shift :: "uint \<Rightarrow> uint" where
  "crc_shift p = (if bit p 0 then drop_bit 1 p XOR POLY else drop_bit 1 p)"

text \<open>
  The loop of \<open>multmodp\<close>, where \<open>m\<close> is \<open>1 << k\<close>. When \<open>a\<close> is zero \<open>m\<close> becomes zero and the
  loop never ends: this is \<open>None\<close>.
\<close>

fun multmodp_loop :: "nat \<Rightarrow> uint \<Rightarrow> uint \<Rightarrow> uint \<Rightarrow> uint option" where
  "multmodp_loop k a b p =
     (let p = (if bit a k then p XOR b else p) in
      if bit a k \<and> a AND mask k = 0 then Some p
      else case k of 0 \<Rightarrow> None | Suc j \<Rightarrow> multmodp_loop j a (crc_shift b) p)"

declare multmodp_loop.simps [simp del]

definition multmodp :: "uint \<Rightarrow> uint \<Rightarrow> uint option" where
  "multmodp a b = multmodp_loop 31 a b 0"

text \<open>
  The loop of \<open>x2nmodp\<close>. The shift of a negative \<open>n\<close> never reaches zero; this is \<open>None\<close> as well.
\<close>

function x2nmodp_loop :: "int \<Rightarrow> nat \<Rightarrow> uint \<Rightarrow> uint option" where
  "x2nmodp_loop n k p =
     (if n = 0 then Some p
      else if n < 0 then None
      else Option.bind (if n mod 2 = 1 then multmodp (x2n_table ! (k mod 32)) p else Some p)
             (\<lambda>p. x2nmodp_loop (n div 2) (k + 1) p))"
  by pat_completeness auto
termination by (relation "measure (\<lambda>(n, k, p). nat n)") auto

declare x2nmodp_loop.simps [simp del]

definition x2nmodp :: "int \<Rightarrow> nat \<Rightarrow> uint option" where
  "x2nmodp n k = x2nmodp_loop n k (push_bit 31 1)"

section \<open>Generating the tables\<close>

definition make_crc_table :: "uint list" where
  "make_crc_table = map (\<lambda>i. (crc_shift ^^ 8) (of_nat i)) [0..<256]"

definition crc_big_table :: "z_word list" where
  "crc_big_table = map (\<lambda>p. byte_swap (ucast p)) make_crc_table"

text \<open>The second loop of \<open>make_crc_table\<close>: each entry is the square of the one before.\<close>

fun make_x2n_table :: "nat \<Rightarrow> uint \<Rightarrow> uint list \<Rightarrow> uint list option" where
  "make_x2n_table 0 p t = Some t"
| "make_x2n_table (Suc n) p t = Option.bind (multmodp p p) (\<lambda>p. make_x2n_table n p (t @ [p]))"

text \<open>Row \<open>k\<close> of the little-endian table of \<open>braid\<close>, for \<open>n\<close> braids of words of \<open>w\<close> bytes.\<close>

definition braid_row :: "nat \<Rightarrow> nat \<Rightarrow> nat \<Rightarrow> nat \<Rightarrow> uint option" where
  "braid_row n w k i =
     (if i = 0 then Some 0
      else Option.bind (x2nmodp (int ((n * w + 3 - k) * 8)) 0) (\<lambda>p. multmodp (push_bit 24 (of_nat i)) p))"

text \<open>\<open>big[w - 1 - k][i] = byte_swap(q)\<close>\<close>

definition crc_braid_big_table :: "z_word list list" where
  "crc_braid_big_table = map (\<lambda>k. map (\<lambda>q. byte_swap (ucast q)) (crc_braid_table ! (W_bytes - 1 - k))) [0..<W_bytes]"

section \<open>Words\<close>

definition word_byte :: "z_word \<Rightarrow> nat \<Rightarrow> nat" where
  "word_byte w k = unat (drop_bit (8 * k) w AND 0xff)"

definition crc_word :: "z_word \<Rightarrow> z_word" where
  "crc_word data = ((\<lambda>d. drop_bit 8 d XOR ucast (crc_table ! unat (d AND 0xff))) ^^ W_bytes) data"

definition crc_word_big :: "z_word \<Rightarrow> z_word" where
  "crc_word_big data =
     ((\<lambda>d. push_bit 8 d XOR crc_big_table ! unat (drop_bit ((W_bytes - 1) * 8) d AND 0xff)) ^^ W_bytes) data"

section \<open>\<open>crc32_z\<close>\<close>

definition crc_byte :: "z_word \<Rightarrow> byte \<Rightarrow> z_word" where
  "crc_byte crc b = drop_bit 8 crc XOR ucast (crc_table ! unat ((crc XOR ucast b) AND 0xff))"

text \<open>The loop up to a word boundary; \<open>addr\<close> is the address of the buffer.\<close>

fun align_loop :: "nat \<Rightarrow> z_word \<Rightarrow> byte list \<Rightarrow> z_word \<times> byte list" where
  "align_loop addr crc [] = (crc, [])"
| "align_loop addr crc (b # buf) =
     (if addr mod W_bytes \<noteq> 0 then align_loop (addr + 1) (crc_byte crc b) buf else (crc, b # buf))"

text \<open>How the machine loads the word at index \<open>j\<close>.\<close>

definition load_word :: "bool \<Rightarrow> byte list \<Rightarrow> nat \<Rightarrow> z_word" where
  "load_word little buf j =
     (let bs = take 8 (drop (8 * j) buf) in
      word_rcat (if little then rev bs else bs))"

text \<open>
  One braid and one block, little endian: the table lookups for the bytes of \<open>word\<close>. The loop
  over the first \<open>blks - 1\<close> blocks keeps one CRC per braid.
\<close>

definition braid_crc :: "z_word \<Rightarrow> uint" where
  "braid_crc word = foldl (\<lambda>c k. c XOR crc_braid_table ! k ! word_byte word k)
     (crc_braid_table ! 0 ! word_byte word 0) [1..<W_bytes]"

fun braid_loop :: "nat \<Rightarrow> uint list \<Rightarrow> z_word list \<Rightarrow> uint list \<times> z_word list" where
  "braid_loop 0 crcs words = (crcs, words)"
| "braid_loop (Suc blks) crcs words =
     braid_loop blks (map2 (\<lambda>crc w. braid_crc (ucast crc XOR w)) crcs (take N_braids words)) (drop N_braids words)"

definition braids_little :: "z_word \<Rightarrow> nat \<Rightarrow> z_word list \<Rightarrow> z_word" where
  "braids_little crc blks words =
     (let (crcs, words) = braid_loop (blks - 1) (ucast crc # replicate (N_braids - 1) 0) words
      in foldl (\<lambda>crc (c, w). ucast (ucast (crc_word (ucast c XOR w XOR crc)) :: uint)) 0 (zip crcs (take N_braids words)))"

definition braid_crc_big :: "z_word \<Rightarrow> z_word" where
  "braid_crc_big word = foldl (\<lambda>c k. c XOR crc_braid_big_table ! k ! word_byte word k)
     (crc_braid_big_table ! 0 ! word_byte word 0) [1..<W_bytes]"

fun braid_loop_big :: "nat \<Rightarrow> z_word list \<Rightarrow> z_word list \<Rightarrow> z_word list \<times> z_word list" where
  "braid_loop_big 0 crcs words = (crcs, words)"
| "braid_loop_big (Suc blks) crcs words =
     braid_loop_big blks (map2 (\<lambda>crc w. braid_crc_big (crc XOR w)) crcs (take N_braids words)) (drop N_braids words)"

definition braids_big :: "z_word \<Rightarrow> nat \<Rightarrow> z_word list \<Rightarrow> z_word" where
  "braids_big crc blks words =
     (let (crcs, words) = braid_loop_big (blks - 1) (byte_swap crc # replicate (N_braids - 1) 0) words
      in byte_swap (foldl (\<lambda>comb (c, w). crc_word_big (c XOR w XOR comb)) 0 (zip crcs (take N_braids words))))"

definition crc_braided :: "bool \<Rightarrow> nat \<Rightarrow> z_word \<Rightarrow> byte list \<Rightarrow> z_word \<times> byte list" where
  "crc_braided little addr crc buf =
     (let (crc, buf) = align_loop addr crc buf;
          blks = length buf div (N_braids * W_bytes);
          words = map (load_word little buf) [0..<blks * N_braids]
      in (if little then braids_little crc blks words else braids_big crc blks words,
          drop (blks * N_braids * W_bytes) buf))"

fun crc_tail :: "z_word \<Rightarrow> byte list \<Rightarrow> z_word" where
  "crc_tail crc (b0 # b1 # b2 # b3 # b4 # b5 # b6 # b7 # buf) =
     crc_tail (crc_byte (crc_byte (crc_byte (crc_byte (crc_byte (crc_byte (crc_byte (crc_byte crc b0) b1) b2) b3) b4) b5) b6) b7) buf"
| "crc_tail crc buf = foldl crc_byte crc buf"

definition crc32_z :: "bool \<Rightarrow> nat \<Rightarrow> z_word \<Rightarrow> byte list option \<Rightarrow> z_word" where
  "crc32_z little addr crc buf = (case buf of
      None \<Rightarrow> 0
    | Some buf \<Rightarrow>
        let crc = NOT crc AND 0xffffffff;
            (crc, buf) = (if length buf \<ge> N_braids * W_bytes + W_bytes - 1
                          then crc_braided little addr crc buf else (crc, buf))
        in crc_tail crc buf XOR 0xffffffff)"

definition crc32 :: "bool \<Rightarrow> nat \<Rightarrow> z_word \<Rightarrow> byte list option \<Rightarrow> z_word" where
  "crc32 little addr crc buf = crc32_z little addr crc buf"

section \<open>Combining\<close>

definition crc32_combine_op :: "z_word \<Rightarrow> z_word \<Rightarrow> z_word \<Rightarrow> z_word option" where
  "crc32_combine_op crc1 crc2 op =
     map_option (\<lambda>p. ucast p XOR (crc2 AND 0xffffffff)) (multmodp (ucast op) (ucast crc1))"

definition crc32_combine_gen64 :: "int \<Rightarrow> z_word option" where
  "crc32_combine_gen64 len2 = map_option ucast (x2nmodp len2 3)"

definition crc32_combine_gen :: "int \<Rightarrow> z_word option" where
  "crc32_combine_gen len2 = crc32_combine_gen64 len2"

definition crc32_combine64 :: "z_word \<Rightarrow> z_word \<Rightarrow> int \<Rightarrow> z_word option" where
  "crc32_combine64 crc1 crc2 len2 =
     Option.bind (x2nmodp len2 3) (\<lambda>op. map_option (\<lambda>p. ucast p XOR (crc2 AND 0xffffffff)) (multmodp op (ucast crc1)))"

definition crc32_combine :: "z_word \<Rightarrow> z_word \<Rightarrow> int \<Rightarrow> z_word option" where
  "crc32_combine crc1 crc2 len2 = crc32_combine64 crc1 crc2 len2"

end
