(* ===== verification/Deflate.thy ===== *)
theory Deflate
  imports Trees Adler32 Crc32 "HOL-Library.Monad_Syntax"
begin

text \<open>
  The compressor \<open>deflate.c\<close>: the sliding window, the hash chains, the search for matches and
  the five ways to turn input into blocks. \<open>dstate\<close> has the fields of \<open>deflate_state\<close> that
  \<open>trees.c\<close> does not use, those that it uses in \<open>tr\<close>, and the fields of the \<open>z_stream\<close>.
  \<open>next_in\<close> is the input that is available, \<open>next_out\<close> all output so far. What
  \<open>deflateInit2_\<close> computes from \<open>windowBits\<close> and \<open>memLevel\<close> are functions of these two.

  The counters of the window are natural numbers, they are bounded by its size; \<open>match_start\<close>
  and \<open>prev_match\<close>, which may wrap around when the window slides, and the chain length are
  unsigned integers. The result \<open>None\<close> stands for a run that does not end or that overwrites
  output that is still pending.
\<close>

section \<open>State\<close>

datatype dstatus = INIT_STATE | GZIP_STATE | EXTRA_STATE | NAME_STATE | COMMENT_STATE | HCRC_STATE
  | BUSY_STATE | FINISH_STATE

datatype block_state = need_more | block_done | finish_started | finish_done

record gz_header =
  gz_text :: bool
  gz_time :: "64 word"
  gz_os :: int
  gz_extra :: "byte list option"
  gz_extra_len :: uint
  gz_name :: "byte list option"
  gz_comment :: "byte list option"
  gz_hcrc :: bool

record dstate =
  tr :: trees_state
  next_in :: "byte list"
  total_in :: "64 word"
  next_out :: "byte list"
  avail_out :: nat
  total_out :: "64 word"
  adler :: "64 word"
  status :: dstatus
  pending_out :: nat
  wrap :: int
  gzhead :: "gz_header option"
  gzindex :: nat
  last_flush :: int
  w_bits :: nat
  mem_level :: nat
  window :: "byte list"
  prev :: "ush list"
  head :: "ush list"
  ins_h :: nat
  block_start :: int
  match_length :: nat
  prev_match :: uint
  match_available :: bool
  strstart :: nat
  match_start :: uint
  lookahead :: nat
  prev_length :: nat
  max_chain_length :: uint
  max_lazy_match :: nat
  good_match :: nat
  nice_match :: int
  insert_cnt :: nat
  high_water :: nat

definition Z_NO_FLUSH :: int where "Z_NO_FLUSH = 0"
definition Z_PARTIAL_FLUSH :: int where "Z_PARTIAL_FLUSH = 1"
definition Z_SYNC_FLUSH :: int where "Z_SYNC_FLUSH = 2"
definition Z_FULL_FLUSH :: int where "Z_FULL_FLUSH = 3"
definition Z_FINISH :: int where "Z_FINISH = 4"
definition Z_BLOCK :: int where "Z_BLOCK = 5"
definition Z_OK :: int where "Z_OK = 0"
definition Z_STREAM_END :: int where "Z_STREAM_END = 1"
definition Z_STREAM_ERROR :: int where "Z_STREAM_ERROR = - 2"
definition Z_DATA_ERROR :: int where "Z_DATA_ERROR = - 3"
definition Z_MEM_ERROR :: int where "Z_MEM_ERROR = - 4"
definition Z_BUF_ERROR :: int where "Z_BUF_ERROR = - 5"
definition Z_VERSION_ERROR :: int where "Z_VERSION_ERROR = - 6"
definition Z_FILTERED :: int where "Z_FILTERED = 1"
definition Z_HUFFMAN_ONLY :: int where "Z_HUFFMAN_ONLY = 2"
definition Z_RLE :: int where "Z_RLE = 3"

definition MIN_MATCH :: nat where "MIN_MATCH = 3"
definition MAX_MATCH :: nat where "MAX_MATCH = 258"
definition MIN_LOOKAHEAD :: nat where "MIN_LOOKAHEAD = MAX_MATCH + MIN_MATCH + 1"
definition WIN_INIT :: nat where "WIN_INIT = MAX_MATCH"
definition TOO_FAR :: uint where "TOO_FAR = 4096"
definition MAX_STORED :: nat where "MAX_STORED = 65535"

definition w_size :: "dstate \<Rightarrow> nat" where "w_size s = 2 ^ w_bits s"
definition w_mask :: "dstate \<Rightarrow> nat" where "w_mask s = w_size s - 1"
definition window_size :: "dstate \<Rightarrow> nat" where "window_size s = 2 * w_size s"
definition hash_bits :: "dstate \<Rightarrow> nat" where "hash_bits s = mem_level s + 7"
definition hash_size :: "dstate \<Rightarrow> nat" where "hash_size s = 2 ^ hash_bits s"
definition hash_mask :: "dstate \<Rightarrow> nat" where "hash_mask s = hash_size s - 1"
definition hash_shift :: "dstate \<Rightarrow> nat" where "hash_shift s = (hash_bits s + MIN_MATCH - 1) div MIN_MATCH"
definition lit_bufsize :: "dstate \<Rightarrow> nat" where "lit_bufsize s = 2 ^ (mem_level s + 6)"
definition pending_buf_size :: "dstate \<Rightarrow> nat" where "pending_buf_size s = lit_bufsize s * 4"
definition MAX_DIST :: "dstate \<Rightarrow> nat" where "MAX_DIST s = w_size s - MIN_LOOKAHEAD"

section \<open>Input and output\<close>

text \<open>\<open>zmemcpy\<close> to index \<open>i\<close> of an array.\<close>

definition zmemcpy :: "byte list \<Rightarrow> nat \<Rightarrow> byte list \<Rightarrow> byte list" where
  "zmemcpy dest i src = take i dest @ src @ drop (i + length src) dest"

text \<open>
  \<open>put_byte\<close> writes to \<open>pending_buf[pending]\<close>. This is the end of the pending bytes only when
  they start at \<open>pending_buf\<close>; otherwise some of them are overwritten.
\<close>

definition on_trees :: "(trees_state \<Rightarrow> trees_state) \<Rightarrow> dstate \<Rightarrow> dstate option" where
  "on_trees f s = (if pending_out s = 0 then Some (s\<lparr>tr := f (tr s)\<rparr>) else None)"

definition put_bytes :: "byte list \<Rightarrow> dstate \<Rightarrow> dstate option" where
  "put_bytes bs = on_trees (\<lambda>t. foldl put_byte t bs)"

definition putShortMSB :: "nat \<Rightarrow> dstate \<Rightarrow> dstate option" where
  "putShortMSB b = put_bytes [of_nat (b div 256), of_nat (b mod 256)]"

definition pending :: "dstate \<Rightarrow> nat" where "pending s = length (pending_buf (tr s))"

text \<open>\<open>bi_flush\<close> puts a byte only if there are eight bits.\<close>

definition flush_bits :: "dstate \<Rightarrow> dstate option" where
  "flush_bits s = (if bi_valid (tr s) < 8 then Some s else on_trees tr_flush_bits s)"

definition flush_pending :: "dstate \<Rightarrow> dstate option" where
  "flush_pending s = do {
     s \<leftarrow> flush_bits s;
     let len = min (pending s) (avail_out s);
     Some (if len = 0 then s
       else s\<lparr>tr := (tr s)\<lparr>pending_buf := drop len (pending_buf (tr s))\<rparr>,
              next_out := next_out s @ take len (pending_buf (tr s)),
              avail_out := avail_out s - len, total_out := total_out s + of_nat len,
              pending_out := (if pending s = len then 0 else pending_out s + len)\<rparr>)
   }"

definition stream_crc :: "64 word \<Rightarrow> byte list option \<Rightarrow> 64 word" where
  "stream_crc crc buf = crc32 True 0 crc buf"

definition read_buf :: "dstate \<Rightarrow> nat \<Rightarrow> byte list \<times> dstate" where
  "read_buf s n =
     (let len = min (length (next_in s)) n; buf = take len (next_in s) in
      if len = 0 then ([], s)
      else (buf, s\<lparr>next_in := drop len (next_in s), total_in := total_in s + of_nat len,
                   adler := (if wrap s = 1 then adler32 (adler s) (Some buf)
                             else if wrap s = 2 then stream_crc (adler s) (Some buf) else adler s)\<rparr>))"

section \<open>Hash chains\<close>

definition UPDATE_HASH :: "dstate \<Rightarrow> nat \<Rightarrow> byte \<Rightarrow> nat" where
  "UPDATE_HASH s h c = (push_bit (hash_shift s) h XOR unat c) AND hash_mask s"

definition INSERT_STRING :: "dstate \<Rightarrow> nat \<Rightarrow> nat \<times> dstate" where
  "INSERT_STRING s str =
     (let h = UPDATE_HASH s (ins_h s) (window s ! (str + (MIN_MATCH - 1)));
          match_head = head s ! h
      in (unat match_head, s\<lparr>prev := (prev s)[str AND w_mask s := match_head],
            head := (head s)[h := of_nat str], ins_h := h\<rparr>))"

definition CLEAR_HASH :: "dstate \<Rightarrow> dstate" where
  "CLEAR_HASH s = s\<lparr>head := replicate (hash_size s) 0\<rparr>"

definition slide_pos :: "nat \<Rightarrow> ush \<Rightarrow> ush" where
  "slide_pos wsize m = (if unat m \<ge> wsize then m - of_nat wsize else 0)"

definition slide_hash :: "dstate \<Rightarrow> dstate" where
  "slide_hash s = s\<lparr>prev := map (slide_pos (w_size s)) (prev s), head := map (slide_pos (w_size s)) (head s)\<rparr>"

section \<open>The longest match\<close>

text \<open>\<open>*++scan == *++match\<close>, \<open>n\<close> times; the second result is \<open>scan\<close> where it stopped.\<close>

fun cmp_run :: "byte list \<Rightarrow> nat \<Rightarrow> nat \<Rightarrow> nat \<Rightarrow> bool \<times> nat" where
  "cmp_run w 0 scan match = (True, scan)"
| "cmp_run w (Suc n) scan match =
     (if w ! (scan + 1) = w ! (match + 1) then cmp_run w n (scan + 1) (match + 1) else (False, scan + 1))"

lemma cmp_run_scan: "cmp_run w n scan match = (eq, scan') \<Longrightarrow> scan \<le> scan' \<and> scan' \<le> scan + n \<and> (eq \<longrightarrow> scan' = scan + n)"
  by (induction w n scan match rule: cmp_run.induct) (auto split: if_splits)

function cmp_loop :: "byte list \<Rightarrow> nat \<Rightarrow> nat \<Rightarrow> nat \<Rightarrow> nat" where
  "cmp_loop w strend scan match =
     (let (eq, scan') = cmp_run w 8 scan match in
      if eq \<and> scan' < strend then cmp_loop w strend scan' (match + 8) else scan')"
  by pat_completeness auto
termination
  by (relation "measure (\<lambda>(w, strend, scan, match). strend - scan)") (auto dest!: sym [THEN cmp_run_scan])

declare cmp_loop.simps [simp del]

text \<open>The length of the match at \<open>cur_match\<close>, or \<open>None\<close> for one that cannot be longer than \<open>best_len\<close>.\<close>

definition match_at :: "dstate \<Rightarrow> nat \<Rightarrow> nat \<Rightarrow> nat option" where
  "match_at s cur_match best_len =
     (let w = window s; scan = strstart s; strend = strstart s + MAX_MATCH in
      if w ! (cur_match + best_len) \<noteq> w ! (scan + best_len) \<or>
         w ! (cur_match + best_len - 1) \<noteq> w ! (scan + best_len - 1) \<or>
         w ! cur_match \<noteq> w ! scan \<or> w ! (cur_match + 1) \<noteq> w ! (scan + 1)
      then None
      else Some (MAX_MATCH - (strend - cmp_loop w strend (scan + 2) (cur_match + 2))))"

function match_loop :: "dstate \<Rightarrow> nat \<Rightarrow> int \<Rightarrow> nat \<Rightarrow> uint \<Rightarrow> nat \<Rightarrow> uint \<Rightarrow> nat \<times> uint" where
  "match_loop s limit nice cur_match chain_length best_len mstart =
     (let found = (case match_at s cur_match best_len of None \<Rightarrow> False | Some len \<Rightarrow> len > best_len);
          (best_len, mstart) = (if found then (the (match_at s cur_match best_len), of_nat cur_match) else (best_len, mstart));
          cur_match = unat (prev s ! (cur_match AND w_mask s))
      in if found \<and> int best_len \<ge> nice then (best_len, mstart)
         else if cur_match > limit \<and> chain_length - 1 \<noteq> 0
         then match_loop s limit nice cur_match (chain_length - 1) best_len mstart
         else (best_len, mstart))"
  by pat_completeness auto
termination
proof (relation "measure (\<lambda>(s, limit, nice, cur, chain, best, ms). unat (chain - 1))", goal_cases)
  case (2 s limit nice cur_match chain_length best_len mstart)
  then have "chain_length - 1 \<noteq> 0" by auto
  then have "unat (chain_length - 1 - 1) < unat (chain_length - 1)"
    by (metis less_irrefl measure_unat word_neq_0_conv)
  then show ?case by simp
qed simp

declare match_loop.simps [simp del]

definition longest_match :: "dstate \<Rightarrow> nat \<Rightarrow> nat \<times> dstate" where
  "longest_match s cur_match =
     (let chain_length = (if prev_length s \<ge> good_match s then drop_bit 2 (max_chain_length s) else max_chain_length s);
          limit = (if strstart s > MAX_DIST s then strstart s - MAX_DIST s else 0);
          nice = (if (of_int (nice_match s) :: uint) > of_nat (lookahead s) then int (lookahead s) else nice_match s);
          (best_len, mstart) = match_loop s limit nice cur_match chain_length (prev_length s) (match_start s)
      in (min best_len (lookahead s), s\<lparr>match_start := mstart\<rparr>))"

section \<open>Filling the window\<close>

definition slide_window :: "nat \<Rightarrow> dstate \<Rightarrow> dstate" where
  "slide_window room s = slide_hash
     (s\<lparr>window := zmemcpy (window s) 0 (take (w_size s - room) (drop (w_size s) (window s))),
        block_start := block_start s - int (w_size s), strstart := strstart s - w_size s,
        match_start := match_start s - of_nat (w_size s),
        insert_cnt := min (insert_cnt s) (strstart s - w_size s)\<rparr>)"

text \<open>The strings that could not be inserted before because too few bytes were known.\<close>

fun insert_loop :: "nat \<Rightarrow> nat \<Rightarrow> dstate \<Rightarrow> dstate" where
  "insert_loop str 0 s = s"
| "insert_loop str (Suc n) s =
     (let s = (snd (INSERT_STRING s str))\<lparr>insert_cnt := n\<rparr> in
      if lookahead s + n < MIN_MATCH then s else insert_loop (str + 1) n s)"

definition init_hash :: "dstate \<Rightarrow> dstate" where
  "init_hash s =
     (if lookahead s + insert_cnt s \<ge> MIN_MATCH
      then let str = strstart s - insert_cnt s;
               s = s\<lparr>ins_h := UPDATE_HASH s (unat (window s ! str)) (window s ! (str + 1))\<rparr>
           in insert_loop str (insert_cnt s) s
      else s)"

text \<open>
  A pass of the loop that reads nothing although there is input would repeat itself forever.
\<close>

lemma next_in_INSERT_STRING [simp]: "next_in (snd (INSERT_STRING s str)) = next_in s" "lookahead (snd (INSERT_STRING s str)) = lookahead s"
  by (simp_all add: INSERT_STRING_def Let_def)

lemma next_in_insert_loop [simp]: "next_in (insert_loop str n s) = next_in s" "lookahead (insert_loop str n s) = lookahead s"
  by (induction str n s rule: insert_loop.induct) (simp_all add: Let_def)

lemma next_in_init_hash [simp]: "next_in (init_hash s) = next_in s" "lookahead (init_hash s) = lookahead s"
  by (simp_all add: init_hash_def Let_def)

lemma next_in_slide [simp]: "next_in (slide_window k s) = next_in s" "lookahead (slide_window k s) = lookahead s"
  by (simp_all add: slide_window_def slide_hash_def)

definition fill_pass :: "dstate \<Rightarrow> bool \<times> dstate" where
  "fill_pass s =
     (let room = window_size s - lookahead s - strstart s;
          slide = strstart s \<ge> w_size s + MAX_DIST s;
          s = (if slide then slide_window room s else s);
          room = (if slide then room + w_size s else room)
      in if next_in s = [] then (True, s)
         else let (buf, s) = read_buf s room;
                  s = s\<lparr>window := zmemcpy (window s) (strstart s + lookahead s) buf, lookahead := lookahead s + length buf\<rparr>
              in (buf \<noteq> [], init_hash s))"

lemma read_buf_input: "read_buf s n = (buf, s') \<Longrightarrow> next_in s = buf @ next_in s' \<and> lookahead s' = lookahead s"
  by (auto simp: read_buf_def Let_def min_def split: if_splits)

lemma fill_pass_input:
  assumes "fill_pass s = (go, s')"
  shows "length (next_in s') + lookahead s' = length (next_in s) + lookahead s"
    "go \<Longrightarrow> next_in s' \<noteq> [] \<Longrightarrow> length (next_in s') < length (next_in s)"
  using assms
  by (auto simp: fill_pass_def Let_def split: if_splits prod.splits dest!: read_buf_input)

function fill_loop :: "dstate \<Rightarrow> dstate option" where
  "fill_loop s =
     (let (go, s) = fill_pass s in
      if \<not> go then None
      else if lookahead s < MIN_LOOKAHEAD \<and> next_in s \<noteq> [] then fill_loop s else Some s)"
  by pat_completeness auto
termination
  by (relation "measure (\<lambda>s. length (next_in s))") (auto dest!: sym [of _ "fill_pass _"] intro: fill_pass_input(2))

declare fill_loop.simps [simp del]

definition init_window :: "dstate \<Rightarrow> dstate" where
  "init_window s =
     (if high_water s < window_size s
      then let curr = strstart s + lookahead s in
           if high_water s < curr
           then let init = min (window_size s - curr) WIN_INIT in
                s\<lparr>window := zmemcpy (window s) curr (replicate init 0), high_water := curr + init\<rparr>
           else if high_water s < curr + WIN_INIT
           then let init = min (curr + WIN_INIT - high_water s) (window_size s - high_water s) in
                s\<lparr>window := zmemcpy (window s) (high_water s) (replicate init 0), high_water := high_water s + init\<rparr>
           else s
      else s)"

definition fill_window :: "dstate \<Rightarrow> dstate option" where
  "fill_window s = map_option init_window (fill_loop s)"

text \<open>The size of what is left to do, which every pass of the loops below makes smaller.\<close>

definition input_left :: "dstate \<Rightarrow> nat" where
  "input_left s = length (next_in s) + lookahead s"

lemma input_left_frame [simp]:
  "input_left (s\<lparr>tr := t\<rparr>) = input_left s" "input_left (s\<lparr>block_start := b\<rparr>) = input_left s"
  "input_left (s\<lparr>match_available := a\<rparr>) = input_left s" "input_left (s\<lparr>strstart := k\<rparr>) = input_left s"
  "input_left (s\<lparr>lookahead := n\<rparr>) = length (next_in s) + n"
  by (simp_all add: input_left_def)

lemma input_left_less: "input_left s = m \<Longrightarrow> lookahead s = l \<Longrightarrow> 0 < l \<Longrightarrow> length (next_in s) + (l - Suc 0) < m"
  by (simp add: input_left_def)

lemma input_left_fill_loop: "fill_loop s = Some s' \<Longrightarrow> input_left s' = input_left s"
proof (induction s rule: fill_loop.induct)
  case (1 s)
  obtain go s1 where p: "fill_pass s = (go, s1)" by force
  with 1 show ?case using fill_pass_input(1) [OF p]
    by (auto simp: fill_loop.simps [of s] input_left_def split: if_splits)
qed

lemma input_left_fill_window: "fill_window s = Some s' \<Longrightarrow> input_left s' = input_left s"
proof -
  have "input_left (init_window t) = input_left t" for t by (simp add: init_window_def input_left_def Let_def)
  then show "fill_window s = Some s' \<Longrightarrow> input_left s' = input_left s"
    by (auto simp: fill_window_def dest: input_left_fill_loop)
qed

section \<open>Ending a block\<close>

definition FLUSH_BLOCK_ONLY :: "dstate \<Rightarrow> bool \<Rightarrow> dstate option" where
  "FLUSH_BLOCK_ONLY s is_last = do {
     s \<leftarrow> on_trees (\<lambda>t. tr_flush_block t
            (if block_start s \<ge> 0 then Some (drop (nat (block_start s)) (window s)) else None)
            (nat (int (strstart s) - block_start s)) is_last) s;
     flush_pending (s\<lparr>block_start := int (strstart s)\<rparr>)
   }"

text \<open>\<open>FLUSH_BLOCK\<close>: the first result tells that the function has to return.\<close>

definition FLUSH_BLOCK :: "dstate \<Rightarrow> bool \<Rightarrow> (bool \<times> dstate) option" where
  "FLUSH_BLOCK s is_last = map_option (\<lambda>s. (avail_out s = 0, s)) (FLUSH_BLOCK_ONLY s is_last)"

lemma input_left_flush_pending: "flush_pending s = Some s' \<Longrightarrow> input_left s' = input_left s \<and> lookahead s' = lookahead s"
  by (auto simp: flush_pending_def flush_bits_def on_trees_def input_left_def Let_def bind_eq_Some_conv split: if_splits)

lemma input_left_FLUSH_BLOCK_ONLY:
  "FLUSH_BLOCK_ONLY s l = Some s' \<Longrightarrow> input_left s' = input_left s \<and> lookahead s' = lookahead s"
  by (auto simp: FLUSH_BLOCK_ONLY_def bind_eq_Some_conv on_trees_def split: if_splits dest!: input_left_flush_pending)

lemma input_left_FLUSH_BLOCK:
  "FLUSH_BLOCK s l = Some (full, s') \<Longrightarrow> input_left s' = input_left s \<and> lookahead s' = lookahead s"
  by (auto simp: FLUSH_BLOCK_def dest: input_left_FLUSH_BLOCK_ONLY)

text \<open>The end of the functions below, after the last symbol.\<close>

definition end_input :: "int \<Rightarrow> dstate \<Rightarrow> (block_state \<times> dstate) option" where
  "end_input flush s =
     (if flush = Z_FINISH
      then do { (full, s) \<leftarrow> FLUSH_BLOCK s True; Some (if full then finish_started else finish_done, s) }
      else if sym_next (tr s) \<noteq> 0
      then do { (full, s) \<leftarrow> FLUSH_BLOCK s False; Some (if full then need_more else block_done, s) }
      else Some (block_done, s))"

section \<open>Fast compression\<close>

text \<open>
  The hash of the string at \<open>strstart\<close> is inserted when three bytes are there; the result is
  the head of its chain.
\<close>

definition insert_current :: "dstate \<Rightarrow> nat \<times> dstate" where
  "insert_current s = (if lookahead s \<ge> MIN_MATCH then INSERT_STRING s (strstart s) else (0, s))"

definition tally_lit :: "dstate \<Rightarrow> byte \<Rightarrow> bool \<times> dstate" where
  "tally_lit s c = (let (bflush, t) = tr_tally_lit (tr s) c in (bflush, s\<lparr>tr := t\<rparr>))"

definition tally_dist :: "dstate \<Rightarrow> uint \<Rightarrow> nat \<Rightarrow> bool \<times> dstate" where
  "tally_dist s dist len = (let (bflush, t) = tr_tally_dist (tr s) (ucast dist) (of_nat len) in (bflush, s\<lparr>tr := t\<rparr>))"

text \<open>\<open>do { s->strstart++; INSERT_STRING(s, s->strstart, hash_head); } while (--s->match_length != 0)\<close>\<close>

fun insert_run :: "nat \<Rightarrow> dstate \<Rightarrow> dstate" where
  "insert_run 0 s = s"
| "insert_run (Suc n) s =
     (let s = s\<lparr>strstart := strstart s + 1\<rparr>;
          s = (snd (INSERT_STRING s (strstart s)))\<lparr>match_length := n\<rparr>
      in insert_run n s)"

definition skip_match :: "dstate \<Rightarrow> dstate" where
  "skip_match s =
     (if match_length s \<le> max_lazy_match s \<and> lookahead s \<ge> MIN_MATCH
      then let s = insert_run (match_length s - 1) s in s\<lparr>strstart := strstart s + 1\<rparr>
      else let s = s\<lparr>strstart := strstart s + match_length s, match_length := 0\<rparr>
           in s\<lparr>ins_h := UPDATE_HASH s (unat (window s ! strstart s)) (window s ! (strstart s + 1))\<rparr>)"

definition fast_pass :: "dstate \<Rightarrow> bool \<times> dstate" where
  "fast_pass s =
     (let (hash_head, s) = insert_current s;
          s = (if hash_head \<noteq> 0 \<and> strstart s - hash_head \<le> MAX_DIST s
               then let (len, s) = longest_match s hash_head in s\<lparr>match_length := len\<rparr> else s)
      in if match_length s \<ge> MIN_MATCH
         then let (bflush, s) = tally_dist s (of_nat (strstart s) - match_start s) (match_length s - MIN_MATCH);
                  s = s\<lparr>lookahead := lookahead s - match_length s\<rparr>
              in (bflush, skip_match s)
         else let (bflush, s) = tally_lit s (window s ! strstart s)
              in (bflush, s\<lparr>lookahead := lookahead s - 1, strstart := strstart s + 1\<rparr>))"

lemma input_left_INSERT: "input_left (snd (INSERT_STRING s str)) = input_left s"
  by (simp add: input_left_def)

lemma input_left_insert_run: "input_left (insert_run n s) = input_left s"
  by (induction n s rule: insert_run.induct) (simp_all add: Let_def input_left_def)

lemma insert_run_input [simp]: "next_in (insert_run n s) = next_in s" "lookahead (insert_run n s) = lookahead s"
  by (induction n s rule: insert_run.induct) (simp_all add: Let_def)

lemma longest_match_input: "longest_match s h = (len, s') \<Longrightarrow> next_in s' = next_in s \<and> lookahead s' = lookahead s"
  by (auto simp: longest_match_def Let_def split: prod.splits)

lemma insert_current_input: "insert_current s = (h, s') \<Longrightarrow> next_in s' = next_in s \<and> lookahead s' = lookahead s"
  by (auto simp: insert_current_def INSERT_STRING_def Let_def split: if_splits)

lemma fast_pass_input:
  assumes "fast_pass s = (b, s')" "lookahead s \<noteq> 0"
  shows "input_left s' < input_left s"
  using assms
  by (auto simp: fast_pass_def tally_dist_def tally_lit_def skip_match_def input_left_def Let_def MIN_MATCH_def
      split: if_splits prod.splits dest!: longest_match_input insert_current_input)

definition end_matches :: "int \<Rightarrow> dstate \<Rightarrow> (block_state \<times> dstate) option" where
  "end_matches flush s = end_input flush (s\<lparr>insert_cnt := min (strstart s) (MIN_MATCH - 1)\<rparr>)"

text \<open>
  The top of the loops: enough lookahead, except at the end of the input. \<open>Some False\<close> is the
  \<open>break\<close>, \<open>None\<close> the return of \<open>need_more\<close>.
\<close>

definition look_ahead :: "nat \<Rightarrow> int \<Rightarrow> dstate \<Rightarrow> (bool option \<times> dstate) option" where
  "look_ahead need flush s =
     (if lookahead s < need
      then do {
        s \<leftarrow> fill_window s;
        Some (if lookahead s < need \<and> flush = Z_NO_FLUSH then None else Some (lookahead s \<noteq> 0), s)
      }
      else Some (Some True, s))"

lemma look_ahead_input:
  assumes "look_ahead need flush s = Some (r, s')"
  shows "input_left s' = input_left s \<and> (r = Some True \<longrightarrow> need \<noteq> 0 \<longrightarrow> lookahead s' \<noteq> 0)"
  using assms by (auto simp: look_ahead_def bind_eq_Some_conv split: if_splits dest: input_left_fill_window)

function deflate_fast :: "int \<Rightarrow> dstate \<Rightarrow> (block_state \<times> dstate) option" where
  "deflate_fast flush s = do {
     (go, s) \<leftarrow> look_ahead MIN_LOOKAHEAD flush s;
     case go of None \<Rightarrow> Some (need_more, s)
     | Some False \<Rightarrow> end_matches flush s
     | Some True \<Rightarrow>
         let (bflush, s) = fast_pass s in
         if bflush
         then do {
           (full, s) \<leftarrow> FLUSH_BLOCK s False;
           if full then Some (need_more, s) else deflate_fast flush s
         }
         else deflate_fast flush s
   }"
  by pat_completeness auto
termination
  by (relation "measure (\<lambda>(flush, s). input_left s)")
    (auto simp: MIN_LOOKAHEAD_def MAX_MATCH_def dest!: look_ahead_input input_left_FLUSH_BLOCK
      dest: fast_pass_input [OF sym])

declare deflate_fast.simps [simp del]

section \<open>Lazy matching\<close>

text \<open>\<open>do { if (++s->strstart <= max_insert) INSERT_STRING(s, s->strstart, hash_head); } while (--s->prev_length != 0)\<close>\<close>

fun insert_upto :: "nat \<Rightarrow> nat \<Rightarrow> dstate \<Rightarrow> dstate" where
  "insert_upto max_insert 0 s = s"
| "insert_upto max_insert (Suc n) s =
     (let s = s\<lparr>strstart := strstart s + 1\<rparr>;
          s = (if strstart s \<le> max_insert then snd (INSERT_STRING s (strstart s)) else s)
      in insert_upto max_insert n (s\<lparr>prev_length := n\<rparr>))"

text \<open>Look for a match that is better than the one of the string before.\<close>

definition lazy_match :: "nat \<Rightarrow> dstate \<Rightarrow> dstate" where
  "lazy_match hash_head s =
     (let s = s\<lparr>prev_match := match_start s, match_length := MIN_MATCH - 1, prev_length := match_length s\<rparr> in
      if hash_head \<noteq> 0 \<and> prev_length s < max_lazy_match s \<and> strstart s - hash_head \<le> MAX_DIST s
      then let (len, s) = longest_match s hash_head in
           s\<lparr>match_length := (if len \<le> 5 \<and> (strategy (tr s) = Z_FILTERED \<or>
               len = MIN_MATCH \<and> of_nat (strstart s) - match_start s > TOO_FAR) then MIN_MATCH - 1 else len)\<rparr>
      else s)"

definition slow_match :: "dstate \<Rightarrow> bool \<times> dstate" where
  "slow_match s =
     (let max_insert = strstart s + lookahead s - MIN_MATCH;
          (bflush, s) = tally_dist s (of_nat (strstart s) - 1 - prev_match s) (prev_length s - MIN_MATCH);
          s = s\<lparr>lookahead := lookahead s - (prev_length s - 1)\<rparr>;
          s = insert_upto max_insert (prev_length s - 2) s
      in (bflush, s\<lparr>match_length := MIN_MATCH - 1, match_available := False, strstart := strstart s + 1\<rparr>))"

lemma insert_upto_input [simp]: "next_in (insert_upto m n s) = next_in s" "lookahead (insert_upto m n s) = lookahead s"
  by (induction m n s rule: insert_upto.induct) (simp_all add: Let_def)

lemma lazy_match_input [simp]: "next_in (lazy_match h s) = next_in s" "lookahead (lazy_match h s) = lookahead s"
  by (auto simp: lazy_match_def Let_def split: prod.splits dest!: longest_match_input)

lemma slow_match_input:
  assumes "slow_match s = (b, s')" "lookahead s \<noteq> 0" "prev_length s \<ge> MIN_MATCH"
  shows "input_left s' < input_left s"
  using assms by (auto simp: slow_match_def tally_dist_def input_left_def Let_def MIN_MATCH_def split: prod.splits)

lemma lazy_match_left [simp]: "input_left (lazy_match h s) = input_left s"
  by (simp add: input_left_def)

lemma insert_current_left:
  "(h, s') = insert_current s \<Longrightarrow> input_left s' = input_left s \<and> lookahead s' = lookahead s"
  by (drule sym, drule insert_current_input) (simp add: input_left_def)

lemma slow_match_left:
  "(b, s') = slow_match s \<Longrightarrow> lookahead s \<noteq> 0 \<Longrightarrow> prev_length s \<ge> MIN_MATCH \<Longrightarrow> input_left s' < input_left s"
  by (rule slow_match_input [OF sym])

lemma tally_left:
  "(b, s') = tally_lit s c \<Longrightarrow> input_left s' = input_left s \<and> lookahead s' = lookahead s"
  by (auto simp: tally_lit_def input_left_def split: prod.splits)

lemma tally_input:
  "tally_lit s c = (b, s') \<Longrightarrow> next_in s' = next_in s \<and> lookahead s' = lookahead s"
  "tally_dist s d n = (b, s') \<Longrightarrow> next_in s' = next_in s \<and> lookahead s' = lookahead s"
  by (auto simp: tally_lit_def tally_dist_def split: prod.splits)

function deflate_slow :: "int \<Rightarrow> dstate \<Rightarrow> (block_state \<times> dstate) option" where
  "deflate_slow flush s = do {
     (go, s) \<leftarrow> look_ahead MIN_LOOKAHEAD flush s;
     case go of None \<Rightarrow> Some (need_more, s)
     | Some False \<Rightarrow>
         end_matches flush (if match_available s
           then (snd (tally_lit s (window s ! (strstart s - 1))))\<lparr>match_available := False\<rparr> else s)
     | Some True \<Rightarrow>
         let (hash_head, s) = insert_current s; s = lazy_match hash_head s in
         if prev_length s \<ge> MIN_MATCH \<and> match_length s \<le> prev_length s
         then let (bflush, s) = slow_match s in
              if bflush
              then do {
                (full, s) \<leftarrow> FLUSH_BLOCK s False;
                if full then Some (need_more, s) else deflate_slow flush s
              }
              else deflate_slow flush s
         else if match_available s
         then let (bflush, s) = tally_lit s (window s ! (strstart s - 1)) in do {
                s \<leftarrow> (if bflush then FLUSH_BLOCK_ONLY s False else Some s);
                let s = s\<lparr>strstart := strstart s + 1, lookahead := lookahead s - 1\<rparr>;
                if avail_out s = 0 then Some (need_more, s) else deflate_slow flush s
              }
         else deflate_slow flush (s\<lparr>match_available := True, strstart := strstart s + 1, lookahead := lookahead s - 1\<rparr>)
   }"
  by pat_completeness auto
termination
  by (relation "measure (\<lambda>(flush, s). input_left s)")
    (auto simp: MIN_LOOKAHEAD_def MAX_MATCH_def dest!: look_ahead_input input_left_FLUSH_BLOCK input_left_FLUSH_BLOCK_ONLY
      insert_current_left tally_left split: if_splits dest: slow_match_left intro: input_left_less)

declare deflate_slow.simps [simp del]

section \<open>Runs and literals only\<close>

text \<open>\<open>prev == *++scan\<close>, \<open>n\<close> times.\<close>

fun run_steps :: "byte list \<Rightarrow> byte \<Rightarrow> nat \<Rightarrow> nat \<Rightarrow> bool \<times> nat" where
  "run_steps w p 0 scan = (True, scan)"
| "run_steps w p (Suc n) scan = (if p = w ! (scan + 1) then run_steps w p n (scan + 1) else (False, scan + 1))"

lemma run_steps_scan: "run_steps w p n scan = (eq, scan') \<Longrightarrow> scan \<le> scan' \<and> scan' \<le> scan + n \<and> (eq \<longrightarrow> scan' = scan + n)"
  by (induction w p n scan rule: run_steps.induct) (auto split: if_splits)

function run_loop :: "byte list \<Rightarrow> byte \<Rightarrow> nat \<Rightarrow> nat \<Rightarrow> nat" where
  "run_loop w p strend scan =
     (let (eq, scan') = run_steps w p 8 scan in if eq \<and> scan' < strend then run_loop w p strend scan' else scan')"
  by pat_completeness auto
termination
  by (relation "measure (\<lambda>(w, p, strend, scan). strend - scan)") (auto dest!: sym [THEN run_steps_scan])

declare run_loop.simps [simp del]

definition run_length :: "dstate \<Rightarrow> nat" where
  "run_length s =
     (if lookahead s \<ge> MIN_MATCH \<and> strstart s > 0
      then let scan = strstart s - 1; p = window s ! scan; strend = strstart s + MAX_MATCH in
           if p = window s ! (scan + 1) \<and> p = window s ! (scan + 2) \<and> p = window s ! (scan + 3)
           then min (MAX_MATCH - (strend - run_loop (window s) p strend (scan + 3))) (lookahead s)
           else 0
      else 0)"

definition rle_pass :: "dstate \<Rightarrow> bool \<times> dstate" where
  "rle_pass s =
     (let s = s\<lparr>match_length := run_length s\<rparr> in
      if match_length s \<ge> MIN_MATCH
      then let (bflush, s) = tally_dist s 1 (match_length s - MIN_MATCH)
           in (bflush, s\<lparr>match_length := 0, strstart := strstart s + match_length s, lookahead := lookahead s - match_length s\<rparr>)
      else let (bflush, s) = tally_lit s (window s ! strstart s)
           in (bflush, s\<lparr>strstart := strstart s + 1, lookahead := lookahead s - 1\<rparr>))"

definition end_runs :: "int \<Rightarrow> dstate \<Rightarrow> (block_state \<times> dstate) option" where
  "end_runs flush s = end_input flush (s\<lparr>insert_cnt := 0\<rparr>)"

lemma rle_pass_left:
  "(b, s') = rle_pass s \<Longrightarrow> lookahead s \<noteq> 0 \<Longrightarrow> input_left s' < input_left s"
  by (auto simp: rle_pass_def tally_lit_def tally_dist_def Let_def input_left_def MIN_MATCH_def split: if_splits prod.splits)

function deflate_rle :: "int \<Rightarrow> dstate \<Rightarrow> (block_state \<times> dstate) option" where
  "deflate_rle flush s = do {
     (go, s) \<leftarrow> look_ahead (MAX_MATCH + 1) flush s;
     case go of None \<Rightarrow> Some (need_more, s)
     | Some False \<Rightarrow> end_runs flush s
     | Some True \<Rightarrow>
         let (bflush, s) = rle_pass s in
         if bflush
         then do {
           (full, s) \<leftarrow> FLUSH_BLOCK s False;
           if full then Some (need_more, s) else deflate_rle flush s
         }
         else deflate_rle flush s
   }"
  by pat_completeness auto
termination
  by (relation "measure (\<lambda>(flush, s). input_left s)")
    (auto dest!: look_ahead_input input_left_FLUSH_BLOCK dest: rle_pass_left)

declare deflate_rle.simps [simp del]

definition huff_pass :: "dstate \<Rightarrow> bool \<times> dstate" where
  "huff_pass s =
     (let (bflush, s) = tally_lit (s\<lparr>match_length := 0\<rparr>) (window s ! strstart s)
      in (bflush, s\<lparr>strstart := strstart s + 1, lookahead := lookahead s - 1\<rparr>))"

lemma huff_pass_left:
  "(b, s') = huff_pass s \<Longrightarrow> lookahead s \<noteq> 0 \<Longrightarrow> input_left s' < input_left s"
  by (auto simp: huff_pass_def tally_lit_def Let_def input_left_def split: prod.splits)

function deflate_huff :: "int \<Rightarrow> dstate \<Rightarrow> (block_state \<times> dstate) option" where
  "deflate_huff flush s = do {
     (go, s) \<leftarrow> look_ahead 1 flush s;
     case go of None \<Rightarrow> Some (need_more, s)
     | Some False \<Rightarrow> end_runs flush s
     | Some True \<Rightarrow>
         let (bflush, s) = huff_pass s in
         if bflush
         then do {
           (full, s) \<leftarrow> FLUSH_BLOCK s False;
           if full then Some (need_more, s) else deflate_huff flush s
         }
         else deflate_huff flush s
   }"
  by pat_completeness auto
termination
  by (relation "measure (\<lambda>(flush, s). input_left s)")
    (auto dest!: look_ahead_input input_left_FLUSH_BLOCK dest: huff_pass_left)

declare deflate_huff.simps [simp del]

section \<open>Stored blocks\<close>

text \<open>The bytes of the window since \<open>block_start\<close>.\<close>

definition window_left :: "dstate \<Rightarrow> nat" where
  "window_left s = nat (int (strstart s) - block_start s)"

definition header_bytes :: "dstate \<Rightarrow> nat" where
  "header_bytes s = (bi_valid (tr s) + 42) div 8"

text \<open>The largest block that fits in the output, and whether it is worthwhile to write it.\<close>

definition direct_len :: "dstate \<Rightarrow> nat" where
  "direct_len s = min (min MAX_STORED (window_left s + length (next_in s))) (avail_out s - header_bytes s)"

definition direct_worthy :: "nat \<Rightarrow> int \<Rightarrow> dstate \<Rightarrow> bool" where
  "direct_worthy min_block flush s \<longleftrightarrow>
     (let len = direct_len s in
      \<not> (len < min_block \<and> (len = 0 \<and> flush \<noteq> Z_FINISH \<or> flush = Z_NO_FLUSH \<or> len \<noteq> window_left s + length (next_in s))))"

text \<open>Replace the lengths in the empty stored block at the end of \<open>pending_buf\<close>.\<close>

definition patch_stored :: "nat \<Rightarrow> trees_state \<Rightarrow> trees_state" where
  "patch_stored len t =
     (let n = length (pending_buf t) in
      t\<lparr>pending_buf := (pending_buf t)[n - 4 := of_nat len, n - 3 := of_nat (len div 256),
          n - 2 := NOT (of_nat len), n - 1 := NOT (of_nat (len div 256))]\<rparr>)"

definition copy_window :: "nat \<Rightarrow> dstate \<Rightarrow> dstate" where
  "copy_window left s =
     s\<lparr>next_out := next_out s @ take left (drop (nat (block_start s)) (window s)), avail_out := avail_out s - left,
       total_out := total_out s + of_nat left, block_start := block_start s + int left\<rparr>"

definition copy_input :: "nat \<Rightarrow> dstate \<Rightarrow> dstate" where
  "copy_input len s =
     (let (buf, s) = read_buf s len in
      s\<lparr>next_out := next_out s @ buf, avail_out := avail_out s - len, total_out := total_out s + of_nat len\<rparr>)"

definition direct_copy :: "nat \<Rightarrow> nat \<Rightarrow> dstate \<Rightarrow> dstate" where
  "direct_copy len left s =
     (let left = min left len;
          s = (if left = 0 then s else copy_window left s);
          len = len - left
      in if len = 0 then s else copy_input len s)"

definition direct_block :: "bool \<Rightarrow> dstate \<Rightarrow> dstate option" where
  "direct_block is_last s =
     (let len = direct_len s; left = window_left s in do {
        s \<leftarrow> on_trees (\<lambda>t. patch_stored len (tr_stored_block t [] is_last)) s;
        s \<leftarrow> flush_pending s;
        Some (direct_copy len left s)
      })"

lemma avail_flush_pending: "flush_pending s = Some s' \<Longrightarrow> pending s \<noteq> 0 \<Longrightarrow> avail_out s \<noteq> 0 \<Longrightarrow> avail_out s' < avail_out s"
  by (auto simp: flush_pending_def flush_bits_def on_trees_def bind_eq_Some_conv Let_def pending_def tr_flush_bits_def
      bi_flush_def put_short_def put_byte_def min_def split: if_splits intro!: diff_less;
      cases "pending_buf (tr s)"; simp)

lemma pending_patch: "pending (s\<lparr>tr := patch_stored n t\<rparr>) = length (pending_buf t)"
  by (simp add: pending_def patch_stored_def Let_def)

lemma avail_direct_copy: "avail_out (direct_copy len left s) \<le> avail_out s"
  by (auto simp: direct_copy_def copy_input_def copy_window_def read_buf_def Let_def)

lemma direct_block_avail:
  assumes "direct_block l s = Some s'" "header_bytes s \<le> avail_out s"
  shows "avail_out s' < avail_out s"
proof -
  let ?s = "s\<lparr>tr := patch_stored (direct_len s) (tr_stored_block (tr s) [] l)\<rparr>"
  obtain s1 where s1: "flush_pending ?s = Some s1" "avail_out s' \<le> avail_out s1"
    using assms(1) avail_direct_copy
    by (auto simp: direct_block_def bind_eq_Some_conv on_trees_def Let_def split: if_splits)
  have "pending ?s \<noteq> 0"
    by (simp add: pending_patch tr_stored_block_def Let_def put_short_def put_byte_def)
  moreover have "avail_out s \<noteq> 0" using assms(2) by (simp add: header_bytes_def)
  ultimately have "avail_out s1 < avail_out ?s" using avail_flush_pending [OF s1(1)] by simp
  with s1(2) show ?thesis by simp
qed

function stored_loop :: "nat \<Rightarrow> int \<Rightarrow> dstate \<Rightarrow> (bool \<times> dstate) option" where
  "stored_loop min_block flush s =
     (if avail_out s < header_bytes s \<or> \<not> direct_worthy min_block flush s then Some (False, s)
      else let is_last = (flush = Z_FINISH \<and> direct_len s = window_left s + length (next_in s)) in do {
        s \<leftarrow> direct_block is_last s;
        if is_last then Some (True, s) else stored_loop min_block flush s
      })"
  by pat_completeness auto
termination
  by (relation "measure (\<lambda>(m, flush, s). avail_out s)") (auto intro: direct_block_avail)

declare stored_loop.simps [simp del]

text \<open>\<open>matches\<close> counts the slides that the hash tables have missed.\<close>

definition miss_slide :: "dstate \<Rightarrow> dstate" where
  "miss_slide s = s\<lparr>tr := (tr s)\<lparr>matches := (if matches (tr s) < 2 then matches (tr s) + 1 else matches (tr s))\<rparr>,
     window := zmemcpy (window s) 0 (take (strstart s - w_size s) (drop (w_size s) (window s))),
     strstart := strstart s - w_size s, insert_cnt := min (insert_cnt s) (strstart s - w_size s)\<rparr>"

text \<open>\<open>bs\<close> are the bytes that were copied directly from the input to the output.\<close>

definition keep_window :: "byte list \<Rightarrow> dstate \<Rightarrow> dstate" where
  "keep_window bs s =
     (if bs = [] then s
      else let s = (if length bs \<ge> w_size s
             then s\<lparr>tr := (tr s)\<lparr>matches := 2\<rparr>, window := zmemcpy (window s) 0 (drop (length bs - w_size s) bs),
                    strstart := w_size s, insert_cnt := w_size s\<rparr>
             else let s = (if window_size s - strstart s \<le> length bs then miss_slide s else s)
                  in s\<lparr>window := zmemcpy (window s) (strstart s) bs, strstart := strstart s + length bs,
                       insert_cnt := insert_cnt s + min (length bs) (w_size s - insert_cnt s)\<rparr>)
           in s\<lparr>block_start := int (strstart s)\<rparr>)"

definition raise_water :: "dstate \<Rightarrow> dstate" where
  "raise_water s = s\<lparr>high_water := max (high_water s) (strstart s)\<rparr>"

definition stored_fill :: "dstate \<Rightarrow> dstate" where
  "stored_fill s =
     (let have = window_size s - strstart s;
          slide = length (next_in s) > have \<and> block_start s \<ge> int (w_size s);
          have = (if slide then have + w_size s else have);
          s = (if slide then miss_slide (s\<lparr>block_start := block_start s - int (w_size s)\<rparr>) else s);
          have = min have (length (next_in s));
          s = (if have = 0 then s
               else let (buf, s) = read_buf s have in
                    s\<lparr>window := zmemcpy (window s) (strstart s) buf, strstart := strstart s + have,
                      insert_cnt := insert_cnt s + min have (w_size s - insert_cnt s)\<rparr>)
      in raise_water s)"

definition stored_pending :: "int \<Rightarrow> dstate \<Rightarrow> (bool \<times> dstate) option" where
  "stored_pending flush s =
     (let have = min (pending_buf_size s - header_bytes s) MAX_STORED;
          min_block = min have (w_size s);
          left = window_left s
      in if left \<ge> min_block \<or>
            (left \<noteq> 0 \<or> flush = Z_FINISH) \<and> flush \<noteq> Z_NO_FLUSH \<and> next_in s = [] \<and> left \<le> have
         then let len = min left have;
                  is_last = (flush = Z_FINISH \<and> next_in s = [] \<and> len = left)
              in do {
                s \<leftarrow> on_trees (\<lambda>t. tr_stored_block t (take len (drop (nat (block_start s)) (window s))) is_last) s;
                s \<leftarrow> flush_pending (s\<lparr>block_start := block_start s + int len\<rparr>);
                Some (is_last, s)
              }
         else Some (False, s))"

definition deflate_stored :: "int \<Rightarrow> dstate \<Rightarrow> (block_state \<times> dstate) option" where
  "deflate_stored flush s =
     (let min_block = min (pending_buf_size s - 5) (w_size s); input = next_in s in do {
        (is_last, s) \<leftarrow> stored_loop min_block flush s;
        let used = length input - length (next_in s);
        let s = raise_water (keep_window (take used input) s);
        if is_last then Some (finish_done, s)
        else if flush \<noteq> Z_NO_FLUSH \<and> flush \<noteq> Z_FINISH \<and> next_in s = [] \<and> int (strstart s) = block_start s
        then Some (block_done, s)
        else do {
          (is_last, s) \<leftarrow> stored_pending flush (stored_fill s);
          Some (if is_last then finish_started else need_more, s)
        }
      })"

end
