(* ===== verification/Deflate_Match.thy ===== *)
theory Deflate_Match
  imports Deflate
begin

text \<open>
  The hash chains and the search for matches of \<open>deflate.c\<close>. The chains link positions with
  equal hash keys backwards; because the keys are equal, the comparison may skip the third
  byte. What \<open>longest_match\<close> finds are equal strings, whatever bytes are behind the input.
\<close>

section \<open>Sizes\<close>

definition wf_sizes :: "dstate \<Rightarrow> bool" where
  "wf_sizes s \<longleftrightarrow> 9 \<le> w_bits s \<and> w_bits s \<le> 15 \<and> 1 \<le> mem_level s \<and> mem_level s \<le> 9 \<and>
     length (window s) = window_size s \<and> length (prev s) = w_size s \<and> length (head s) = hash_size s"

lemma w_size_bounds:
  assumes "wf_sizes s"
  shows "512 \<le> w_size s" "w_size s \<le> 32768" "window_size s \<le> 65536"
proof -
  have "(2 :: nat) ^ 9 \<le> w_size s" unfolding w_size_def by (rule power_increasing) (use assms in \<open>auto simp: wf_sizes_def\<close>)
  moreover have "w_size s \<le> 2 ^ 15" unfolding w_size_def by (rule power_increasing) (use assms in \<open>auto simp: wf_sizes_def\<close>)
  ultimately show "512 \<le> w_size s" "w_size s \<le> 32768" "window_size s \<le> 65536" by (simp_all add: window_size_def)
qed

lemma and_w_mask: "n AND w_mask s = n mod w_size s"
  unfolding w_mask_def w_size_def using take_bit_eq_mask [of "w_bits s" n] by (simp add: take_bit_eq_mod mask_eq_exp_minus_1)

section \<open>Comparing strings\<close>

definition same :: "byte list \<Rightarrow> nat \<Rightarrow> nat \<Rightarrow> nat \<Rightarrow> bool" where
  "same w a b n \<longleftrightarrow> (\<forall>i < n. w ! (a + i) = w ! (b + i))"

lemma cmp_run_same: "cmp_run w n scan match = (eq, scan') \<Longrightarrow> scan < i \<Longrightarrow> i < scan' \<or> eq \<and> i = scan' \<Longrightarrow> w ! i = w ! (match + (i - scan))"
proof (induction w n scan match rule: cmp_run.induct)
  case (2 w n scan match)
  show ?case
  proof (cases "w ! (scan + 1) = w ! (match + 1)")
    case True
    then have r: "cmp_run w n (scan + 1) (match + 1) = (eq, scan')" using 2 by simp
    show ?thesis
    proof (cases "i = scan + 1")
      case False
      then have "w ! i = w ! (match + 1 + (i - (scan + 1)))" using 2 True r by auto
      moreover have "match + 1 + (i - (scan + 1)) = match + (i - scan)" using 2(3) False by simp
      ultimately show ?thesis by (simp only:)
    qed (use True in simp)
  qed (use 2 in auto)
qed auto

lemma cmp_loop_same: "scan < i \<Longrightarrow> i < cmp_loop w strend scan match \<Longrightarrow> w ! i = w ! (match + (i - scan))"
proof (induction w strend scan match rule: cmp_loop.induct)
  case (1 w strend scan match)
  obtain eq scan' where r: "cmp_run w 8 scan match = (eq, scan')" by force
  note sc = cmp_run_scan [OF r]
  show ?case
  proof (cases "eq \<and> scan' < strend")
    case True
    then have l: "cmp_loop w strend scan match = cmp_loop w strend scan' (match + 8)" using r by (simp add: cmp_loop.simps)
    show ?thesis
    proof (cases "i \<le> scan'")
      case True
      then show ?thesis using cmp_run_same [OF r] 1 \<open>eq \<and> scan' < strend\<close> by (metis le_neq_implies_less)
    next
      case False
      then have "w ! i = w ! (match + 8 + (i - scan'))" using 1 r True l by auto
      then show ?thesis using False sc True by simp
    qed
  next
    case False
    then have "cmp_loop w strend scan match = scan'" using r by (auto simp: cmp_loop.simps)
    then show ?thesis using cmp_run_same [OF r] 1 by simp
  qed
qed

lemma cmp_loop_bounds: "8 dvd strend - scan \<Longrightarrow> scan < strend \<Longrightarrow> scan < cmp_loop w strend scan match \<and> cmp_loop w strend scan match \<le> strend"
proof (induction w strend scan match rule: cmp_loop.induct)
  case (1 w strend scan match)
  obtain eq scan' where r: "cmp_run w 8 scan match = (eq, scan')" by force
  note sc = cmp_run_scan [OF r]
  have lt: "scan < scan'" using r by (auto simp: eval_nat_numeral split: if_splits dest: cmp_run_scan)
  have d: "scan + 8 \<le> strend" using dvd_imp_le [OF 1(2)] 1(3) by simp
  show ?case
  proof (cases "eq \<and> scan' < strend")
    case True
    have "strend - scan' = strend - scan - 8" using True sc by simp
    then have "8 dvd strend - scan'" using 1(2) by (simp only: dvd_diff_nat dvd_refl)
    then have "scan' < cmp_loop w strend scan' (match + 8) \<and> cmp_loop w strend scan' (match + 8) \<le> strend"
      using 1(1) r True by auto
    then show ?thesis using True r lt by (simp add: cmp_loop.simps [of w strend scan])
  next
    case False
    then have "cmp_loop w strend scan match = scan'" using r by (auto simp: cmp_loop.simps)
    then show ?thesis using lt sc d by auto
  qed
qed

lemma match_at_same:
  assumes "match_at s cur best = Some len" "window s ! (cur + 2) = window s ! (strstart s + 2)"
  shows "same (window s) cur (strstart s) len" "3 \<le> len" "len \<le> 258"
proof -
  let ?w = "window s" and ?c = "cmp_loop (window s) (strstart s + MAX_MATCH) (strstart s + 2) (cur + 2)"
  have len: "len = MAX_MATCH - (strstart s + MAX_MATCH - ?c)" and eq: "?w ! cur = ?w ! strstart s" "?w ! (cur + 1) = ?w ! (strstart s + 1)"
    using assms(1) by (auto simp: match_at_def Let_def split: if_splits)
  have c: "strstart s + 2 < ?c" "?c \<le> strstart s + MAX_MATCH"
    using cmp_loop_bounds [of "strstart s + MAX_MATCH" "strstart s + 2" ?w "cur + 2"] by (auto simp: MAX_MATCH_def)
  then have l: "len = ?c - strstart s" using len by auto
  show "3 \<le> len" "len \<le> 258" using c l by (auto simp: MAX_MATCH_def)
  show "same ?w cur (strstart s) len" unfolding same_def
  proof (intro allI impI)
    fix i assume i: "i < len"
    consider "i = 0" | "i = 1" | "i = 2" | "2 < i" by linarith
    then show "?w ! (cur + i) = ?w ! (strstart s + i)"
    proof cases
      case 4
      then have "?w ! (strstart s + i) = ?w ! (cur + 2 + (strstart s + i - (strstart s + 2)))"
        using i l 4 by (intro cmp_loop_same [where strend = "strstart s + MAX_MATCH" and match = "cur + 2"]) auto
      moreover have "cur + 2 + (strstart s + i - (strstart s + 2)) = cur + i" using 4 by simp
      ultimately show ?thesis by (simp only:)
    qed (use eq assms(2) in auto)
  qed
qed

section \<open>Hash keys\<close>

lemma bit_UPDATE_HASH: "bit (UPDATE_HASH s h c) i \<longleftrightarrow> i < hash_bits s \<and> ((hash_shift s \<le> i \<and> bit h (i - hash_shift s)) \<noteq> bit c i)"
proof -
  have "UPDATE_HASH s h c = take_bit (hash_bits s) (push_bit (hash_shift s) h XOR unat c)"
    by (simp add: UPDATE_HASH_def hash_mask_def hash_size_def take_bit_eq_mask mask_eq_exp_minus_1)
  then show ?thesis by (auto simp: bit_simps)
qed

lemma hash_shift_3: "hash_bits s \<le> 3 * hash_shift s" "8 \<le> hash_bits s \<or> mem_level s = 0"
  by (auto simp: hash_shift_def MIN_MATCH_def hash_bits_def)

definition key3 :: "dstate \<Rightarrow> nat \<Rightarrow> byte \<Rightarrow> byte \<Rightarrow> byte \<Rightarrow> nat" where
  "key3 s h a b c = UPDATE_HASH s (UPDATE_HASH s (UPDATE_HASH s h a) b) c"

text \<open>After three bytes the hash value does not depend on earlier ones.\<close>

lemma key3_forgets: "key3 s h a b c = key3 s 0 a b c"
proof (rule bit_eqI)
  fix i
  have "i < hash_bits s \<Longrightarrow> hash_shift s \<le> i \<Longrightarrow> hash_shift s \<le> i - hash_shift s \<Longrightarrow> \<not> hash_shift s \<le> i - hash_shift s - hash_shift s"
    using hash_shift_3(1) [of s] by linarith
  then show "bit (key3 s h a b c) i = bit (key3 s 0 a b c) i"
    unfolding key3_def bit_UPDATE_HASH by auto
qed

text \<open>Equal keys and equal first two bytes: the third byte is equal.\<close>

lemma key3_third:
  assumes "key3 s 0 a b c = key3 s 0 a b c'" "1 \<le> mem_level s"
  shows "c = c'"
proof (rule bit_eqI)
  fix i
  assume "possible_bit TYPE(byte) i"
  then have "i < hash_bits s" using assms(2) by (simp add: hash_bits_def)
  moreover have "bit (key3 s 0 a b c) i = bit (key3 s 0 a b c') i" using assms(1) by simp
  ultimately show "bit c i = bit c' i" unfolding key3_def bit_UPDATE_HASH [of s _ c] bit_UPDATE_HASH [of s _ c'] by auto
qed

definition key :: "dstate \<Rightarrow> nat \<Rightarrow> nat" where
  "key s k = key3 s 0 (window s ! k) (window s ! (k + 1)) (window s ! (k + 2))"

text \<open>The running hash value has taken in the two bytes at \<open>k\<close>.\<close>

definition primed :: "dstate \<Rightarrow> nat \<Rightarrow> bool" where
  "primed s k \<longleftrightarrow> (\<exists>h. ins_h s = UPDATE_HASH s (UPDATE_HASH s h (window s ! k)) (window s ! (k + 1)))"

lemma primed_key: "primed s k \<Longrightarrow> UPDATE_HASH s (ins_h s) (window s ! (k + 2)) = key s k"
  unfolding primed_def key_def by (metis key3_def key3_forgets)

lemma UPDATE_HASH_bound: "UPDATE_HASH s h c < hash_size s"
proof -
  have "UPDATE_HASH s h c = take_bit (hash_bits s) (push_bit (hash_shift s) h XOR unat c)"
    by (simp add: UPDATE_HASH_def hash_mask_def hash_size_def take_bit_eq_mask mask_eq_exp_minus_1)
  then show ?thesis by (simp only: hash_size_def take_bit_nat_less_exp)
qed

lemma key_bound: "key s k < hash_size s"
  by (simp add: key_def key3_def UPDATE_HASH_bound)

section \<open>Chains\<close>

text \<open>
  \<open>C\<close> are the positions inserted so far. The entry of \<open>prev\<close> for a position is its own until
  the position one window further is inserted.
\<close>

definition link_ok :: "dstate \<Rightarrow> nat set \<Rightarrow> nat \<Rightarrow> nat \<Rightarrow> bool" where
  "link_ok s C k h \<longleftrightarrow> h = 0 \<or> h \<in> C \<and> key s h = k"

definition chains :: "dstate \<Rightarrow> nat set \<Rightarrow> bool" where
  "chains s C \<longleftrightarrow> (\<forall>h \<in> C. 0 < h \<and> h < window_size s) \<and>
     (\<forall>k < hash_size s. link_ok s C k (unat (head s ! k))) \<and>
     (\<forall>h \<in> C. h + w_size s \<notin> C \<longrightarrow>
        (let p = unat (prev s ! (h mod w_size s)) in p < h \<and> link_ok s C (key s h) p))"

lemma chains_frame:
  assumes "w_bits s' = w_bits s" "mem_level s' = mem_level s" "prev s' = prev s" "head s' = head s"
    "\<And>k. k \<in> C \<Longrightarrow> key s' k = key s k"
  shows "chains s' C = chains s C"
proof -
  have "w_size s' = w_size s" "window_size s' = window_size s" "hash_size s' = hash_size s"
    using assms(1,2) by (simp_all add: w_size_def window_size_def hash_size_def hash_bits_def)
  moreover have "link_ok s' C k h = link_ok s C k h" for k h using assms(5) by (auto simp: link_ok_def)
  ultimately show ?thesis using assms by (simp add: chains_def)
qed

lemma chains_insert:
  assumes c: "chains s C" and sz: "wf_sizes s" and pr: "primed s str" and str: "\<forall>h \<in> C. h < str" "str < window_size s"
    and ins: "INSERT_STRING s str = (m, s')"
  shows "chains s' (if str = 0 then C else insert str C)" "link_ok s C (key s str) m"
proof -
  let ?k = "key s str" and ?C = "if str = 0 then C else insert str C" and ?W = "w_size s"
  have k: "UPDATE_HASH s (ins_h s) (window s ! (str + (MIN_MATCH - 1))) = ?k"
    using primed_key [OF pr] by (simp add: MIN_MATCH_def)
  have m: "m = unat (head s ! ?k)" and s': "s' = s\<lparr>prev := (prev s)[str mod ?W := head s ! ?k], head := (head s)[?k := of_nat str], ins_h := ?k\<rparr>"
    using ins unfolding INSERT_STRING_def Let_def k and_w_mask by auto
  show l: "link_ok s C ?k m" using c key_bound by (simp add: chains_def m)
  have W: "0 < ?W" "window_size s = 2 * ?W" "?W \<le> 32768" using w_size_bounds [OF sz] by (simp_all add: window_size_def)
  have us: "unat (of_nat str :: ush) = str"
    using str(2) w_size_bounds(3) [OF sz] by (simp add: unat_of_nat take_bit_nat_eq_self)
  have key': "key s' h = key s h" for h
    by (simp add: s' key_def key3_def UPDATE_HASH_def hash_shift_def hash_mask_def hash_size_def hash_bits_def)
  have sizes': "w_size s' = ?W" "window_size s' = window_size s" "hash_size s' = hash_size s"
    by (simp_all add: s' w_size_def window_size_def hash_size_def hash_bits_def)
  have lmono: "link_ok s C j h \<Longrightarrow> link_ok s' ?C j h" for j h by (auto simp: link_ok_def key')
  have len: "length (prev s) = ?W" "length (head s) = hash_size s" using sz by (simp_all add: wf_sizes_def)
  have "link_ok s' ?C j (unat (head s' ! j))" if j: "j < hash_size s" for j
  proof (cases "j = ?k")
    case True
    then have "unat (head s' ! j) = str" using j len us by (simp add: s')
    then show ?thesis using True by (simp add: link_ok_def key')
  next
    case False
    then have "head s' ! j = head s ! j" by (simp add: s')
    then show ?thesis using c j lmono by (simp add: chains_def)
  qed
  moreover have "let p = unat (prev s' ! (h mod ?W)) in p < h \<and> link_ok s' ?C (key s' h) p" if h: "h \<in> ?C" "h + ?W \<notin> ?C" for h
  proof (cases "h = str")
    case True
    then have "prev s' ! (h mod ?W) = head s ! ?k" using len W by (simp add: s')
    moreover have "m < str" using h True l str(1) by (auto simp: link_ok_def split: if_splits)
    ultimately show ?thesis using True lmono [OF l] by (simp add: key' m)
  next
    case False
    then have hC: "h \<in> C" "h < str" using h str(1) by (auto split: if_splits)
    have "h mod ?W \<noteq> str mod ?W"
    proof
      assume "h mod ?W = str mod ?W"
      then have "?W dvd str - h" using hC(2) by (metis mod_eq_dvd_iff_nat less_imp_le)
      then obtain j where j: "str = h + ?W * j" using hC(2) by (metis dvdE le_add_diff_inverse less_imp_le)
      have "j \<noteq> 1" using h(2) j hC by (auto split: if_splits)
      moreover have "j \<noteq> 0" using j False by auto
      moreover have "j < 2"
      proof (rule ccontr)
        assume "\<not> j < 2"
        then have "?W * 2 \<le> ?W * j" by (intro mult_le_mono2) simp
        then show False using j str(2) W by linarith
      qed
      ultimately show False by simp
    qed
    then have "prev s' ! (h mod ?W) = prev s ! (h mod ?W)" by (simp add: s')
    moreover have "h + ?W \<notin> C" using h(2) by (auto split: if_splits)
    ultimately show ?thesis using c hC(1) lmono by (simp add: chains_def Let_def key')
  qed
  moreover have "\<forall>h \<in> ?C. 0 < h \<and> h < window_size s" using c str(2) by (auto simp: chains_def)
  ultimately show "chains s' ?C" unfolding chains_def sizes' by blast
qed

section \<open>The longest match\<close>

text \<open>A match at \<open>m\<close> of \<open>len\<close> bytes for the string at \<open>strstart\<close>, within the reach of the format.\<close>

definition good_at :: "dstate \<Rightarrow> nat \<Rightarrow> nat \<Rightarrow> bool" where
  "good_at s m len \<longleftrightarrow> 0 < m \<and> m < strstart s \<and> strstart s \<le> m + MAX_DIST s \<and> same (window s) m (strstart s) len \<and> 3 \<le> len \<and> len \<le> 258"

text \<open>The candidates: on a chain, before \<open>strstart\<close>, near enough, with the key of the current string.\<close>

definition candidate :: "dstate \<Rightarrow> nat set \<Rightarrow> nat \<Rightarrow> bool" where
  "candidate s C m \<longleftrightarrow> m \<in> C \<and> m < strstart s \<and> strstart s \<le> m + MAX_DIST s \<and> key s m = key s (strstart s)"

lemma candidate_match:
  assumes "candidate s C m" "chains s C" "wf_sizes s" "match_at s m best = Some len"
  shows "good_at s m len"
proof -
  let ?w = "window s"
  have eq: "?w ! m = ?w ! strstart s" "?w ! (m + 1) = ?w ! (strstart s + 1)"
    using assms(4) by (auto simp: match_at_def Let_def split: if_splits)
  have "key s m = key s (strstart s)" using assms(1) by (simp add: candidate_def)
  then have "?w ! (m + 2) = ?w ! (strstart s + 2)"
    using key3_third [of s "?w ! m" "?w ! (m + 1)"] assms(3) eq by (simp add: key_def wf_sizes_def)
  note m = match_at_same [OF assms(4) this]
  have "0 < m" using assms(1,2) by (simp add: candidate_def chains_def)
  with assms(1) m show ?thesis by (simp add: good_at_def candidate_def)
qed

lemma candidate_next:
  assumes c: "candidate s C m" "chains s C" "wf_sizes s" "\<forall>h \<in> C. h \<le> strstart s"
    and n: "n = unat (prev s ! (m AND w_mask s))" "n \<noteq> 0" "strstart s \<le> n + MAX_DIST s"
  shows "candidate s C n"
proof -
  have "MAX_DIST s < w_size s" using w_size_bounds(1) [OF c(3)] by (simp add: MAX_DIST_def MIN_LOOKAHEAD_def)
  then have "m + w_size s \<notin> C" using c(1,4) by (force simp: candidate_def)
  moreover have "m \<in> C" "\<forall>h \<in> C. h + w_size s \<notin> C \<longrightarrow> unat (prev s ! (h mod w_size s)) < h \<and> link_ok s C (key s h) (unat (prev s ! (h mod w_size s)))"
    using c(1,2) by (simp_all add: candidate_def chains_def Let_def)
  ultimately have "n < m \<and> link_ok s C (key s m) n" unfolding n(1) and_w_mask by blast
  then show ?thesis using c(1) n(2,3) by (auto simp: candidate_def link_ok_def)
qed

lemma match_loop_good:
  assumes "chains s C" "wf_sizes s" "\<forall>h \<in> C. h \<le> strstart s" "strstart s \<le> limit + MAX_DIST s"
  shows "candidate s C cur \<Longrightarrow> match_loop s limit nice cur chain best ms = (best', ms') \<Longrightarrow>
    (best' = best \<and> ms' = ms) \<or> (\<exists>m. ms' = of_nat m \<and> good_at s m best')"
  using assms
proof (induction s limit nice cur chain best ms rule: match_loop.induct)
  case (1 s limit nice cur chain best ms)
  let ?found = "case match_at s cur best of None \<Rightarrow> False | Some len \<Rightarrow> best < len"
  let ?next = "unat (prev s ! (cur AND w_mask s))"
  obtain b1 m1 where p: "(if ?found then (the (match_at s cur best), of_nat cur) else (best, ms)) = (b1, m1)" by force
  have good: "(b1 = best \<and> m1 = ms) \<or> (\<exists>m. m1 = of_nat m \<and> good_at s m b1)"
    using p candidate_match [OF 1(2,4,5)] by (auto split: if_splits option.splits)
  show ?case
  proof (cases "\<not> (?found \<and> nice \<le> int b1) \<and> limit < ?next \<and> chain - 1 \<noteq> 0")
    case True
    have nx: "candidate s C ?next" using candidate_next [OF 1(2,4,5,6) refl] True 1(7) by linarith
    have "match_loop s limit nice ?next (chain - 1) b1 m1 = (best', ms')"
      using 1(3) True p by (subst (asm) match_loop.simps) (simp add: Let_def)
    moreover have "(b1 = best \<and> m1 = ms) \<or> (\<exists>m. m1 = of_nat m \<and> good_at s m b1)" by (rule good)
    ultimately show ?thesis
      using 1(1) [OF refl p [symmetric] refl refl _ _ nx _ 1(4-7)] True by blast
  next
    case False
    then have "(best', ms') = (b1, m1)"
      using 1(3) p by (subst (asm) match_loop.simps) (auto simp: Let_def split: if_splits)
    then show ?thesis using good by simp
  qed
qed

lemma good_at_shorter: "good_at s m len \<Longrightarrow> 3 \<le> n \<Longrightarrow> n \<le> len \<Longrightarrow> good_at s m n"
  by (auto simp: good_at_def same_def)

lemma longest_match_good:
  assumes c: "chains s C" "wf_sizes s" "\<forall>h \<in> C. h \<le> strstart s" "candidate s C cur" and r: "longest_match s cur = (len, s')"
  shows "\<exists>ms. s' = s\<lparr>match_start := ms\<rparr> \<and> len \<le> lookahead s \<and>
    (prev_length s < len \<and> 3 \<le> len \<longrightarrow> (\<exists>m. ms = of_nat m \<and> good_at s m len))"
proof -
  let ?limit = "if strstart s > MAX_DIST s then strstart s - MAX_DIST s else 0"
  obtain best ms nice chain where l: "match_loop s ?limit nice cur chain (prev_length s) (match_start s) = (best, ms)"
      "len = min best (lookahead s)" "s' = s\<lparr>match_start := ms\<rparr>"
    using r by (auto simp: longest_match_def Let_def split: prod.splits)
  have "strstart s \<le> ?limit + MAX_DIST s" by simp
  note g = match_loop_good [OF c(1,2,3) this c(4) l(1)]
  have "\<exists>m. ms = of_nat m \<and> good_at s m len" if "prev_length s < len" "3 \<le> len"
  proof -
    have "best \<noteq> prev_length s" "len \<le> best" using that l(2) by auto
    then obtain m where "ms = of_nat m" "good_at s m best" using g by blast
    then show ?thesis using good_at_shorter [OF _ that(2) \<open>len \<le> best\<close>] by blast
  qed
  then show ?thesis using l(2,3) by auto
qed

section \<open>Sliding\<close>

lemma slide_pos_nat:
  assumes "w \<le> 32768"
  shows "unat (slide_pos w m) = (if unat m \<ge> w then unat m - w else 0)"
proof (cases "unat m \<ge> w")
  case True
  have "unat (of_nat w :: ush) = w" using assms by (simp add: unat_of_nat take_bit_nat_eq_self)
  then show ?thesis using True by (simp add: slide_pos_def unat_sub word_le_nat_alt)
qed (simp add: slide_pos_def)

text \<open>\<open>s'\<close> is \<open>s\<close> moved down by one window.\<close>

lemma chains_slide:
  assumes c: "chains s C" and sz: "wf_sizes s"
    and s': "prev s' = map (slide_pos (w_size s)) (prev s)" "head s' = map (slide_pos (w_size s)) (head s)"
      "w_bits s' = w_bits s" "mem_level s' = mem_level s"
    and w: "\<And>h. h \<in> C \<Longrightarrow> w_size s < h \<Longrightarrow> key s' (h - w_size s) = key s h"
  shows "chains s' {h - w_size s | h. h \<in> C \<and> w_size s < h}" (is "chains s' ?C")
proof -
  let ?W = "w_size s"
  have W: "0 < ?W" "window_size s = 2 * ?W" "?W \<le> 32768" using w_size_bounds [OF sz] by (simp_all add: window_size_def)
  have eqs: "w_size s' = ?W" "window_size s' = window_size s" "hash_size s' = hash_size s"
    using s' by (simp_all add: w_size_def window_size_def hash_size_def hash_bits_def)
  have len: "length (prev s) = ?W" "length (head s) = hash_size s" using sz by (simp_all add: wf_sizes_def)
  have bound: "0 < h" "h < 2 * ?W" if "h \<in> C" for h using c W that by (auto simp: chains_def)
  have link: "link_ok s' ?C k (if ?W \<le> h then h - ?W else 0)" if "link_ok s C k h" for k h
  proof (cases "?W < h")
    case True
    then have "h \<in> C" "key s h = k" using that by (auto simp: link_ok_def)
    then show ?thesis using True w [of h] by (auto simp: link_ok_def)
  qed (auto simp: link_ok_def)
  have "\<forall>h \<in> ?C. 0 < h \<and> h < window_size s'" using bound eqs W by (auto intro!: less_imp_diff_less)
  moreover have "link_ok s' ?C k (unat (head s' ! k))" if k: "k < hash_size s'" for k
  proof -
    have "link_ok s C k (unat (head s ! k))" using c k eqs by (simp add: chains_def)
    from link [OF this] show ?thesis using k len eqs slide_pos_nat [OF W(3)] by (simp add: s')
  qed
  moreover have "let p = unat (prev s' ! (h mod ?W)) in p < h \<and> link_ok s' ?C (key s' h) p" if h: "h \<in> ?C" for h
  proof -
    obtain g where g: "g \<in> C" "?W < g" "h = g - ?W" using h by blast
    have "g + ?W \<notin> C" using bound(2) [of "g + ?W"] g by auto
    then have l: "unat (prev s ! (g mod ?W)) < g" "link_ok s C (key s g) (unat (prev s ! (g mod ?W)))"
      using c g(1) by (auto simp: chains_def Let_def)
    have "h mod ?W = g mod ?W" using g by (simp add: le_mod_geq)
    then have "unat (prev s' ! (h mod ?W)) = (if ?W \<le> unat (prev s ! (g mod ?W)) then unat (prev s ! (g mod ?W)) - ?W else 0)"
      using len W slide_pos_nat [OF W(3)] by (simp add: s')
    then show ?thesis using link [OF l(2)] l(1) g w [of g] by (auto simp: Let_def)
  qed
  ultimately show ?thesis unfolding chains_def eqs by blast
qed

lemma chains_clear: "wf_sizes s \<Longrightarrow> chains (CLEAR_HASH s) {}"
  by (simp add: chains_def CLEAR_HASH_def link_ok_def hash_size_def hash_bits_def)

end
