(* ===== verification/Adler32_Props.thy ===== *)
theory Adler32_Props
  imports Adler32
begin

text \<open>
  \<open>adler32\<close> against the definition of the checksum, the absence of wrap-around behind
  \<open>NMAX\<close>, the divisions without \<open>%\<close>, and \<open>adler32_combine\<close>.
\<close>

section \<open>The checksum\<close>

definition adler_step :: "nat \<times> nat \<Rightarrow> byte \<Rightarrow> nat \<times> nat" where
  "adler_step = (\<lambda>(a, b) c. ((a + unat c) mod 65521, (b + (a + unat c)) mod 65521))"

text \<open>The pair of sums that an Adler-32 value stands for.\<close>

definition adler_pair :: "'a :: len word \<Rightarrow> nat \<times> nat" where
  "adler_pair w = (unat w mod 65536, unat w div 65536 mod 65536)"

definition adler_valid :: "'a :: len word \<Rightarrow> bool" where
  "adler_valid w \<longleftrightarrow> unat w < 2 ^ 32 \<and> fst (adler_pair w) < 65521 \<and> snd (adler_pair w) < 65521"

section \<open>Sums without reduction\<close>

definition sum_step :: "nat \<times> nat \<Rightarrow> byte \<Rightarrow> nat \<times> nat" where
  "sum_step = (\<lambda>(a, s) c. (a + unat c, s + (a + unat c)))"

definition sum_fits :: "nat \<Rightarrow> nat \<times> nat \<Rightarrow> bool" where
  "sum_fits n p \<longleftrightarrow> fst p + 255 * n < 2 ^ 32 \<and> 2 * snd p + 2 * n * fst p + 255 * n * (n + 1) < 2 ^ 33"

lemma sum_fits_step: "sum_fits (Suc n) p \<Longrightarrow> sum_fits n (sum_step p c)"
proof -
  assume a: "sum_fits (Suc n) p"
  obtain x y where p: "p = (x, y)" by (cases p)
  have c: "unat c \<le> 255" using unat_byte_bound [of c] by simp
  have "2 * (n + 1) * unat c \<le> 2 * (n + 1) * 255" using c by (intro mult_le_mono2)
  with a c show ?thesis unfolding p sum_fits_def sum_step_def
    by (simp add: algebra_simps)
qed

lemma sum_fits_less: "sum_fits n p \<Longrightarrow> fst p < 2 ^ 32 \<and> snd p < 2 ^ 32"
  by (simp add: sum_fits_def)

lemma foldl_sum_fits: "sum_fits (length buf) p \<Longrightarrow> sum_fits 0 (foldl sum_step p buf)"
proof (induction buf arbitrary: p)
  case (Cons c buf)
  then show ?case using sum_fits_step [of "length buf" p c] by simp
qed simp

lemma foldl_sum_fst: "fst (foldl sum_step p buf) \<le> fst p + 255 * length buf"
proof (induction buf arbitrary: p)
  case (Cons c buf)
  have "fst (sum_step p c) \<le> fst p + 255" using unat_byte_bound [of c] by (cases p) (simp add: sum_step_def)
  with Cons.IH [of "sum_step p c"] show ?case by simp
qed simp

definition abs_sums :: "'a :: len word \<times> 'a word \<Rightarrow> nat \<times> nat" where
  "abs_sums = (\<lambda>(a, s). (unat a, unat s))"

lemma unat_add_small:
  "32 \<le> LENGTH('a :: len) \<Longrightarrow> unat (x :: 'a word) + unat y < 2 ^ 32 \<Longrightarrow> unat (x + y) = unat x + unat y"
  by (meson le_less_trans less_le_trans one_le_numeral power_increasing unat_add_lem order.strict_trans2)

lemma unat_ucast_byte: "32 \<le> LENGTH('a :: len) \<Longrightarrow> unat (ucast (c :: byte) :: 'a word) = unat c"
  using unat_byte_bound [of c] power_increasing [of 32 "LENGTH('a)" "2 :: nat"]
  by (simp add: unsigned_ucast_eq take_bit_nat_eq_self)

lemma DO1_sum:
  assumes "32 \<le> LENGTH('a :: len)" "sum_fits (Suc n) (abs_sums (st :: 'a word \<times> 'a word))"
  shows "abs_sums (DO1 st c) = sum_step (abs_sums st) c"
proof -
  obtain a s where st: "st = (a, s)" by (cases st)
  have "sum_fits n (sum_step (abs_sums st) c)" by (rule sum_fits_step [OF assms(2)])
  then have b: "unat a + unat c < 2 ^ 32" "unat s + (unat a + unat c) < 2 ^ 32"
    by (auto dest: sum_fits_less simp: st abs_sums_def sum_step_def)
  have a: "unat (a + ucast c) = unat a + unat c"
    using unat_add_small [OF assms(1), of a "ucast c"] b(1) by (simp add: unat_ucast_byte [OF assms(1)])
  with unat_add_small [OF assms(1), of s "a + ucast c"] b(2) show ?thesis
    by (simp add: st DO1_def abs_sums_def sum_step_def)
qed

lemma foldl_DO1_sum:
  assumes "32 \<le> LENGTH('a :: len)"
  shows "sum_fits (length buf) (abs_sums (st :: 'a word \<times> 'a word)) \<Longrightarrow>
    abs_sums (foldl DO1 st buf) = foldl sum_step (abs_sums st) buf"
proof (induction buf arbitrary: st)
  case (Cons c buf)
  from Cons.prems have "abs_sums (DO1 st c) = sum_step (abs_sums st) c"
    by (intro DO1_sum [OF assms]) simp
  moreover from Cons.prems have "sum_fits (length buf) (sum_step (abs_sums st) c)"
    by (intro sum_fits_step) simp
  ultimately show ?case using Cons.IH [of "DO1 st c"] by simp
qed simp

definition mod_pair :: "nat \<times> nat \<Rightarrow> nat \<times> nat" where
  "mod_pair = (\<lambda>(a, b). (a mod 65521, b mod 65521))"

lemma mod_sum3: "(b + (a + c)) mod m = (b + (a mod m + c)) mod (m :: nat)"
  by (metis mod_add_left_eq mod_add_right_eq)

lemma foldl_sum_mod: "mod_pair (foldl sum_step p buf) = foldl adler_step (mod_pair p) buf"
proof (induction buf arbitrary: p)
  case (Cons c buf)
  have "mod_pair (sum_step p c) = adler_step (mod_pair p) c"
    by (cases p) (auto simp: mod_pair_def sum_step_def adler_step_def mod_simps intro: mod_sum3)
  then show ?case using Cons.IH [of "sum_step p c"] by simp
qed simp

definition reduced :: "nat \<times> nat \<Rightarrow> bool" where
  "reduced p \<longleftrightarrow> fst p < 65521 \<and> snd p < 65521"

lemma reduced_simps [simp]: "reduced (mod_pair p)" "reduced p \<Longrightarrow> mod_pair p = p"
  by (auto simp: reduced_def mod_pair_def split: prod.splits)

lemma reduced_foldl: "reduced p \<Longrightarrow> reduced (foldl adler_step p buf)"
  using foldl_sum_mod [of p buf] by (metis reduced_simps)

text \<open>The bound behind \<open>NMAX\<close>.\<close>

lemma NMAX_fits: "reduced p \<Longrightarrow> n \<le> NMAX \<Longrightarrow> sum_fits n p"
proof -
  assume p: "reduced p" and n: "n \<le> NMAX"
  have n': "n \<le> 5552" using n by (simp add: NMAX_def)
  have "n * (n + 1) \<le> 5552 * 5553" using n' by (intro mult_le_mono) simp_all
  moreover have "n * fst p \<le> 5552 * 65520" using n' p by (intro mult_le_mono) (simp_all add: reduced_def)
  moreover have "snd p \<le> 65520" "fst p \<le> 65520" using p by (simp_all add: reduced_def)
  ultimately show ?thesis using n' unfolding sum_fits_def by (simp add: algebra_simps)
qed


section \<open>The loops\<close>

lemma DO16_foldl: "16 \<le> length buf \<Longrightarrow> DO16 st buf = foldl DO1 st (take 16 buf)"
proof -
  assume "16 \<le> length buf"
  then have "take 16 buf = map ((!) buf) [0..<16]" by (intro nth_equalityI) auto
  then show ?thesis by (simp add: DO16_def foldl_map)
qed

lemma do16_loop_foldl: "16 * n \<le> length buf \<Longrightarrow> fst (do16_loop n st buf) = foldl DO1 st (take (16 * n) buf)"
proof (induction n arbitrary: st buf)
  case (Suc n)
  have "take (16 * Suc n) buf = take 16 buf @ take (16 * n) (drop 16 buf)"
    by (simp add: take_add [symmetric])
  with Suc show ?case by (simp add: DO16_foldl)
qed simp

lemma tail_loop_foldl: "tail_loop st buf = (st', rest) \<Longrightarrow> foldl DO1 st' rest = foldl DO1 st buf"
proof (induction st buf rule: tail_loop.induct)
  case (1 st buf)
  show ?case
  proof (cases "16 \<le> length buf")
    case True
    then have "foldl DO1 st' rest = foldl DO1 (DO16 st buf) (drop 16 buf)"
      using 1 by (subst (asm) (2) tail_loop.simps) simp
    also have "\<dots> = foldl DO1 st (take 16 buf @ drop 16 buf)" using True by (simp only: DO16_foldl foldl_append)
    finally show ?thesis by simp
  qed (use 1 in \<open>simp add: tail_loop.simps\<close>)
qed

lemma unat_MOD: "32 \<le> LENGTH('a :: len) \<Longrightarrow> unat (MOD (a :: 'a word)) = unat a mod 65521"
proof -
  assume "32 \<le> LENGTH('a)"
  then have "(2 :: nat) ^ 32 \<le> 2 ^ LENGTH('a)" by (intro power_increasing) simp_all
  then have "unat (BASE :: 'a word) = 65521" by (simp add: BASE_def unsigned_numeral take_bit_nat_eq_self)
  then show ?thesis by (simp add: MOD_def unat_mod)
qed

lemma abs_MODs: "32 \<le> LENGTH('a :: len) \<Longrightarrow> abs_sums (MODs (st :: 'a word \<times> 'a word)) = mod_pair (abs_sums st)"
  by (cases st) (simp add: MODs_def abs_sums_def mod_pair_def unat_MOD)

lemma abs_foldl_MODs:
  assumes "32 \<le> LENGTH('a :: len)" "reduced (abs_sums (st :: 'a word \<times> 'a word))" "length buf \<le> NMAX"
  shows "abs_sums (MODs (foldl DO1 st buf)) = foldl adler_step (abs_sums st) buf"
  using foldl_DO1_sum [OF assms(1) NMAX_fits [OF assms(2,3)]] assms(2)
  by (simp add: abs_MODs [OF assms(1)] foldl_sum_mod)

lemma nmax_loop_adler:
  assumes "32 \<le> LENGTH('a :: len)"
  shows "nmax_loop (st :: 'a word \<times> 'a word) buf = (st', rest) \<Longrightarrow> reduced (abs_sums st) \<Longrightarrow>
    \<exists>p. buf = p @ rest \<and> length rest < NMAX \<and> abs_sums st' = foldl adler_step (abs_sums st) p"
proof (induction st buf rule: nmax_loop.induct)
  case (1 st buf)
  show ?case
  proof (cases "NMAX \<le> length buf")
    case True
    let ?st = "MODs (fst (do16_loop (NMAX div 16) st buf))"
    have n: "16 * (NMAX div 16) = NMAX" by (simp add: NMAX_def)
    have st: "fst (do16_loop (NMAX div 16) st buf) = foldl DO1 st (take NMAX buf)"
      using do16_loop_foldl [of "NMAX div 16" buf st] True by (simp add: n)
    have "nmax_loop st buf = nmax_loop ?st (drop NMAX buf)"
      using True do16_loop_rest [of "NMAX div 16" st buf]
      by (subst nmax_loop.simps) (simp add: case_prod_unfold n)
    moreover have a: "abs_sums ?st = foldl adler_step (abs_sums st) (take NMAX buf)"
      unfolding st by (rule abs_foldl_MODs [OF assms "1.prems"(2)]) simp
    moreover have "reduced (abs_sums ?st)" unfolding a by (rule reduced_foldl [OF "1.prems"(2)])
    moreover have "(fst (do16_loop (NMAX div 16) st buf), drop NMAX buf) = do16_loop (NMAX div 16) st buf"
      using do16_loop_rest [of "NMAX div 16" st buf] by (simp add: n prod_eq_iff)
    ultimately obtain p where "drop NMAX buf = p @ rest" "length rest < NMAX" "abs_sums st' = foldl adler_step (abs_sums ?st) p"
      using "1.IH" [OF True refl] "1.prems"(1) by metis
    then show ?thesis using a by (intro exI [of _ "take NMAX buf @ p"]) (metis append.assoc append_take_drop_id foldl_append)
  next
    case False
    then show ?thesis using "1.prems" by (subst (asm) nmax_loop.simps) auto
  qed
qed

lemma adler32_tail_adler:
  assumes "32 \<le> LENGTH('a :: len)" "reduced (abs_sums (st :: 'a word \<times> 'a word))" "length buf \<le> NMAX"
  shows "abs_sums (adler32_tail st buf) = foldl adler_step (abs_sums st) buf"
proof (cases "buf = []")
  case False
  obtain st' rest where t: "tail_loop st buf = (st', rest)" by (cases "tail_loop st buf")
  with False tail_loop_foldl [OF t] abs_foldl_MODs [OF assms] show ?thesis by (simp add: adler32_tail_def)
qed (simp add: adler32_tail_def)


section \<open>Packing\<close>

lemma pow32: "32 \<le> LENGTH('a :: len) \<Longrightarrow> (2 :: nat) ^ 32 \<le> 2 ^ LENGTH('a)"
  by (intro power_increasing) simp_all

lemma unat_BASE: "32 \<le> LENGTH('a :: len) \<Longrightarrow> unat (BASE :: 'a word) = 65521"
  using pow32 [where 'a = 'a] by (simp add: BASE_def unsigned_numeral take_bit_nat_eq_self)

lemma unat_chop_base:
  assumes "32 \<le> LENGTH('a :: len)"
  shows "unat (chop_base (a :: 'a word)) = (if 65521 \<le> unat a then unat a - 65521 else unat a)"
  using unat_BASE [OF assms] by (simp add: chop_base_def word_le_nat_alt unat_sub)

lemma chop_base_mod:
  "32 \<le> LENGTH('a :: len) \<Longrightarrow> unat (a :: 'a word) < 131042 \<Longrightarrow> unat (chop_base a) = unat a mod 65521"
  by (simp add: unat_chop_base mod_if)

lemma unat_halves:
  assumes "32 \<le> LENGTH('a :: len)"
  shows "unat ((w :: 'a word) AND 0xffff) = fst (adler_pair w)" "unat (drop_bit 16 w AND 0xffff) = snd (adler_pair w)"
proof -
  have m: "(0xffff :: 'a word) = mask 16" by (simp add: mask_eq_exp_minus_1)
  show "unat (w AND 0xffff) = fst (adler_pair w)" "unat (drop_bit 16 w AND 0xffff) = snd (adler_pair w)"
    unfolding m take_bit_eq_mask [symmetric] unsigned_take_bit_eq unsigned_drop_bit_eq
    by (simp_all add: adler_pair_def take_bit_eq_mod drop_bit_eq_div)
qed

lemma or_push_disjoint: "a < 2 ^ n \<Longrightarrow> (a :: nat) OR push_bit n b = a + push_bit n b"
proof -
  assume "a < 2 ^ n"
  then have "a AND push_bit n b = 0"
    by (intro bit_eqI) (metis bit_0_eq bit_and_iff bit_push_bit_iff bit_take_bit_iff bot_apply bot_bool_def leD take_bit_nat_eq_self)
  then show ?thesis by (simp add: disjunctive_add_eq_or)
qed

lemma unat_combine_sums:
  assumes "32 \<le> LENGTH('a :: len)" "abs_sums (st :: 'a word \<times> 'a word) = (a, b)" "a < 65536" "b < 65536"
  shows "unat (combine_sums st) = a + 65536 * b"
proof -
  obtain x y where st: "st = (x, y)" by (cases st)
  have xy: "unat x = a" "unat y = b" using assms(2) by (simp_all add: st abs_sums_def)
  have "unat (push_bit 16 y) = take_bit LENGTH('a) (65536 * b)"
    unfolding unsigned_push_bit_eq xy by (simp add: push_bit_eq_mult mult.commute)
  also have "\<dots> = 65536 * b"
    using pow32 [OF assms(1)] assms(4) by (intro take_bit_nat_eq_self) simp
  finally have p: "unat (push_bit 16 y) = 65536 * b" .
  have "unat (x OR push_bit 16 y) = a OR push_bit 16 b"
    using p by (simp add: unsigned_or_eq xy push_bit_eq_mult mult.commute)
  also have "\<dots> = a + push_bit 16 b"
    using assms(3) or_push_disjoint [of a 16 b] by simp
  finally show ?thesis by (simp add: st combine_sums_def push_bit_eq_mult)
qed


lemma adler_pair_combine:
  assumes "32 \<le> LENGTH('a :: len)" "reduced (abs_sums (st :: 'a word \<times> 'a word))"
  shows "adler_pair (combine_sums st) = abs_sums st" "adler_valid (combine_sums st)"
proof -
  obtain a b where ab: "abs_sums st = (a, b)" by (cases "abs_sums st")
  have l: "a < 65521" "b < 65521" using assms(2) by (simp_all add: ab reduced_def)
  note u = unat_combine_sums [OF assms(1) ab] 
  show "adler_pair (combine_sums st) = abs_sums st" "adler_valid (combine_sums st)"
    using l u by (simp_all add: adler_pair_def adler_valid_def ab)
qed

section \<open>\<open>adler32\<close>\<close>

lemma adler32_z_pair:
  assumes "32 \<le> LENGTH('a :: len)" "adler_valid (w :: 'a word)"
  shows "adler_pair (adler32_z w (Some buf)) = foldl adler_step (adler_pair w) buf \<and> adler_valid (adler32_z w (Some buf))"
proof -
  define st where "st = (w AND 0xffff, drop_bit 16 w AND 0xffff)"
  have st: "abs_sums st = adler_pair w" 
    using unat_halves [OF assms(1), of w] by (simp only: st_def abs_sums_def case_prod_conv prod.collapse)
  have red: "reduced (abs_sums st)" using assms(2) by (simp add: st adler_valid_def reduced_def)
  have fin: ?thesis if "adler32_z w (Some buf) = combine_sums st'" "abs_sums st' = foldl adler_step (abs_sums st) buf" for st'
    using that adler_pair_combine [OF assms(1), of st'] reduced_foldl [OF red, of buf] by (simp add: st)
  consider "length buf = 1" | "length buf \<noteq> 1" "length buf < 16" | "16 \<le> length buf" by linarith
  then show ?thesis
  proof cases
    case 1
    then obtain c where buf: "buf = [c]" by (cases buf) auto
    obtain a b where ab: "abs_sums st = (a, b)" by (cases "abs_sums st")
    let ?a = "chop_base (fst st + ucast c)"
    have l: "a < 65521" "b < 65521" using red by (simp_all add: ab reduced_def)
    have u: "unat (fst st) = a" "unat (snd st) = b" using ab by (auto simp: abs_sums_def split: prod.splits)
    have "unat (fst st + ucast c) = a + unat c"
      using unat_add_small [OF assms(1), of "fst st" "ucast c"] unat_byte_bound [of c] l
      by (simp add: u unat_ucast_byte [OF assms(1)])
    then have a: "unat ?a = (a + unat c) mod 65521"
      using chop_base_mod [OF assms(1), of "fst st + ucast c"] unat_byte_bound [of c] l by simp
    have "unat (snd st + ?a) = b + (a + unat c) mod 65521"
      using unat_add_small [OF assms(1), of "snd st" ?a] l by (simp add: u a less_trans [OF mod_less_divisor])
    then have b: "unat (chop_base (snd st + ?a)) = (b + (a + unat c)) mod 65521"
      using chop_base_mod [OF assms(1), of "snd st + ?a"] l by (simp add: mod_simps less_le_trans [OF add_strict_mono])
    show ?thesis
    proof (rule fin)
      show "adler32_z w (Some buf) = combine_sums (?a, chop_base (snd st + ?a))"
        by (simp add: adler32_z_def buf Let_def st_def)
      show "abs_sums (?a, chop_base (snd st + ?a)) = foldl adler_step (abs_sums st) buf"
        unfolding ab buf by (simp add: abs_sums_def a b adler_step_def)
    qed
  next
    case 2
    let ?st = "foldl DO1 st buf"
    have n: "length buf \<le> NMAX" using 2 by (simp add: NMAX_def)
    have s: "abs_sums ?st = foldl sum_step (abs_sums st) buf"
      by (rule foldl_DO1_sum [OF assms(1) NMAX_fits [OF red n]])
    show ?thesis
    proof (rule fin)
      show "adler32_z w (Some buf) = combine_sums (chop_base (fst ?st), MOD (snd ?st))"
        using 2 by (simp add: adler32_z_def Let_def case_prod_unfold flip: st_def)
      show "abs_sums (chop_base (fst ?st), MOD (snd ?st)) = foldl adler_step (abs_sums st) buf"
      proof -
        have "unat (fst ?st) \<le> fst (abs_sums st) + 255 * length buf"
          using foldl_sum_fst [of "abs_sums st" buf] s by (metis abs_sums_def case_prod_beta fst_conv)
        then have "unat (fst ?st) < 131042" using red 2 by (simp add: reduced_def)
        then have "abs_sums (chop_base (fst ?st), MOD (snd ?st)) = mod_pair (abs_sums ?st)"
          using chop_base_mod [OF assms(1), of "fst ?st"] unat_MOD [OF assms(1), of "snd ?st"]
          by (simp add: abs_sums_def mod_pair_def case_prod_unfold)
        then show ?thesis using red by (simp add: s foldl_sum_mod)
      qed
    qed
  next
    case 3
    obtain st' rest where nm: "nmax_loop st buf = (st', rest)" by (cases "nmax_loop st buf")
    from nmax_loop_adler [OF assms(1) nm red] obtain p where p: "buf = p @ rest" "length rest < NMAX"
      "abs_sums st' = foldl adler_step (abs_sums st) p" by blast
    have "reduced (abs_sums st')" unfolding p(3) by (rule reduced_foldl [OF red])
    then have "abs_sums (adler32_tail st' rest) = foldl adler_step (abs_sums st) buf"
      using adler32_tail_adler [OF assms(1), of st' rest] p by simp
    then show ?thesis
      by (rule fin [rotated]) (use 3 nm in \<open>simp add: adler32_z_def Let_def flip: st_def\<close>)
  qed
qed


text \<open>
  (C7) \<open>adler32\<close> computes the Adler-32 checksum: from any valid value it returns the valid
  value whose two sums are those of the definition, reduced modulo 65521 after every byte,
  for 32 bit and 64 bit longs and every length of the buffer, although the code reduces only
  once per \<open>NMAX\<close> bytes.
\<close>

theorem adler32_correct:
  assumes "32 \<le> LENGTH('a :: len)" "adler_valid (w :: 'a word)"
  shows "adler_pair (adler32 w (Some buf)) = foldl adler_step (adler_pair w) buf \<and> adler_valid (adler32 w (Some buf))"
  unfolding adler32_def by (rule adler32_z_pair [OF assms])

theorem adler32_correct_witness:
  "adler_pair (adler32 (1 :: 64 word) (Some [87, 105, 107, 105])) = (0x195, 0x3da) \<and>
    adler_valid (adler32 (1 :: 64 word) (Some [87, 105, 107, 105]))"
proof -
  have "adler_valid (1 :: 64 word)" "adler_pair (1 :: 64 word) = (1, 0)"
    by (simp_all add: adler_valid_def adler_pair_def)
  moreover have "foldl adler_step (1, 0) [87, 105, 107, 105] = (0x195, 0x3da)"
    by (simp add: adler_step_def)
  ultimately show ?thesis using adler32_correct [of "1 :: 64 word" "[87, 105, 107, 105]"] by (simp only:) simp
qed

section \<open>Combining\<close>

definition byte_sum :: "byte list \<Rightarrow> nat" where
  "byte_sum buf = sum_list (map unat buf)"

definition weighted_sum :: "byte list \<Rightarrow> nat" where
  "weighted_sum buf = snd (foldl sum_step (0, 0) buf)"

lemma foldl_sum_closed:
  "foldl sum_step (a, s) buf = (a + byte_sum buf, s + length buf * a + weighted_sum buf)"
proof (induction buf arbitrary: a s rule: rev_induct)
  case (snoc c buf)
  have "weighted_sum (buf @ [c]) = snd (sum_step (foldl sum_step (0, 0) buf) c)"
    by (simp add: weighted_sum_def)
  also have "\<dots> = weighted_sum buf + (byte_sum buf + unat c)"
    by (simp only: snoc [of 0 0]) (simp add: sum_step_def)
  finally have w: "weighted_sum (buf @ [c]) = weighted_sum buf + (byte_sum buf + unat c)" .
  show ?case unfolding foldl_append snoc [of a s] w by (simp add: sum_step_def byte_sum_def)
qed (simp add: byte_sum_def weighted_sum_def)

lemma adler_closed:
  "reduced (a, b) \<Longrightarrow> foldl adler_step (a, b) buf =
    ((a + byte_sum buf) mod 65521, (b + length buf * a + weighted_sum buf) mod 65521)"
  using foldl_sum_mod [of "(a, b)" buf] foldl_sum_closed [of a b buf] reduced_simps(2) [of "(a, b)"]
  by (simp add: mod_pair_def)


lemma adler_valid_inj:
  fixes v w :: "'a :: len word"
  shows "adler_valid v \<Longrightarrow> adler_valid w \<Longrightarrow> adler_pair v = adler_pair w \<Longrightarrow> v = w"
proof -
  have u: "unat x = fst (adler_pair x) + 65536 * snd (adler_pair x)" if "adler_valid x" for x :: "'a word"
  proof -
    have "unat x div 65536 < 65536" using that by (intro less_mult_imp_div_less) (simp add: adler_valid_def)
    then show ?thesis by (simp add: adler_pair_def)
  qed
  assume "adler_valid v" "adler_valid w" "adler_pair v = adler_pair w"
  then have "unat v = unat w" by (simp add: u)
  then show "v = w" by (simp add: word_unat_eq_iff)
qed

lemma unat_mult_small:
  "32 \<le> LENGTH('a :: len) \<Longrightarrow> unat (x :: 'a word) * unat y < 2 ^ 32 \<Longrightarrow> unat (x * y) = unat x * unat y"
  by (meson less_le_trans one_le_numeral power_increasing unat_mult_lem)

lemma unat_sub_small: "unat (y :: 'a :: len word) \<le> unat x \<Longrightarrow> unat (x - y) = unat x - unat y"
  by (simp add: unat_sub word_le_nat_alt)

lemma combine_mod_int:
  fixes n a b w m :: int
  shows "(n mod m * a mod m + (b + (n + w) mod m + m - n mod m)) mod m = (b + n * a + w) mod m"
proof -
  have "b + (n + w) mod m + m - n mod m = b + w + m * (1 - (n + w) div m + n div m)"
    unfolding minus_mult_div_eq_mod [symmetric, of _ m] by (simp add: algebra_simps)
  then have "(n mod m * a mod m + (b + (n + w) mod m + m - n mod m)) mod m = (n * a mod m + (b + w)) mod m"
    by (metis mod_add_right_eq mod_mult_left_eq mod_mult_self2)
  also have "\<dots> = (n * a + (b + w)) mod m" by (rule mod_add_left_eq)
  finally show ?thesis by (simp add: ac_simps)
qed

lemma combine_mod_nat:
  fixes n a b w m :: nat
  assumes "0 < m"
  shows "(n mod m * a mod m + (b + (n + w) mod m + m - n mod m)) mod m = (b + n * a + w) mod m"
proof -
  have "n mod m \<le> b + (n + w) mod m + m" using mod_less_divisor [OF assms, of n] by simp
  then have "int ((n mod m * a mod m + (b + (n + w) mod m + m - n mod m)) mod m) = int ((b + n * a + w) mod m)"
    by (simp only: zmod_int of_nat_add of_nat_mult of_nat_diff combine_mod_int)
  then show ?thesis by (simp only: of_nat_eq_iff)
qed

lemma combine_mod:
  "(a1 + (1 + s) mod 65521 + 65520) mod 65521 = (a1 + s) mod (65521 :: nat)"
  "(n mod 65521 * a1 mod 65521 + (b1 + (n + w) mod 65521 + 65521 - n mod 65521)) mod 65521 =
    (b1 + n * a1 + w) mod (65521 :: nat)"
proof -
  have "(a1 + (1 + s) mod 65521 + 65520) mod 65521 = (a1 + (1 + s) + 65520) mod 65521"
    by (metis mod_add_left_eq mod_add_right_eq)
  then show "(a1 + (1 + s) mod 65521 + 65520) mod 65521 = (a1 + s) mod (65521 :: nat)" by simp
qed (rule combine_mod_nat, simp)

text \<open>The sums that \<open>adler32_combine\<close> computes, as numbers.\<close>

lemma adler32_combine_pair:
  assumes "32 \<le> LENGTH('a :: len)" "adler_valid (v :: 'a word)" "adler_valid (w :: 'a word)"
    and v: "adler_pair v = (a1, b1)" and w: "adler_pair w = (a2, b2)"
  shows "adler_pair (adler32_combine v w (int n)) =
      ((a1 + a2 + 65520) mod 65521, (n mod 65521 * a1 mod 65521 + (b1 + b2 + 65521 - n mod 65521)) mod 65521)"
    and "adler_valid (adler32_combine v w (int n))"
proof -
  note L = assms(1)
  have l: "a1 < 65521" "b1 < 65521" "a2 < 65521" "b2 < 65521"
    using assms(2,3) by (simp_all add: adler_valid_def v w)
  define r where "r = n mod 65521"
  have r: "r < 65521" by (simp add: r_def)
  define rem where "rem = (of_int (int n mod 65521) :: 'a word)"
  have "rem = of_nat r" unfolding rem_def r_def by (metis of_int_of_nat_eq of_nat_numeral zmod_int)
  then have rem: "unat rem = r"
    using pow32 [OF L] r by (simp add: unsigned_of_nat take_bit_nat_eq_self)
  let ?m = "MOD (rem * (v AND 0xffff))"
  define s1 where "s1 = (v AND 0xffff) + ((w AND 0xffff) + BASE - 1)"
  define s2 where "s2 = ?m + ((drop_bit 16 v AND 0xffff) + (drop_bit 16 w AND 0xffff) + BASE - rem)"
  define s2' where "s2' = (if s2 \<ge> push_bit 1 BASE then s2 - push_bit 1 BASE else s2)"
  have h: "unat (v AND 0xffff) = a1" "unat (w AND 0xffff) = a2"
    "unat (drop_bit 16 v AND 0xffff) = b1" "unat (drop_bit 16 w AND 0xffff) = b2"
    using unat_halves [OF L, of v] unat_halves [OF L, of w] by (simp_all only: v w fst_conv snd_conv)
  have ra: "r * a1 \<le> 65520 * 65520" using r l(1) by (intro mult_le_mono) simp_all
  then have m: "unat ?m = r * a1 mod 65521"
    using unat_mult_small [OF L, of rem "v AND 0xffff"] by (simp only: unat_MOD [OF L] h rem) simp
  have "unat ((w AND 0xffff) + BASE - 1) = a2 + 65520"
    using unat_add_small [OF L, of "w AND 0xffff" BASE] unat_sub_small [of 1 "(w AND 0xffff) + BASE"] l
    by (simp add: h unat_BASE [OF L])
  then have s1: "unat s1 = a1 + a2 + 65520"
    using unat_add_small [OF L, of "v AND 0xffff" "(w AND 0xffff) + BASE - 1"] l
    by (simp only: h s1_def) simp
  have "unat ((drop_bit 16 v AND 0xffff) + (drop_bit 16 w AND 0xffff)) = b1 + b2"
    using unat_add_small [OF L, of "drop_bit 16 v AND 0xffff" "drop_bit 16 w AND 0xffff"] l by (simp only: h) simp
  then have "unat ((drop_bit 16 v AND 0xffff) + (drop_bit 16 w AND 0xffff) + BASE) = b1 + b2 + 65521"
    using unat_add_small [OF L, of "(drop_bit 16 v AND 0xffff) + (drop_bit 16 w AND 0xffff)" BASE] l
    by (simp only: unat_BASE [OF L]) simp
  then have "unat ((drop_bit 16 v AND 0xffff) + (drop_bit 16 w AND 0xffff) + BASE - rem) = b1 + b2 + 65521 - r"
    using unat_sub_small [of rem "(drop_bit 16 v AND 0xffff) + (drop_bit 16 w AND 0xffff) + BASE"] r
    by (simp only: rem)
  then have s2: "unat s2 = r * a1 mod 65521 + (b1 + b2 + 65521 - r)"
    using unat_add_small [OF L, of ?m "(drop_bit 16 v AND 0xffff) + (drop_bit 16 w AND 0xffff) + BASE - rem"] l m
      mod_less_divisor [of 65521 "r * a1"]
    by (simp only: s2_def) simp
  have c1: "unat (chop_base (chop_base s1)) = (a1 + a2 + 65520) mod 65521"
    using l by (simp add: unat_chop_base [OF L] s1 mod_if)
  have "unat (push_bit 1 BASE :: 'a word) = 131042"
    using unat_add_small [OF L, of BASE BASE] by (simp add: unat_BASE [OF L] mult_2_right)
  then have "unat s2' = (if 131042 \<le> unat s2 then unat s2 - 131042 else unat s2)"
    by (simp add: s2'_def word_le_nat_alt unat_sub_small)
  moreover have "unat s2 < 4 * 65521" using l r mod_less_divisor [of 65521 "r * a1"] by (simp add: s2)
  ultimately have c2: "unat (chop_base s2') = unat s2 mod 65521"
    by (simp add: unat_chop_base [OF L] mod_if)
  have e: "adler32_combine v w (int n) = combine_sums (chop_base (chop_base s1), chop_base s2')"
    unfolding adler32_combine_def adler32_combine_impl_def Let_def s2'_def s1_def s2_def rem_def by simp
  have "abs_sums (chop_base (chop_base s1), chop_base s2') =
      ((a1 + a2 + 65520) mod 65521, (r * a1 mod 65521 + (b1 + b2 + 65521 - r)) mod 65521)"
    by (simp add: abs_sums_def c1 c2 s2)
  with adler_pair_combine [OF L, of "(chop_base (chop_base s1), chop_base s2')"]
  show "adler_pair (adler32_combine v w (int n)) =
      ((a1 + a2 + 65520) mod 65521, (n mod 65521 * a1 mod 65521 + (b1 + b2 + 65521 - n mod 65521)) mod 65521)"
    "adler_valid (adler32_combine v w (int n))"
    unfolding e r_def by (simp_all add: reduced_def)
qed

text \<open>
  (C12) \<open>adler32_combine\<close> is a homomorphism: applied to the checksums of two buffers and the
  length of the second one it returns the checksum of their concatenation.
\<close>

theorem adler32_combine_append:
  assumes "32 \<le> LENGTH('a :: len)"
  shows "adler32_combine (adler32 (1 :: 'a word) (Some xs)) (adler32 1 (Some ys)) (int (length ys)) = adler32 1 (Some (xs @ ys))"
proof -
  have one: "adler_valid (1 :: 'a word)" "adler_pair (1 :: 'a word) = (1, 0)"
    by (simp_all add: adler_valid_def adler_pair_def)
  have z: "adler_pair (adler32 (1 :: 'a word) (Some buf)) = foldl adler_step (1, 0) buf"
    "adler_valid (adler32 (1 :: 'a word) (Some buf))" for buf
    using adler32_z_pair [OF assms one(1), of buf] by (simp_all add: one(2) adler32_def)
  obtain a1 b1 where x: "foldl adler_step (1, 0) xs = (a1, b1)" by fastforce
  have "reduced (foldl adler_step (1, 0) xs)" by (rule reduced_foldl) (simp add: reduced_def)
  then have red: "reduced (a1, b1)" by (simp only: x)
  have y: "foldl adler_step (1, 0) ys = ((1 + byte_sum ys) mod 65521, (length ys + weighted_sum ys) mod 65521)"
    using adler_closed [of 1 0 ys] by (simp add: reduced_def)
  have xy: "foldl adler_step (1, 0) (xs @ ys) =
      ((a1 + byte_sum ys) mod 65521, (b1 + length ys * a1 + weighted_sum ys) mod 65521)"
    using adler_closed [OF red, of ys] by (simp only: foldl_append x)
  note c = adler32_combine_pair [OF assms z(2) z(2), of xs a1 b1 ys, unfolded z(1), OF x y, of "length ys"]
  show ?thesis
  proof (rule adler_valid_inj [OF c(2) z(2)], unfold c(1) z(1) xy combine_mod, rule refl)
  qed
qed

theorem adler32_combine_append_witness:
  "adler32_combine (adler32 (1 :: 64 word) (Some [1, 2])) (adler32 1 (Some [3])) (int (length [3 :: byte])) =
    adler32 1 (Some ([1, 2] @ [3]))"
  by (rule adler32_combine_append) simp

section \<open>Reduction without division\<close>

lemma fold_mod:
  "(a mod (m + k) + k * (a div (m + k))) mod m = a mod (m :: nat)"
proof -
  have "a = a mod (m + k) + k * (a div (m + k)) + m * (a div (m + k))"
    using mod_mult_div_eq [of a "m + k"] by (simp add: algebra_simps)
  then show ?thesis by (metis mod_mult_self2)
qed

lemma CHOP_nat:
  assumes "32 \<le> LENGTH('a :: len)" "unat (a :: 'a word) < 2 ^ 32"
  shows "unat (CHOP_nd a) = unat a mod 65536 + 15 * (unat a div 65536)"
proof -
  let ?t = "drop_bit 16 a"
  have t: "unat ?t = unat a div 65536" 
    unfolding unsigned_drop_bit_eq by (simp add: drop_bit_eq_div take_bit_nat_eq_self unsigned_less)
  then have l: "unat ?t < 65536" using assms(2) by (simp add: less_mult_imp_div_less)
  have low: "unat (a AND 0xffff) = unat a mod 65536" using unat_halves(1) [OF assms(1), of a] by (simp add: adler_pair_def)
  have "unat (push_bit 4 ?t) = take_bit LENGTH('a) (16 * unat ?t)"
    unfolding unsigned_push_bit_eq by (simp add: push_bit_eq_mult mult.commute)
  also have "\<dots> = 16 * unat ?t" using pow32 [OF assms(1)] l by (intro take_bit_nat_eq_self) simp
  finally have "unat (push_bit 4 ?t - ?t) = 15 * unat ?t" by (subst unat_sub_small) simp_all
  then show ?thesis
    using unat_add_small [OF assms(1), of "a AND 0xffff" "push_bit 4 ?t - ?t"] l
    by (simp only: CHOP_nd_def Let_def low t) (simp add: less_le_trans [OF mod_less_divisor])
qed

lemma CHOP_mod:
  assumes "32 \<le> LENGTH('a :: len)" "unat (a :: 'a word) < 2 ^ 32"
  shows "unat (CHOP_nd a) mod 65521 = unat a mod 65521" "unat (CHOP_nd a) \<le> 65535 + 15 * (unat a div 65536)"
  using CHOP_nat [OF assms] fold_mod [of "unat a" 65521 15] mod_less_divisor [of 65536 "unat a"] by simp_all

lemma MOD28_mod:
  assumes "32 \<le> LENGTH('a :: len)" "unat (a :: 'a word) < 2 ^ 28"
  shows "MOD28_nd a = MOD a"
proof -
  have "unat a div 65536 < 4096" using assms(2) by (simp add: less_mult_imp_div_less)
  with CHOP_mod [OF assms(1), of a] assms(2) have "unat (CHOP_nd a) < 131042" by simp
  then have "unat (MOD28_nd a) = unat (MOD a)"
    using CHOP_mod(1) [OF assms(1), of a] assms(2) by (simp add: MOD28_nd_def chop_base_mod [OF assms(1)] unat_MOD [OF assms(1)])
  then show ?thesis by (simp add: word_unat_eq_iff)
qed

lemma MOD_nd_mod:
  assumes "32 \<le> LENGTH('a :: len)" "unat (a :: 'a word) < 2 ^ 32"
  shows "MOD_nd a = MOD a"
proof -
  have "unat a div 65536 < 65536" using assms(2) by (simp add: less_mult_imp_div_less)
  with CHOP_mod(2) [OF assms] have "unat (CHOP_nd a) < 2 ^ 28" by simp
  from MOD28_mod [OF assms(1) this] CHOP_mod(1) [OF assms]
  have "unat (MOD_nd a) = unat (MOD a)" by (simp add: MOD_nd_def unat_MOD [OF assms(1)])
  then show ?thesis by (simp add: word_unat_eq_iff)
qed

definition fold16 :: "int \<Rightarrow> int" where
  "fold16 a = (a AND 0xffff) + (push_bit 4 (drop_bit 16 a) - drop_bit 16 a)"

lemma fold16_eq: "fold16 a = a mod 65536 + 15 * (a div 65536)"
proof -
  have "a AND 0xffff = take_bit 16 a" by (simp add: take_bit_eq_mask mask_eq_exp_minus_1)
  also have "\<dots> = a mod 65536" by (simp add: take_bit_eq_mod)
  finally have "a AND 0xffff = a mod 65536" .
  then show ?thesis by (simp add: fold16_def push_bit_eq_mult drop_bit_eq_div)
qed

lemma fold_mod_int:
  "(a mod (m + k) + k * (a div (m + k))) mod m = a mod (m :: int)"
proof -
  have "a = a mod (m + k) + k * (a div (m + k)) + m * (a div (m + k))"
    using mod_mult_div_eq [of a "m + k"] by (simp add: algebra_simps)
  then show ?thesis by (metis mod_mult_self2)
qed

lemma fold16_mod: "fold16 a mod 65521 = a mod 65521"
  using fold_mod_int [of a 65521 15] by (simp add: fold16_eq)

lemma fold16_bound: "0 \<le> a \<Longrightarrow> 0 \<le> fold16 a \<and> fold16 a \<le> 65535 + 15 * (a div 65536)"
  using pos_mod_bound [of 65536 a] by (simp add: fold16_eq pos_imp_zdiv_nonneg_iff)

lemma MOD63_mod:
  assumes "0 \<le> len" "len < 2 ^ 63"
  shows "MOD63_nd len = len mod 65521"
proof -
  let ?t = "len div 4294967296"
  let ?a = "len mod 4294967296 + 225 * ?t"
  have "len AND 0xffffffff = take_bit 32 len" by (simp add: take_bit_eq_mask mask_eq_exp_minus_1)
  also have "\<dots> = len mod 4294967296" by (simp add: take_bit_eq_mod)
  finally have e: "MOD63_nd len = (let a = fold16 (fold16 ?a) in if a \<ge> 65521 then a - 65521 else a)"
    by (simp add: MOD63_nd_def Let_def fold16_def push_bit_eq_mult drop_bit_eq_div)
  have t: "0 \<le> ?t" "?t \<le> 2147483647" 
    using assms zdiv_mono1 [of len 9223372036854775807 4294967296] by (simp_all add: pos_imp_zdiv_nonneg_iff)
  have a: "0 \<le> ?a" "?a \<le> 487478788095"
    using t pos_mod_bound [of 4294967296 len] by auto
  then have d: "?a div 65536 \<le> 7438336" by linarith
  note f1 = fold16_bound [OF a(1)]
  with d have "fold16 ?a \<le> 111640575" "0 \<le> fold16 ?a" by auto
  then have "fold16 ?a div 65536 \<le> 1703" by linarith
  with fold16_bound [of "fold16 ?a"] f1 have b: "0 \<le> fold16 (fold16 ?a)" "fold16 (fold16 ?a) < 131042" by auto
  have "?a mod 65521 = len mod 65521"
  proof -
    have "len = ?a + 65521 * (65551 * ?t)" by (simp add: minus_mult_div_eq_mod [symmetric])
    then show ?thesis by (metis mod_mult_self2)
  qed
  then have "fold16 (fold16 ?a) mod 65521 = len mod 65521" by (simp only: fold16_mod)
  moreover have "(if x \<ge> 65521 then x - 65521 else x) = x mod 65521" if "0 \<le> x" "x < 131042" for x :: int
  proof (cases "65521 \<le> x")
    case True
    then have "(x - 65521) mod 65521 = x - 65521" using that by (intro mod_pos_pos_trivial) simp_all
    with True show ?thesis by (metis minus_mod_self2)
  qed (use that in simp)
  ultimately show ?thesis using b by (simp only: e Let_def)
qed

text \<open>
  (C21) The reductions of a build without division agree with the remainder: \<open>MOD\<close> on sums
  below \<open>2 ^ 32\<close>, \<open>MOD28\<close> below \<open>2 ^ 28\<close> and \<open>MOD63\<close> on non-negative 63 bit lengths.
\<close>

theorem no_divide_mod:
  assumes "32 \<le> LENGTH('a :: len)"
  shows "(unat (a :: 'a word) < 2 ^ 32 \<longrightarrow> MOD_nd a = MOD a) \<and> (unat a < 2 ^ 28 \<longrightarrow> MOD28_nd a = MOD a) \<and>
    (0 \<le> len \<and> len < 2 ^ 63 \<longrightarrow> MOD63_nd len = len mod 65521)"
  using MOD_nd_mod [OF assms] MOD28_mod [OF assms] MOD63_mod by blast

theorem no_divide_mod_witness:
  "MOD_nd (0xfffffffe :: 32 word) = MOD 0xfffffffe \<and> MOD28_nd (0xfffffff :: 32 word) = MOD 0xfffffff \<and>
    MOD63_nd 0x7fffffffffffffff = 0x7fffffffffffffff mod 65521"
  using no_divide_mod [of "0xfffffffe :: 32 word"] no_divide_mod [of "0xfffffff :: 32 word" "0x7fffffffffffffff"] by simp

end
