(* ===== verification/Crc32_Math.thy ===== *)
theory Crc32_Math
  imports Crc32
begin

text \<open>
  Arithmetic of CRCs. \<open>crc_shift\<close> is linear, injective and generates everything from the
  polynomial 1, so \<open>multmodp\<close> and \<open>x2nmodp\<close> are powers of \<open>crc_shift\<close>, and so are the entries of
  all tables.
\<close>

section \<open>The shift\<close>

abbreviation pshift :: "nat \<Rightarrow> uint \<Rightarrow> uint" where
  "pshift n \<equiv> crc_shift ^^ n"

definition one_poly :: uint where "one_poly = push_bit 31 1"

lemma crc_shift_alt: "crc_shift p = drop_bit 1 p XOR (if bit p 0 then POLY else 0)"
  by (simp add: crc_shift_def)

lemma crc_shift_xor: "crc_shift (a XOR b) = crc_shift a XOR crc_shift b"
  unfolding crc_shift_alt by (auto simp: bit_xor_iff ac_simps)

lemma crc_shift_0 [simp]: "crc_shift 0 = 0"
  by (simp add: crc_shift_def)

lemma pshift_xor: "pshift n (a XOR b) = pshift n a XOR pshift n b"
  by (induction n) (auto simp: crc_shift_xor)

lemma pshift_0 [simp]: "pshift n 0 = 0"
  by (induction n) auto

lemma pshift_add: "pshift (m + n) a = pshift m (pshift n a)"
  by (simp add: funpow_add)

lemma bit_POLY_31: "bit POLY 31"
  by (simp add: POLY_def)

lemma bit_crc_shift_31: "bit (crc_shift p) 31 \<longleftrightarrow> bit p 0"
  using bit_imp_le_length [of p 32] bit_POLY_31 unfolding crc_shift_alt bit_xor_iff bit_drop_bit_eq comp_apply
  by auto

lemma xor_right_cancel: "(x :: uint) XOR c = y XOR c \<longleftrightarrow> x = y"
proof
  assume "x XOR c = y XOR c"
  then have "(x XOR c) XOR c = (y XOR c) XOR c" by simp
  then show "x = y" by (simp add: xor.assoc)
qed simp

lemma crc_shift_inject: "crc_shift a = crc_shift b \<longleftrightarrow> a = b"
proof
  assume eq: "crc_shift a = crc_shift b"
  then have 0: "bit a 0 = bit b 0" by (metis bit_crc_shift_31)
  with eq have "drop_bit 1 a = drop_bit 1 b" by (simp only: crc_shift_alt xor_right_cancel)
  then have s: "bit a (Suc i) = bit b (Suc i)" for i by (metis bit_drop_bit_eq comp_apply plus_1_eq_Suc)
  show "a = b"
  proof (rule bit_word_eqI)
    show "bit a i = bit b i" for i using 0 s by (cases i) auto
  qed
qed simp

lemma pshift_inject: "pshift n a = pshift n b \<longleftrightarrow> a = b"
  by (induction n) (auto simp: crc_shift_inject)

lemma pshift_nonzero: "a \<noteq> 0 \<Longrightarrow> pshift n a \<noteq> 0"
  using pshift_inject [of n a 0] by simp

lemma pshift_drop: "(\<And>i. i < n \<Longrightarrow> \<not> bit a i) \<Longrightarrow> pshift n a = drop_bit n a"
proof (induction n arbitrary: a)
  case (Suc n)
  then have "crc_shift a = drop_bit 1 a" by (simp add: crc_shift_def)
  moreover have "pshift n (drop_bit 1 a) = drop_bit n (drop_bit 1 a)"
    using Suc.prems by (intro Suc.IH) (simp add: bit_drop_bit_eq)
  ultimately show ?case by (simp add: funpow_Suc_right del: funpow.simps)
qed simp

lemma pshift_split: "pshift n a = drop_bit n a XOR pshift n (a AND mask n)"
proof -
  have "a = (a AND NOT (mask n)) XOR (a AND mask n)"
    by (rule bit_word_eqI) (auto simp: bit_simps)
  then have "pshift n a = pshift n (a AND NOT (mask n)) XOR pshift n (a AND mask n)"
    by (metis pshift_xor)
  moreover have "pshift n (a AND NOT (mask n)) = drop_bit n (a AND NOT (mask n))"
    by (rule pshift_drop) (auto simp: bit_simps)
  moreover have "drop_bit n (a AND NOT (mask n)) = drop_bit n a"
    by (rule bit_word_eqI) (auto simp: bit_simps dest: bit_imp_le_length)
  ultimately show ?thesis by simp
qed

lemma bit_one_poly: "bit one_poly i \<longleftrightarrow> i = 31"
  unfolding one_poly_def bit_push_bit_iff bit_1_iff possible_bit_word by auto

lemma bit_single: "j < 32 \<Longrightarrow> bit (push_bit j 1 :: uint) i \<longleftrightarrow> i = j"
  unfolding bit_push_bit_iff bit_1_iff possible_bit_word by auto

lemma pshift_one: "n \<le> 31 \<Longrightarrow> pshift n one_poly = push_bit (31 - n) 1"
proof -
  assume n: "n \<le> 31"
  have "pshift n one_poly = drop_bit n one_poly"
    using n by (intro pshift_drop) (auto simp: bit_one_poly)
  also have "\<dots> = push_bit (31 - n) 1"
    using n by (intro bit_word_eqI) (simp only: bit_drop_bit_eq comp_apply bit_one_poly bit_single, auto simp: bit_single)
  finally show ?thesis .
qed

section \<open>Products\<close>

primrec mpart :: "uint \<Rightarrow> uint \<Rightarrow> nat \<Rightarrow> uint" where
  "mpart a b 0 = 0"
| "mpart a b (Suc n) = mpart a b n XOR (if bit a (31 - n) then pshift n b else 0)"

definition mulp :: "uint \<Rightarrow> uint \<Rightarrow> uint" where
  "mulp a b = mpart a b 32"

lemma mpart_xor: "mpart a (b XOR c) n = mpart a b n XOR mpart a c n"
  by (induction n) (auto simp: pshift_xor ac_simps)

lemma mpart_shift: "mpart a (crc_shift b) n = crc_shift (mpart a b n)"
proof (induction n)
  case (Suc n)
  have "pshift n (crc_shift b) = crc_shift (pshift n b)" by (simp add: funpow_swap1)
  with Suc show ?case by (auto simp: crc_shift_xor)
qed simp

lemma mpart_one: "n \<le> 32 \<Longrightarrow> bit (mpart a one_poly n) i \<longleftrightarrow> bit a i \<and> i < 32 \<and> 31 - i < n"
proof (induction n)
  case (Suc n)
  then have "bit (pshift n one_poly) i \<longleftrightarrow> i = 31 - n" 
    by (subst pshift_one, simp, subst bit_single) simp_all
  moreover have "i < 32" if "bit a i" using that bit_imp_le_length [of a i] by simp
  moreover have "31 - i < Suc n \<longleftrightarrow> 31 - i < n \<or> i = 31 - n" if "i < 32" using that Suc.prems by auto
  ultimately show ?case using Suc by (auto simp: bit_xor_iff)
qed simp

lemma mulp_one: "mulp a one_poly = a"
  by (rule bit_word_eqI) (auto simp: mulp_def mpart_one)

text \<open>A linear map that commutes with the shift is determined by its value on 1.\<close>

lemma linear_unique:
  assumes F: "\<And>x y. F (x XOR y) = F x XOR F y" "\<And>x. F (crc_shift x) = crc_shift (F x)"
    and G: "\<And>x y. G (x XOR y) = G x XOR G y" "\<And>x. G (crc_shift x) = crc_shift (G x)"
    and one: "F one_poly = G one_poly"
  shows "F b = (G b :: uint)"
proof -
  have z: "F 0 = 0" "G 0 = 0" using F(1) [of 0 0] G(1) [of 0 0] by simp_all
  have p: "F (pshift n one_poly) = G (pshift n one_poly)" for n
    by (induction n) (simp_all add: F(2) G(2) one)
  have "F (mpart b one_poly n) = G (mpart b one_poly n)" for n
    by (induction n) (simp_all add: z F(1) G(1) p)
  then show ?thesis by (metis mulp_def mulp_one)
qed

lemma mulp_pshift: "mulp (pshift n one_poly) b = pshift n b"
proof (rule linear_unique [of "mulp (pshift n one_poly)" "pshift n"])
  show "mulp (pshift n one_poly) (crc_shift x) = crc_shift (mulp (pshift n one_poly) x)" for x
    by (simp add: mulp_def mpart_shift)
  show "pshift n (crc_shift x) = crc_shift (pshift n x)" for x by (simp add: funpow_swap1)
qed (simp_all add: mulp_def mpart_xor pshift_xor mulp_one [unfolded mulp_def])

lemma mulp_pshift2: "mulp a (pshift n one_poly) = pshift n a"
proof -
  have "mulp a (pshift n one_poly) = pshift n (mulp a one_poly)"
    by (induction n) (simp_all add: mulp_def mpart_shift)
  then show ?thesis by (simp add: mulp_one)
qed

text \<open>The loop of \<open>multmodp\<close> computes the product and ends unless \<open>a\<close> is zero.\<close>

lemma mpart_rest:
  assumes "\<And>i. i < k \<Longrightarrow> \<not> bit a i" "k \<le> 32"
  shows "mpart a b (32 - k + j) = mpart a b (32 - k) \<or> k < j"
proof (induction j)
  case (Suc j)
  then show ?case using assms(1) [of "31 - (32 - k + j)"] assms(2) by (cases "k < Suc j") auto
qed simp

lemma and_mask_0: "n \<le> 32 \<Longrightarrow> (a :: uint) AND mask n = 0 \<longleftrightarrow> (\<forall>i < n. \<not> bit a i)"
proof
  assume "n \<le> 32" and z: "a AND mask n = 0"
  have "bit (a AND mask n) i \<longleftrightarrow> bit a i" if "i < n" for i
    using that \<open>n \<le> 32\<close> by (simp add: bit_and_iff bit_mask_iff)
  then show "\<forall>i < n. \<not> bit a i" unfolding z by simp
next
  assume "\<forall>i < n. \<not> bit a i"
  then show "a AND mask n = 0" by (intro bit_word_eqI) (auto simp: bit_and_iff bit_mask_iff)
qed

lemma multmodp_loop_mulp:
  "k \<le> 31 \<Longrightarrow> multmodp_loop k a (pshift (31 - k) b) (mpart a b (31 - k)) =
    (if a AND mask (Suc k) = 0 then None else Some (mulp a b))"
proof (induction k)
  case 0
  have "a AND 1 = 0 \<longleftrightarrow> \<not> bit a 0" by (simp add: bit_0 even_iff_mod_2_eq_zero and_one_eq)
  then show ?case by (auto simp: multmodp_loop.simps [of 0] Let_def mulp_def numeral_eq_Suc)
next
  case (Suc k)
  then have k: "31 - k = Suc (31 - Suc k)" by simp
  have m: "mpart a b (31 - k) = (if bit a (Suc k) then mpart a b (31 - Suc k) XOR pshift (31 - Suc k) b else mpart a b (31 - Suc k))"
    using Suc.prems by (simp only: k mpart.simps) (simp add: k [symmetric])
  have s: "crc_shift (pshift (31 - Suc k) b) = pshift (31 - k) b" by (simp only: k funpow.simps comp_apply)
  have split: "a AND mask (Suc (Suc k)) = 0 \<longleftrightarrow> \<not> bit a (Suc k) \<and> a AND mask (Suc k) = 0"
    using Suc.prems by (auto simp: and_mask_0 less_Suc_eq)
  have fin: "mpart a b (31 - k) = mulp a b" if "a AND mask (Suc k) = 0"
  proof -
    have "\<not> bit a i" if "i < Suc k" for i
      using that \<open>a AND mask (Suc k) = 0\<close> Suc.prems by (simp add: and_mask_0)
    then show ?thesis using mpart_rest [of "Suc k" a b "Suc k"] Suc.prems by (simp add: mulp_def)
  qed
  show ?case unfolding multmodp_loop.simps [of "Suc k"] Let_def nat.case s m [symmetric] split
    using Suc fin by auto
qed

lemma multmodp_eq: "multmodp a b = (if a = 0 then None else Some (mulp a b))"
proof -
  have "a AND mask (Suc 31) = a" by (rule bit_word_eqI) (auto simp: bit_simps dest: bit_imp_le_length)
  then show ?thesis using multmodp_loop_mulp [of 31 a b] by (simp add: multmodp_def)
qed


section \<open>Tables of a linear map\<close>

text \<open>
  A table of 256 entries is checked on neighbouring entries only: an odd entry differs from the
  one before by entry 1, and the shift halves the index.
\<close>

fun table_ok :: "uint \<Rightarrow> uint list \<Rightarrow> uint list \<Rightarrow> bool" where
  "table_ok t1 (x # y # xs) (k # ks) \<longleftrightarrow> y = x XOR t1 \<and> k = crc_shift x \<and> table_ok t1 xs ks"
| "table_ok t1 xs ks \<longleftrightarrow> xs = []"

lemma table_ok_nth:
  "table_ok t1 xs ks \<Longrightarrow> 2 * j + 1 < length xs \<Longrightarrow> xs ! (2 * j + 1) = xs ! (2 * j) XOR t1 \<and> ks ! j = crc_shift (xs ! (2 * j))"
proof (induction t1 xs ks arbitrary: j rule: table_ok.induct)
  case (1 t1 x y xs k ks)
  then show ?case by (cases j) auto
qed auto

lemma shift_double: "2 * k < 256 \<Longrightarrow> crc_shift (of_nat (2 * k)) = of_nat k"
proof -
  assume k: "2 * k < 256"
  have "drop_bit 1 (of_nat (2 * k) :: uint) = of_nat k"
    using k by (simp add: drop_bit_eq_div word_unat_eq_iff unat_div unsigned_of_nat take_bit_nat_eq_self unat_word_ariths)
  moreover have "\<not> bit (of_nat (2 * k) :: uint) 0" by (simp add: bit_0)
  ultimately show ?thesis by (simp add: crc_shift_def)
qed

lemma odd_xor: "of_nat (2 * k + 1) = (of_nat (2 * k) XOR 1 :: uint)"
proof -
  have "even (of_nat (2 * k) :: uint)" by simp
  then have "of_nat (2 * k) XOR 1 = (of_nat (2 * k) + 1 :: uint)" by (simp add: xor_one_eq)
  then show ?thesis by simp
qed

lemma table_linear:
  assumes "length T = 256" "table_ok (T ! 1) T T" "T ! 0 = 0" "T ! 1 = pshift m 1"
  shows "i < 256 \<Longrightarrow> T ! i = pshift m (of_nat i)"
proof (induction i rule: less_induct)
  case (less i)
  consider "i = 0" | k where "i = 2 * k" "0 < k" | k where "i = 2 * k + 1"
    by (metis One_nat_def Suc_eq_plus1 evenE gr0I mult_0_right oddE)
  then show ?case
  proof cases
    case (2 k)
    then have "crc_shift (T ! i) = T ! k" using table_ok_nth [OF assms(2), of k] less.prems assms(1) by simp
    also have "\<dots> = pshift m (of_nat k)" using 2 less by simp
    also have "\<dots> = crc_shift (pshift m (of_nat i))"
      using shift_double [of k] 2 less.prems by (metis funpow_swap1)
    finally show ?thesis by (simp only: crc_shift_inject)
  next
    case (3 k)
    then have "T ! i = T ! (2 * k) XOR pshift m 1" using table_ok_nth [OF assms(2), of k] less.prems assms(1,4) by simp
    also have "T ! (2 * k) = pshift m (of_nat (2 * k))" using 3 less by simp
    finally show ?thesis unfolding 3 odd_xor pshift_xor .
  qed (simp add: assms(3))
qed

end
