(* ===== verification/Crc32_Checks.thy ===== *)
theory Crc32_Checks
  imports Crc32_Math
begin

text \<open>
  The literal tables of \<open>crc32.h\<close> are the ones that \<open>make_crc_table\<close> and \<open>braid\<close> compute. The
  checks run on integers, where the kernel evaluates the shift quickly.
\<close>

section \<open>Evaluation on integers\<close>

definition shift_int :: "int \<Rightarrow> int" where
  "shift_int p = (case odd p of True \<Rightarrow> p div 2 XOR 0xedb88320 | False \<Rightarrow> p div 2)"

lemma uint_crc_shift: "uint (crc_shift p) = shift_int (uint p)"
proof -
  have "take_bit 32 (uint p) = uint p" using take_bit_int_eq_self [of "uint p" 32] uint_lt2p [of p] by simp
  then have "uint (drop_bit 1 p) = uint p div 2"
    unfolding unsigned_drop_bit_eq by (simp add: drop_bit_eq_div)
  moreover have "bit p 0 \<longleftrightarrow> bit (uint p) 0" by (simp add: bit_uint_iff)
  ultimately show ?thesis
    by (simp add: crc_shift_def shift_int_def bit_0 POLY_def unsigned_xor_eq split: bool.splits)
qed

fun pshift_int :: "nat \<Rightarrow> int \<Rightarrow> int" where
  "pshift_int 0 x = x"
| "pshift_int (Suc n) x = pshift_int n (shift_int x)"

lemma uint_pshift: "uint (pshift n x) = pshift_int n (uint x)"
  by (induction n arbitrary: x) (simp_all add: funpow_Suc_right uint_crc_shift del: funpow.simps)

fun table_ok_int :: "int \<Rightarrow> int list \<Rightarrow> int list \<Rightarrow> bool" where
  "table_ok_int t1 (x # y # xs) (k # ks) \<longleftrightarrow> y = x XOR t1 \<and> k = shift_int x \<and> table_ok_int t1 xs ks"
| "table_ok_int t1 xs ks \<longleftrightarrow> xs = []"

lemma table_ok_intI: "table_ok_int (uint t1) (map uint xs) (map uint ks) \<Longrightarrow> table_ok t1 xs ks"
  by (induction t1 xs ks rule: table_ok.induct)
    (simp_all add: word_uint_eq_iff unsigned_xor_eq uint_crc_shift)

text \<open>All that has to be known of a table of the map \<open>pshift m\<close>.\<close>

definition table_check :: "nat \<Rightarrow> uint list \<Rightarrow> bool" where
  "table_check m T \<longleftrightarrow> (let T' = map uint T; t1 = pshift_int m 1 in
     length T' = 256 \<and> hd T' = 0 \<and> hd (tl T') = t1 \<and> table_ok_int t1 T' T')"

lemma table_check:
  assumes "table_check m T" "i < 256"
  shows "T ! i = pshift m (of_nat i)"
proof (rule table_linear)
  have len: "length T = 256" using assms(1) by (simp add: table_check_def Let_def)
  then obtain x y zs where T: "T = x # y # zs" by (cases T; cases "tl T") auto
  have c: "uint x = 0" "uint y = pshift_int m 1" "table_ok_int (pshift_int m 1) (map uint T) (map uint T)"
    using assms(1) unfolding table_check_def Let_def by (simp add: T, simp add: T, simp only:)
  show "length T = 256" by (rule len)
  show "T ! 0 = 0" using c(1) by (simp add: T word_uint_eq_iff)
  have "uint y = uint (pshift m 1)" using c(2) by (simp add: uint_pshift)
  then show 1: "T ! 1 = pshift m 1" by (simp only: T word_uint_eq_iff nth_Cons_Suc One_nat_def nth_Cons_0)
  show "table_ok (T ! 1) T T" using c(3) unfolding 1 by (intro table_ok_intI) (simp add: uint_pshift)
qed (rule assms)

fun mul_int :: "nat \<Rightarrow> int \<Rightarrow> int \<Rightarrow> int \<Rightarrow> int" where
  "mul_int 0 a b p = p"
| "mul_int (Suc n) a b p = mul_int n a (shift_int b) (case bit a n of True \<Rightarrow> p XOR b | False \<Rightarrow> p)"

lemma uint_mpart: "n \<le> 32 \<Longrightarrow> mul_int n (uint a) (uint (pshift (32 - n) b)) (uint (mpart a b (32 - n))) = uint (mulp a b)"
proof (induction n)
  case (Suc n)
  then have n: "32 - n = Suc (32 - Suc n)" "31 - (32 - Suc n) = n" by simp_all
  have "bit (uint a) n = bit a n" using Suc.prems by (simp add: bit_uint_iff)
  then have "uint (mpart a b (32 - n)) = (case bit (uint a) n of True \<Rightarrow> uint (mpart a b (32 - Suc n)) XOR uint (pshift (32 - Suc n) b)
      | False \<Rightarrow> uint (mpart a b (32 - Suc n)))"
    by (simp only: n mpart.simps) (simp add: n(2) unsigned_xor_eq split: bool.splits)
  moreover have "shift_int (uint (pshift (32 - Suc n) b)) = uint (pshift (32 - n) b)"
    by (simp only: n(1) funpow.simps comp_apply uint_crc_shift)
  ultimately show ?case using Suc.IH Suc.prems by (simp only: mul_int.simps Suc_leD)
qed (simp add: mulp_def)

lemma uint_mulp: "uint (mulp a b) = mul_int 32 (uint a) (uint b) 0"
  using uint_mpart [of 32 a b] by simp

section \<open>Checking the tables\<close>

lemma crc_table_check: "table_check 8 crc_table"
  by code_simp

lemma braid_row0_check: "table_check 320 braid_row0"
  by code_simp

lemma braid_row1_check: "table_check 312 braid_row1"
  by code_simp

lemma braid_row2_check: "table_check 304 braid_row2"
  by code_simp

lemma braid_row3_check: "table_check 296 braid_row3"
  by code_simp

lemma braid_row4_check: "table_check 288 braid_row4"
  by code_simp

lemma braid_row5_check: "table_check 280 braid_row5"
  by code_simp

lemma braid_row6_check: "table_check 272 braid_row6"
  by code_simp

lemma braid_row7_check: "table_check 264 braid_row7"
  by code_simp

lemmas crc_table_nth = table_check [OF crc_table_check]

lemmas braid_rows =
  table_check [OF braid_row0_check]
  table_check [OF braid_row1_check]
  table_check [OF braid_row2_check]
  table_check [OF braid_row3_check]
  table_check [OF braid_row4_check]
  table_check [OF braid_row5_check]
  table_check [OF braid_row6_check]
  table_check [OF braid_row7_check]

lemma less_8_cases: "(k :: nat) < 8 \<Longrightarrow> k = 0 \<or> k = 1 \<or> k = 2 \<or> k = 3 \<or> k = 4 \<or> k = 5 \<or> k = 6 \<or> k = 7"
  by linarith

lemma crc_braid_table_nth: "k < 8 \<Longrightarrow> i < 256 \<Longrightarrow> crc_braid_table ! k ! i = pshift (8 * (40 - k)) (of_nat i)"
  by (drule less_8_cases) (auto simp: crc_braid_table_def braid_rows)

section \<open>Powers of \<open>x\<close>\<close>

definition x2n_ints :: "int list" where
  "x2n_ints = [
     0x40000000, 0x20000000, 0x08000000, 0x00800000, 0x00008000, 0xedb88320, 0xb1e6b092, 0xa06a2517,
     0xed627dae, 0x88d14467, 0xd7bbfe6a, 0xec447f11, 0x8e7ea170, 0x6427800e, 0x4d47bae0, 0x09fe548f,
     0x83852d0f, 0x30362f1a, 0x7b5a9cc3, 0x31fec169, 0x9fec022a, 0x6c8dedc4, 0x15d6874d, 0x5fde7a4e,
     0xbad90e37, 0x2e4e5eef, 0x4eaba214, 0xa8a472c0, 0x429a969e, 0x148d302a, 0xc40ba6d0, 0xc4e22c3c]"

lemma x2n_table_ints: "map uint x2n_table = x2n_ints"
  by (simp add: x2n_table_def x2n_ints_def)

fun squares :: "int list \<Rightarrow> bool" where
  "squares (x # y # xs) \<longleftrightarrow> mul_int 32 x x 0 = y \<and> squares (y # xs)"
| "squares xs \<longleftrightarrow> True"

lemma x2n_squares: "squares (x2n_ints @ [0x40000000])"
  by code_simp


lemma squares_nth: "squares xs \<Longrightarrow> Suc k < length xs \<Longrightarrow> mul_int 32 (xs ! k) (xs ! k) 0 = xs ! Suc k"
proof (induction xs arbitrary: k rule: squares.induct)
  case (1 x y xs)
  then show ?case by (cases k) auto
qed auto

lemma x2n_nth: "k < 32 \<Longrightarrow> uint (x2n_table ! k) = (x2n_ints @ [0x40000000]) ! k"
proof -
  have "length x2n_table = 32" by (simp add: x2n_table_def)
  moreover assume "k < 32"
  ultimately show ?thesis by (simp add: x2n_table_ints [symmetric] nth_append)
qed

lemma length_x2n_ints: "length x2n_ints = 32"
  by (simp add: x2n_ints_def)

lemma x2n_power: "k \<le> 32 \<Longrightarrow> uint (pshift (2 ^ k) one_poly) = (x2n_ints @ [0x40000000]) ! k"
proof (induction k)
  case 0
  have "uint (pshift 1 one_poly) = 0x40000000" by (subst pshift_one) simp_all
  then show ?case by (simp add: x2n_ints_def)
next
  case (Suc k)
  have "uint (pshift (2 ^ Suc k) one_poly) = uint (mulp (pshift (2 ^ k) one_poly) (pshift (2 ^ k) one_poly))"
    by (simp add: mulp_pshift mult_2 pshift_add)
  also have "\<dots> = (x2n_ints @ [0x40000000]) ! Suc k"
    using Suc squares_nth [OF x2n_squares, of k] by (simp add: uint_mulp length_x2n_ints)
  finally show ?case .
qed

lemma x2n_table_power_low: "k < 32 \<Longrightarrow> x2n_table ! k = pshift (2 ^ k) one_poly"
  by (metis x2n_nth x2n_power less_imp_le word_uint_eq_iff)

text \<open>The order of \<open>x\<close> divides \<open>2 ^ 32 - 1\<close>: this is why the code may reduce the index modulo 32.\<close>

lemma pshift_2_32: "pshift (2 ^ 32) a = crc_shift a"
proof (rule linear_unique [of "pshift (2 ^ 32)" crc_shift])
  have "uint (pshift (2 ^ 32) one_poly) = uint (pshift (2 ^ 0) one_poly)"
    using x2n_power [of 32] x2n_power [of 0] by (simp only: length_x2n_ints nth_append) (simp add: x2n_ints_def)
  then show "pshift (2 ^ 32) one_poly = crc_shift one_poly" by (simp only: word_uint_eq_iff) simp
  show "pshift (2 ^ 32) (crc_shift x) = crc_shift (pshift (2 ^ 32) x)" for x by (simp only: funpow_swap1)
qed (simp_all only: pshift_xor crc_shift_xor)

lemma pshift_2_add_32: "pshift (2 ^ (k + 32)) a = pshift (2 ^ k) a"
proof -
  have "pshift (2 ^ 32 * n) b = pshift n b" for n b
    by (induction n arbitrary: b) (simp_all add: pshift_add pshift_2_32 funpow_swap1 del: power_numeral)
  then show ?thesis by (simp only: power_add mult.commute)
qed

lemma pshift_2_mod: "pshift (2 ^ (k mod 32)) a = pshift (2 ^ k) a"
proof (induction k rule: less_induct)
  case (less k)
  show ?case
  proof (cases "k < 32")
    case False
    then have "pshift (2 ^ ((k - 32) mod 32)) a = pshift (2 ^ (k - 32)) a" by (intro less.IH) simp
    moreover have "(k - 32) mod 32 = k mod 32" using False by (simp add: le_mod_geq)
    moreover have "pshift (2 ^ (k - 32)) a = pshift (2 ^ k) a" using pshift_2_add_32 [of "k - 32" a] False by simp
    ultimately show ?thesis by simp
  qed simp
qed

lemma x2n_table_power: "x2n_table ! (k mod 32) = pshift (2 ^ k) one_poly"
  by (simp add: x2n_table_power_low pshift_2_mod)

lemma one_poly_nonzero: "one_poly \<noteq> 0"
  using bit_one_poly [of 31] by (metis bit_0_eq bot_apply bot_bool_def)

lemma multmodp_pshift: "multmodp (pshift n one_poly) b = Some (pshift n b)"
  by (simp add: multmodp_eq mulp_pshift pshift_nonzero one_poly_nonzero)

lemma x2nmodp_loop_power: "0 \<le> n \<Longrightarrow> x2nmodp_loop n k (pshift m one_poly) = Some (pshift (nat n * 2 ^ k + m) one_poly)"
proof (induction "nat n" arbitrary: n k m rule: less_induct)
  case less
  show ?case
  proof (cases "n = 0")
    case False
    with less.prems have n: "0 < n" by simp
    let ?m = "(if n mod 2 = 1 then 2 ^ k else 0) + m"
    have step: "x2nmodp_loop n k (pshift m one_poly) = x2nmodp_loop (n div 2) (k + 1) (pshift ?m one_poly)"
      using n by (subst x2nmodp_loop.simps) (simp add: x2n_table_power multmodp_pshift pshift_add)
    have IH: "x2nmodp_loop (n div 2) (k + 1) (pshift ?m one_poly) = Some (pshift (nat (n div 2) * 2 ^ (k + 1) + ?m) one_poly)"
      by (rule less.hyps) (use n in auto)
    have "int (nat n) = int (2 * nat (n div 2) + (if n mod 2 = 1 then 1 else 0))"
    proof -
      have "n = 2 * (n div 2) + (if n mod 2 = 1 then 1 else 0)" by presburger
      then show ?thesis using n by auto
    qed
    then have "nat n = 2 * nat (n div 2) + (if n mod 2 = 1 then 1 else 0)" by (simp only: of_nat_eq_iff)
    then have "nat n * 2 ^ k = 2 * nat (n div 2) * 2 ^ k + (if n mod 2 = 1 then 2 ^ k else 0)"
      by (simp add: algebra_simps)
    then show ?thesis unfolding step IH by (simp add: algebra_simps)
  qed (simp add: x2nmodp_loop.simps)
qed

lemma x2nmodp_power: "0 \<le> n \<Longrightarrow> x2nmodp n k = Some (pshift (nat n * 2 ^ k) one_poly)"
  using x2nmodp_loop_power [of n k 0] by (simp add: x2nmodp_def one_poly_def)

end
