(* ===== verification/Crc32_Props.thy ===== *)
theory Crc32_Props
  imports Crc32_Checks
begin

text \<open>
  \<open>crc32_z\<close> against the bit serial CRC, in both byte orders and for every alignment, and the
  combination of CRCs.
\<close>

section \<open>The CRC of a bit string\<close>

definition crc_bit :: "uint \<Rightarrow> bool \<Rightarrow> uint" where
  "crc_bit c b = crc_shift (c XOR of_bool b)"

text \<open>The register starts with all ones and is complemented at the end.\<close>

definition crc_of :: "uint \<Rightarrow> byte list \<Rightarrow> uint" where
  "crc_of crc buf = NOT (foldl crc_bit (NOT crc) (bytes_bits buf))"

section \<open>A byte at a time\<close>

definition crc_step :: "uint \<Rightarrow> byte \<Rightarrow> uint" where
  "crc_step c b = pshift 8 (c XOR ucast b)"

lemma crc_shift_push: "\<not> bit w 31 \<Longrightarrow> crc_shift (push_bit 1 w) = w"
proof -
  assume w: "\<not> bit w 31"
  have "drop_bit 1 (push_bit 1 w) = w"
  proof (rule bit_word_eqI)
    fix i assume "i < LENGTH(32)"
    then show "bit (drop_bit 1 (push_bit 1 w)) i = bit w i"
      using w unfolding bit_drop_bit_eq comp_apply bit_push_bit_iff possible_bit_word by (cases "i = 31") auto
  qed
  moreover have "\<not> bit (push_bit 1 w) 0" unfolding bit_push_bit_iff by simp
  ultimately show ?thesis by (simp only: crc_shift_def if_False)
qed

lemma bit_nat_iff_small: "v < 2 ^ n \<Longrightarrow> \<not> bit (v :: nat) n"
  by (metis bit_take_bit_iff less_irrefl take_bit_nat_eq_self)

lemma crc_bits_linear:
  "length bs \<le> 32 \<Longrightarrow> foldl crc_bit c bs = pshift (length bs) (c XOR of_nat (bits_nat bs))"
proof (induction bs arbitrary: c)
  case (Cons b bs)
  let ?v = "of_nat (bits_nat bs) :: uint"
  have "bits_nat bs < 2 ^ 31"
    using bits_nat_bound [of bs] Cons.prems power_increasing [of "length bs" 31 "2 :: nat"] by simp
  then have v: "\<not> bit ?v 31" by (simp add: bit_of_nat_iff bit_nat_iff_small)
  have "of_nat (bits_nat (b # bs)) = of_bool b XOR push_bit 1 ?v"
    by (cases b) (simp_all add: one_xor_eq)
  moreover have "crc_shift (push_bit 1 ?v) = ?v" by (rule crc_shift_push [OF v])
  ultimately have "crc_shift (c XOR of_nat (bits_nat (b # bs))) = crc_bit c b XOR of_nat (bits_nat bs)"
    using Cons.prems by (simp add: crc_bit_def crc_shift_xor xor.assoc)
  then show ?case using Cons.IH [of "crc_bit c b"] Cons.prems
    by (simp add: funpow_Suc_right del: funpow.simps bits_nat_Cons)
qed simp

lemma crc_step_bits: "crc_step c b = foldl crc_bit c (byte_bits b)"
proof -
  have "bits_nat (byte_bits b) = unat b"
    using unat_byte_bound [of b] by (simp add: byte_bits_def take_bit_nat_eq_self)
  then show ?thesis using crc_bits_linear [of "byte_bits b" c] by (simp add: crc_step_def)
qed

lemma foldl_crc_step: "foldl crc_step c buf = foldl crc_bit c (bytes_bits buf)"
  by (induction buf arbitrary: c) (simp_all add: crc_step_bits)

lemma foldl_crc_step_xor:
  "foldl crc_step (a XOR b) buf = pshift (8 * length buf) a XOR foldl crc_step b buf"
proof (induction buf arbitrary: a b)
  case (Cons x buf)
  have "crc_step (a XOR b) x = pshift 8 a XOR crc_step b x"
    by (simp add: crc_step_def pshift_xor xor.assoc)
  moreover have "pshift (8 * length (x # buf)) a = pshift (8 * length buf) (pshift 8 a)"
    using pshift_add [of "8 * length buf" 8 a] by (simp add: add.commute)
  ultimately show ?case using Cons [of "pshift 8 a" "crc_step b x"] by simp
qed simp

text \<open>One table lookup, on a register that is kept in a longer word.\<close>

lemma step_lookup: "crc_step c b = drop_bit 8 c XOR crc_table ! unat ((c XOR ucast b) AND 0xff)"
proof -
  let ?x = "c XOR ucast b"
  have m: "(0xff :: uint) = mask 8" by (simp add: mask_eq_exp_minus_1)
  have "unat (?x AND 0xff) < 256"
    unfolding m using and_mask_less' [of 8 ?x] by (simp add: word_less_nat_alt)
  then have "crc_table ! unat (?x AND 0xff) = pshift 8 (?x AND mask 8)" by (simp add: crc_table_nth m)
  moreover have "drop_bit 8 ?x = drop_bit 8 c"
    by (rule bit_word_eqI) (auto simp: bit_simps dest: bit_imp_le_length)
  ultimately show ?thesis using pshift_split [of 8 ?x] by (simp add: crc_step_def)
qed

lemma crc_byte_step: "crc_byte (ucast c) b = ucast (crc_step c b)"
proof -
  have "drop_bit 8 (ucast c :: z_word) = ucast (drop_bit 8 c)"
    by (rule bit_word_eqI) (auto simp: bit_simps dest: bit_imp_le_length)
  moreover have "(ucast c XOR ucast b :: z_word) AND 0xff = ucast ((c XOR ucast b) AND 0xff)"
    by (rule bit_word_eqI) (auto simp: bit_simps dest: bit_imp_le_length)
  moreover have "unat (ucast ((c XOR ucast b) AND 0xff) :: z_word) = unat ((c XOR ucast b) AND 0xff)"
    by (simp add: unsigned_ucast_eq take_bit_nat_eq_self less_le_trans [OF unsigned_less])
  moreover have "(ucast (x XOR y) :: z_word) = ucast x XOR ucast y" for x y :: uint
    by (rule bit_word_eqI) (auto simp: bit_simps)
  ultimately show ?thesis by (simp only: crc_byte_def step_lookup)
qed

lemma foldl_crc_byte: "foldl crc_byte (ucast c) buf = ucast (foldl crc_step c buf)"
  by (induction buf arbitrary: c) (simp_all add: crc_byte_step)

lemma crc_tail_foldl: "crc_tail crc buf = foldl crc_byte crc buf"
  by (induction crc buf rule: crc_tail.induct) simp_all

lemma align_loop_foldl:
  "align_loop addr crc buf = (crc', rest) \<Longrightarrow>
    \<exists>p. buf = p @ rest \<and> crc' = foldl crc_byte crc p \<and> length p \<le> (8 - addr mod 8) mod 8"
proof (induction addr crc buf rule: align_loop.induct)
  case (2 addr crc b buf)
  show ?case
  proof (cases "addr mod 8 = 0")
    case False
    then obtain p where p: "buf = p @ rest" "crc' = foldl crc_byte (crc_byte crc b) p"
        "length p \<le> (8 - (addr + 1) mod 8) mod 8"
      using 2 by (auto simp: W_bytes_def)
    have "Suc (length p) \<le> (8 - addr mod 8) mod 8"
    proof (cases "addr mod 8 = 7")
      case True
      then have "(addr + 1) mod 8 = 0" by (simp add: mod_Suc)
      with p(3) True show ?thesis by simp
    next
      case ne: False
      define r where "r = addr mod 8"
      have r: "r < 8" "r \<noteq> 0" "r \<noteq> 7" using False ne by (simp_all add: r_def)
      then have "(addr + 1) mod 8 = r + 1" by (simp add: r_def mod_Suc)
      moreover have "(8 - (r + 1)) mod 8 = 8 - (r + 1)" "(8 - r) mod 8 = 8 - r" using r by (auto intro!: mod_less)
      ultimately show ?thesis using p(3) r by (simp only: flip: r_def)
    qed
    with p show ?thesis by (intro exI [of _ "b # p"]) simp
  qed (use 2 in \<open>simp add: W_bytes_def\<close>)
qed simp


section \<open>A word at a time\<close>

definition bytes_le :: "z_word \<Rightarrow> byte list" where
  "bytes_le w = map (\<lambda>k. ucast (drop_bit (8 * k) w)) [0..<8]"

definition word_crc :: "z_word \<Rightarrow> uint" where
  "word_crc w = foldl crc_step 0 (bytes_le w)"

lemma length_bytes_le [simp]: "length (bytes_le w) = 8"
  by (simp add: bytes_le_def)

lemma ucast_xor: "(ucast (x XOR y) :: 'b :: len word) = ucast x XOR ucast (y :: 'a :: len word)"
  by (rule bit_word_eqI) (auto simp: bit_simps)

definition word_step :: "z_word \<Rightarrow> z_word" where
  "word_step d = drop_bit 8 d XOR ucast (crc_table ! unat (d AND 0xff))"

lemma ff_mask: "(0xff :: uint) = mask 8" "(0xff :: z_word) = mask 8"
  by (simp_all add: mask_eq_exp_minus_1)

lemma word_step_crc: "word_step (v XOR ucast c) = drop_bit 8 v XOR ucast (crc_step c (ucast v))"
proof -
  have "drop_bit 8 (v XOR ucast c) = drop_bit 8 v XOR ucast (drop_bit 8 c)"
    by (rule bit_word_eqI) (auto simp: bit_simps dest: bit_imp_le_length)
  moreover have "(v XOR ucast c) AND 0xff = ucast ((c XOR ucast (ucast v :: byte)) AND 0xff)"
    unfolding ff_mask by (rule bit_word_eqI) (auto simp: bit_simps)
  moreover have "unat (ucast x :: z_word) = unat x" for x :: uint
    by (simp add: unsigned_ucast_eq take_bit_nat_eq_self less_le_trans [OF unsigned_less])
  ultimately show ?thesis by (simp only: word_step_def step_lookup ucast_xor xor.assoc)
qed

lemma word_step_iter:
  "k \<le> 8 \<Longrightarrow> (word_step ^^ k) (ucast c XOR w) = drop_bit (8 * k) w XOR ucast (foldl crc_step c (take k (bytes_le w)))"
proof (induction k)
  case (Suc k)
  have "take (Suc k) (bytes_le w) = take k (bytes_le w) @ [ucast (drop_bit (8 * k) w)]"
    using Suc.prems by (simp add: take_Suc_conv_app_nth bytes_le_def)
  moreover have "drop_bit 8 (drop_bit (8 * k) w) = drop_bit (8 * Suc k) w" by (simp add: add.commute)
  ultimately show ?case using Suc by (simp add: word_step_crc del: drop_bit_drop_bit)
qed (simp add: xor.commute)

lemma crc_word_step: "crc_word (ucast c XOR w) = ucast (foldl crc_step c (bytes_le w))"
proof -
  have "crc_word (ucast c XOR w) = (word_step ^^ 8) (ucast c XOR w)"
    by (simp add: crc_word_def W_bytes_def word_step_def [abs_def])
  also have "\<dots> = drop_bit 64 w XOR ucast (foldl crc_step c (bytes_le w))"
    using word_step_iter [of 8 c w] by simp
  also have "drop_bit 64 w = 0" by (rule bit_word_eqI) (auto simp: bit_simps dest: bit_imp_le_length)
  finally show ?thesis by simp
qed

lemma bytes_le_xor: "bytes_le (v XOR w) = map2 (XOR) (bytes_le v) (bytes_le w)"
  by (rule nth_equalityI) (auto simp: bytes_le_def drop_bit_xor ucast_xor)

lemma word_crc_eq: "word_crc (ucast c XOR w) = foldl crc_step c (bytes_le w)"
proof -
  have "(ucast (word_crc (ucast c XOR w)) :: z_word) = ucast (foldl crc_step c (bytes_le w))"
    using crc_word_step [of 0 "ucast c XOR w"] crc_word_step [of c w] by (simp add: word_crc_def)
  then have "(ucast (ucast (word_crc (ucast c XOR w)) :: z_word) :: uint) = ucast (ucast (foldl crc_step c (bytes_le w)) :: z_word)"
    by simp
  moreover have "(ucast (ucast x :: z_word) :: uint) = x" for x by (rule bit_word_eqI) (auto simp: bit_simps)
  ultimately show ?thesis by (simp only:)
qed

lemma crc_word_word_crc: "crc_word w = ucast (word_crc w)"
  using crc_word_step [of 0 w] by (simp add: word_crc_def)

lemma word_crc_linear: "word_crc (ucast c XOR w) = pshift 64 c XOR word_crc w"
  using foldl_crc_step_xor [of c 0 "bytes_le w"] unfolding word_crc_eq word_crc_def [of w] by simp

text \<open>A lookup in the braid table continues the CRC over four words of zeros.\<close>

lemma braid_crc_eq: "braid_crc w = pshift 256 (word_crc w)"
proof -
  define b where "b k = (ucast (ucast (drop_bit (8 * k) w) :: byte) :: uint)" for k
  have wb: "word_byte w k < 256" "of_nat (word_byte w k) = b k" for k
  proof -
    have m: "(0xff :: z_word) = mask 8" by (simp add: mask_eq_exp_minus_1)
    show "word_byte w k < 256"
      unfolding word_byte_def m using and_mask_less' [of 8 "drop_bit (8 * k) w"] by (simp add: word_less_nat_alt)
    show "of_nat (word_byte w k) = b k"
      unfolding word_byte_def m b_def by (rule bit_word_eqI) (auto simp: bit_simps)
  qed
  have "braid_crc w = foldl (\<lambda>c k. c XOR pshift (8 * (40 - k)) (b k)) (pshift 320 (b 0)) [1..<8]"
    unfolding braid_crc_def W_bytes_def by (rule foldl_cong) (simp_all add: crc_braid_table_nth wb)
  moreover have "word_crc w = foldl (\<lambda>c k. pshift 8 (c XOR b k)) 0 [0..<8]"
    unfolding word_crc_def bytes_le_def foldl_map crc_step_def b_def by (rule refl)
  ultimately show ?thesis
    by (simp add: upt_conv_Cons pshift_xor flip: pshift_add)
qed


section \<open>Braids\<close>

text \<open>The CRC over a list of words, from register 0.\<close>

definition words_crc :: "z_word list \<Rightarrow> uint" where
  "words_crc ws = foldl (\<lambda>c w. word_crc (ucast c XOR w)) 0 ws"

lemma words_crc_snoc: "words_crc (ws @ [w]) = pshift 64 (words_crc ws) XOR word_crc w"
  by (simp add: words_crc_def word_crc_linear)

lemma words_crc_Nil [simp]: "words_crc [] = 0"
  by (simp add: words_crc_def)

lemma foldl_crc_step_map2:
  "length xs = length ys \<Longrightarrow> foldl crc_step (a XOR b) (map2 (XOR) xs ys) = foldl crc_step a xs XOR foldl crc_step b ys"
proof (induction xs ys arbitrary: a b rule: list_induct2)
  case (Cons x xs y ys)
  have "crc_step (a XOR b) (x XOR y) = crc_step a x XOR crc_step b y"
    by (simp add: crc_step_def ucast_xor pshift_xor ac_simps)
  then show ?case using Cons.IH [of "crc_step a x" "crc_step b y"] by simp
qed simp

lemma word_crc_xor: "word_crc (v XOR w) = word_crc v XOR word_crc w"
  using foldl_crc_step_map2 [of "bytes_le v" "bytes_le w" 0 0] by (simp add: word_crc_def bytes_le_xor)

lemma word_crc_0 [simp]: "word_crc 0 = 0"
  using word_crc_xor [of 0 0] by simp

lemma words_crc_xor:
  "length vs = length ws \<Longrightarrow> words_crc (map2 (XOR) vs ws) = words_crc vs XOR words_crc ws"
proof (induction vs arbitrary: ws rule: rev_induct)
  case (snoc v vs)
  then obtain ws' w where ws: "ws = ws' @ [w]" "length vs = length ws'" by (metis append_butlast_last_id length_append_singleton length_0_conv nat.simps(3) add_right_cancel Suc_eq_plus1 list.size(3))
  then show ?case using snoc.IH [of ws'] by (simp add: words_crc_snoc word_crc_xor pshift_xor ac_simps)
qed simp

lemma words_crc_append: "words_crc (vs @ ws) = pshift (64 * length ws) (words_crc vs) XOR words_crc ws"
proof (induction ws rule: rev_induct)
  case (snoc w ws)
  have "64 * length (ws @ [w]) = 64 + 64 * length ws" by simp
  then have "words_crc (vs @ ws @ [w]) = pshift (64 * length (ws @ [w])) (words_crc vs) XOR words_crc (ws @ [w])"
    using snoc words_crc_snoc [of "vs @ ws" w] by (simp only: words_crc_snoc pshift_add pshift_xor append_assoc xor.assoc)
  then show ?case .
qed simp

text \<open>Replacing every word by the register of its braid shifts the CRC by a whole block.\<close>

lemma words_crc_braid: "words_crc (map (\<lambda>v. ucast (braid_crc v)) vs) = pshift 320 (words_crc vs)"
proof (induction vs rule: rev_induct)
  case (snoc v vs)
  have "word_crc (ucast (braid_crc v)) = pshift 64 (pshift 256 (word_crc v))"
    using word_crc_linear [of "braid_crc v" 0] by (simp add: braid_crc_eq)
  then have "word_crc (ucast (braid_crc v)) = pshift 320 (word_crc v)" by (simp flip: pshift_add)
  moreover have "pshift 64 (pshift 320 a) = pshift 320 (pshift 64 a)" for a by (simp flip: pshift_add)
  ultimately show ?case using snoc by (simp add: words_crc_snoc pshift_xor)
qed simp


text \<open>The CRC that is left to compute: the registers are due in the next block.\<close>

definition pending_crc :: "uint list \<Rightarrow> z_word list \<Rightarrow> uint" where
  "pending_crc crcs ws = words_crc (map2 (\<lambda>c w. ucast c XOR w) crcs (take 5 ws) @ drop 5 ws)"

lemma words_crc_zeros: "words_crc (ws @ replicate n 0) = pshift (64 * n) (words_crc ws)"
proof -
  have "words_crc (replicate n 0) = 0"
    by (induction n) (simp_all add: replicate_append_same [symmetric] words_crc_snoc)
  then show ?thesis by (simp add: words_crc_append)
qed

lemma map2_append_zeros:
  "length cs \<le> length ws \<Longrightarrow> map2 (\<lambda>c w. ucast c XOR w) cs (take (length cs) ws) @ drop (length cs) ws =
    map2 (XOR) (map ucast (cs :: uint list) @ replicate (length ws - length cs) 0) (ws :: z_word list)"
  by (rule nth_equalityI) (auto simp: nth_append)

lemma pending_crc_split:
  assumes "length crcs = 5" "5 \<le> length ws"
  shows "pending_crc crcs ws = pshift (64 * (length ws - 5)) (words_crc (map ucast crcs)) XOR words_crc ws"
  using map2_append_zeros [of crcs ws] assms
  by (simp add: pending_crc_def words_crc_xor words_crc_zeros)

lemma braid_loop_pending:
  "braid_loop n crcs ws = (crcs', ws') \<Longrightarrow> length crcs = 5 \<Longrightarrow> 5 * (n + 1) \<le> length ws \<Longrightarrow>
    pending_crc crcs' ws' = pending_crc crcs ws \<and> length crcs' = 5 \<and> ws' = drop (5 * n) ws"
proof (induction n arbitrary: crcs ws)
  case (Suc n)
  let ?vs = "map2 (\<lambda>c w. ucast c XOR w) crcs (take 5 ws)" and ?ws = "drop 5 ws"
  let ?crcs = "map braid_crc ?vs"
  have l: "length ?crcs = 5" "5 * (n + 1) \<le> length ?ws" using Suc.prems by simp_all
  have step: "braid_loop (Suc n) crcs ws = braid_loop n ?crcs ?ws" by (simp add: N_braids_def case_prod_unfold comp_def)
  have "pending_crc ?crcs ?ws = pshift (64 * (length ?ws - 5)) (pshift 320 (words_crc ?vs)) XOR words_crc ?ws"
    using pending_crc_split [OF l(1), of ?ws] l(2) words_crc_braid [of ?vs] by (simp add: comp_def)
  also have "pshift (64 * (length ?ws - 5)) (pshift 320 (words_crc ?vs)) = pshift (64 * length ?ws) (words_crc ?vs)"
  proof -
    have "64 * (length ?ws - 5) + 320 = 64 * length ?ws" using l(2) by simp
    then show ?thesis by (metis pshift_add)
  qed
  also have "\<dots> XOR words_crc ?ws = pending_crc crcs ws" by (simp add: pending_crc_def words_crc_append)
  finally show ?case using Suc.IH [of ?crcs ?ws] Suc.prems(1) l by (simp only: step) (simp add: add.commute)
qed simp

lemma words_crc_bytes: "words_crc ((ucast c XOR w) # ws) = foldl crc_step c (concat (map bytes_le (w # ws)))"
proof -
  have "foldl (\<lambda>c w. word_crc (ucast c XOR w)) c ws = foldl crc_step c (concat (map bytes_le ws))" for c ws
    by (induction ws arbitrary: c) (simp_all add: word_crc_eq)
  then show ?thesis using word_crc_eq [of c w, unfolded word_crc_def] by (simp add: words_crc_def)
qed

lemma final_block:
  "foldl (\<lambda>crc (c, w). ucast (ucast (crc_word (ucast c XOR w XOR crc)) :: uint)) (ucast a :: z_word) (zip crcs ws) =
    ucast (foldl (\<lambda>c w. word_crc (ucast c XOR w)) a (map2 (\<lambda>c w. ucast c XOR w) crcs ws))"
proof (induction crcs arbitrary: a ws)
  case (Cons c crcs)
  show ?case
  proof (cases ws)
    case (Cons w ws')
    have u: "(ucast (ucast x :: z_word) :: uint) = x" for x by (rule bit_word_eqI) (auto simp: bit_simps)
    have "crc_word (ucast c XOR w XOR ucast a) = ucast (word_crc (ucast a XOR (ucast c XOR w)))"
      by (simp add: crc_word_word_crc ac_simps)
    then show ?thesis using Cons.IH [of "word_crc (ucast a XOR (ucast c XOR w))" ws'] by (simp add: Cons u)
  qed simp
qed simp

lemma map2_zeros: "length xs \<le> n \<Longrightarrow> map2 (\<lambda>c w. ucast c XOR w) (replicate n (0 :: uint)) xs = (xs :: z_word list)"
proof (induction xs arbitrary: n)
  case (Cons x xs)
  then show ?case by (cases n) auto
qed simp

lemma braids_little_bytes:
  assumes "length ws = 5 * blks" "1 \<le> blks"
  shows "braids_little (ucast c) blks ws = ucast (foldl crc_step c (concat (map bytes_le ws)))"
proof -
  let ?crcs = "c # replicate 4 0"
  obtain crcs' ws' where b: "braid_loop (blks - 1) ?crcs ws = (crcs', ws')" by fastforce
  obtain w tl where ws: "ws = w # tl" using assms by (cases ws) auto
  have p: "pending_crc crcs' ws' = pending_crc ?crcs ws" "length crcs' = 5" "ws' = drop (5 * (blks - 1)) ws"
    using braid_loop_pending [OF b] assms by auto
  have "length ws' = 5" using p(3) assms by (cases blks) auto
  then have "pending_crc crcs' ws' = words_crc (map2 (\<lambda>c w. ucast c XOR w) crcs' (take 5 ws'))"
    by (simp add: pending_crc_def)
  moreover have "pending_crc ?crcs ws = words_crc ((ucast c XOR w) # tl)"
    using map2_zeros [of "take 4 tl" 4] by (simp add: pending_crc_def ws numeral_eq_Suc)
  moreover have "(ucast (ucast c :: z_word) :: uint) = c" by (rule bit_word_eqI) (auto simp: bit_simps)
  ultimately show ?thesis using final_block [of 0 crcs' "take 5 ws'"] p(1)
    by (simp add: braids_little_def N_braids_def b [unfolded ws One_nat_def] words_crc_def [of "map2 _ _ _"] words_crc_bytes ws)
qed


section \<open>Loading words\<close>

lemma bytes_le_rcat: "length bs = 8 \<Longrightarrow> bytes_le (word_rcat (rev bs)) = bs"
proof -
  assume l: "length bs = 8"
  show ?thesis
  proof (rule nth_equalityI)
    fix k assume "k < length (bytes_le (word_rcat (rev bs)))"
    then have k: "k < 8" by simp
    have "ucast (drop_bit (8 * k) (word_rcat (rev bs) :: z_word)) = bs ! k"
    proof (rule bit_word_eqI)
      fix i assume "i < LENGTH(8)"
      then have i: "i < 8" by simp
      have "(8 * k + i) div 8 = k" "(8 * k + i) mod 8 = i" "8 * k + i < 64" using i k by auto
      then show "bit (ucast (drop_bit (8 * k) (word_rcat (rev bs) :: z_word)) :: byte) i = bit (bs ! k) i"
        using i k l bit_horner_sum_uint_exp_iff [of bs "8 * k + i"] by (simp add: bit_simps word_rcat_def)
    qed
    then show "bytes_le (word_rcat (rev bs)) ! k = bs ! k" using k by (simp add: bytes_le_def)
  qed (simp add: l)
qed

lemma bytes_le_load:
  "8 * j + 8 \<le> length buf \<Longrightarrow> bytes_le (load_word True buf j) = take 8 (drop (8 * j) buf)"
  using bytes_le_rcat [of "take 8 (drop (8 * j) buf)"] by (simp add: load_word_def)

lemma load_words_bytes:
  "8 * n \<le> length buf \<Longrightarrow> concat (map bytes_le (map (load_word True buf) [0..<n])) = take (8 * n) buf"
proof (induction n)
  case (Suc n)
  have "take (8 * Suc n) buf = take (8 * n) buf @ take 8 (drop (8 * n) buf)"
    using take_add [of "8 * n" 8 buf] by (simp add: add.commute)
  with Suc show ?case by (simp add: bytes_le_load)
qed simp

section \<open>Big endian machines\<close>

lemma swap_masks:
  "(0xff00000000000000 :: z_word) = push_bit 56 (mask 8)" "(0xff000000000000 :: z_word) = push_bit 48 (mask 8)"
  "(0xff0000000000 :: z_word) = push_bit 40 (mask 8)" "(0xff00000000 :: z_word) = push_bit 32 (mask 8)"
  "(0xff000000 :: z_word) = push_bit 24 (mask 8)" "(0xff0000 :: z_word) = push_bit 16 (mask 8)"
  "(0xff00 :: z_word) = push_bit 8 (mask 8)" "(0xff :: z_word) = push_bit 0 (mask 8)"
  by (simp_all add: mask_eq_exp_minus_1)

lemma bit_byte_swap:
  assumes "q < 8" "r < 8"
  shows "bit (byte_swap w) (8 * q + r) \<longleftrightarrow> bit w (8 * (7 - q) + r)"
proof -
  have d: "bit (drop_bit m (w AND push_bit n (mask 8))) i \<longleftrightarrow> bit w (m + i) \<and> n \<le> m + i \<and> m + i < n + 8 \<and> m + i < 64" for m n i
    using bit_imp_le_length [of w "m + i"]
    unfolding bit_drop_bit_eq comp_apply bit_and_iff bit_push_bit_iff bit_mask_iff possible_bit_word by auto
  have p: "bit (push_bit m (w AND push_bit n (mask 8))) i \<longleftrightarrow> m \<le> i \<and> i < 64 \<and> bit w (i - m) \<and> n \<le> i - m \<and> i - m < n + 8" for m n i
    unfolding bit_push_bit_iff bit_and_iff bit_mask_iff possible_bit_word by auto
  from assms(1) consider "q = 0" | "q = 1" | "q = 2" | "q = 3" | "q = 4" | "q = 5" | "q = 6" | "q = 7" by linarith
  then show ?thesis unfolding byte_swap_def swap_masks bit_or_iff d p
    using assms(2) by cases auto
qed

lemma bytes_le_byte_swap: "bytes_le (byte_swap w) = rev (bytes_le w)"
proof (rule nth_equalityI)
  fix k assume "k < length (bytes_le (byte_swap w))"
  then have k: "k < 8" by simp
  have "ucast (drop_bit (8 * k) (byte_swap w)) = (ucast (drop_bit (8 * (7 - k)) w) :: byte)"
    by (rule bit_word_eqI) (use k bit_byte_swap [of k _ w] in \<open>auto simp: bit_simps\<close>)
  moreover have "7 - k < 8" by simp
  ultimately show "bytes_le (byte_swap w) ! k = rev (bytes_le w) ! k" using k by (simp add: bytes_le_def rev_nth)
qed simp

lemma bytes_le_inject: "bytes_le v = bytes_le w \<longleftrightarrow> v = w"
proof
  assume eq: "bytes_le v = bytes_le w"
  show "v = w"
  proof (rule bit_word_eqI)
    fix i assume "i < LENGTH(64)"
    then have i: "i div 8 < 8" "8 * (i div 8) + i mod 8 = i" by auto
    have "bytes_le v ! (i div 8) = bytes_le w ! (i div 8)" by (simp add: eq)
    then have "bit (ucast (drop_bit (8 * (i div 8)) v) :: byte) (i mod 8) = bit (ucast (drop_bit (8 * (i div 8)) w) :: byte) (i mod 8)"
      using i(1) by (simp add: bytes_le_def)
    then show "bit v i = bit w i" using i(2) by (simp add: bit_ucast_iff bit_drop_bit_eq)
  qed
qed simp

lemma byte_swap_byte_swap [simp]: "byte_swap (byte_swap w) = w"
  by (simp flip: bytes_le_inject add: bytes_le_byte_swap)

lemma byte_swap_xor: "byte_swap (v XOR w) = byte_swap v XOR byte_swap w"
  by (simp flip: bytes_le_inject add: bytes_le_byte_swap bytes_le_xor rev_map zip_rev)

lemma load_word_big: "8 * j + 8 \<le> length buf \<Longrightarrow> load_word False buf j = byte_swap (load_word True buf j)"
proof -
  assume l: "8 * j + 8 \<le> length buf"
  have "bytes_le (load_word False buf j) = rev (take 8 (drop (8 * j) buf))"
    using bytes_le_rcat [of "rev (take 8 (drop (8 * j) buf))"] l by (simp add: load_word_def)
  then show ?thesis using l by (simp flip: bytes_le_inject add: bytes_le_byte_swap bytes_le_load)
qed


text \<open>Each big endian routine is the little endian one between byte swaps.\<close>

lemma crc_big_table_nth: "i < 256 \<Longrightarrow> crc_big_table ! i = byte_swap (ucast (crc_table ! i))"
  by (simp add: crc_big_table_def make_crc_table_def crc_table_nth)

lemma word_byte_nth: "k < 8 \<Longrightarrow> word_byte w k = unat (bytes_le w ! k)"
  unfolding word_byte_def ff_mask
  by (simp add: bytes_le_def unsigned_take_bit_eq unsigned_ucast_eq flip: take_bit_eq_mask)

lemma word_byte_swap: "k < 8 \<Longrightarrow> word_byte (byte_swap w) k = word_byte w (7 - k)"
  by (simp add: word_byte_nth bytes_le_byte_swap rev_nth)

lemma byte_swap_drop: "byte_swap (drop_bit 8 w) = push_bit 8 (byte_swap w)"
proof -
  have "bytes_le (drop_bit 8 w) = tl (bytes_le w) @ [0]"
  proof (rule nth_equalityI)
    fix k assume "k < length (bytes_le (drop_bit 8 w))"
    then have k: "k < 8" by simp
    have "drop_bit 64 w = 0" by (rule bit_word_eqI) (auto simp: bit_simps dest: bit_imp_le_length)
    with k show "bytes_le (drop_bit 8 w) ! k = (tl (bytes_le w) @ [0]) ! k"
      by (cases "k = 7") (auto simp: bytes_le_def nth_append nth_tl add.commute)
  qed simp
  moreover have "bytes_le (push_bit 8 v) = 0 # butlast (bytes_le v)" for v
  proof (rule nth_equalityI)
    fix k assume "k < length (bytes_le (push_bit 8 v))"
    then have k: "k < 8" by simp
    show "bytes_le (push_bit 8 v) ! k = (0 # butlast (bytes_le v)) ! k"
    proof (cases k)
      case 0
      then show ?thesis by (simp add: bytes_le_def) (rule bit_word_eqI, auto simp: bit_simps)
    next
      case (Suc j)
      have "ucast (drop_bit (8 * k) (push_bit 8 v)) = (ucast (drop_bit (8 * j) v) :: byte)"
        using k by (intro bit_word_eqI) (auto simp: bit_simps Suc)
      then show ?thesis using k Suc by (simp add: bytes_le_def nth_butlast)
    qed
  qed simp
  ultimately show ?thesis
    by (simp flip: bytes_le_inject add: bytes_le_byte_swap butlast_rev)
qed

lemma crc_word_big_swap: "crc_word_big (byte_swap w) = byte_swap (crc_word w)"
proof -
  let ?f = "\<lambda>d. push_bit 8 d XOR crc_big_table ! unat (drop_bit 56 d AND 0xff)"
  have f: "?f (byte_swap d) = byte_swap (word_step d)" for d
  proof -
    have "unat (drop_bit 56 (byte_swap d) AND 0xff) = unat (d AND 0xff)"
      using word_byte_swap [of 7 d] by (simp add: word_byte_def)
    moreover have "unat (d AND 0xff) < 256"
      unfolding ff_mask using and_mask_less' [of 8 d] by (simp add: word_less_nat_alt)
    ultimately show ?thesis
      by (simp add: word_step_def crc_big_table_nth byte_swap_xor byte_swap_drop)
  qed
  have "(?f ^^ n) (byte_swap w) = byte_swap ((word_step ^^ n) w)" for n
    by (induction n) (simp_all only: funpow.simps comp_apply id_apply f)
  then show ?thesis by (simp add: crc_word_big_def crc_word_def W_bytes_def word_step_def [abs_def])
qed

lemma length_braid_rows:
  "length braid_row0 = 256" "length braid_row1 = 256" "length braid_row2 = 256" "length braid_row3 = 256"
  "length braid_row4 = 256" "length braid_row5 = 256" "length braid_row6 = 256" "length braid_row7 = 256"
  using braid_row0_check braid_row1_check braid_row2_check braid_row3_check braid_row4_check braid_row5_check
    braid_row6_check braid_row7_check by (simp_all add: table_check_def Let_def)

lemma length_crc_braid_table: "length crc_braid_table = 8"
  by (simp add: crc_braid_table_def)

lemma crc_braid_big_table_nth:
  "k < 8 \<Longrightarrow> i < 256 \<Longrightarrow> crc_braid_big_table ! k ! i = byte_swap (ucast (crc_braid_table ! (7 - k) ! i))"
proof -
  assume k: "k < 8" "i < 256"
  have "length (crc_braid_table ! j) = 256" if "j < 8" for j
    using less_8_cases [OF that] by (auto simp: crc_braid_table_def length_braid_rows)
  with k show ?thesis by (simp add: crc_braid_big_table_def W_bytes_def)
qed

lemma braid_crc_big_swap: "braid_crc_big (byte_swap w) = byte_swap (ucast (braid_crc w))"
proof -
  have wb: "word_byte w k < 256" if "k < 8" for k using that by (simp add: word_byte_nth unat_byte_bound)
  define t where "t k = byte_swap (ucast (crc_braid_table ! k ! word_byte w k))" for k
  have "crc_braid_big_table ! k ! word_byte (byte_swap w) k = t (7 - k)" if "k < 8" for k
    using that wb [of "7 - k"] by (simp add: crc_braid_big_table_nth word_byte_swap t_def)
  then have "braid_crc_big (byte_swap w) = foldl (\<lambda>c k. c XOR t (7 - k)) (t 7) [1..<8]"
    unfolding braid_crc_big_def W_bytes_def by (intro foldl_cong) simp_all
  moreover have "byte_swap (ucast (braid_crc w)) = foldl (\<lambda>c k. c XOR t k) (t 0) [1..<8]"
    unfolding braid_crc_def W_bytes_def t_def by (simp add: upt_conv_Cons ucast_xor byte_swap_xor)
  ultimately show ?thesis by (simp add: upt_conv_Cons numeral_eq_Suc ac_simps)
qed

lemma braid_loop_big_swap:
  "braid_loop_big n (map (\<lambda>c. byte_swap (ucast c)) crcs) (map byte_swap ws) =
    map_prod (map (\<lambda>c. byte_swap (ucast c))) (map byte_swap) (braid_loop n crcs ws)"
proof (induction n arbitrary: crcs ws)
  case (Suc n)
  have "map2 (\<lambda>crc w. braid_crc_big (crc XOR w)) (map (\<lambda>c. byte_swap (ucast c)) crcs) (take 5 (map byte_swap ws)) =
      map (\<lambda>c. byte_swap (ucast c)) (map2 (\<lambda>crc w. braid_crc (ucast crc XOR w)) crcs (take 5 ws))"
    by (rule nth_equalityI) (auto simp: braid_crc_big_swap simp flip: byte_swap_xor)
  then show ?case by (simp only: braid_loop_big.simps braid_loop.simps N_braids_def drop_map Suc)
qed simp

lemma braids_big_little:
  fixes c :: uint
  assumes "length ws = 5 * blks" "1 \<le> blks"
  shows "braids_big (ucast c) blks (map byte_swap ws) = braids_little (ucast c) blks ws"
proof -
  have u: "(ucast (ucast x :: z_word) :: uint) = x" for x by (rule bit_word_eqI) (auto simp: bit_simps)
  have fin: "foldl (\<lambda>comb (c, w). crc_word_big (c XOR w XOR comb)) (byte_swap (ucast a))
        (zip (map (\<lambda>c. byte_swap (ucast (c :: uint))) crcs) (map byte_swap ws)) =
      byte_swap (foldl (\<lambda>crc (c, w). ucast (ucast (crc_word (ucast c XOR w XOR crc)) :: uint)) (ucast (a :: uint)) (zip crcs ws))"
    for a crcs ws
  proof (induction crcs arbitrary: a ws)
    case (Cons c crcs)
    show ?case
    proof (cases ws)
      case (Cons w ws')
      have "crc_word_big (byte_swap (ucast c) XOR byte_swap w XOR byte_swap (ucast a)) =
          byte_swap (ucast (word_crc (ucast c XOR w XOR ucast a)))"
        by (simp add: crc_word_big_swap crc_word_word_crc flip: byte_swap_xor)
      then show ?thesis using Cons.IH [of "word_crc (ucast c XOR w XOR ucast a)" ws']
        by (simp add: Cons crc_word_word_crc u)
    qed simp
  qed simp
  let ?crcs = "c # replicate 4 0"
  have "byte_swap (ucast c) # replicate 4 0 = map (\<lambda>c. byte_swap (ucast c)) ?crcs"
    using byte_swap_xor [of 0 0] by simp
  then have "braid_loop_big (blks - 1) (byte_swap (ucast c) # replicate 4 0) (map byte_swap ws) =
      map_prod (map (\<lambda>c. byte_swap (ucast c))) (map byte_swap) (braid_loop (blks - 1) ?crcs ws)"
    by (simp only: braid_loop_big_swap)
  then show ?thesis using fin [of 0] byte_swap_xor [of 0 0]
    by (simp add: braids_big_def braids_little_def N_braids_def u Let_def case_prod_unfold take_map)
qed

section \<open>\<open>crc32\<close>\<close>

lemma crc_braided_foldl:
  assumes "47 \<le> length buf" "crc_braided little addr (ucast c) buf = (crc', rest)"
  shows "\<exists>p. buf = p @ rest \<and> crc' = ucast (foldl crc_step c p)"
proof -
  obtain crc1 buf1 where a: "align_loop addr (ucast c) buf = (crc1, buf1)" by fastforce
  from align_loop_foldl [OF a] obtain p where p: "buf = p @ buf1" "crc1 = ucast (foldl crc_step c p)" "length p < 8"
    by (metis foldl_crc_byte le_less_trans mod_less_divisor zero_less_numeral)
  define blks where "blks = length buf1 div 40"
  have blks: "1 \<le> blks" "8 * (blks * 5) \<le> length buf1" 
    using assms(1) p(1,3) by (auto simp: blks_def)
  let ?ws = "map (load_word True buf1) [0..<blks * 5]"
  have "crc' = braids_little (ucast (foldl crc_step c p)) blks ?ws"
  proof (cases little)
    case False
    have m: "map (load_word False buf1) [0..<blks * 5] = map byte_swap ?ws"
      using blks(2) by (auto intro!: load_word_big)
    have "crc' = braids_big (ucast (foldl crc_step c p)) blks (map (load_word False buf1) [0..<blks * 5])"
      using False assms(2) by (simp add: crc_braided_def a p(2) N_braids_def W_bytes_def blks_def Let_def)
    also have "\<dots> = braids_little (ucast (foldl crc_step c p)) blks ?ws"
      unfolding m by (rule braids_big_little) (use blks(1) in simp_all)
    finally show ?thesis .
  qed (use assms(2) in \<open>simp add: crc_braided_def a p(2) N_braids_def W_bytes_def blks_def Let_def\<close>)
  also have "\<dots> = ucast (foldl crc_step c (p @ take (8 * (blks * 5)) buf1))"
    using braids_little_bytes [of ?ws blks "foldl crc_step c p"] blks load_words_bytes [of "blks * 5" buf1]
    by (simp add: mult.commute)
  finally have "crc' = ucast (foldl crc_step c (p @ take (8 * (blks * 5)) buf1))" .
  moreover have "rest = drop (8 * (blks * 5)) buf1"
    using assms(2) by (simp add: crc_braided_def a N_braids_def W_bytes_def blks_def ac_simps Let_def split: if_splits)
  ultimately show ?thesis using p(1) by (intro exI [of _ "p @ take (8 * (blks * 5)) buf1"]) simp
qed


lemma crc32_z_foldl:
  "crc32_z little addr (ucast c) (Some buf) = ucast (NOT (foldl crc_step (NOT c) buf))"
proof -
  have m: "(0xffffffff :: z_word) = mask 32" by (simp add: mask_eq_exp_minus_1)
  have init: "NOT (ucast c :: z_word) AND 0xffffffff = ucast (NOT c)"
    unfolding m by (rule bit_word_eqI) (auto simp: bit_simps)
  have fin: "(ucast x :: z_word) XOR 0xffffffff = ucast (NOT x)" for x :: uint
    unfolding m by (rule bit_word_eqI) (auto simp: bit_simps dest: bit_imp_le_length)
  show ?thesis
  proof (cases "47 \<le> length buf")
    case True
    obtain crc' rest where b: "crc_braided little addr (ucast (NOT c)) buf = (crc', rest)" by fastforce
    from crc_braided_foldl [OF True b] obtain p where "buf = p @ rest" "crc' = ucast (foldl crc_step (NOT c) p)" by blast
    then show ?thesis using True b
      by (simp add: crc32_z_def N_braids_def W_bytes_def init crc_tail_foldl foldl_crc_byte fin)
  next
    case False
    then show ?thesis
      by (simp add: crc32_z_def N_braids_def W_bytes_def init crc_tail_foldl foldl_crc_byte fin)
  qed
qed

text \<open>
  (C4) \<open>crc32\<close> is the bit serial CRC-32: on little and big endian machines, for every address
  and length of the buffer, the braided calculation with the tables of \<open>crc32.h\<close> returns the
  CRC that the shift register computes bit by bit from the register that \<open>crc\<close> stands for.
\<close>

theorem crc32_correct:
  "crc32 little addr (ucast c) (Some buf) = ucast (crc_of c buf)"
  by (simp add: crc32_def crc32_z_foldl crc_of_def foldl_crc_step)

section \<open>The generated tables\<close>

lemma crc_table_make: "crc_table = make_crc_table"
proof (rule nth_equalityI)
  show "length crc_table = length make_crc_table"
    using crc_table_check by (simp add: table_check_def Let_def make_crc_table_def)
  then show "crc_table ! i = make_crc_table ! i" if "i < length crc_table" for i
    using that crc_table_nth [of i] by (simp add: make_crc_table_def)
qed

lemma make_x2n_table_powers:
  "make_x2n_table n (pshift (2 ^ k) one_poly) t = Some (t @ map (\<lambda>j. pshift (2 ^ j) one_poly) [Suc k..<Suc k + n])"
proof (induction n arbitrary: k t)
  case (Suc n)
  have "pshift (2 ^ k) (pshift (2 ^ k) one_poly) = pshift (2 ^ Suc k) one_poly" by (simp add: mult_2 pshift_add)
  then have "make_x2n_table (Suc n) (pshift (2 ^ k) one_poly) t =
      make_x2n_table n (pshift (2 ^ Suc k) one_poly) (t @ [pshift (2 ^ Suc k) one_poly])"
    by (simp only: make_x2n_table.simps multmodp_pshift Option.bind.bind_lunit)
  also have "\<dots> = Some ((t @ [pshift (2 ^ Suc k) one_poly]) @ map (\<lambda>j. pshift (2 ^ j) one_poly) [Suc (Suc k)..<Suc (Suc k) + n])"
    by (rule Suc)
  moreover have "[Suc k..<Suc k + Suc n] = Suc k # [Suc (Suc k)..<Suc (Suc k) + n]" by (simp add: upt_conv_Cons)
  ultimately show ?case by (simp only: list.map append_assoc append_Cons append_Nil)
qed simp

lemma x2n_table_powers: "x2n_table = map (\<lambda>j. pshift (2 ^ j) one_poly) [0..<32]"
proof (rule nth_equalityI)
  show "length x2n_table = length (map (\<lambda>j. pshift (2 ^ j) one_poly) [0..<32])"
    by (simp add: x2n_table_def)
  then show "x2n_table ! i = map (\<lambda>j. pshift (2 ^ j) one_poly) [0..<32] ! i" if "i < length x2n_table" for i
    using that by (simp add: x2n_table_power_low)
qed

lemma braid_row_table:
  assumes "k < 8" "i < 256"
  shows "braid_row 5 8 k i = Some (crc_braid_table ! k ! i)"
proof (cases "i = 0")
  case False
  let ?i = "push_bit 24 (of_nat i) :: uint"
  have b: "bit ?i j \<longleftrightarrow> 24 \<le> j \<and> j < 32 \<and> bit i (j - 24)" for j
    unfolding bit_push_bit_iff possible_bit_word by (auto simp: bit_of_nat_iff)
  have "take_bit 8 i = i" using assms(2) by (intro take_bit_nat_eq_self) simp
  then have ib: "\<not> bit i j" if "8 \<le> j" for j using that by (metis bit_take_bit_iff leD)
  have "drop_bit 24 ?i = of_nat i"
  proof (rule bit_word_eqI)
    show "bit (drop_bit 24 ?i) j = bit (of_nat i :: uint) j" if "j < LENGTH(32)" for j
      using that ib [of j] unfolding bit_drop_bit_eq comp_apply b by (cases "j < 8") (auto simp: bit_of_nat_iff)
  qed
  moreover have "pshift 24 ?i = drop_bit 24 ?i" by (rule pshift_drop) (simp only: b, simp)
  ultimately have s: "pshift 24 ?i = of_nat i" by simp
  have "?i \<noteq> 0"
  proof
    assume "?i = 0"
    with s have "(of_nat i :: uint) = 0" by simp
    then have "unat (of_nat i :: uint) = 0" by simp
    with False assms(2) show False by (simp add: unsigned_of_nat take_bit_nat_eq_self)
  qed
  moreover have "x2nmodp (int ((5 * 8 + 3 - k) * 8)) 0 = Some (pshift (8 * (43 - k)) one_poly)"
    using x2nmodp_power [of "int ((5 * 8 + 3 - k) * 8)" 0] unfolding nat_int by (simp add: mult.commute)
  ultimately have "braid_row 5 8 k i = Some (pshift (8 * (43 - k)) ?i)"
    using False by (simp only: braid_row_def if_False multmodp_eq mulp_pshift2 Option.bind.bind_lunit)
  moreover have "8 * (43 - k) = 8 * (40 - k) + 24" using assms(1) by simp
  ultimately show ?thesis by (simp only: pshift_add s crc_braid_table_nth [OF assms])
qed (use assms in \<open>simp add: braid_row_def crc_braid_table_nth\<close>)


section \<open>Combining\<close>

lemma crc_of_append: "crc_of c (xs @ ys) = pshift (8 * length ys) (crc_of c xs) XOR crc_of 0 ys"
proof -
  let ?r = "foldl crc_step (NOT c) xs"
  have "?r = NOT ?r XOR NOT 0" by (simp add: bit.xor_compl_left)
  then have "foldl crc_step ?r ys = pshift (8 * length ys) (NOT ?r) XOR foldl crc_step (NOT 0) ys"
    by (metis foldl_crc_step_xor)
  then show ?thesis by (simp add: crc_of_def bit.xor_compl_right flip: foldl_crc_step)
qed

text \<open>
  (C11) \<open>crc32_combine\<close> of the CRCs of two buffers and the length of the second one returns, and
  returns the CRC of their concatenation.
\<close>

theorem crc32_combine_append:
  "crc32_combine (crc32 l1 a1 0 (Some xs)) (crc32 l2 a2 0 (Some ys)) (int (length ys)) = Some (crc32 l3 a3 0 (Some (xs @ ys)))"
proof -
  have z: "crc32 l a 0 (Some buf) = ucast (crc_of 0 buf)" for l a buf
    using crc32_z_foldl [of l a 0 buf] by (simp add: crc32_def crc_of_def foldl_crc_step)
  have u: "(ucast (ucast x :: z_word) :: uint) = x" for x by (rule bit_word_eqI) (auto simp: bit_simps)
  have m: "(ucast x :: z_word) AND 0xffffffff = ucast x" for x :: uint
  proof -
    have ff: "(0xffffffff :: z_word) = mask 32" by (simp add: mask_eq_exp_minus_1)
    show ?thesis unfolding ff by (rule bit_word_eqI) (auto simp: bit_simps dest: bit_imp_le_length)
  qed
  have "x2nmodp (int (length ys)) 3 = Some (pshift (length ys * 8) one_poly)"
    using x2nmodp_power [of "int (length ys)" 3] by simp
  then show ?thesis
    by (simp add: crc32_combine_def crc32_combine64_def z u m multmodp_pshift crc_of_append [of 0 xs] ucast_xor mult.commute)
qed


end
