(* ===== verification/Deflate_Window.thy ===== *)
theory Deflate_Window
  imports Deflate_Match Adler32_Props Crc32_Props
begin

text \<open>
  The window: it holds the end of the input read so far, the hash chains are consistent with
  it, and \<open>fill_window\<close> keeps this while it reads and slides. Positions are related to the
  input as a whole, whose bytes before the window are remembered in the statements only.
\<close>

section \<open>Reading input\<close>

text \<open>The check value \<open>a\<close> of the bytes \<open>bs\<close>, for the zlib and the gzip wrapper.\<close>

definition sum_ok :: "int \<Rightarrow> 64 word \<Rightarrow> byte list \<Rightarrow> bool" where
  "sum_ok wr a bs \<longleftrightarrow> (wr = 1 \<longrightarrow> adler_valid a \<and> adler_pair a = foldl adler_step (1, 0) bs) \<and>
     (wr = 2 \<longrightarrow> a = ucast (crc_of 0 bs))"

text \<open>\<open>s'\<close> has read the bytes \<open>new\<close> that \<open>s\<close> has not.\<close>

definition reads :: "dstate \<Rightarrow> dstate \<Rightarrow> byte list \<Rightarrow> bool" where
  "reads s s' new \<longleftrightarrow> next_in s = new @ next_in s' \<and> total_in s' = total_in s + of_nat (length new) \<and> wrap s' = wrap s \<and>
     (\<forall>fed. sum_ok (wrap s) (adler s) fed \<longrightarrow> sum_ok (wrap s) (adler s') (fed @ new))"

lemma reads_refl: "reads s s []"
  by (simp add: reads_def)

lemma reads_trans: "reads s s1 xs \<Longrightarrow> reads s1 s2 ys \<Longrightarrow> reads s s2 (xs @ ys)"
  unfolding reads_def by (metis (no_types, lifting) add.assoc append.assoc length_append of_nat_add)

lemma reads_same:
  assumes "next_in s' = next_in s" "total_in s' = total_in s" "wrap s' = wrap s" "adler s' = adler s"
  shows "reads t s' new = reads t s new" "reads s' t new = reads s t new"
  using assms by (simp_all add: reads_def)

lemma sum_ok_step:
  "sum_ok 1 a fed \<Longrightarrow> sum_ok 1 (adler32 a (Some buf)) (fed @ buf)"
  "sum_ok 2 a fed \<Longrightarrow> sum_ok 2 (stream_crc a (Some buf)) (fed @ buf)"
  "wr \<noteq> 1 \<Longrightarrow> wr \<noteq> 2 \<Longrightarrow> sum_ok wr a fed"
  using adler32_z_pair [of a buf]
  by (auto simp: sum_ok_def stream_crc_def adler32_def crc32_def crc32_z_foldl crc_of_def foldl_crc_step)

lemma read_buf_reads:
  assumes "read_buf s n = (buf, s')"
  shows "reads s s' buf" "buf = take n (next_in s)" "s' = s\<lparr>next_in := next_in s', total_in := total_in s', adler := adler s'\<rparr>"
  using assms by (auto simp: read_buf_def reads_def Let_def min_def sum_ok_step split: if_splits)

section \<open>The contents of the window\<close>

definition holds :: "dstate \<Rightarrow> byte list \<Rightarrow> bool" where
  "holds s inp \<longleftrightarrow> strstart s + lookahead s \<le> window_size s \<and> strstart s + lookahead s \<le> length inp \<and>
     take (strstart s + lookahead s) (window s) = drop (length inp - (strstart s + lookahead s)) inp"

lemma holds_nth:
  assumes "holds s inp" "i < strstart s + lookahead s"
  shows "window s ! i = inp ! (length inp - (strstart s + lookahead s) + i)"
proof -
  let ?n = "strstart s + lookahead s"
  have "window s ! i = take ?n (window s) ! i" using assms(2) by simp
  also have "\<dots> = drop (length inp - ?n) inp ! i" using assms(1) by (simp only: holds_def)
  also have "\<dots> = inp ! (length inp - ?n + i)" by (rule nth_drop) simp
  finally show ?thesis .
qed

lemma length_zmemcpy: "i + length bs \<le> length w \<Longrightarrow> length (zmemcpy w i bs) = length w"
  by (simp add: zmemcpy_def)

lemma zmemcpy_before: "k < i \<Longrightarrow> i \<le> length w \<Longrightarrow> zmemcpy w i bs ! k = w ! k"
  by (simp add: zmemcpy_def nth_append)

lemma take_zmemcpy: "i + length bs \<le> length w \<Longrightarrow> take (i + length bs) (zmemcpy w i bs) = take i w @ bs"
  by (simp add: zmemcpy_def)

lemma take_zmemcpy_less: "n \<le> i \<Longrightarrow> i \<le> length w \<Longrightarrow> take n (zmemcpy w i bs) = take n w"
  by (simp add: zmemcpy_def)

lemma holds_append:
  assumes h: "holds s inp" and len: "length (window s) = window_size s" and fit: "strstart s + lookahead s + length buf \<le> window_size s"
    and s': "window s' = zmemcpy (window s) (strstart s + lookahead s) buf" "strstart s' + lookahead s' = strstart s + lookahead s + length buf"
      "window_size s' = window_size s"
  shows "holds s' (inp @ buf)"
proof -
  let ?n = "strstart s + lookahead s"
  have "take (?n + length buf) (window s') = take ?n (window s) @ buf"
    using take_zmemcpy [of ?n buf "window s"] len fit by (simp add: s')
  moreover have "drop (length (inp @ buf) - (?n + length buf)) (inp @ buf) = drop (length inp - ?n) inp @ buf"
    using h by (simp add: holds_def)
  ultimately show ?thesis using h fit by (simp add: holds_def s')
qed

section \<open>The hash tables and the window\<close>

text \<open>
  The positions on the chains are those whose three bytes were known and which are not among
  the \<open>insert_cnt\<close> last ones before \<open>strstart\<close>.
\<close>

definition hash_inv :: "dstate \<Rightarrow> bool" where
  "hash_inv s \<longleftrightarrow> insert_cnt s \<le> strstart s \<and> (\<exists>C. chains s C \<and> (\<forall>h \<in> C. h + 3 \<le> strstart s + lookahead s \<and> h + insert_cnt s < strstart s))"

text \<open>What inserting the string at \<open>strstart\<close> needs when it is long enough.\<close>

definition ready :: "dstate \<Rightarrow> bool" where
  "ready s \<longleftrightarrow> (3 \<le> lookahead s \<longrightarrow> insert_cnt s = 0 \<and> primed s (strstart s))"

lemma key_zmemcpy:
  assumes "k + 3 \<le> i" "i \<le> length (window s)" "window s' = zmemcpy (window s) i bs" "mem_level s' = mem_level s"
  shows "key s' k = key s k"
  using assms by (simp add: key_def key3_def UPDATE_HASH_def hash_shift_def hash_mask_def hash_size_def hash_bits_def zmemcpy_before)

lemma INSERT_STRING_frame:
  "INSERT_STRING s str = (m, s') \<Longrightarrow> s' = s\<lparr>prev := prev s', head := head s', ins_h := ins_h s'\<rparr> \<and>
     length (prev s') = length (prev s) \<and> length (head s') = length (head s)"
  by (auto simp: INSERT_STRING_def Let_def)

lemma INSERT_primed:
  assumes "primed s str" "INSERT_STRING s str = (m, s')"
  shows "primed s' (str + 1)"
proof -
  have "ins_h s' = UPDATE_HASH s (ins_h s) (window s ! (str + 2))" and s': "window s' = window s" "mem_level s' = mem_level s"
    using assms(2) by (auto simp: INSERT_STRING_def Let_def MIN_MATCH_def)
  moreover have "UPDATE_HASH s' h c = UPDATE_HASH s h c" for h c
    using s' by (simp add: UPDATE_HASH_def hash_shift_def hash_mask_def hash_size_def hash_bits_def)
  ultimately show ?thesis using assms(1) unfolding primed_def by (auto simp: eval_nat_numeral)
qed

lemma INSERT_wf: "wf_sizes s \<Longrightarrow> INSERT_STRING s str = (m, s') \<Longrightarrow> wf_sizes s'"
  by (auto simp: wf_sizes_def INSERT_STRING_def Let_def window_size_def w_size_def hash_size_def hash_bits_def)

text \<open>One insertion, with everything the callers need.\<close>

lemma insert_one:
  assumes "chains s C" "wf_sizes s" "primed s str" "\<forall>h \<in> C. h < str" "str < window_size s" "INSERT_STRING s str = (m, s')"
  shows "\<exists>C'. chains s' C' \<and> (\<forall>h \<in> C'. h \<in> C \<or> h = str)" "wf_sizes s'" "primed s' (str + 1)" "m = 0 \<or> m \<in> C \<and> key s m = key s str"
proof -
  show "\<exists>C'. chains s' C' \<and> (\<forall>h \<in> C'. h \<in> C \<or> h = str)"
    using chains_insert(1) [OF assms] by (auto split: if_splits)
  show "m = 0 \<or> m \<in> C \<and> key s m = key s str" using chains_insert(2) [OF assms] by (simp add: link_ok_def)
qed (use INSERT_wf INSERT_primed assms in blast)+

definition wtables :: "dstate \<Rightarrow> dstate" where
  "wtables s = s\<lparr>prev := [], head := [], ins_h := 0, insert_cnt := 0\<rparr>"

lemma wtables_INSERT: "wtables (snd (INSERT_STRING s str)) = wtables s"
  by (simp add: wtables_def INSERT_STRING_def Let_def)

lemma wtables_eqD:
  assumes "wtables s' = wtables s"
  shows "strstart s' = strstart s" "lookahead s' = lookahead s" "window s' = window s" "window_size s' = window_size s"
    "w_bits s' = w_bits s" "mem_level s' = mem_level s"
  using assms by (cases s; cases s'; simp add: wtables_def window_size_def w_size_def)+

lemma hash_invI:
  "chains s C \<Longrightarrow> insert_cnt s \<le> strstart s \<Longrightarrow> \<forall>h \<in> C. h + 3 \<le> strstart s + lookahead s \<and> h + insert_cnt s < strstart s \<Longrightarrow> hash_inv s"
  by (auto simp: hash_inv_def)

lemma chains_insert_cnt [simp]: "chains (s\<lparr>insert_cnt := n\<rparr>) C = chains s C"
  by (rule chains_frame) (simp_all add: key_def key3_def UPDATE_HASH_def hash_shift_def hash_mask_def hash_size_def hash_bits_def)

lemma primed_insert_cnt [simp]: "primed (s\<lparr>insert_cnt := n\<rparr>) k = primed s k"
  by (simp add: primed_def UPDATE_HASH_def hash_shift_def hash_mask_def hash_size_def hash_bits_def)

lemma wf_sizes_insert_cnt [simp]: "wf_sizes (s\<lparr>insert_cnt := n\<rparr>) = wf_sizes s"
  by (simp add: wf_sizes_def window_size_def w_size_def hash_size_def hash_bits_def)

lemma insert_loop_inv:
  assumes "chains s C" "wf_sizes s" "primed s str" "insert_cnt s = n" "str + n = strstart s" "strstart s + lookahead s \<le> window_size s"
    "\<forall>h \<in> C. h < str \<and> h + 3 \<le> strstart s + lookahead s" "n \<noteq> 0 \<longrightarrow> 3 \<le> lookahead s + n"
  shows "hash_inv (insert_loop str n s) \<and> ready (insert_loop str n s) \<and> wf_sizes (insert_loop str n s) \<and>
    wtables (insert_loop str n s) = wtables s"
  using assms
proof (induction str n s arbitrary: C rule: insert_loop.induct)
  case (1 str s)
  then show ?case by (auto simp: ready_def intro: hash_invI)
next
  case (2 str n s)
  obtain m s1 where i: "INSERT_STRING s str = (m, s1)" by force
  let ?s = "s1\<lparr>insert_cnt := n\<rparr>"
  have "str < window_size s" using 2(6,7) by simp
  note one = insert_one [OF 2(2,3,4) _ this i]
  obtain C' where C': "chains s1 C'" "\<forall>h \<in> C'. h \<in> C \<or> h = str" using one(1) 2(8) by blast
  have fr: "wtables s1 = wtables s" using wtables_INSERT [of s str] i by simp
  note eqs = wtables_eqD [OF fr]
  have bound: "\<forall>h \<in> C'. h < str + 1 \<and> h + 3 \<le> strstart s1 + lookahead s1"
  proof
    fix h assume "h \<in> C'"
    then have "h \<in> C \<or> h = str" using C'(2) by blast
    then show "h < str + 1 \<and> h + 3 \<le> strstart s1 + lookahead s1" using 2(6,8,9) eqs by auto
  qed
  have wf: "wf_sizes ?s" "primed ?s (str + 1)" using one(2,3) 2(8) by simp_all
  show ?case
  proof (cases "lookahead s1 + n < MIN_MATCH")
    case True
    then have r: "insert_loop str (Suc n) s = ?s" using i by (simp add: Let_def)
    have "hash_inv ?s" by (rule hash_invI [of _ C']) (use C'(1) bound 2(6) eqs in auto)
    moreover have "ready ?s" using True by (simp add: ready_def MIN_MATCH_def)
    moreover have "wtables ?s = wtables s" using fr by (simp add: wtables_def)
    ultimately show ?thesis using wf r by simp
  next
    case False
    then have r: "insert_loop str (Suc n) s = insert_loop (str + 1) n ?s" using i by (simp add: Let_def)
    have "hash_inv (insert_loop (str + 1) n ?s) \<and> ready (insert_loop (str + 1) n ?s) \<and> wf_sizes (insert_loop (str + 1) n ?s) \<and>
        wtables (insert_loop (str + 1) n ?s) = wtables ?s"
      using 2(1) [of ?s C'] i False C'(1) wf bound 2(6,7) eqs by (auto simp: MIN_MATCH_def window_size_def w_size_def)
    moreover have "wtables ?s = wtables s" using fr by (simp add: wtables_def)
    ultimately show ?thesis unfolding r by simp
  qed
qed

lemma init_hash_inv:
  assumes "hash_inv s" "wf_sizes s" "strstart s + lookahead s \<le> window_size s"
  shows "hash_inv (init_hash s) \<and> ready (init_hash s) \<and> wf_sizes (init_hash s) \<and> wtables (init_hash s) = wtables s"
proof (cases "lookahead s + insert_cnt s \<ge> MIN_MATCH")
  case True
  let ?str = "strstart s - insert_cnt s"
  let ?s = "s\<lparr>ins_h := UPDATE_HASH s (unat (window s ! ?str)) (window s ! (?str + 1))\<rparr>"
  obtain C where C: "chains s C" "\<forall>h \<in> C. h + 3 \<le> strstart s + lookahead s \<and> h + insert_cnt s < strstart s" "insert_cnt s \<le> strstart s"
    using assms(1) by (auto simp: hash_inv_def)
  have up: "UPDATE_HASH (s\<lparr>ins_h := x\<rparr>) h c = UPDATE_HASH s h c" for x h c
    by (simp add: UPDATE_HASH_def hash_shift_def hash_mask_def hash_size_def hash_bits_def)
  have c1: "UPDATE_HASH s 0 c = unat c" for c
  proof (rule bit_eqI)
    fix i
    have "bit c i \<Longrightarrow> i < hash_bits s"
      using bit_imp_le_length [of c i] assms(2) by (simp add: hash_bits_def wf_sizes_def)
    then show "bit (UPDATE_HASH s 0 c) i = bit (unat c) i" by (auto simp: bit_UPDATE_HASH bit_simps)
  qed
  have "primed ?s ?str" unfolding primed_def by (rule exI [of _ 0]) (simp add: up c1)
  moreover have "chains ?s C" using C(1) by (subst chains_frame) (simp_all add: key_def key3_def up)
  moreover have "wf_sizes ?s" using assms(2) by (simp add: wf_sizes_def window_size_def w_size_def hash_size_def hash_bits_def)
  ultimately have "hash_inv (insert_loop ?str (insert_cnt s) ?s) \<and> ready (insert_loop ?str (insert_cnt s) ?s) \<and>
      wf_sizes (insert_loop ?str (insert_cnt s) ?s) \<and> wtables (insert_loop ?str (insert_cnt s) ?s) = wtables ?s"
    using C assms(3) True by (intro insert_loop_inv) (auto simp: window_size_def w_size_def MIN_MATCH_def)
  moreover have "wtables ?s = wtables s" by (simp add: wtables_def)
  moreover have "init_hash s = insert_loop ?str (insert_cnt s) ?s" using True by (simp add: init_hash_def Let_def)
  ultimately show ?thesis by (simp only:)
next
  case False
  then have "init_hash s = s" "ready s" by (auto simp: init_hash_def ready_def MIN_MATCH_def)
  with assms show ?thesis by simp
qed

section \<open>Sliding\<close>

definition wframe :: "dstate \<Rightarrow> dstate" where
  "wframe s = s\<lparr>next_in := [], total_in := 0, adler := 0, window := [], prev := [], head := [], ins_h := 0, block_start := 0,
     strstart := 0, match_start := 0, lookahead := 0, insert_cnt := 0, high_water := 0\<rparr>"

text \<open>
  What filling the window leaves alone, and the differences that it keeps: the distance to the
  start of the block and the one to the last match, which may wrap around.
\<close>

definition wkeeps :: "dstate \<Rightarrow> dstate \<Rightarrow> bool" where
  "wkeeps s s' \<longleftrightarrow> wframe s' = wframe s \<and> int (strstart s') - block_start s' = int (strstart s) - block_start s \<and>
     of_nat (strstart s') - match_start s' = of_nat (strstart s) - match_start s \<and> (strstart s \<noteq> 0 \<longrightarrow> strstart s' \<noteq> 0)"

lemma wkeeps_refl: "wkeeps s s" and wkeeps_trans: "wkeeps s s1 \<Longrightarrow> wkeeps s1 s2 \<Longrightarrow> wkeeps s s2"
  by (simp_all add: wkeeps_def)

lemma wkeepsD:
  assumes "wkeeps s s'"
  shows "tr s' = tr s" "next_out s' = next_out s" "avail_out s' = avail_out s" "total_out s' = total_out s" "status s' = status s"
    "pending_out s' = pending_out s" "wrap s' = wrap s" "gzhead s' = gzhead s" "gzindex s' = gzindex s" "last_flush s' = last_flush s"
    "w_bits s' = w_bits s" "mem_level s' = mem_level s" "match_length s' = match_length s" "prev_match s' = prev_match s"
    "match_available s' = match_available s" "prev_length s' = prev_length s" "max_chain_length s' = max_chain_length s"
    "max_lazy_match s' = max_lazy_match s" "good_match s' = good_match s" "nice_match s' = nice_match s"
  using assms by (cases s; cases s'; simp add: wkeeps_def wframe_def)+

lemma wkeeps_sizes:
  assumes "wkeeps s s'"
  shows "w_size s' = w_size s" "window_size s' = window_size s" "hash_size s' = hash_size s" "MAX_DIST s' = MAX_DIST s"
    "hash_bits s' = hash_bits s" "UPDATE_HASH s' h c = UPDATE_HASH s h c"
  using wkeepsD(11,12) [OF assms]
  by (simp_all add: w_size_def window_size_def hash_size_def hash_bits_def MAX_DIST_def UPDATE_HASH_def hash_shift_def hash_mask_def)

lemma wkeeps_hframe:
  assumes "wtables s' = wtables s"
  shows "wkeeps s s'" "next_in s' = next_in s" "total_in s' = total_in s" "adler s' = adler s" "wrap s' = wrap s"
  using assms by (cases s; cases s'; simp add: wtables_def wkeeps_def wframe_def)+

lemma primed_moved:
  assumes "primed s k" "wkeeps s s'" "ins_h s' = ins_h s" "window s' ! k' = window s ! k" "window s' ! (k' + 1) = window s ! (k + 1)"
  shows "primed s' k'"
  using assms unfolding primed_def by (simp add: wkeeps_sizes)

text \<open>\<open>s'\<close> is the state after \<open>slide_window\<close>.\<close>

lemma slide_window_inv:
  assumes sz: "wf_sizes s" and h: "holds s inp" and hi: "hash_inv s" and far: "w_size s < strstart s"
    and room: "room = window_size s - lookahead s - strstart s" and s': "s' = slide_window room s"
  shows "wf_sizes s'" "holds s' inp" "hash_inv s'" "ready s \<Longrightarrow> ready s'" "wkeeps s s'" "reads s s' []"
    "strstart s' = strstart s - w_size s" "lookahead s' = lookahead s"
proof -
  let ?W = "w_size s" and ?n = "strstart s + lookahead s"
  have W: "0 < ?W" "window_size s = 2 * ?W" using w_size_bounds [OF sz] by (simp_all add: window_size_def)
  have n: "?W \<le> ?n" "?n \<le> 2 * ?W" "?W - room = ?n - ?W" using h far W by (auto simp: holds_def room)
  have len: "length (window s) = 2 * ?W" using sz W by (simp add: wf_sizes_def)
  have win: "window s' = zmemcpy (window s) 0 (take (?n - ?W) (drop ?W (window s)))"
    using n(3) by (simp add: s' slide_window_def slide_hash_def)
  show st: "strstart s' = strstart s - ?W" "lookahead s' = lookahead s"
    by (simp_all add: s' slide_window_def slide_hash_def)
  have fields: "prev s' = map (slide_pos ?W) (prev s)" "head s' = map (slide_pos ?W) (head s)" "w_bits s' = w_bits s"
    "mem_level s' = mem_level s" "insert_cnt s' = min (insert_cnt s) (strstart s - ?W)" "ins_h s' = ins_h s"
    by (simp_all add: s' slide_window_def slide_hash_def w_size_def)
  have sizes: "window_size s' = 2 * ?W" using W fields by (simp add: window_size_def w_size_def)
  show wf: "wf_sizes s'"
    using sz fields len n win by (simp add: wf_sizes_def sizes length_zmemcpy hash_size_def hash_bits_def w_size_def [of s'] w_size_def [symmetric] W)
  have nth: "window s' ! (i - ?W) = window s ! i" if "?W \<le> i" "i < ?n" for i
    using that n len diff_less_mono [OF that(2,1)] by (simp add: win zmemcpy_def nth_append)
  show wkeeps: "wkeeps s s'"
    using far by (simp add: wkeeps_def wframe_def s' slide_window_def slide_hash_def of_nat_diff)
  show "reads s s' []" by (simp add: reads_def s' slide_window_def slide_hash_def)
  show "holds s' inp"
  proof -
    have "take (strstart s' + lookahead s') (window s') = take (?n - ?W) (drop ?W (window s))"
      using n len far by (simp add: win st zmemcpy_def)
    also have "\<dots> = drop ?W (take ?n (window s))" using n(1) by (simp add: drop_take)
    also have "\<dots> = drop (length inp - (strstart s' + lookahead s')) inp"
      using h n(1) far by (simp add: holds_def st add.commute)
    finally show ?thesis using h far W by (auto simp: holds_def st sizes)
  qed
  show "hash_inv s'"
  proof -
    obtain C where C: "chains s C" "\<forall>h \<in> C. h + 3 \<le> ?n \<and> h + insert_cnt s < strstart s" "insert_cnt s \<le> strstart s"
      using hi by (auto simp: hash_inv_def)
    have "key s' (g - ?W) = key s g" if "g \<in> C" "?W < g" for g
    proof -
      have g: "g + 3 \<le> ?n" using C(2) that by blast
      have "window s' ! (g - ?W + i) = window s ! (g + i)" if "i < 3" for i
        using nth [of "g + i"] g that \<open>?W < g\<close> by simp
      from this [of 0] this [of 1] this [of 2] show ?thesis
        by (simp add: key_def key3_def wkeeps_sizes [OF wkeeps])
    qed
    from chains_slide [OF C(1) sz fields(1-4) this]
    have "chains s' {h - ?W | h. h \<in> C \<and> ?W < h}" .
    then show ?thesis using C(2) far by (rule_tac hash_invI) (fastforce simp: st fields)+
  qed
  show "ready s'" if "ready s"
  proof -
    have "primed s' (strstart s - ?W)" if "primed s (strstart s)" "3 \<le> lookahead s"
      using that far nth [of "strstart s"] nth [of "strstart s + 1"]
      by (intro primed_moved [OF that(1) wkeeps fields(6)]) (simp_all add: Suc_diff_le)
    with that show ?thesis by (auto simp: ready_def st fields)
  qed
qed

section \<open>Filling\<close>

text \<open>The invariant of the window for the input \<open>inp\<close> read so far.\<close>

definition win_inv :: "dstate \<Rightarrow> byte list \<Rightarrow> bool" where
  "win_inv s inp \<longleftrightarrow> wf_sizes s \<and> holds s inp \<and> hash_inv s"

lemma chains_append:
  assumes c: "chains s C" "\<forall>h \<in> C. h + 3 \<le> i" "i \<le> length (window s)"
    and s': "window s' = zmemcpy (window s) i bs" "prev s' = prev s" "head s' = head s" "w_bits s' = w_bits s" "mem_level s' = mem_level s"
  shows "chains s' C"
proof -
  have "key s' k = key s k" if "k \<in> C" for k
    by (rule key_zmemcpy [OF _ c(3) s'(1,5)]) (use c(2) that in blast)
  from chains_frame [OF s'(4,5,2,3) this] show ?thesis using c(1) by simp
qed

lemma read_inv:
  assumes w: "win_inv s inp" and r: "read_buf s room = (buf, s1)" and room: "room \<le> window_size s - lookahead s - strstart s"
    and s': "s' = s1\<lparr>window := zmemcpy (window s1) (strstart s1 + lookahead s1) buf, lookahead := lookahead s1 + length buf\<rparr>"
  shows "win_inv s' (inp @ buf)" "wkeeps s s'" "reads s s' buf" "lookahead s' = lookahead s + length buf" "strstart s' = strstart s"
proof -
  let ?n = "strstart s + lookahead s"
  note rb = read_buf_reads [OF r]
  have fr: "strstart s1 = strstart s" "lookahead s1 = lookahead s" "window s1 = window s" "prev s1 = prev s" "head s1 = head s"
    "w_bits s1 = w_bits s" "mem_level s1 = mem_level s" "insert_cnt s1 = insert_cnt s"
    by (subst rb(3), simp)+
  have sz: "wf_sizes s" "holds s inp" "hash_inv s" using w by (simp_all add: win_inv_def)
  have len: "length (window s) = window_size s" using sz(1) by (simp add: wf_sizes_def)
  have fit: "?n + length buf \<le> window_size s" using rb(2) room sz(2) by (auto simp: holds_def)
  have ws: "window_size s' = window_size s" by (simp add: s' window_size_def w_size_def fr)
  show "reads s s' buf" using rb(1) by (simp add: s' reads_def)
  show "wkeeps s s'" by (subst s', subst rb(3)) (simp add: wkeeps_def wframe_def fr)
  show "lookahead s' = lookahead s + length buf" "strstart s' = strstart s" by (simp_all add: s' fr)
  have "wf_sizes s'" using sz(1) fit len
    by (simp add: wf_sizes_def s' fr length_zmemcpy window_size_def w_size_def hash_size_def hash_bits_def)
  moreover have "holds s' (inp @ buf)" using holds_append [OF sz(2) len fit _ _ ws] by (simp add: s' fr)
  moreover have "hash_inv s'"
  proof -
    obtain C where C: "chains s C" "\<forall>h \<in> C. h + 3 \<le> ?n \<and> h + insert_cnt s < strstart s" "insert_cnt s \<le> strstart s"
      using sz(3) by (auto simp: hash_inv_def)
    have "chains s' C" by (rule chains_append [OF C(1), of ?n]) (use C(2) fit len in \<open>simp_all add: s' fr\<close>)
    then show ?thesis by (rule hash_invI) (use C in \<open>auto simp: s' fr\<close>)
  qed
  ultimately show "win_inv s' (inp @ buf)" by (simp add: win_inv_def)
qed

lemma fill_pass_inv:
  assumes w: "win_inv s inp" and la: "lookahead s < MIN_LOOKAHEAD" and p: "fill_pass s = (go, s')"
  shows "go \<and> (\<exists>new. win_inv s' (inp @ new) \<and> reads s s' new \<and> wkeeps s s' \<and> lookahead s' = lookahead s + length new \<and>
    (ready s \<or> next_in s \<noteq> [] \<longrightarrow> ready s') \<and> strstart s' + MIN_LOOKAHEAD < window_size s')"
proof -
  let ?room = "window_size s - lookahead s - strstart s" and ?W = "w_size s"
  let ?slide = "strstart s \<ge> ?W + MAX_DIST s"
  let ?s = "if ?slide then slide_window ?room s else s" and ?r = "if ?slide then ?room + ?W else ?room"
  have sz: "wf_sizes s" "holds s inp" "hash_inv s" using w by (simp_all add: win_inv_def)
  have W: "512 \<le> ?W" "window_size s = 2 * ?W" "MAX_DIST s = ?W - 262" using w_size_bounds [OF sz(1)]
    by (simp_all add: window_size_def MAX_DIST_def MIN_LOOKAHEAD_def MAX_MATCH_def MIN_MATCH_def)
  have n: "strstart s + lookahead s \<le> 2 * ?W" using sz(2) W by (simp add: holds_def)
  have far: "w_size s < strstart s" if ?slide using that W(1,3) by linarith
  have s: "win_inv ?s inp" "ready s \<Longrightarrow> ready ?s" "wkeeps s ?s" "reads s ?s []" "lookahead ?s = lookahead s"
    "strstart ?s = (if ?slide then strstart s - ?W else strstart s)"
    using w slide_window_inv [OF sz far refl refl] by (auto simp: win_inv_def wkeeps_refl reads_refl)
  note ks = wkeeps_sizes [OF s(3)]
  have st: "strstart ?s + MIN_LOOKAHEAD < window_size ?s" using s(6) ks(2) n W by (auto simp: MIN_LOOKAHEAD_def MAX_MATCH_def MIN_MATCH_def)
  have room: "2 \<le> ?r" "?r \<le> window_size ?s - lookahead ?s - strstart ?s"
    using s(5,6) ks(2) n W la by (auto simp: MIN_LOOKAHEAD_def MAX_MATCH_def MIN_MATCH_def)
  have ni: "next_in ?s = next_in s" using s(4) by (simp only: reads_def append_Nil)
  show ?thesis
  proof (cases "next_in s = []")
    case True
    then have "go" "s' = ?s" using p by (auto simp: fill_pass_def Let_def split: if_splits)
    then show ?thesis using s st True by (auto intro!: exI [of _ "[]"])
  next
    case False
    obtain buf s1 where rb: "read_buf ?s ?r = (buf, s1)" by force
    let ?s1 = "s1\<lparr>window := zmemcpy (window s1) (strstart s1 + lookahead s1) buf, lookahead := lookahead s1 + length buf\<rparr>"
    have "fill_pass s = (if next_in ?s = [] then (True, ?s) else case read_buf ?s (if ?slide then ?room + w_size ?s else ?room) of
        (buf, t) \<Rightarrow> (buf \<noteq> [], init_hash (t\<lparr>window := zmemcpy (window t) (strstart t + lookahead t) buf, lookahead := lookahead t + length buf\<rparr>)))"
      unfolding fill_pass_def Let_def by (rule refl)
    then have res: "go = (buf \<noteq> [])" "s' = init_hash ?s1"
      using p False unfolding ni ks(1) rb by simp_all
    note ri = read_inv [OF s(1) rb room(2) refl]
    have "buf \<noteq> []" using read_buf_reads(2) [OF rb] ni False room(1) by auto
    moreover have ih: "hash_inv s' \<and> ready s' \<and> wf_sizes s' \<and> wtables s' = wtables ?s1"
      unfolding res(2) by (rule init_hash_inv) (use ri(1) in \<open>simp_all add: win_inv_def holds_def\<close>)
    then have fr: "wtables s' = wtables ?s1" by blast
    note kh = wkeeps_hframe [OF fr] and eqs = wtables_eqD [OF fr]
    have "win_inv s' (inp @ buf)"
      using ih ri(1) by (simp add: win_inv_def holds_def eqs del: dstate.simps)
    moreover have "reads s s' buf"
    proof -
      have "reads ?s s' buf" using ri(3) reads_same(1) [OF kh(2,3,5,4)] by blast
      from reads_trans [OF s(4) this] show ?thesis by simp
    qed
    moreover have "wkeeps s s'" using wkeeps_trans [OF wkeeps_trans [OF s(3) ri(2)] kh(1)] .
    moreover have "lookahead s' = lookahead s + length buf" "strstart s' = strstart ?s" "window_size s' = window_size ?s"
      using ri(4,5) eqs s(5) wkeeps_sizes(2) [OF ri(2)] by simp_all
    ultimately show ?thesis using ih st res(1) by (auto intro!: exI [of _ buf])
  qed
qed

text \<open>The loop ends, with enough lookahead or at the end of the available input.\<close>

lemma fill_loop_inv:
  "win_inv s inp \<Longrightarrow> lookahead s < MIN_LOOKAHEAD \<Longrightarrow> \<exists>s' new. fill_loop s = Some s' \<and> win_inv s' (inp @ new) \<and> reads s s' new \<and>
    wkeeps s s' \<and> lookahead s' = lookahead s + length new \<and> (ready s \<or> next_in s \<noteq> [] \<longrightarrow> ready s') \<and>
    strstart s' + MIN_LOOKAHEAD < window_size s' \<and> (lookahead s' < MIN_LOOKAHEAD \<longrightarrow> next_in s' = [])"
proof (induction s arbitrary: inp rule: fill_loop.induct)
  case (1 s)
  obtain go s1 where p: "fill_pass s = (go, s1)" by force
  from fill_pass_inv [OF 1(2,3) p] obtain new where n: "go" "win_inv s1 (inp @ new)" "reads s s1 new" "wkeeps s s1"
    "lookahead s1 = lookahead s + length new" "ready s \<or> next_in s \<noteq> [] \<longrightarrow> ready s1" "strstart s1 + MIN_LOOKAHEAD < window_size s1"
    by (elim conjE exE)
  show ?case
  proof (cases "lookahead s1 < MIN_LOOKAHEAD \<and> next_in s1 \<noteq> []")
    case True
    then have r: "fill_loop s = fill_loop s1" using p n(1) by (simp add: fill_loop.simps [of s])
    from 1(1) [OF p [symmetric] refl _ True n(2)] n(1) True obtain s' new' where
      i: "fill_loop s1 = Some s'" "win_inv s' ((inp @ new) @ new')" "reads s1 s' new'" "wkeeps s1 s'" "lookahead s' = lookahead s1 + length new'"
        "ready s1 \<or> next_in s1 \<noteq> [] \<longrightarrow> ready s'" "strstart s' + MIN_LOOKAHEAD < window_size s'" "lookahead s' < MIN_LOOKAHEAD \<longrightarrow> next_in s' = []"
      by (elim conjE exE) blast
    show ?thesis
      by (intro exI [of _ s'] exI [of _ "new @ new'"])
        (use r i n True reads_trans [OF n(3) i(3)] wkeeps_trans [OF n(4) i(4)] in simp)
  next
    case False
    then have "fill_loop s = Some s1" using p n(1) by (auto simp: fill_loop.simps [of s])
    with n False show ?thesis by (intro exI [of _ s1] exI [of _ new]) simp
  qed
qed

text \<open>Writing behind the data changes nothing.\<close>

lemma write_behind:
  assumes w: "win_inv s inp" and i: "strstart s + lookahead s \<le> i" "i + length bs \<le> window_size s"
    and s': "s' = s\<lparr>window := zmemcpy (window s) i bs, high_water := hw\<rparr>"
  shows "win_inv s' inp" "wkeeps s s'" "ready s \<Longrightarrow> ready s'"
proof -
  let ?n = "strstart s + lookahead s"
  have sz: "wf_sizes s" "holds s inp" "hash_inv s" using w by (simp_all add: win_inv_def)
  have len: "length (window s) = window_size s" using sz(1) by (simp add: wf_sizes_def)
  have fr: "strstart s' = strstart s" "lookahead s' = lookahead s" "insert_cnt s' = insert_cnt s" "window_size s' = window_size s" "ins_h s' = ins_h s"
    by (simp_all add: s' window_size_def w_size_def)
  show k: "wkeeps s s'" by (simp add: s' wkeeps_def wframe_def)
  have "take ?n (window s') = take ?n (window s)" using i len by (simp add: s' take_zmemcpy_less)
  then have "holds s' inp" using sz(2) by (simp add: holds_def fr)
  moreover have "wf_sizes s'" using sz(1) i len
    by (simp add: wf_sizes_def s' length_zmemcpy window_size_def w_size_def hash_size_def hash_bits_def)
  moreover have "hash_inv s'"
  proof -
    obtain C where C: "chains s C" "\<forall>h \<in> C. h + 3 \<le> ?n \<and> h + insert_cnt s < strstart s" "insert_cnt s \<le> strstart s"
      using sz(3) by (auto simp: hash_inv_def)
    have "chains s' C" by (rule chains_append [OF C(1), of i]) (use C(2) i len in \<open>auto simp: s'\<close>)
    then show ?thesis by (rule hash_invI) (use C in \<open>simp_all add: fr\<close>)
  qed
  ultimately show "win_inv s' inp" by (simp add: win_inv_def)
  show "ready s'" if r: "ready s"
  proof -
    have "primed s' (strstart s)" if "primed s (strstart s)" "3 \<le> lookahead s"
      by (rule primed_moved [OF that(1) k fr(5)]) (use that(2) i len in \<open>simp_all add: s' zmemcpy_before\<close>)
    with r show ?thesis by (auto simp: ready_def fr)
  qed
qed

lemma init_window_inv:
  assumes "win_inv s inp"
  shows "win_inv (init_window s) inp" "wkeeps s (init_window s)" "ready s \<Longrightarrow> ready (init_window s)" "reads s (init_window s) []"
    "lookahead (init_window s) = lookahead s" "strstart (init_window s) = strstart s"
proof -
  have fit: "strstart s + lookahead s \<le> window_size s" using assms by (simp add: win_inv_def holds_def)
  let ?curr = "strstart s + lookahead s"
  have ex: "(\<exists>i bs hw. ?curr \<le> i \<and> i + length bs \<le> window_size s \<and> init_window s = s\<lparr>window := zmemcpy (window s) i bs, high_water := hw\<rparr>) \<or>
      init_window s = s"
  proof -
    consider "high_water s < window_size s" "high_water s < ?curr" | "high_water s < window_size s" "\<not> high_water s < ?curr" "high_water s < ?curr + WIN_INIT"
      | "\<not> (high_water s < window_size s \<and> high_water s < ?curr + WIN_INIT)" by linarith
    then show ?thesis
    proof cases
      case 1
      let ?i = "min (window_size s - ?curr) WIN_INIT"
      have "init_window s = s\<lparr>window := zmemcpy (window s) ?curr (replicate ?i 0), high_water := ?curr + ?i\<rparr>"
        using 1 unfolding init_window_def Let_def by (simp only: if_True)
      moreover have "?curr + length (replicate ?i (0 :: byte)) \<le> window_size s" using fit by simp
      ultimately show ?thesis by blast
    next
      case 2
      let ?i = "min (?curr + WIN_INIT - high_water s) (window_size s - high_water s)"
      have "init_window s = s\<lparr>window := zmemcpy (window s) (high_water s) (replicate ?i 0), high_water := high_water s + ?i\<rparr>"
        using 2 unfolding init_window_def Let_def by (simp only: if_True if_False)
      moreover have "high_water s + length (replicate ?i (0 :: byte)) \<le> window_size s" "?curr \<le> high_water s" using 2 by simp_all
      ultimately show ?thesis by blast
    next
      case 3
      then have "init_window s = s" by (auto simp: init_window_def Let_def)
      then show ?thesis ..
    qed
  qed
  from ex show "win_inv (init_window s) inp" "wkeeps s (init_window s)" "ready s \<Longrightarrow> ready (init_window s)"
    using write_behind [OF assms] assms wkeeps_refl by metis+
  show "reads s (init_window s) []" "lookahead (init_window s) = lookahead s" "strstart (init_window s) = strstart s"
    by (auto simp: init_window_def Let_def reads_def)
qed

text \<open>\<open>fill_window\<close>, with the two assertions of its code: there is room to read, and room to search.\<close>

lemma fill_window_inv:
  assumes "win_inv s inp" "lookahead s < MIN_LOOKAHEAD"
  shows "\<exists>s' new. fill_window s = Some s' \<and> win_inv s' (inp @ new) \<and> reads s s' new \<and> wkeeps s s' \<and> lookahead s' = lookahead s + length new \<and>
    (ready s \<longrightarrow> ready s') \<and> strstart s' + MIN_LOOKAHEAD < window_size s' \<and> (lookahead s' < MIN_LOOKAHEAD \<longrightarrow> next_in s' = [])"
proof -
  from fill_loop_inv [OF assms] obtain s1 new where i: "fill_loop s = Some s1" "win_inv s1 (inp @ new)" "reads s s1 new"
    "wkeeps s s1" "lookahead s1 = lookahead s + length new" "ready s \<or> next_in s \<noteq> [] \<longrightarrow> ready s1" "strstart s1 + MIN_LOOKAHEAD < window_size s1"
    "lookahead s1 < MIN_LOOKAHEAD \<longrightarrow> next_in s1 = []"
    by (elim exE conjE)
  note iw = init_window_inv [OF i(2)]
  have "next_in (init_window s1) = next_in s1" using iw(4) by (simp add: reads_def)
  moreover have "reads s (init_window s1) new" using reads_trans [OF i(3) iw(4)] by simp
  ultimately show ?thesis using i iw wkeeps_trans [OF i(4) iw(2)] wkeeps_sizes(2) [OF iw(2)]
    by (intro exI [of _ "init_window s1"] exI [of _ new]) (simp add: fill_window_def)
qed

end
