(* ===== verification/Bit_Stream.thy ===== *)
theory Bit_Stream
  imports Zlib_Prelude
begin

text \<open>
  The interface between the compressor and the decompressors: a sink of bits and a source
  of bits. A sink has accepted a bit string, a source has a bit string left. The locales
  state what \<open>send_bits\<close> of \<open>trees.c\<close> and \<open>bits\<close> of \<open>puff.c\<close> promise to their callers;
  the callers' lemmas are proved here once.
\<close>

section \<open>Sinks\<close>

locale bit_sink =
  fixes put :: "'s \<Rightarrow> nat \<Rightarrow> nat \<Rightarrow> 's"
    and written :: "'s \<Rightarrow> bitstring"
    and wf :: "'s \<Rightarrow> bool"
    and width :: nat
  assumes put_written: "wf s \<Longrightarrow> 0 < n \<Longrightarrow> n \<le> width \<Longrightarrow> v < 2 ^ n \<Longrightarrow>
      written (put s v n) = written s @ nat_bits n v"
    and put_wf: "wf s \<Longrightarrow> 0 < n \<Longrightarrow> n \<le> width \<Longrightarrow> v < 2 ^ n \<Longrightarrow> wf (put s v n)"
begin

text \<open>A sequence of \<open>(value, length)\<close> pairs, as the clients emit them.\<close>

definition admissible :: "(nat \<times> nat) list \<Rightarrow> bool" where
  "admissible vs \<longleftrightarrow> (\<forall>(v, n) \<in> set vs. 0 < n \<and> n \<le> width \<and> v < 2 ^ n)"

lemma put_all:
  assumes "wf s" "admissible vs"
  shows "written (foldl (\<lambda>s (v, n). put s v n) s vs) = written s @ concat (map (\<lambda>(v, n). nat_bits n v) vs)"
    and "wf (foldl (\<lambda>s (v, n). put s v n) s vs)"
  using assms
proof (induction vs arbitrary: s)
  case (Cons a vs)
  obtain v n where a: "a = (v, n)" by (cases a)
  { case 1 with a Cons.IH(1) [of "put s v n"] show ?case
      by (simp add: admissible_def put_written put_wf) }
  { case 2 with a Cons.IH(2) [of "put s v n"] show ?case
      by (simp add: admissible_def put_wf) }
qed simp_all

end

section \<open>Sources\<close>

locale bit_source =
  fixes get :: "'s \<Rightarrow> nat \<Rightarrow> 'e + nat \<times> 's"
    and rest :: "'s \<Rightarrow> bitstring"
    and frame :: "'s \<Rightarrow> 'f"
    and wf :: "'s \<Rightarrow> bool"
  assumes get_enough: "wf s \<Longrightarrow> n \<le> length (rest s) \<Longrightarrow>
      \<exists>s'. get s n = Inr (bits_nat (take n (rest s)), s') \<and> rest s' = drop n (rest s) \<and>
        frame s' = frame s \<and> wf s'"
    and get_short: "wf s \<Longrightarrow> length (rest s) < n \<Longrightarrow> \<exists>e. get s n = Inl e"
begin

lemma get_InrD:
  assumes "wf s" "get s n = Inr (v, s')"
  shows "n \<le> length (rest s) \<and> v = bits_nat (take n (rest s)) \<and> rest s' = drop n (rest s) \<and>
    frame s' = frame s \<and> wf s'"
  using assms get_short [of s n] get_enough [of s n] by (cases "n \<le> length (rest s)") auto

lemma get_bound: "wf s \<Longrightarrow> get s n = Inr (v, s') \<Longrightarrow> v < 2 ^ n"
  using get_InrD [of s n v s'] bits_nat_bound [of "take n (rest s)"] by auto

lemma get_one:
  assumes "wf s" "rest s = b # bs"
  obtains s' where "get s 1 = Inr (of_bool b, s')" "rest s' = bs" "frame s' = frame s" "wf s'"
  using get_enough [of s 1] assms by auto

lemma get_prefix:
  assumes "wf s" "get s n = Inr (v, s')"
  shows "rest s = nat_bits n v @ rest s'" "v < 2 ^ n" "frame s' = frame s" "wf s'"
proof -
  note g = get_InrD [OF assms]
  have "nat_bits (length (take n (rest s))) (bits_nat (take n (rest s))) = take n (rest s)"
    by (rule nat_bits_bits_nat)
  with g show "rest s = nat_bits n v @ rest s'" by (simp add: min_absorb2)
  from g show "v < 2 ^ n" "frame s' = frame s" "wf s'" using get_bound [OF assms] by simp_all
qed

text \<open>What a sink has written in \<open>n\<close> bits, a source reads back.\<close>

lemma get_written:
  assumes "wf s" "rest s = nat_bits n v @ bs" "v < 2 ^ n"
  obtains s' where "get s n = Inr (v, s')" "rest s' = bs" "frame s' = frame s" "wf s'"
proof -
  have "take n (rest s) = nat_bits n v" "drop n (rest s) = bs" "n \<le> length (rest s)"
    using assms(2) by simp_all
  with get_enough [OF assms(1), of n] assms(3) that show ?thesis
    by (auto simp: take_bit_nat_eq_self)
qed

end

end
