(* ===== verification/Trees_Bits.thy ===== *)
theory Trees_Bits
  imports Trees Bit_Stream
begin

text \<open>
  What the bit writer of \<open>trees.c\<close> does to the bit string of a block: \<open>send_bits\<close> is a
  \<open>bit_sink\<close>, \<open>bi_flush\<close> moves whole bytes to the output and \<open>bi_windup\<close> pads to a byte.
\<close>

section \<open>Bits of words\<close>

lemma nat_bits_unat: "nat_bits n (unat (w :: 'a :: len word)) = map (bit w) [0..<n]"
  by (simp add: nat_bits_def bit_unsigned_iff)

lemma bit_nat_above: "v < 2 ^ n \<Longrightarrow> n \<le> i \<Longrightarrow> \<not> bit (v :: nat) i"
  by (metis bit_take_bit_iff leD take_bit_nat_eq_self)

lemma bit_above: "unat (w :: 'a :: len word) < 2 ^ n \<Longrightarrow> n \<le> i \<Longrightarrow> \<not> bit w i"
  using bit_nat_above [of "unat w" n i] bit_imp_le_length [of w i] by (auto simp: bit_unsigned_iff)

lemma unat_less_exp:
  assumes "\<And>i. n \<le> i \<Longrightarrow> \<not> bit (w :: 'a :: len word) i"
  shows "unat w < 2 ^ n"
proof -
  have "take_bit n (unat w) = unat w"
    using assms by (intro bit_eqI) (metis bit_take_bit_iff bit_unsigned_iff not_le)
  then show ?thesis by (simp only: take_bit_nat_eq_self_iff)
qed

lemma bit_of_nat_ush: "bit (of_nat v :: ush) i \<longleftrightarrow> i < 16 \<and> bit v i"
  by (simp add: bit_simps)

lemma byte_bits_ucast: "byte_bits (ucast (w :: 'a :: len word)) = map (bit w) [0..<8]"
  by (auto simp: byte_bits_def nat_bits_unat bit_simps)

section \<open>The sink\<close>

definition bits_written :: "trees_state \<Rightarrow> bitstring" where
  "bits_written s = bytes_bits (pending_buf s) @ nat_bits (bi_valid s) (unat (bi_buf s))"

definition bi_wf :: "trees_state \<Rightarrow> bool" where
  "bi_wf s \<longleftrightarrow> bi_valid s \<le> Buf_size \<and> unat (bi_buf s) < 2 ^ bi_valid s"

lemma short_bits: "bytes_bits [ucast (w AND 255), ucast (drop_bit 8 w)] = nat_bits 16 (unat (w :: ush))"
proof -
  have "map (bit w) [0..<16] = map (bit w) [0..<8] @ map (bit (drop_bit 8 w)) [0..<8]"
    by (rule nth_equalityI) (auto simp: nth_append bit_simps)
  moreover have "map (bit (w AND 255)) [0..<8] = map (bit w) [0..<8]"
    by (simp add: upt_conv_Cons bit_simps)
  ultimately show ?thesis by (simp only: byte_bits_ucast nat_bits_unat bytes_bits_simps append_Nil2)
qed

lemma put_short_pending [simp]:
  "pending_buf (put_short s w) = pending_buf s @ [ucast (w AND 255), ucast (drop_bit 8 w)]"
  "bi_buf (put_short s w) = bi_buf s" "bi_valid (put_short s w) = bi_valid s"
  by (simp_all add: put_short_def put_byte_def)

lemma put_byte_pending [simp]:
  "pending_buf (put_byte s c) = pending_buf s @ [c]"
  "bi_buf (put_byte s c) = bi_buf s" "bi_valid (put_byte s c) = bi_valid s"
  by (simp_all add: put_byte_def)

lemma or_push_bits:
  assumes "unat (b :: ush) < 2 ^ k" "v < 2 ^ n" "k \<le> 16"
  shows "map (bit (b OR push_bit k (of_nat v))) [0..<min 16 (k + n)] =
    map (bit b) [0..<k] @ nat_bits (min 16 (k + n) - k) v"
  using assms bit_above [OF assms(1)]
  by (intro nth_equalityI) (auto simp: nth_append bit_simps not_less)

lemma drop_bits:
  assumes "v < 2 ^ n" "n \<le> 16" "k \<le> 16" "16 \<le> k + n"
  shows "map (bit (drop_bit (16 - k) (of_nat v :: ush))) [0..<k + n - 16] = nat_bits (k + n - 16) (drop_bit (16 - k) v)"
  using assms by (intro nth_equalityI) (auto simp: bit_simps)

lemma send_bits_written:
  assumes "bi_wf s" "0 < n" "n \<le> 16" "v < 2 ^ n"
  shows "bits_written (send_bits s v n) = bits_written s @ nat_bits n v"
proof -
  let ?k = "bi_valid s" and ?w = "bi_buf s OR push_bit (bi_valid s) (of_nat v)"
  have k: "?k \<le> 16" "unat (bi_buf s) < 2 ^ ?k" using assms(1) by (simp_all add: bi_wf_def Buf_size_def)
  note orb = or_push_bits [OF k(2) assms(4) k(1)]
  show ?thesis
  proof (cases "?k + n > 16")
    case True
    have "nat_bits (16 - ?k) v @ nat_bits (?k + n - 16) (drop_bit (16 - ?k) v) = nat_bits n v"
      using True k assms(3) nat_bits_add [of "16 - ?k" "?k + n - 16" v] by simp
    moreover have "map (bit ?w) [0..<16] = map (bit (bi_buf s)) [0..<?k] @ nat_bits (16 - ?k) v"
      using orb True by simp
    moreover have "bits_written (send_bits s v n) = bytes_bits (pending_buf s) @
        bytes_bits [ucast (?w AND 255), ucast (drop_bit 8 ?w)] @
        nat_bits (?k + n - 16) (unat (drop_bit (16 - ?k) (of_nat v :: ush)))"
      using True by (simp add: send_bits_def Let_def Buf_size_def bits_written_def)
    moreover have "nat_bits (?k + n - 16) (unat (drop_bit (16 - ?k) (of_nat v :: ush))) =
        nat_bits (?k + n - 16) (drop_bit (16 - ?k) v)"
      using True drop_bits [OF assms(4,3) k(1)] by (simp only: nat_bits_unat)
    ultimately show ?thesis
      by (simp only: short_bits nat_bits_unat append_assoc bits_written_def)
  next
    case False
    then show ?thesis using orb
      by (simp add: send_bits_def Buf_size_def bits_written_def nat_bits_unat)
  qed
qed

lemma send_bits_wf:
  assumes "bi_wf s" "0 < n" "n \<le> 16" "v < 2 ^ n"
  shows "bi_wf (send_bits s v n)"
proof -
  let ?k = "bi_valid s"
  have k: "?k \<le> 16" "unat (bi_buf s) < 2 ^ ?k" using assms(1) by (simp_all add: bi_wf_def Buf_size_def)
  have "unat (bi_buf s OR push_bit ?k (of_nat v)) < 2 ^ (?k + n)"
    using bit_above [OF k(2)] bit_nat_above [OF assms(4)] by (intro unat_less_exp) (auto simp: bit_simps)
  moreover have "unat (drop_bit (16 - ?k) (of_nat v :: ush)) < 2 ^ (?k + n - 16)" if "?k + n > 16"
    using that k(1) bit_nat_above [OF assms(4)] by (intro unat_less_exp) (auto simp: bit_simps)
  ultimately show ?thesis using k assms(3)
    by (auto simp: send_bits_def Let_def Buf_size_def bi_wf_def)
qed

interpretation tw: bit_sink send_bits bits_written bi_wf 16
  by unfold_locales (simp_all add: send_bits_written send_bits_wf)

section \<open>Flushing\<close>

lemma bi_flush_written:
  assumes "bi_wf s"
  shows "bits_written (bi_flush s) = bits_written s" "bi_wf (bi_flush s)" "bi_valid (bi_flush s) < 8"
proof -
  have k: "bi_valid s \<le> 16" "unat (bi_buf s) < 2 ^ bi_valid s" using assms by (simp_all add: bi_wf_def Buf_size_def)
  have "bytes_bits [ucast (bi_buf s)] @ nat_bits (bi_valid s - 8) (unat (drop_bit 8 (bi_buf s))) =
      nat_bits (bi_valid s) (unat (bi_buf s))" if "8 \<le> bi_valid s"
    using that by (intro nth_equalityI) (auto simp: byte_bits_ucast nat_bits_unat nth_append bit_simps)
  then show "bits_written (bi_flush s) = bits_written s"
    using k by (simp add: bi_flush_def bits_written_def short_bits del: bytes_bits_simps)
  have "unat (drop_bit 8 (bi_buf s)) < 2 ^ (bi_valid s - 8)" if "8 \<le> bi_valid s"
    using that bit_above [OF k(2)] by (intro unat_less_exp) (auto simp: bit_simps)
  then show "bi_wf (bi_flush s)" "bi_valid (bi_flush s) < 8" using k
    by (auto simp: bi_flush_def bi_wf_def Buf_size_def)
qed

text \<open>The number of zero bits that fill up a byte.\<close>

definition pad_len :: "bitstring \<Rightarrow> nat" where
  "pad_len bs = (8 - length bs mod 8) mod 8"

lemma pad_to_byte:
  assumes "(k :: nat) \<le> 16"
  shows "(8 - k mod 8) mod 8 = (if k > 8 then 16 - k else if k > 0 then 8 - k else 0)"
proof -
  consider "k = 16" | "8 < k" "k < 16" | "k \<le> 8" using assms by linarith
  then show ?thesis by cases (auto simp: mod_if)
qed

lemma bi_windup_written:
  assumes "bi_wf s"
  shows "bytes_bits (pending_buf (bi_windup s)) = bits_written s @ replicate (pad_len (bits_written s)) False"
    and "bi_buf (bi_windup s) = 0" "bi_valid (bi_windup s) = 0"
proof -
  let ?k = "bi_valid s" and ?w = "bi_buf s"
  have k: "?k \<le> 16" "unat ?w < 2 ^ ?k" using assms by (simp_all add: bi_wf_def Buf_size_def)
  have pad: "map (bit ?w) [0..<m] = map (bit ?w) [0..<?k] @ replicate (m - ?k) False" if "?k \<le> m" for m
    using that bit_above [OF k(2)] by (intro nth_equalityI) (auto simp: nth_append not_less)
  have p: "pad_len (bits_written s) = (if ?k > 8 then 16 - ?k else if ?k > 0 then 8 - ?k else 0)"
    using pad_to_byte [OF k(1)] by (simp add: pad_len_def bits_written_def)
  consider "?k > 8" | "0 < ?k" "?k \<le> 8" | "?k = 0" by linarith
  then show "bytes_bits (pending_buf (bi_windup s)) = bits_written s @ replicate (pad_len (bits_written s)) False"
  proof cases
    case 1
    then have "bytes_bits (pending_buf (bi_windup s)) = bytes_bits (pending_buf s) @ map (bit ?w) [0..<16]"
      by (simp add: bi_windup_def short_bits nat_bits_unat del: bytes_bits_simps)
    with 1 pad [of 16] k(1) show ?thesis unfolding p by (simp add: bits_written_def nat_bits_unat)
  next
    case 2
    then have "bytes_bits (pending_buf (bi_windup s)) = bytes_bits (pending_buf s) @ map (bit ?w) [0..<8]"
      by (simp add: bi_windup_def byte_bits_ucast)
    with 2 pad [of 8] show ?thesis unfolding p by (simp add: bits_written_def nat_bits_unat)
  qed (simp add: pad_len_def bi_windup_def bits_written_def)
qed (simp_all add: bi_windup_def Let_def)

lemma bi_windup_wf: "bi_wf (bi_windup s)" "bits_written (bi_windup s) = bytes_bits (pending_buf (bi_windup s))"
  by (simp_all add: bi_wf_def bits_written_def bi_windup_def Let_def)

end
