(* ===== verification/Puff.thy ===== *)
theory Puff
  imports Zlib_Prelude
begin

text \<open>
  The inflater of \<open>contrib/puff/puff.c\<close>, function by function. \<open>pstate\<close> is the C
  \<open>struct state\<close>; \<open>longjmp\<close> out of \<open>bits\<close> and \<open>decode\<close> is the error value
  \<open>Longjmp\<close>, which carries the state at the jump, and an access outside of an array is the
  error value \<open>Oob\<close>. Both loops over input are total functions: every pass takes at
  least one bit. The C counters are natural numbers: objects are smaller than \<open>2\<^sup>6\<^sup>3\<close>
  bytes, so \<open>incnt + 4\<close> and \<open>outcnt + len\<close> do not wrap.
\<close>

section \<open>State\<close>

record pstate =
  pout :: "byte list option"
  poutlen :: nat
  poutcnt :: nat
  pin :: "byte list"
  pinlen :: nat
  pincnt :: nat
  pbitbuf :: nat
  pbitcnt :: nat

datatype fault = Longjmp pstate | Oob

definition MAXBITS :: nat where "MAXBITS = 15"
definition MAXLCODES :: nat where "MAXLCODES = 286"
definition MAXDCODES :: nat where "MAXDCODES = 30"
definition MAXCODES :: nat where "MAXCODES = MAXLCODES + MAXDCODES"
definition FIXLCODES :: nat where "FIXLCODES = 288"

text \<open>Bits the state can still deliver: the measure of every loop.\<close>

definition bits_left :: "pstate \<Rightarrow> nat" where
  "bits_left s = 8 * (length (pin s) - pincnt s) + pbitcnt s"

section \<open>Reading bits\<close>

text \<open>\<open>s->in[s->incnt++]\<close>\<close>

definition next_byte :: "pstate \<Rightarrow> fault + byte \<times> pstate" where
  "next_byte s = (case aget (pin s) (pincnt s) of
      None \<Rightarrow> Inl Oob
    | Some b \<Rightarrow> Inr (b, s\<lparr>pincnt := pincnt s + 1\<rparr>))"

function bits_load :: "pstate \<Rightarrow> nat \<Rightarrow> nat \<Rightarrow> fault + nat \<times> pstate" where
  "bits_load s val need =
     (if pbitcnt s < need
      then if pincnt s = pinlen s then Inl (Longjmp s)
           else ebind (next_byte s) (\<lambda>(b, s1).
             bits_load (s1\<lparr>pbitcnt := pbitcnt s + 8\<rparr>)
               (val OR push_bit (pbitcnt s) (unat b)) need)
      else Inr (val, s))"
  by pat_completeness auto
termination by (relation "measure (\<lambda>(s, val, need). need - pbitcnt s)") auto

declare bits_load.simps [simp del]

definition bits :: "pstate \<Rightarrow> nat \<Rightarrow> fault + nat \<times> pstate" where
  "bits s need = ebind (bits_load s (pbitbuf s) need) (\<lambda>(val, s1).
     Inr (val AND (push_bit need 1 - 1),
          s1\<lparr>pbitbuf := drop_bit need val, pbitcnt := pbitcnt s1 - need\<rparr>))"

section \<open>Stored blocks\<close>

text \<open>The copy loop \<open>while (len--) s->out[s->outcnt++] = s->in[s->incnt++];\<close>\<close>

fun stored_copy :: "pstate \<Rightarrow> byte list \<Rightarrow> nat \<Rightarrow> fault + pstate" where
  "stored_copy s buf 0 = Inr (s\<lparr>pout := Some buf\<rparr>)"
| "stored_copy s buf (Suc len) = ebind (next_byte s) (\<lambda>(b, s1).
     case aset buf (poutcnt s1) b of
       None \<Rightarrow> Inl Oob
     | Some buf1 \<Rightarrow> stored_copy (s1\<lparr>poutcnt := poutcnt s1 + 1\<rparr>) buf1 len)"

definition stored :: "pstate \<Rightarrow> fault + int \<times> pstate" where
  "stored s0 = (let s = s0\<lparr>pbitbuf := 0, pbitcnt := 0\<rparr> in
     if pincnt s + 4 > pinlen s then Inr (2, s)
     else ebind (next_byte s) (\<lambda>(lo, s). ebind (next_byte s) (\<lambda>(hi, s).
       let len = ucast lo OR push_bit 8 (ucast hi) :: uint in
       ebind (next_byte s) (\<lambda>(c0, s).
         if (ucast c0 :: uint) \<noteq> (NOT len AND 255) then Inr (- 2, s)
         else ebind (next_byte s) (\<lambda>(c1, s).
           if (ucast c1 :: uint) \<noteq> (drop_bit 8 (NOT len) AND 255) then Inr (- 2, s)
           else if pincnt s + unat len > pinlen s then Inr (2, s)
           else case pout s of
             Some buf \<Rightarrow>
               if poutcnt s + unat len > poutlen s then Inr (1, s)
               else ebind (stored_copy s buf (unat len)) (\<lambda>s. Inr (0, s))
           | None \<Rightarrow> Inr (0, s\<lparr>poutcnt := poutcnt s + unat len,
                               pincnt := pincnt s + unat len\<rparr>))))))"

section \<open>Huffman tables\<close>

record huffman =
  hcount :: "nat list"
  hsymbol :: "nat list"

text \<open>The simple \<open>decode\<close> of the \<open>SLOW\<close> build.\<close>

definition huffman_symbol :: "huffman \<Rightarrow> int \<Rightarrow> pstate \<Rightarrow> fault + int \<times> pstate" where
  "huffman_symbol h i s =
     (if i < 0 then Inl Oob
      else case aget (hsymbol h) (nat i) of
             None \<Rightarrow> Inl Oob | Some v \<Rightarrow> Inr (int v, s))"

function decode_slow_loop ::
  "pstate \<Rightarrow> huffman \<Rightarrow> nat \<Rightarrow> int \<Rightarrow> int \<Rightarrow> int \<Rightarrow> fault + int \<times> pstate" where
  "decode_slow_loop s h len code first index =
     (if len \<le> MAXBITS
      then ebind (bits s 1) (\<lambda>(b, s).
        let code = code OR int b in
        case aget (hcount h) len of
          None \<Rightarrow> Inl Oob
        | Some cnt \<Rightarrow>
            if code - int cnt < first then huffman_symbol h (index + (code - first)) s
            else decode_slow_loop s h (len + 1) (push_bit 1 code)
                   (push_bit 1 (first + int cnt)) (index + int cnt))
      else Inr (- 10, s))"
  by pat_completeness auto
termination by (relation "measure (\<lambda>(s, h, len, code, first, index). Suc MAXBITS - len)") auto

declare decode_slow_loop.simps [simp del]

definition decode_slow :: "pstate \<Rightarrow> huffman \<Rightarrow> fault + int \<times> pstate" where
  "decode_slow s h = decode_slow_loop s h 1 0 0 0"

text \<open>
  The faster \<open>decode\<close> that is compiled by default. The inner loop \<open>while (left--)\<close> returns
  either the decoded symbol with the remaining bit buffer or the loop variables.
\<close>

datatype decode_step =
    Found int nat nat
  | More int int int nat

fun decode_bits ::
  "huffman \<Rightarrow> nat \<Rightarrow> nat \<Rightarrow> int \<Rightarrow> int \<Rightarrow> int \<Rightarrow> nat \<Rightarrow> fault + decode_step" where
  "decode_bits h 0 bitbuf code first index len = Inr (More code first index len)"
| "decode_bits h (Suc left) bitbuf code first index len =
     (let code = code OR int (bitbuf AND 1); bitbuf = drop_bit 1 bitbuf in
      case aget (hcount h) len of
        None \<Rightarrow> Inl Oob
      | Some cnt \<Rightarrow>
          if code - int cnt < first then Inr (Found (index + (code - first)) bitbuf len)
          else decode_bits h left bitbuf (push_bit 1 code) (push_bit 1 (first + int cnt))
                 (index + int cnt) (len + 1))"

text \<open>\<open>(s->bitcnt - len) & 7\<close> on C integers: \<open>len\<close> may exceed \<open>bitcnt\<close>.\<close>

definition bitcnt_after :: "nat \<Rightarrow> nat \<Rightarrow> nat" where
  "bitcnt_after bitcnt len = nat ((int bitcnt - int len) AND 7)"

function decode_loop ::
  "pstate \<Rightarrow> huffman \<Rightarrow> nat \<Rightarrow> nat \<Rightarrow> int \<Rightarrow> int \<Rightarrow> int \<Rightarrow> nat \<Rightarrow> fault + int \<times> pstate" where
  "decode_loop s h left bitbuf code first index len =
     ebind (decode_bits h left bitbuf code first index len) (\<lambda>r. case r of
       Found i bitbuf len \<Rightarrow> huffman_symbol h i
         (s\<lparr>pbitbuf := bitbuf, pbitcnt := bitcnt_after (pbitcnt s) len\<rparr>)
     | More code first index len \<Rightarrow>
         let left = MAXBITS + 1 - len in
         if left = 0 then Inr (- 10, s)
         else if pincnt s = pinlen s then Inl (Longjmp s)
         else ebind (next_byte s) (\<lambda>(b, s).
           decode_loop s h (min left 8) (unat b) code first index len))"
  by pat_completeness auto
termination
  by (relation "measure (\<lambda>(s, h, left, bitbuf, code, first, index, len).
        length (pin s) - pincnt s)")
    (auto simp: next_byte_def aget_def split: option.splits if_splits)

declare decode_loop.simps [simp del]

definition decode :: "pstate \<Rightarrow> huffman \<Rightarrow> fault + int \<times> pstate" where
  "decode s h = decode_loop s h (pbitcnt s) (pbitbuf s) 0 0 0 1"


section \<open>Building Huffman tables\<close>

text \<open>The arrays that the callers of \<open>construct\<close> hand over, with \<open>n\<close> symbols.\<close>

definition huffman_arrays :: "nat \<Rightarrow> huffman" where
  "huffman_arrays n = \<lparr>hcount = replicate (MAXBITS + 1) 0, hsymbol = replicate n 0\<rparr>"

lemma huffman_arrays_simps [simp]: "hsymbol (huffman_arrays n) = replicate n 0"
  by (simp add: huffman_arrays_def)

definition oob :: "'a option \<Rightarrow> fault + 'a" where
  "oob x = (case x of None \<Rightarrow> Inl Oob | Some v \<Rightarrow> Inr v)"

lemma oob_simps [simp]: "oob None = Inl Oob" "oob (Some v) = Inr v"
  by (simp_all add: oob_def)

text \<open>\<open>for (symbol = 0; symbol < n; symbol++) (h->count[length[symbol]])++;\<close>\<close>

fun count_lengths :: "nat list \<Rightarrow> nat list \<Rightarrow> nat list \<Rightarrow> fault + nat list" where
  "count_lengths cnt lengths [] = Inr cnt"
| "count_lengths cnt lengths (k # ks) =
     ebind (oob (aget lengths k)) (\<lambda>l.
     ebind (oob (aget cnt l)) (\<lambda>c.
     count_lengths (cnt[l := c + 1]) lengths ks))"

text \<open>The check for an over-subscribed set: \<open>Inl\<close> is the early return.\<close>

fun check_left :: "nat list \<Rightarrow> nat list \<Rightarrow> int \<Rightarrow> int + int" where
  "check_left cnt [] left = Inr left"
| "check_left cnt (len # ls) left =
     (let left = push_bit 1 left - int (cnt ! len) in
      if left < 0 then Inl left else check_left cnt ls left)"

fun gen_offs :: "nat list \<Rightarrow> nat list \<Rightarrow> nat list \<Rightarrow> nat list" where
  "gen_offs cnt [] offs = offs"
| "gen_offs cnt (len # ls) offs = gen_offs cnt ls (offs[len + 1 := offs ! len + cnt ! len])"

fun sort_symbols ::
  "nat list \<Rightarrow> nat list \<Rightarrow> nat list \<Rightarrow> nat list \<Rightarrow> fault + nat list" where
  "sort_symbols lengths offs symbol [] = Inr symbol"
| "sort_symbols lengths offs symbol (k # ks) =
     ebind (oob (aget lengths k)) (\<lambda>l.
     if l \<noteq> 0
     then ebind (oob (aget offs l)) (\<lambda>o1.
          ebind (oob (aset symbol o1 k)) (\<lambda>symbol.
          sort_symbols lengths (offs[l := o1 + 1]) symbol ks))
     else sort_symbols lengths offs symbol ks)"

definition construct :: "huffman \<Rightarrow> nat list \<Rightarrow> nat \<Rightarrow> fault + int \<times> huffman" where
  "construct h lengths n =
     ebind (count_lengths (replicate (MAXBITS + 1) 0) lengths [0..<n]) (\<lambda>cnt.
     if cnt ! 0 = n then Inr (0, h\<lparr>hcount := cnt\<rparr>)
     else case check_left cnt [1..<MAXBITS + 1] 1 of
       Inl left \<Rightarrow> Inr (left, h\<lparr>hcount := cnt\<rparr>)
     | Inr left \<Rightarrow>
         let offs = gen_offs cnt [1..<MAXBITS] (replicate (MAXBITS + 1) 0) in
         ebind (sort_symbols lengths offs (hsymbol h) [0..<n]) (\<lambda>symbol.
         Inr (left, h\<lparr>hcount := cnt, hsymbol := symbol\<rparr>)))"

section \<open>Decoding literal/length and distance codes\<close>

definition lens_base :: "nat list" where
  "lens_base = [3, 4, 5, 6, 7, 8, 9, 10, 11, 13, 15, 17, 19, 23, 27, 31,
     35, 43, 51, 59, 67, 83, 99, 115, 131, 163, 195, 227, 258]"

definition lext :: "nat list" where
  "lext = [0, 0, 0, 0, 0, 0, 0, 0, 1, 1, 1, 1, 2, 2, 2, 2,
     3, 3, 3, 3, 4, 4, 4, 4, 5, 5, 5, 5, 0]"

definition dists :: "nat list" where
  "dists = [1, 2, 3, 4, 5, 7, 9, 13, 17, 25, 33, 49, 65, 97, 129, 193,
     257, 385, 513, 769, 1025, 1537, 2049, 3073, 4097, 6145, 8193, 12289, 16385, 24577]"

definition dext :: "nat list" where
  "dext = [0, 0, 0, 0, 1, 1, 2, 2, 3, 3, 4, 4, 5, 5, 6, 6,
     7, 7, 8, 8, 9, 9, 10, 10, 11, 11, 12, 12, 13, 13]"

definition emit_literal :: "pstate \<Rightarrow> byte \<Rightarrow> fault + int \<times> pstate" where
  "emit_literal s v = (case pout s of
      Some buf \<Rightarrow>
        if poutcnt s = poutlen s then Inr (1, s)
        else ebind (oob (aset buf (poutcnt s) v)) (\<lambda>buf.
          Inr (0, s\<lparr>pout := Some buf, poutcnt := poutcnt s + 1\<rparr>))
    | None \<Rightarrow> Inr (0, s\<lparr>poutcnt := poutcnt s + 1\<rparr>))"

text \<open>\<open>while (len--) { s->out[s->outcnt] = s->out[s->outcnt - dist]; s->outcnt++; }\<close>\<close>

fun copy_loop :: "byte list \<Rightarrow> nat \<Rightarrow> nat \<Rightarrow> nat \<Rightarrow> fault + byte list" where
  "copy_loop buf outcnt dist 0 = Inr buf"
| "copy_loop buf outcnt dist (Suc len) =
     (if outcnt < dist then Inl Oob
      else ebind (oob (aget buf (outcnt - dist))) (\<lambda>v.
           ebind (oob (aset buf outcnt v)) (\<lambda>buf.
           copy_loop buf (outcnt + 1) dist len)))"

definition copy_match :: "pstate \<Rightarrow> nat \<Rightarrow> nat \<Rightarrow> fault + int \<times> pstate" where
  "copy_match s len dist = (case pout s of
      Some buf \<Rightarrow>
        if poutcnt s + len > poutlen s then Inr (1, s)
        else ebind (copy_loop buf (poutcnt s) dist len) (\<lambda>buf.
          Inr (0, s\<lparr>pout := Some buf, poutcnt := poutcnt s + len\<rparr>))
    | None \<Rightarrow> Inr (0, s\<lparr>poutcnt := poutcnt s + len\<rparr>))"

text \<open>The branch \<open>symbol > 256\<close> of the loop body; the result is 0 when the loop goes on.\<close>

definition codes_match :: "pstate \<Rightarrow> huffman \<Rightarrow> nat \<Rightarrow> fault + int \<times> pstate" where
  "codes_match s distcode k =
     (if k \<ge> 29 then Inr (- 10, s)
      else ebind (bits s (lext ! k)) (\<lambda>(x, s).
        let len = lens_base ! k + x in
        ebind (decode s distcode) (\<lambda>(symbol, s).
          if symbol < 0 then Inr (symbol, s)
          else ebind (oob (aget dists (nat symbol))) (\<lambda>base.
               ebind (oob (aget dext (nat symbol))) (\<lambda>need.
               ebind (bits s need) (\<lambda>(x, s).
                 let dist = base + x in
                 if dist > poutcnt s then Inr (- 11, s)
                 else copy_match s len dist))))))"


subsection \<open>Every pass of the loops takes a bit\<close>

lemma next_byte_InrE:
  assumes "next_byte s = Inr (b, s')"
  obtains "pincnt s < length (pin s)" "b = pin s ! pincnt s" "s' = s\<lparr>pincnt := pincnt s + 1\<rparr>"
  using assms by (auto simp: next_byte_def aget_def split: if_splits option.splits)

lemma bits_left_out [simp]:
  "bits_left (s\<lparr>pout := x\<rparr>) = bits_left s" "bits_left (s\<lparr>poutcnt := n\<rparr>) = bits_left s"
  by (simp_all add: bits_left_def)

lemma bits_load_bits_left:
  "bits_load s val need = Inr (v, s') \<Longrightarrow> bits_left s' = bits_left s \<and> need \<le> pbitcnt s'"
proof (induction s val need rule: bits_load.induct)
  case (1 s val need)
  show ?case
  proof (cases "pbitcnt s < need \<and> pincnt s \<noteq> pinlen s")
    case True
    with 1(2) obtain b s1 where nb: "next_byte s = Inr (b, s1)"
      and rec: "bits_load (s1\<lparr>pbitcnt := pbitcnt s + 8\<rparr>)
        (val OR push_bit (pbitcnt s) (unat b)) need = Inr (v, s')"
      by (subst (asm) bits_load.simps) (auto simp: ebind_Inr_iff)
    have "bits_left s' = bits_left (s1\<lparr>pbitcnt := pbitcnt s + 8\<rparr>) \<and> need \<le> pbitcnt s'"
      using 1(1)[OF _ _ nb refl rec] True by simp
    with nb show ?thesis by (auto elim!: next_byte_InrE simp: bits_left_def)
  next
    case False
    with 1(2) show ?thesis
      by (subst (asm) bits_load.simps) (auto split: if_splits)
  qed
qed

lemma bits_bits_left: "bits s need = Inr (v, s') \<Longrightarrow> bits_left s' + need = bits_left s"
  by (auto simp: bits_def ebind_Inr_iff bits_left_def dest!: bits_load_bits_left)

lemma bitcnt_after_eq: "bitcnt_after c n = nat ((int c - int n) mod 8)"
proof -
  have "(7 :: int) = mask 3" by (simp add: mask_eq_exp_minus_1)
  then show ?thesis
    by (simp only: bitcnt_after_def take_bit_eq_mask [symmetric] take_bit_eq_mod) simp
qed

lemma bitcnt_after_bounds: "bitcnt_after c n < 8" "n \<le> c \<Longrightarrow> bitcnt_after c n \<le> c - n"
proof -
  show "bitcnt_after c n < 8" by (simp add: bitcnt_after_eq nat_less_iff)
  show "bitcnt_after c n \<le> c - n" if "n \<le> c"
    using that by (simp add: bitcnt_after_eq nat_le_iff zmod_le_nonneg_dividend of_nat_diff)
qed

lemma bitcnt_after_less: "1 \<le> n \<Longrightarrow> n \<le> c \<Longrightarrow> bitcnt_after c n < c"
  using bitcnt_after_bounds(2) [of n c] by simp

lemma decode_bits_Found:
  "decode_bits h left bb code first index len = Inr (Found i bb' len') \<Longrightarrow>
     len \<le> len' \<and> len' < len + left"
proof (induction left arbitrary: bb code first index len)
  case (Suc left)
  then show ?case
    by (auto simp: Let_def split: option.splits if_splits) (fastforce dest: Suc.IH)+
qed simp

lemma huffman_symbol_InrD: "huffman_symbol h i s = Inr (v, s') \<Longrightarrow> s' = s"
  by (auto simp: huffman_symbol_def split: if_splits option.splits)

lemma decode_loop_progress:
  assumes "decode_loop s h left bb code first index len = Inr (v, s')" "0 \<le> v"
  shows "pin s' = pin s \<and>
    ((\<exists>n. len \<le> n \<and> n < len + left \<and> pincnt s' = pincnt s \<and> pbitcnt s' = bitcnt_after (pbitcnt s) n) \<or>
     (pincnt s < pincnt s' \<and> pincnt s' \<le> length (pin s) \<and> pbitcnt s' < 8))"
  using assms
proof (induction s h left bb code first index len rule: decode_loop.induct)
  case (1 s h left bb code first index len)
  obtain r where r: "decode_bits h left bb code first index len = Inr r"
    using 1(2) by (subst (asm) decode_loop.simps) (auto simp: ebind_Inr_iff)
  show ?case
  proof (cases r)
    case (Found i bb' n)
    with 1(2) r have "huffman_symbol h i
        (s\<lparr>pbitbuf := bb', pbitcnt := bitcnt_after (pbitcnt s) n\<rparr>) = Inr (v, s')"
      by (subst (asm) decode_loop.simps) simp
    from huffman_symbol_InrD [OF this] decode_bits_Found [OF r [unfolded Found]] show ?thesis by auto
  next
    case (More code' first' index' len')
    with 1(2) r have u: "(let left = MAXBITS + 1 - len' in if left = 0 then Inr (- 10, s)
        else if pincnt s = pinlen s then Inl (Longjmp s)
        else ebind (next_byte s) (\<lambda>(b, s). decode_loop s h (min left 8)
               (unat b) code' first' index' len')) = Inr (v, s')"
      by (subst (asm) decode_loop.simps) simp
    with 1(3) have left: "MAXBITS + 1 - len' \<noteq> 0" "pincnt s \<noteq> pinlen s"
      by (auto simp: Let_def split: if_splits)
    with u obtain b s1 where nb: "next_byte s = Inr (b, s1)"
      and rec: "decode_loop s1 h (min (MAXBITS + 1 - len') 8)
        (unat b) code' first' index' len' = Inr (v, s')"
      by (auto simp: ebind_Inr_iff Let_def)
    from 1(1) [OF r More refl left nb refl rec 1(3)]
    show ?thesis using nb by (auto elim!: next_byte_InrE simp: bitcnt_after_bounds)
  qed
qed

lemma decode_bits_left: "decode s h = Inr (v, s') \<Longrightarrow> 0 \<le> v \<Longrightarrow> bits_left s' < bits_left s"
  unfolding decode_def
  by (drule (1) decode_loop_progress)
    (auto simp: bits_left_def bitcnt_after_less)

lemma emit_literal_bits_left: "emit_literal s v = Inr (e, s') \<Longrightarrow> bits_left s' = bits_left s"
  by (auto simp: emit_literal_def ebind_Inr_iff split: option.splits if_splits)

lemma copy_match_bits_left: "copy_match s len dist = Inr (e, s') \<Longrightarrow> bits_left s' = bits_left s"
  by (auto simp: copy_match_def ebind_Inr_iff split: option.splits if_splits)

lemma codes_match_bits_left:
  assumes "codes_match s h k = Inr (0, s')"
  shows "bits_left s' < bits_left s"
proof -
  from assms obtain x s1 v s2 d n y s3 where
    "bits s (lext ! k) = Inr (x, s1)" "decode s1 h = Inr (v, s2)" "0 \<le> v"
    "bits s2 n = Inr (y, s3)" "copy_match s3 (lens_base ! k + x) d = Inr (0, s')"
    by (auto simp: codes_match_def ebind_Inr_iff Let_def split: if_splits)
  then show ?thesis
    by (auto dest!: bits_bits_left decode_bits_left copy_match_bits_left)
qed

function codes :: "pstate \<Rightarrow> huffman \<Rightarrow> huffman \<Rightarrow> fault + int \<times> pstate" where
  "codes s lencode distcode = ebind (decode s lencode) (\<lambda>(symbol, s).
     if symbol < 0 then Inr (symbol, s)
     else if symbol < 256
     then ebind (emit_literal s (of_int symbol)) (\<lambda>(err, s).
            if err \<noteq> 0 then Inr (err, s) else codes s lencode distcode)
     else if symbol > 256
     then ebind (codes_match s distcode (nat (symbol - 257))) (\<lambda>(err, s).
            if err \<noteq> 0 then Inr (err, s) else codes s lencode distcode)
     else Inr (0, s))"
  by pat_completeness auto
termination
  by (relation "measure (\<lambda>(s, l, d). bits_left s)")
    (auto dest!: decode_bits_left emit_literal_bits_left codes_match_bits_left)

declare codes.simps [simp del]


section \<open>Fixed and dynamic blocks\<close>

text \<open>
  \<open>fixed\<close> builds its tables in static storage (zero before) on the first call and keeps
  them; the model builds the same tables on every call.
\<close>

definition fixed_lengths :: "nat list" where
  "fixed_lengths = replicate 144 8 @ replicate (256 - 144) 9 @ replicate (280 - 256) 7
     @ replicate (FIXLCODES - 280) 8"

definition fixed :: "pstate \<Rightarrow> fault + int \<times> pstate" where
  "fixed s =
     ebind (construct (huffman_arrays FIXLCODES)
              fixed_lengths FIXLCODES) (\<lambda>(_, lencode).
     ebind (construct (huffman_arrays MAXDCODES)
              (replicate MAXDCODES 5) MAXDCODES) (\<lambda>(_, distcode).
     codes s lencode distcode))"

definition order :: "nat list" where
  "order = [16, 17, 18, 0, 8, 7, 9, 6, 10, 5, 11, 4, 12, 3, 13, 2, 14, 1, 15]"

text \<open>The two loops that fill \<open>lengths[order[index]]\<close>, over a list of values of \<open>index\<close>.\<close>

fun read_lenlens :: "pstate \<Rightarrow> nat list \<Rightarrow> nat list \<Rightarrow> fault + nat list \<times> pstate" where
  "read_lenlens s lengths [] = Inr (lengths, s)"
| "read_lenlens s lengths (index # is) = ebind (bits s 3) (\<lambda>(v, s).
     read_lenlens s (lengths[order ! index := v]) is)"

fun clear_lenlens :: "nat list \<Rightarrow> nat list \<Rightarrow> nat list" where
  "clear_lenlens lengths [] = lengths"
| "clear_lenlens lengths (index # is) = clear_lenlens (lengths[order ! index := 0]) is"

text \<open>\<open>while (symbol--) lengths[index++] = len;\<close>\<close>

fun fill_lengths :: "nat list \<Rightarrow> nat \<Rightarrow> nat \<Rightarrow> nat \<Rightarrow> fault + nat list" where
  "fill_lengths lengths index len 0 = Inr lengths"
| "fill_lengths lengths index len (Suc n) =
     ebind (oob (aset lengths index len)) (\<lambda>lengths. fill_lengths lengths (index + 1) len n)"

text \<open>
  The repeat instructions \<open>symbol >= 16\<close>: \<open>Inl\<close> inside of the result is the error code
  returned by \<open>dynamic\<close>, \<open>Inr\<close> the length to repeat and the repeat count.
\<close>

definition repeat_code ::
  "pstate \<Rightarrow> nat list \<Rightarrow> nat \<Rightarrow> int \<Rightarrow> fault + (int + nat \<times> nat) \<times> pstate" where
  "repeat_code s lengths index symbol =
     (if symbol = 16
      then if index = 0 then Inr (Inl (- 5), s)
           else ebind (oob (aget lengths (index - 1))) (\<lambda>len.
                ebind (bits s 2) (\<lambda>(x, s). Inr (Inr (len, 3 + x), s)))
      else if symbol = 17
      then ebind (bits s 3) (\<lambda>(x, s). Inr (Inr (0, 3 + x), s))
      else ebind (bits s 7) (\<lambda>(x, s). Inr (Inr (0, 11 + x), s)))"

lemma repeat_code_bits_left:
  "repeat_code s lengths index symbol = Inr (r, s') \<Longrightarrow> bits_left s' \<le> bits_left s"
  by (auto simp: repeat_code_def ebind_Inr_iff split: if_splits dest!: bits_bits_left)

lemma repeat_code_Inl_neg: "repeat_code s lengths index symbol = Inr (Inl e, s') \<Longrightarrow> e = - 5"
  by (auto simp: repeat_code_def ebind_Inr_iff split: if_splits)

text \<open>The loop \<open>while (index < nlen + ndist)\<close>; the result 0 means that it ran to its end.\<close>

function read_lengths ::
  "pstate \<Rightarrow> huffman \<Rightarrow> nat list \<Rightarrow> nat \<Rightarrow> nat \<Rightarrow> fault + (int \<times> nat list) \<times> pstate" where
  "read_lengths s lencode lengths index tot =
     (if index < tot
      then ebind (decode s lencode) (\<lambda>(symbol, s).
        if symbol < 0 then Inr ((symbol, lengths), s)
        else if symbol < 16
        then ebind (oob (aset lengths index (nat symbol))) (\<lambda>lengths.
               read_lengths s lencode lengths (index + 1) tot)
        else ebind (repeat_code s lengths index symbol) (\<lambda>(r, s). case r of
               Inl err \<Rightarrow> Inr ((err, lengths), s)
             | Inr (len, n) \<Rightarrow>
                 if index + n > tot then Inr ((- 6, lengths), s)
                 else ebind (fill_lengths lengths index len n) (\<lambda>lengths.
                        read_lengths s lencode lengths (index + n) tot)))
      else Inr ((0, lengths), s))"
  by pat_completeness auto
termination
  by (relation "measure (\<lambda>(s, l, ls, i, t). bits_left s)")
    (auto dest!: decode_bits_left repeat_code_bits_left)

declare read_lengths.simps [simp del]

text \<open>The part of \<open>dynamic\<close> after the code lengths have been read.\<close>

definition dynamic_codes :: "pstate \<Rightarrow> huffman \<Rightarrow> nat list \<Rightarrow> nat \<Rightarrow> nat \<Rightarrow> fault + int \<times> pstate" where
  "dynamic_codes s lencode lengths nlen ndist =
     (if lengths ! 256 = 0 then Inr (- 9, s)
      else ebind (construct lencode lengths nlen) (\<lambda>(err, lencode).
        if err \<noteq> 0 \<and> (err < 0 \<or> nlen \<noteq> hcount lencode ! 0 + hcount lencode ! 1)
        then Inr (- 7, s)
        else ebind (construct (huffman_arrays MAXDCODES) (drop nlen lengths) ndist) (\<lambda>(err, distcode).
          if err \<noteq> 0 \<and> (err < 0 \<or> ndist \<noteq> hcount distcode ! 0 + hcount distcode ! 1)
          then Inr (- 8, s)
          else codes s lencode distcode)))"

text \<open>The part of \<open>dynamic\<close> from the code length code on.\<close>

definition dynamic_lengths :: "pstate \<Rightarrow> nat list \<Rightarrow> nat \<Rightarrow> nat \<Rightarrow> fault + int \<times> pstate" where
  "dynamic_lengths s lengths nlen ndist =
     ebind (construct (huffman_arrays MAXLCODES) lengths 19) (\<lambda>(err, lencode).
     if err \<noteq> 0 then Inr (- 4, s)
     else ebind (read_lengths s lencode lengths 0 (nlen + ndist)) (\<lambda>((err, lengths), s).
       if err \<noteq> 0 then Inr (err, s)
       else dynamic_codes s lencode lengths nlen ndist))"

definition dynamic :: "pstate \<Rightarrow> fault + int \<times> pstate" where
  "dynamic s =
     ebind (bits s 5) (\<lambda>(nlen0, s).
     ebind (bits s 5) (\<lambda>(ndist0, s).
     ebind (bits s 4) (\<lambda>(ncode0, s).
     let nlen = nlen0 + 257; ndist = ndist0 + 1; ncode = ncode0 + 4 in
     if nlen > MAXLCODES \<or> ndist > MAXDCODES then Inr (- 3, s)
     else ebind (read_lenlens s (replicate MAXCODES 0) [0..<ncode]) (\<lambda>(lengths, s).
       dynamic_lengths s (clear_lenlens lengths [ncode..<19]) nlen ndist))))"


section \<open>The blocks of a stream\<close>

definition block :: "pstate \<Rightarrow> nat \<Rightarrow> fault + int \<times> pstate" where
  "block s type = (if type = 0 then stored s else if type = 1 then fixed s
     else if type = 2 then dynamic s else Inr (- 1, s))"


subsection \<open>Blocks take no bits back\<close>

lemma next_byte_bits_left: "next_byte s = Inr (b, s') \<Longrightarrow> bits_left s' \<le> bits_left s"
  by (auto elim!: next_byte_InrE simp: bits_left_def)

lemma stored_copy_bits_left: "stored_copy s buf n = Inr s' \<Longrightarrow> bits_left s' \<le> bits_left s"
proof (induction n arbitrary: s buf)
  case (Suc n)
  then obtain b s1 buf1 where nb: "next_byte s = Inr (b, s1)"
    and rec: "stored_copy (s1\<lparr>poutcnt := poutcnt s1 + 1\<rparr>) buf1 n = Inr s'"
    by (auto simp: ebind_Inr_iff split: option.splits)
  from Suc.IH [OF rec] next_byte_bits_left [OF nb] show ?case by simp
qed auto

lemma stored_bits_left:
  assumes "stored s = Inr (0, s')"
  shows "bits_left s' \<le> bits_left s"
proof -
  define t where "t = s\<lparr>pbitbuf := 0, pbitcnt := 0\<rparr>"
  have t: "bits_left t \<le> bits_left s" by (simp add: t_def bits_left_def)
  from assms obtain b1 s1 b2 s2 b3 s3 b4 s4 where
    s: "next_byte t = Inr (b1, s1)" "next_byte s1 = Inr (b2, s2)"
      "next_byte s2 = Inr (b3, s3)" "next_byte s3 = Inr (b4, s4)"
    and r: "(\<exists>buf n. stored_copy s4 buf n = Inr s') \<or>
      (\<exists>n m. s' = s4\<lparr>poutcnt := n, pincnt := pincnt s4 + m\<rparr>)"
    unfolding stored_def t_def [symmetric]
    by (auto simp: Let_def ebind_Inr_iff split: if_splits option.splits) blast+
  have "bits_left s4 \<le> bits_left t"
    using s [THEN next_byte_bits_left] by linarith
  moreover have "bits_left s' \<le> bits_left s4"
    using r by (auto dest: stored_copy_bits_left simp: bits_left_def)
  ultimately show ?thesis using t by linarith
qed

lemma codes_bits_left: "codes s l d = Inr (0, s') \<Longrightarrow> bits_left s' \<le> bits_left s"
proof (induction s l d rule: codes.induct)
  case (1 s l d)
  from 1(3) obtain v s1 where d: "decode s l = Inr (v, s1)"
    by (subst (asm) codes.simps) (auto simp: ebind_Inr_iff)
  with 1(3) have v: "0 \<le> v" by (subst (asm) codes.simps) (auto split: if_splits)
  note dec = decode_bits_left [OF d v]
  consider "v < 256" | "v = 256" | "v > 256" by linarith
  then show ?case
  proof cases
    case 1
    with \<open>codes s l d = Inr (0, s')\<close> d v obtain s2 where
      e: "emit_literal s1 (of_int v) = Inr (0, s2)" "codes s2 l d = Inr (0, s')"
      by (subst (asm) codes.simps) (auto simp: ebind_Inr_iff split: if_splits)
    with "1.IH"(1) [OF d refl _ _ e(1) refl] 1 v dec show ?thesis
      by (auto dest: emit_literal_bits_left)
  next
    case 2
    with \<open>codes s l d = Inr (0, s')\<close> d have "s' = s1" by (subst (asm) codes.simps) simp
    with dec show ?thesis by simp
  next
    case 3
    with \<open>codes s l d = Inr (0, s')\<close> d v obtain s2 where
      e: "codes_match s1 d (nat (v - 257)) = Inr (0, s2)" "codes s2 l d = Inr (0, s')"
      by (subst (asm) codes.simps) (auto simp: ebind_Inr_iff split: if_splits)
    with "1.IH"(2) [OF d refl _ _ _ e(1) refl] 3 v dec show ?thesis
      by (auto dest: codes_match_bits_left)
  qed
qed

lemma fixed_bits_left: "fixed s = Inr (0, s') \<Longrightarrow> bits_left s' \<le> bits_left s"
  by (auto simp: fixed_def ebind_Inr_iff codes_bits_left)

lemma read_lenlens_bits_left:
  "read_lenlens s lengths is = Inr (ls, s') \<Longrightarrow> bits_left s' \<le> bits_left s"
proof (induction "is" arbitrary: s lengths)
  case (Cons i "is")
  then obtain v s1 where b: "bits s 3 = Inr (v, s1)"
    and rec: "read_lenlens s1 (lengths[order ! i := v]) is = Inr (ls, s')"
    by (auto simp: ebind_Inr_iff)
  from Cons.IH [OF rec] bits_bits_left [OF b] show ?case by simp
qed simp

lemma read_lengths_bits_left:
  "read_lengths s h ls i n = Inr ((0, ls'), s') \<Longrightarrow> bits_left s' \<le> bits_left s"
proof (induction s h ls i n rule: read_lengths.induct)
  case (1 s h ls i n)
  show ?case
  proof (cases "i < n")
    case False
    with "1.prems" show ?thesis by (subst (asm) read_lengths.simps) simp
  next
    case True
    with "1.prems" obtain v s1 where d: "decode s h = Inr (v, s1)" and v: "0 \<le> v"
      by (subst (asm) read_lengths.simps) (auto simp: ebind_Inr_iff split: if_splits)
    note dec = decode_bits_left [OF d v]
    show ?thesis
    proof (cases "v < 16")
      case v16: True
      with "1.prems" True d v obtain ls1 where
        a: "oob (aset ls i (nat v)) = Inr ls1" "read_lengths s1 h ls1 (i + 1) n = Inr ((0, ls'), s')"
        by (subst (asm) read_lengths.simps) (auto simp: ebind_Inr_iff)
      with "1.IH"(1) [OF True d refl _ _ a(1)] v v16 dec show ?thesis by simp
    next
      case v16: False
      with "1.prems" [unfolded read_lengths.simps [of s h ls i n]] True d v obtain r0 s2 where
        r0: "repeat_code s1 ls i v = Inr (r0, s2)"
        by (auto simp: ebind_Inr_iff)
      with "1.prems" [unfolded read_lengths.simps [of s h ls i n]] True d v v16
      obtain len m ls1 where r1: "r0 = Inr (len, m)" and m: "\<not> i + m > n"
        and f: "fill_lengths ls i len m = Inr ls1"
        and rec: "read_lengths s2 h ls1 (i + m) n = Inr ((0, ls'), s')"
        by (cases r0) (auto simp: ebind_Inr_iff dest!: repeat_code_Inl_neg split: if_splits)
      note r = r0 [unfolded r1]
      have "bits_left s' \<le> bits_left s2"
        using "1.IH"(2) [OF True d refl _ _ r refl refl refl m f rec] v v16 by simp
      with repeat_code_bits_left [OF r] dec show ?thesis by simp
    qed
  qed
qed

lemma dynamic_bits_left:
  assumes "dynamic s = Inr (0, s')"
  shows "bits_left s' \<le> bits_left s"
proof -
  from assms obtain v1 s1 v2 s2 v3 s3 ls s4 h ls4 i n ls5 s5 l d where
    "bits s 5 = Inr (v1, s1)" "bits s1 5 = Inr (v2, s2)" "bits s2 4 = Inr (v3, s3)"
    "read_lenlens s3 (replicate MAXCODES 0) [0..<v3 + 4] = Inr (ls, s4)"
    "read_lengths s4 h ls4 i n = Inr ((0, ls5), s5)" "codes s5 l d = Inr (0, s')"
    by (auto simp: dynamic_def dynamic_lengths_def dynamic_codes_def ebind_Inr_iff Let_def split: if_splits)
  then show ?thesis
    by (auto dest!: bits_bits_left read_lenlens_bits_left read_lengths_bits_left codes_bits_left)
qed

lemma block_bits_left: "block s type = Inr (0, s') \<Longrightarrow> bits_left s' \<le> bits_left s"
  by (auto simp: block_def split: if_splits
      intro: stored_bits_left fixed_bits_left dynamic_bits_left)

section \<open>The inflater\<close>

function puff_blocks :: "pstate \<Rightarrow> fault + int \<times> pstate" where
  "puff_blocks s =
     ebind (bits s 1) (\<lambda>(last, s). ebind (bits s 2) (\<lambda>(type, s).
     ebind (block s type) (\<lambda>(err, s).
       if err \<noteq> 0 then Inr (err, s)
       else if last \<noteq> 0 then Inr (0, s)
       else puff_blocks s)))"
  by pat_completeness auto
termination
  by (relation "measure bits_left") (auto dest!: bits_bits_left block_bits_left)

declare puff_blocks.simps [simp del]

definition puff_init :: "byte list option \<Rightarrow> nat \<Rightarrow> byte list \<Rightarrow> nat \<Rightarrow> pstate" where
  "puff_init dest destlen source sourcelen =
     \<lparr>pout = dest, poutlen = destlen, poutcnt = 0, pin = source, pinlen = sourcelen,
      pincnt = 0, pbitbuf = 0, pbitcnt = 0\<rparr>"

text \<open>
  The result is the return value, the destination buffer and the new values of
  \<open>*destlen\<close> and \<open>*sourcelen\<close>; \<open>None\<close> is an access outside of an array.
\<close>

definition puff ::
  "byte list option \<Rightarrow> nat \<Rightarrow> byte list \<Rightarrow> nat \<Rightarrow> (int \<times> byte list option \<times> nat \<times> nat) option" where
  "puff dest destlen source sourcelen =
     (case puff_blocks (puff_init dest destlen source sourcelen) of
        Inl Oob \<Rightarrow> None
      | Inl (Longjmp s) \<Rightarrow> Some (2, pout s, destlen, sourcelen)
      | Inr (err, s) \<Rightarrow>
          if err \<le> 0 then Some (err, pout s, poutcnt s, pincnt s)
          else Some (err, pout s, destlen, sourcelen))"

end
