(* ===== verification/Canonical_Code.thy ===== *)
theory Canonical_Code
  imports Zlib_Prelude "HOL-Library.Sublist"
begin

text \<open>
  The canonical Huffman codes of the DEFLATE format, as a specification. A code is given by
  the list of its code lengths, 0 for a symbol that does not occur. Codes of one length are
  consecutive numbers in symbol order, and the first code of a length follows the last code
  of the length before. Codes are written most significant bit first.
\<close>

section \<open>Codes from lengths\<close>

fun first_code :: "(nat \<Rightarrow> nat) \<Rightarrow> nat \<Rightarrow> nat" where
  "first_code cnt 0 = 0"
| "first_code cnt (Suc l) = 2 * (first_code cnt l + (if l = 0 then 0 else cnt l))"

fun first_index :: "(nat \<Rightarrow> nat) \<Rightarrow> nat \<Rightarrow> nat" where
  "first_index cnt 0 = 0"
| "first_index cnt (Suc l) = first_index cnt l + (if l = 0 then 0 else cnt l)"

definition rank :: "nat list \<Rightarrow> nat \<Rightarrow> nat" where
  "rank lens k = count_list (take k lens) (lens ! k)"

definition canon_code :: "nat list \<Rightarrow> nat \<Rightarrow> nat" where
  "canon_code lens k = first_code (count_list lens) (lens ! k) + rank lens k"

definition canon_index :: "nat list \<Rightarrow> nat \<Rightarrow> nat" where
  "canon_index lens k = first_index (count_list lens) (lens ! k) + rank lens k"

definition msb_bits :: "nat \<Rightarrow> nat \<Rightarrow> bitstring" where
  "msb_bits n v = rev (nat_bits n v)"

definition canon_bits :: "nat list \<Rightarrow> nat \<Rightarrow> bitstring" where
  "canon_bits lens k = msb_bits (lens ! k) (canon_code lens k)"

text \<open>No length has more codes than are left: the set of lengths is not over-subscribed.\<close>

definition fits :: "(nat \<Rightarrow> nat) \<Rightarrow> nat \<Rightarrow> bool" where
  "fits cnt m \<longleftrightarrow> (\<forall>l. 1 \<le> l \<and> l \<le> m \<longrightarrow> first_code cnt l + cnt l \<le> 2 ^ l)"

lemma fits_code [code]: "fits cnt m \<longleftrightarrow> list_all (\<lambda>l. first_code cnt l + cnt l \<le> 2 ^ l) [1..<Suc m]"
  by (auto simp: fits_def list_all_iff)

section \<open>Facts about the numbering\<close>

lemma rank_less_count: "k < length lens \<Longrightarrow> rank lens k < count_list lens (lens ! k)"
proof -
  assume k: "k < length lens"
  have "count_list lens (lens ! k) =
      count_list (take k lens) (lens ! k) + count_list (lens ! k # drop (Suc k) lens) (lens ! k)"
    using k by (metis append_take_drop_id count_list_append Cons_nth_drop_Suc)
  then show ?thesis by (simp add: rank_def)
qed

lemma count_list_take_mono: "j \<le> k \<Longrightarrow> count_list (take j xs) x \<le> count_list (take k xs) x"
  by (metis count_list_append le_add1 min.absorb1 take_add take_take le_Suc_ex)

lemma rank_strict_mono:
  assumes "j < k" "k < length lens" "lens ! j = lens ! k"
  shows "rank lens j < rank lens k"
proof -
  have "count_list (take (Suc j) lens) (lens ! j) = Suc (rank lens j)"
    using assms by (simp add: rank_def take_Suc_conv_app_nth)
  moreover have "count_list (take (Suc j) lens) (lens ! j) \<le> count_list (take k lens) (lens ! j)"
    using assms by (intro count_list_take_mono) simp
  ultimately show ?thesis using assms(3) by (simp add: rank_def)
qed

lemma first_code_gap:
  assumes "1 \<le> l" "l < m"
  shows "(first_code cnt l + cnt l) * 2 ^ (m - l) \<le> first_code cnt m"
  using assms(2)
proof (induction m)
  case (Suc m)
  show ?case
  proof (cases "l = m")
    case False
    with Suc have "(first_code cnt l + cnt l) * 2 ^ (m - l) \<le> first_code cnt m" by simp
    with False Suc.prems show ?thesis by (simp add: Suc_diff_le)
  qed (use assms(1) in simp)
qed simp

lemma first_index_mono: "1 \<le> l \<Longrightarrow> l < m \<Longrightarrow> first_index cnt l + cnt l \<le> first_index cnt m"
proof (induction m)
  case (Suc m)
  then show ?case by (cases "l = m") auto
qed simp

lemma canon_code_bounds:
  assumes "k < length lens"
  shows "first_code (count_list lens) (lens ! k) \<le> canon_code lens k"
    and "canon_code lens k < first_code (count_list lens) (lens ! k) + count_list lens (lens ! k)"
  using rank_less_count [OF assms] by (simp_all add: canon_code_def)

lemma canon_code_fits:
  assumes "fits (count_list lens) m" "k < length lens" "1 \<le> lens ! k" "lens ! k \<le> m"
  shows "canon_code lens k < 2 ^ (lens ! k)"
  using assms canon_code_bounds(2) [of k lens] by (force simp: fits_def)

text \<open>The first \<open>l\<close> bits of a longer code exceed every code of length \<open>l\<close>.\<close>

lemma canon_code_prefix:
  assumes "k < length lens" "1 \<le> l" "l < lens ! k"
  shows "first_code (count_list lens) l + count_list lens l \<le> canon_code lens k div 2 ^ (lens ! k - l)"
proof -
  have "(first_code (count_list lens) l + count_list lens l) * 2 ^ (lens ! k - l) \<le> canon_code lens k"
    using first_code_gap [OF assms(2,3)] canon_code_bounds(1) [OF assms(1)] by (meson le_trans)
  then show ?thesis by (simp add: less_eq_div_iff_mult_less_eq)
qed

lemma canon_index_inj:
  assumes "j < length lens" "k < length lens" "lens ! j \<noteq> 0" "lens ! k \<noteq> 0"
    and "canon_index lens j = canon_index lens k"
  shows "j = k"
proof (rule ccontr)
  assume "j \<noteq> k"
  have *: False if "a < length lens" "b < length lens" "lens ! a \<noteq> 0" "lens ! a < lens ! b"
    "canon_index lens a = canon_index lens b" for a b
    using that rank_less_count [of a lens] first_index_mono [of "lens ! a" "lens ! b" "count_list lens"]
    by (simp add: canon_index_def)
  consider "lens ! j < lens ! k" | "lens ! k < lens ! j" | "lens ! j = lens ! k" by linarith
  then show False
  proof cases
    case 3
    with assms(5) have "rank lens j = rank lens k" by (simp add: canon_index_def)
    with \<open>j \<noteq> k\<close> 3 assms(1,2) show False
      using rank_strict_mono [of j k lens] rank_strict_mono [of k j lens] by (cases "j < k") auto
  qed (use assms * in metis)+
qed

section \<open>Code words\<close>

lemma length_msb_bits [simp]: "length (msb_bits n v) = n"
  by (simp add: msb_bits_def)

lemma msb_bits_Suc: "msb_bits (Suc n) v = msb_bits n (v div 2) @ [odd v]"
  by (simp add: msb_bits_def nat_bits_Suc)

lemma take_msb_bits: "m \<le> n \<Longrightarrow> take m (msb_bits n v) = msb_bits m (v div 2 ^ (n - m))"
  by (simp add: msb_bits_def take_rev drop_bit_eq_div)

lemma msb_bits_inject: "v < 2 ^ n \<Longrightarrow> w < 2 ^ n \<Longrightarrow> msb_bits n v = msb_bits n w \<longleftrightarrow> v = w"
  by (metis bits_nat_nat_bits msb_bits_def rev_rev_ident take_bit_nat_eq_self)

lemma canon_bits_prefix_free:
  assumes fits: "fits (count_list lens) m" "\<forall>l \<in> set lens. l \<le> m"
    and jk: "j < length lens" "k < length lens" "lens ! j \<noteq> 0" "lens ! k \<noteq> 0"
    and pre: "prefix (canon_bits lens j) (canon_bits lens k)"
  shows "j = k"
proof -
  let ?n = "lens ! j" and ?m = "lens ! k"
  have len: "?n \<le> ?m" using prefix_length_le [OF pre] by (simp add: canon_bits_def)
  have bounds: "canon_code lens j < 2 ^ ?n" "canon_code lens k < 2 ^ ?m"
    using fits jk by (auto intro!: canon_code_fits simp: Suc_le_eq)
  have "msb_bits ?n (canon_code lens j) = take ?n (canon_bits lens k)"
    using pre by (auto simp: canon_bits_def prefix_def)
  also have "\<dots> = msb_bits ?n (canon_code lens k div 2 ^ (?m - ?n))"
    using len by (simp add: canon_bits_def take_msb_bits)
  finally have eq: "canon_code lens j = canon_code lens k div 2 ^ (?m - ?n)"
    using bounds len by (subst (asm) msb_bits_inject)
      (auto simp: less_mult_imp_div_less power_add [symmetric])
  show ?thesis
  proof (cases "?n = ?m")
    case True
    have "canon_code lens j = canon_code lens k" using eq by (simp add: True)
    then have "canon_index lens j = canon_index lens k"
      by (simp add: True canon_code_def canon_index_def)
    with jk show ?thesis by (metis canon_index_inj)
  next
    case False
    with len jk have "first_code (count_list lens) ?n + count_list lens ?n \<le> canon_code lens j"
      unfolding eq by (intro canon_code_prefix) auto
    with canon_code_bounds(2) [OF jk(1)] show ?thesis by linarith
  qed
qed

end
