(* ===== verification/Puff_Reader.thy ===== *)
theory Puff_Reader
  imports Puff Bit_Stream Canonical_Code
begin

text \<open>
  The input side of \<open>puff.c\<close> as a bit source: \<open>bits\<close> delivers the bits of the remaining
  bytes in order, and both versions of \<open>decode\<close> refine one scan of the bit string.
\<close>

section \<open>The bits that are left\<close>

definition unread :: "pstate \<Rightarrow> byte list" where
  "unread s = drop (pincnt s) (take (pinlen s) (pin s))"

definition buffered :: "pstate \<Rightarrow> nat \<Rightarrow> bitstring" where
  "buffered s val = nat_bits (pbitcnt s) val @ bytes_bits (unread s)"

definition rest :: "pstate \<Rightarrow> bitstring" where
  "rest s = buffered s (pbitbuf s)"

definition wf_in :: "pstate \<Rightarrow> bool" where
  "wf_in s \<longleftrightarrow> pincnt s \<le> pinlen s \<and> pinlen s \<le> length (pin s)"

definition wf_puff :: "pstate \<Rightarrow> bool" where
  "wf_puff s \<longleftrightarrow> wf_in s \<and> pbitcnt s < 8 \<and> pbitbuf s < 2 ^ pbitcnt s"

definition pframe :: "pstate \<Rightarrow> byte list option \<times> nat \<times> nat \<times> byte list \<times> nat" where
  "pframe s = (pout s, poutlen s, poutcnt s, pin s, pinlen s)"

lemma length_unread: "wf_in s \<Longrightarrow> length (unread s) = pinlen s - pincnt s"
  by (simp add: unread_def wf_in_def)

lemma length_rest: "wf_in s \<Longrightarrow> length (rest s) = pbitcnt s + 8 * (pinlen s - pincnt s)"
  by (simp add: rest_def buffered_def length_unread)

lemma unread_Cons:
  assumes "wf_in s" "pincnt s \<noteq> pinlen s"
  shows "next_byte s = Inr (pin s ! pincnt s, s\<lparr>pincnt := pincnt s + 1\<rparr>)"
    and "unread s = pin s ! pincnt s # unread (s\<lparr>pincnt := pincnt s + 1\<rparr>)"
  using assms by (auto simp: next_byte_def aget_def wf_in_def unread_def Cons_nth_drop_Suc [symmetric])

text \<open>Input position, bit buffer and the bits left determine each other.\<close>

lemma pstate_eqI:
  assumes wf: "wf_puff s" "wf_puff t" and "pframe s = pframe t" "rest s = rest t"
  shows "s = t"
proof -
  have fr: "pout s = pout t" "poutlen s = poutlen t" "poutcnt s = poutcnt t" "pin s = pin t"
    "pinlen s = pinlen t"
    using assms(3) by (auto simp: pframe_def)
  have "pbitcnt s + 8 * (pinlen s - pincnt s) = pbitcnt t + 8 * (pinlen t - pincnt t)"
    using wf assms(4) length_rest [of s] length_rest [of t] by (simp add: wf_puff_def)
  moreover have "pbitcnt s < 8" "pbitcnt t < 8" using wf by (auto simp: wf_puff_def)
  ultimately have cnt: "pbitcnt s = pbitcnt t" and "pinlen s - pincnt s = pinlen t - pincnt t"
    using bit_position_unique by blast+
  then have "pincnt s = pincnt t" using wf fr by (auto simp: wf_puff_def wf_in_def)
  moreover have "bits_nat (take (pbitcnt s) (rest s)) = bits_nat (take (pbitcnt t) (rest t))"
    using cnt assms(4) by simp
  then have "pbitbuf s = pbitbuf t"
    using wf by (simp add: rest_def buffered_def wf_puff_def take_bit_nat_eq_self)
  ultimately show ?thesis using fr cnt by (cases s, cases t) simp
qed

section \<open>\<open>bits\<close> is a bit source\<close>

lemma bits_load_enough:
  assumes "wf_in s" "val < 2 ^ pbitcnt s" "need \<le> length (buffered s val)"
  shows "\<exists>v s'. bits_load s val need = Inr (v, s') \<and> wf_in s' \<and> v < 2 ^ pbitcnt s' \<and>
    buffered s' v = buffered s val \<and> need \<le> pbitcnt s' \<and>
    pbitcnt s' \<le> max (pbitcnt s) (need + 7) \<and> pframe s' = pframe s"
  using assms
proof (induction s val need rule: bits_load.induct)
  case (1 s val need)
  show ?case
  proof (cases "pbitcnt s < need")
    case True
    with "1.prems" have ne: "pincnt s \<noteq> pinlen s"
      by (auto simp: buffered_def length_unread)
    note nb = unread_Cons [OF "1.prems"(1) ne]
    let ?s = "s\<lparr>pincnt := pincnt s + 1, pbitcnt := pbitcnt s + 8\<rparr>"
    let ?b = "pin s ! pincnt s" and ?v = "val OR push_bit (pbitcnt s) (unat (pin s ! pincnt s))"
    have b: "unat ?b < 2 ^ 8" using unat_byte_bound [of ?b] by simp
    have wf: "wf_in ?s" using "1.prems"(1) ne by (auto simp: wf_in_def)
    have v: "?v < 2 ^ pbitcnt ?s"
      using or_push_bound [OF "1.prems"(2) b] by simp
    have eq: "buffered ?s ?v = buffered s val"
      using nat_bits_or_push [OF "1.prems"(2), of 8 "unat ?b"] nb(2)
      by (simp add: buffered_def byte_bits_def unread_def)
    from "1.IH" [OF True ne nb(1) refl] wf v eq "1.prems"(3)
    obtain v' s' where IH: "bits_load ?s ?v need = Inr (v', s')" "wf_in s'" "v' < 2 ^ pbitcnt s'"
      "buffered s' v' = buffered s val" "need \<le> pbitcnt s'"
      "pbitcnt s' \<le> max (pbitcnt ?s) (need + 7)" "pframe s' = pframe ?s"
      by auto
    have "bits_load s val need = bits_load ?s ?v need"
      using True ne nb(1) by (subst bits_load.simps) simp
    with IH True show ?thesis by (auto simp: pframe_def)
  next
    case False
    then have "bits_load s val need = Inr (val, s)" by (subst bits_load.simps) simp
    with "1.prems" False show ?thesis by auto
  qed
qed

lemma bits_load_short:
  assumes "wf_in s" "length (buffered s val) < need"
  shows "\<exists>s'. bits_load s val need = Inl (Longjmp s') \<and> pframe s' = pframe s"
  using assms
proof (induction s val need rule: bits_load.induct)
  case (1 s val need)
  then have short: "pbitcnt s < need" by (simp add: buffered_def)
  show ?case
  proof (cases "pincnt s = pinlen s")
    case True
    with short show ?thesis by (subst bits_load.simps) simp
  next
    case False
    note nb = unread_Cons [OF "1.prems"(1) False]
    have "bits_load s val need = bits_load (s\<lparr>pincnt := pincnt s + 1, pbitcnt := pbitcnt s + 8\<rparr>)
        (val OR push_bit (pbitcnt s) (unat (pin s ! pincnt s))) need"
      using short False nb(1) by (subst bits_load.simps) simp
    with "1.IH" [OF short False nb(1) refl] "1.prems" False show ?thesis
      by (auto simp: wf_in_def buffered_def unread_def pframe_def)
  qed
qed

lemma bits_enough:
  assumes "wf_puff s" "need \<le> length (rest s)"
  shows "\<exists>s'. bits s need = Inr (bits_nat (take need (rest s)), s') \<and>
    rest s' = drop need (rest s) \<and> pframe s' = pframe s \<and> wf_puff s'"
proof -
  from assms obtain v s1 where b: "bits_load s (pbitbuf s) need = Inr (v, s1)" "wf_in s1"
    "v < 2 ^ pbitcnt s1" "buffered s1 v = rest s" "need \<le> pbitcnt s1"
    "pbitcnt s1 \<le> max (pbitcnt s) (need + 7)" "pframe s1 = pframe s"
    using bits_load_enough [of s "pbitbuf s" need] by (auto simp: wf_puff_def rest_def)
  let ?s = "s1\<lparr>pbitbuf := drop_bit need v, pbitcnt := pbitcnt s1 - need\<rparr>"
  have "bits s need = Inr (bits_nat (take need (rest s)), ?s)"
    using b(1,5) by (simp only: bits_def b(4) [symmetric] buffered_def and_low_mask) simp
  moreover have "rest ?s = drop need (buffered s1 v)"
    using b(5) by (simp add: rest_def buffered_def unread_def)
  then have "rest ?s = drop need (rest s)" by (simp only: b(4))
  moreover have "wf_puff ?s"
    using b(2,3,5,6) assms(1)
    by (auto simp: wf_puff_def wf_in_def drop_bit_eq_div less_mult_imp_div_less power_add [symmetric])
  ultimately show ?thesis using b(7) by (auto simp: pframe_def)
qed

lemma bits_short:
  assumes "wf_puff s" "length (rest s) < need"
  shows "\<exists>s'. bits s need = Inl (Longjmp s') \<and> pframe s' = pframe s"
  using assms bits_load_short [of s "pbitbuf s" need] by (auto simp: bits_def wf_puff_def rest_def)

interpretation puff_bits: bit_source bits rest pframe wf_puff
  using bits_enough bits_short by unfold_locales blast+

section \<open>One scan behind both decoders\<close>

datatype scan = Hit int nat | Exhausted | Short

fun canon_scan :: "nat list \<Rightarrow> nat \<Rightarrow> nat \<Rightarrow> int \<Rightarrow> int \<Rightarrow> int \<Rightarrow> bitstring \<Rightarrow> scan" where
  "canon_scan cnt 0 len code first index bs = Exhausted"
| "canon_scan cnt (Suc n) len code first index [] = Short"
| "canon_scan cnt (Suc n) len code first index (b # bs) =
     (if code + of_bool b - int (cnt ! len) < first
      then Hit (index + (code + of_bool b - first)) len
      else canon_scan cnt n (len + 1) (2 * (code + of_bool b)) (2 * (first + int (cnt ! len)))
             (index + int (cnt ! len)) bs)"

text \<open>
  What a decoder must return for the outcome of the scan. Bytes read are counted too:
  \<open>puff\<close> reports the input position when it gives up on a code.
\<close>

definition scan_result :: "huffman \<Rightarrow> pstate \<Rightarrow> nat \<Rightarrow> bitstring \<Rightarrow> scan \<Rightarrow> fault + int \<times> pstate \<Rightarrow> bool" where
  "scan_result h s len stream r out = (case r of
      Hit i l \<Rightarrow> \<exists>s'. out = huffman_symbol h i s' \<and> wf_puff s' \<and> pframe s' = pframe s \<and>
        rest s' = drop (l + 1 - len) stream
    | Exhausted \<Rightarrow> \<exists>s'. out = Inr (- 10, s') \<and> wf_puff s' \<and> pframe s' = pframe s \<and>
        length (unread s') = (length stream - (16 - len)) div 8
    | Short \<Rightarrow> \<exists>s'. out = Inl (Longjmp s') \<and> pframe s' = pframe s)"

lemma or_of_bool_even: "even a \<Longrightarrow> a OR of_bool b = a + (of_bool b :: int)"
  by (cases b) (auto simp: or_one_eq)

lemma canon_scan_Hit_len:
  "canon_scan cnt n len code first index bs = Hit i l \<Longrightarrow> len \<le> l \<and> l < len + n \<and> l < len + length bs"
proof (induction cnt n len code first index bs rule: canon_scan.induct)
  case (3 cnt n len code first index b bs)
  then show ?case by (auto split: if_splits)
qed auto

lemma scan_result_Cons:
  assumes "scan_result h s1 (len + 1) bs r out" "pframe s1 = pframe s" "len \<le> MAXBITS"
    and "\<And>i l. r = Hit i l \<Longrightarrow> len + 1 \<le> l"
  shows "scan_result h s len (b # bs) r out"
proof (cases r)
  case (Hit i l)
  with assms(4) have "l + 1 - len = Suc (l - len)" by (simp add: Suc_diff_le)
  with assms Hit show ?thesis by (simp add: scan_result_def)
next
  case Exhausted
  from assms(3) have "16 - len = Suc (15 - len)" by (simp add: MAXBITS_def)
  with assms Exhausted show ?thesis by (simp add: scan_result_def)
qed (use assms in \<open>simp add: scan_result_def\<close>)

lemma scan_result_append:
  assumes "scan_result h s1 (len + length xs) bs r out" "pframe s1 = pframe s" "len + length xs \<le> 16"
    and "\<And>i l. r = Hit i l \<Longrightarrow> len + length xs \<le> l"
  shows "scan_result h s len (xs @ bs) r out"
  using assms
proof (induction xs arbitrary: len)
  case Nil
  then show ?case by (auto simp: scan_result_def split: scan.splits)
next
  case (Cons x xs)
  have "scan_result h s (len + 1) (xs @ bs) r out"
    using Cons.prems by (intro Cons.IH) (auto simp: add.commute add.left_commute)
  then show ?case using Cons.prems
    by (auto intro!: scan_result_Cons simp: MAXBITS_def)
qed

lemma decode_slow_loop_refines:
  assumes "wf_puff s" "length (hcount h) = 16" "even code" "len + n = 16"
  shows "scan_result h s len (rest s) (canon_scan (hcount h) n len code first index (rest s))
    (decode_slow_loop s h len code first index)"
  using assms
proof (induction n arbitrary: s len code first index)
  case 0
  then have "decode_slow_loop s h len code first index = Inr (- 10, s)"
    by (subst decode_slow_loop.simps) (simp add: MAXBITS_def)
  moreover have "length (rest s) div 8 = length (unread s)"
    using 0(1) by (simp add: rest_def buffered_def wf_puff_def)
  ultimately show ?case using 0 by (auto simp: scan_result_def)
next
  case (Suc n)
  from Suc.prems have len: "len \<le> MAXBITS" "len < length (hcount h)" by (auto simp: MAXBITS_def)
  show ?case
  proof (cases "rest s")
    case Nil
    with bits_short [OF Suc.prems(1), of 1] obtain s' where
      "bits s 1 = Inl (Longjmp s')" "pframe s' = pframe s" by auto
    with len Nil show ?thesis
      by (subst decode_slow_loop.simps) (auto simp: scan_result_def)
  next
    case (Cons b bs)
    obtain s1 where s1: "bits s 1 = Inr (of_bool b, s1)" "rest s1 = bs" "pframe s1 = pframe s" "wf_puff s1"
      using puff_bits.get_one [OF Suc.prems(1) Cons] by blast
    let ?c = "code + of_bool b" and ?n = "int (hcount h ! len)"
    show ?thesis
    proof (cases "?c - ?n < first")
      case True
      with len s1 Cons Suc.prems(3) show ?thesis
        by (subst decode_slow_loop.simps)
          (auto simp: scan_result_def aget_def or_of_bool_even simp del: of_bool_eq_iff)
    next
      case False
      have step: "decode_slow_loop s h len code first index =
          decode_slow_loop s1 h (len + 1) (2 * ?c) (2 * (first + ?n)) (index + ?n)"
        using len s1 False Suc.prems(3)
        by (subst decode_slow_loop.simps) (simp add: aget_def or_of_bool_even push_bit_eq_mult algebra_simps)
      have "scan_result h s1 (len + 1) bs
          (canon_scan (hcount h) n (len + 1) (2 * ?c) (2 * (first + ?n)) (index + ?n) bs)
          (decode_slow_loop s1 h (len + 1) (2 * ?c) (2 * (first + ?n)) (index + ?n))"
        using Suc.IH [OF s1(4) Suc.prems(2), of "2 * ?c" "len + 1"] Suc.prems(4) s1(2) by simp
      then have "scan_result h s len (b # bs)
          (canon_scan (hcount h) n (len + 1) (2 * ?c) (2 * (first + ?n)) (index + ?n) bs)
          (decode_slow_loop s1 h (len + 1) (2 * ?c) (2 * (first + ?n)) (index + ?n))"
        using s1(3) len(1) by (rule scan_result_Cons) (auto simp: MAXBITS_def dest: canon_scan_Hit_len)
      then show ?thesis using False by (simp only: Cons step canon_scan.simps if_False)
    qed
  qed
qed

subsection \<open>The fast decoder\<close>

lemma decode_bits_refines:
  assumes "length (hcount h) = 16" "even code" "len + n = 16" "left \<le> n"
  shows "(\<exists>i l. decode_bits h left bb code first index len = Inr (Found i (drop_bit (l + 1 - len) bb) l) \<and>
        len \<le> l \<and> l < len + left \<and>
        (\<forall>bs. canon_scan (hcount h) n len code first index (nat_bits left bb @ bs) = Hit i l)) \<or>
    (\<exists>c f ix. decode_bits h left bb code first index len = Inr (More c f ix (len + left)) \<and> even c \<and>
        (\<forall>bs. canon_scan (hcount h) n len code first index (nat_bits left bb @ bs) =
           canon_scan (hcount h) (n - left) (len + left) c f ix bs))"
  using assms
proof (induction left arbitrary: n bb code first index len)
  case 0
  then show ?case by simp
next
  case (Suc left)
  from Suc.prems obtain m where n: "n = Suc m" by (cases n) auto
  let ?c = "code + of_bool (odd bb)" and ?n = "int (hcount h ! len)"
  have get: "aget (hcount h) len = Some (hcount h ! len)"
    using Suc.prems n by (simp add: aget_def)
  have or: "code OR int (bb AND 1) = ?c"
    using Suc.prems(2) by (cases "odd bb") (simp_all add: or_one_eq and_one_eq mod2_eq_if)
  show ?case
  proof (cases "?c - ?n < first")
    case True
    then show ?thesis using get or n
      by (intro disjI1 exI [of _ "index + (?c - first)"] exI [of _ len])
        (simp add: Let_def nat_bits_Suc)
  next
    case False
    have step: "decode_bits h (Suc left) bb code first index len =
        decode_bits h left (drop_bit 1 bb) (2 * ?c) (2 * (first + ?n)) (index + ?n) (len + 1)"
      using get or False by (simp add: Let_def push_bit_eq_mult algebra_simps)
    have scan: "canon_scan (hcount h) n len code first index (nat_bits (Suc left) bb @ bs) =
        canon_scan (hcount h) m (len + 1) (2 * ?c) (2 * (first + ?n)) (index + ?n)
          (nat_bits left (drop_bit 1 bb) @ bs)" for bs
      using False by (simp add: n nat_bits_Suc drop_bit_Suc)
    have db: "drop_bit (l + 1 - (len + 1)) (drop_bit 1 bb) = drop_bit (l + 1 - len) bb" if "len + 1 \<le> l" for l
      using that by (simp add: drop_bit_drop_bit Suc_diff_le)
    have "len + 1 + m = 16" "left \<le> m" "even (2 * ?c)" using Suc.prems n by auto
    from Suc.IH [OF Suc.prems(1) this(3,1,2), of "drop_bit 1 bb" "2 * (first + ?n)" "index + ?n"]
    show ?thesis unfolding step scan
    proof (elim disjE exE conjE, goal_cases)
      case (1 i l)
      then show ?case using db [of l] by (intro disjI1 exI [of _ i] exI [of _ l]) auto
    next
      case (2 c f ix)
      then show ?case using n by (intro disjI2 exI [of _ c] exI [of _ f] exI [of _ ix]) auto
    qed
  qed
qed

lemma bitcnt_after_mod:
  assumes "(int c - int (len - 1) - int avail) mod 8 = 0" "avail \<le> 8" "1 \<le> len" "len \<le> l" "l < len + avail"
  shows "bitcnt_after c l = avail - (l + 1 - len)"
proof -
  define d where "d = avail - (l + 1 - len)"
  have d: "d < 8" "int c - int l = (int c - int (len - 1) - int avail) + int d"
    using assms by (auto simp: d_def of_nat_diff)
  have "(int c - int l) mod 8 = int d mod 8"
    unfolding d(2) using assms(1) by (metis add_0 mod_add_left_eq)
  then have "bitcnt_after c l = d" using d(1) by (simp add: bitcnt_after_eq)
  then show ?thesis by (simp only: d_def)
qed

text \<open>
  A pass of the loop starts with \<open>avail\<close> bits in the local bit buffer, of which at most
  \<open>left\<close> are used: in the first pass the buffered bits, later a fresh byte.
\<close>

lemma decode_loop_refines:
  assumes "wf_puff s" "length (hcount h) = 16" "even code" "1 \<le> len" "len < 16"
    and "avail \<le> 8" "bb < 2 ^ avail" "left = min (16 - len) avail"
    and "(int (pbitcnt s) - int (len - 1) - int avail) mod 8 = 0"
  shows "scan_result h s len (nat_bits avail bb @ bytes_bits (unread s))
    (canon_scan (hcount h) (16 - len) len code first index (nat_bits avail bb @ bytes_bits (unread s)))
    (decode_loop s h left bb code first index len)"
  using assms
proof (induction "length (unread s)" arbitrary: s code first index len avail bb left rule: less_induct)
  case less
  let ?n = "16 - len"
  let ?str = "nat_bits avail bb @ bytes_bits (unread s)"
  have str: "?str = nat_bits left bb @ (nat_bits (avail - left) (drop_bit left bb) @ bytes_bits (unread s))"
    using less.prems(8) nat_bits_add [of left "avail - left" bb] by simp
  have "len + ?n = 16" "left \<le> ?n" using less.prems by auto
  from decode_bits_refines [OF less.prems(2,3) this, of bb first index]
  consider (found) i l where
      "decode_bits h left bb code first index len = Inr (Found i (drop_bit (l + 1 - len) bb) l)"
      "len \<le> l" "l < len + left" "canon_scan (hcount h) ?n len code first index ?str = Hit i l"
    | (more) c f ix where
      "decode_bits h left bb code first index len = Inr (More c f ix (len + left))" "even c"
      "canon_scan (hcount h) ?n len code first index ?str =
         canon_scan (hcount h) (?n - left) (len + left) c f ix
           (nat_bits (avail - left) (drop_bit left bb) @ bytes_bits (unread s))"
    unfolding str by blast
  then show ?case
  proof cases
    case found
    let ?u = "l + 1 - len"
    let ?s = "s\<lparr>pbitbuf := drop_bit ?u bb, pbitcnt := bitcnt_after (pbitcnt s) l\<rparr>"
    have u: "?u \<le> avail" "l < len + avail" using found less.prems(8) by auto
    have cnt: "pbitcnt ?s = avail - ?u"
      using bitcnt_after_mod [OF less.prems(9,6,4) found(2) u(2)] by simp
    have "rest ?s = drop ?u ?str"
      using u(1) by (simp only: rest_def buffered_def cnt) (simp add: unread_def)
    moreover have "wf_puff ?s"
      using less.prems(1,6,7) u(1) bitcnt_after_bounds(1) [of "pbitcnt s" l] cnt
      by (auto simp: wf_puff_def wf_in_def drop_bit_eq_div less_mult_imp_div_less power_add [symmetric])
    ultimately show ?thesis using found
      by (subst decode_loop.simps) (auto simp: scan_result_def pframe_def)
  next
    case more
    show ?thesis
    proof (cases "left = ?n")
      case True
      with more(1) less.prems(5) have "decode_loop s h left bb code first index len = Inr (- 10, s)"
        by (subst decode_loop.simps) (simp add: MAXBITS_def)
      moreover have "(avail + 8 * length (unread s) - ?n) div 8 = length (unread s)"
        using True less.prems(5,6,8) by (simp add: div_nat_eqI)
      ultimately show ?thesis
        using more(3) True less.prems(1) by (simp add: scan_result_def)
    next
      case False
      with less.prems(8) have left: "left = avail" "avail < ?n" by auto
      note scan = more(3) [unfolded left(1), simplified]
      show ?thesis
      proof (cases "pincnt s = pinlen s")
        case True
        then have un: "unread s = []" by (simp add: unread_def)
        obtain m where m: "16 - (len + avail) = Suc m"
          using left(2) by (cases "16 - (len + avail)") auto
        have "decode_loop s h left bb code first index len = Inl (Longjmp s)"
          using more(1) left True by (subst decode_loop.simps) (simp add: MAXBITS_def)
        then show ?thesis using scan by (simp add: scan_result_def un m)
      next
        case False
        have wf: "wf_in s" using less.prems(1) by (simp add: wf_puff_def)
        note nb = unread_Cons [OF wf False]
        let ?b = "pin s ! pincnt s" and ?s = "s\<lparr>pincnt := pincnt s + 1\<rparr>"
        let ?left = "min (16 - (len + avail)) 8"
        have b: "unat ?b < 2 ^ 8" using unat_byte_bound [of ?b] by simp
        have step: "decode_loop s h left bb code first index len =
            decode_loop ?s h ?left (unat ?b) c f ix (len + avail)"
          using more(1) left False nb(1)
          by (subst decode_loop.simps) (auto simp add: MAXBITS_def)
        have "int (pbitcnt s) - int (len + avail - 1) = int (pbitcnt s) - int (len - 1) - int avail"
          using less.prems(4) by (simp add: of_nat_diff)
        with less.prems(9) have "(int (pbitcnt s) - int (len + avail - 1)) mod 8 = 0" by (simp only:)
        then have pos: "(int (pbitcnt ?s) - int (len + avail - 1) - int 8) mod 8 = 0"
          by simp
        have eqs: "bytes_bits (unread s) = nat_bits 8 (unat ?b) @ bytes_bits (unread ?s)"
          unfolding nb(2) by (simp add: byte_bits_def)
        have "scan_result h ?s (len + avail) (bytes_bits (unread s))
            (canon_scan (hcount h) (16 - (len + avail)) (len + avail) c f ix (bytes_bits (unread s)))
            (decode_loop ?s h ?left (unat ?b) c f ix (len + avail))"
          unfolding eqs using less.prems(1,2,4) more(2) left(2) nb(2) False b
          by (intro less.hyps [OF _ _ _ _ _ _ _ _ _ pos]) (auto simp: wf_puff_def wf_in_def)
        then have "scan_result h ?s (len + avail) (bytes_bits (unread s))
            (canon_scan (hcount h) (16 - len) len code first index ?str)
            (decode_loop s h left bb code first index len)"
          by (simp only: scan step)
        then show ?thesis using scan left(2)
          by (intro scan_result_append [of h ?s]) (auto simp: pframe_def dest: canon_scan_Hit_len [OF sym])
      qed
    qed
  qed
qed


section \<open>What a decoder promises\<close>

text \<open>
  The contract of \<open>decode\<close> for its callers \<open>codes\<close> and \<open>dynamic\<close>: the symbol that the
  canonical scan of the remaining bits finds, with exactly its bits taken.
\<close>

locale huffman_decoder =
  fixes dec :: "pstate \<Rightarrow> huffman \<Rightarrow> fault + int \<times> pstate"
  assumes dec_refines: "wf_puff s \<Longrightarrow> length (hcount h) = 16 \<Longrightarrow>
      scan_result h s 1 (rest s) (canon_scan (hcount h) 15 1 0 0 0 (rest s)) (dec s h)"
begin

lemma dec_hit:
  assumes "wf_puff s" "length (hcount h) = 16"
    and "canon_scan (hcount h) 15 1 0 0 0 (rest s) = Hit i l"
    and "0 \<le> i" "nat i < length (hsymbol h)"
  obtains s' where "dec s h = Inr (int (hsymbol h ! nat i), s')" "wf_puff s'" "pframe s' = pframe s"
    "rest s' = drop l (rest s)"
  using dec_refines [OF assms(1,2)] assms(3-) by (auto simp: scan_result_def huffman_symbol_def aget_def)

lemma dec_exhausted:
  assumes "wf_puff s" "length (hcount h) = 16"
    and "canon_scan (hcount h) 15 1 0 0 0 (rest s) = Exhausted"
  obtains s' where "dec s h = Inr (- 10, s')" "wf_puff s'" "pframe s' = pframe s"
    "length (unread s') = (length (rest s) - 15) div 8"
  using dec_refines [OF assms(1,2)] assms(3) by (auto simp: scan_result_def)

lemma dec_short:
  assumes "wf_puff s" "length (hcount h) = 16"
    and "canon_scan (hcount h) 15 1 0 0 0 (rest s) = Short"
  obtains s' where "dec s h = Inl (Longjmp s')" "pframe s' = pframe s"
  using dec_refines [OF assms(1,2)] assms(3) by (auto simp: scan_result_def)

end

interpretation slow: huffman_decoder decode_slow
  by unfold_locales (simp add: decode_slow_def decode_slow_loop_refines)

interpretation fast: huffman_decoder decode
proof
  fix s and h :: huffman assume wf: "wf_puff s" and "length (hcount h) = 16"
  moreover have "rest s = nat_bits (pbitcnt s) (pbitbuf s) @ bytes_bits (unread s)"
    by (simp add: rest_def buffered_def)
  ultimately show "scan_result h s 1 (rest s) (canon_scan (hcount h) 15 1 0 0 0 (rest s)) (decode s h)"
    using decode_loop_refines [of s h 0 1 "pbitcnt s" "pbitbuf s" "pbitcnt s" 0 0]
    by (simp add: decode_def wf_puff_def)
qed

lemma pincnt_unread:
  assumes "wf_in s" "wf_in t" "pframe s = pframe t" "length (unread s) = length (unread t)"
  shows "pincnt s = pincnt t"
  using assms by (auto simp: length_unread pframe_def wf_in_def)



end
