(* ===== verification/Puff_Tables.thy ===== *)
theory Puff_Tables
  imports Puff_Reader
begin

text \<open>
  \<open>construct\<close> of \<open>puff.c\<close> builds the decoding tables of the canonical code of the given
  lengths, and \<open>decode\<close> with these tables inverts the code.
\<close>

section \<open>Counting and sorting\<close>

definition lengths_ok :: "nat list \<Rightarrow> bool" where
  "lengths_ok lens \<longleftrightarrow> (\<forall>l \<in> set lens. l \<le> MAXBITS)"

definition counts :: "nat list \<Rightarrow> nat list" where
  "counts lens = map (count_list lens) [0..<MAXBITS + 1]"

definition table_for :: "huffman \<Rightarrow> nat list \<Rightarrow> bool" where
  "table_for h lens \<longleftrightarrow> hcount h = counts lens \<and>
     (\<forall>k < length lens. lens ! k \<noteq> 0 \<longrightarrow>
        canon_index lens k < length (hsymbol h) \<and> hsymbol h ! canon_index lens k = k)"

lemma length_counts [simp]: "length (counts lens) = 16"
  by (simp add: counts_def MAXBITS_def)

lemma nth_counts [simp]: "l \<le> 15 \<Longrightarrow> counts lens ! l = count_list lens l"
  by (simp add: counts_def MAXBITS_def del: upt_Suc)

lemma lengths_okD: "lengths_ok lens \<Longrightarrow> k < length lens \<Longrightarrow> lens ! k \<le> 15"
  by (auto simp: lengths_ok_def MAXBITS_def)

lemma count_lengths_eq:
  assumes "\<forall>k \<in> set ks. k < length lengths \<and> lengths ! k < length cnt"
  shows "count_lengths cnt lengths ks =
    Inr (map (\<lambda>l. cnt ! l + count_list (map ((!) lengths) ks) l) [0..<length cnt])"
  using assms
proof (induction ks arbitrary: cnt)
  case Nil
  then show ?case by (simp add: map_nth)
next
  case (Cons k ks)
  then show ?case by (auto simp: aget_def nth_list_update)
qed

lemma construct_counts:
  assumes "n \<le> length lengths" "lengths_ok (take n lengths)"
  shows "count_lengths (replicate (MAXBITS + 1) 0) lengths [0..<n] = Inr (counts (take n lengths))"
proof -
  have "map ((!) lengths) [0..<n] = take n lengths"
    using assms(1) by (simp add: list_eq_iff_nth_eq)
  moreover have "\<forall>k \<in> set [0..<n]. k < length lengths \<and> lengths ! k < length (replicate (MAXBITS + 1) (0 :: nat))"
    using assms(1) lengths_okD [OF assms(2)] by (fastforce simp: MAXBITS_def)
  ultimately show ?thesis
    by (simp add: count_lengths_eq counts_def del: upt_Suc replicate_Suc)
qed

lemma count_list_0_length: "count_list xs 0 = length xs \<longleftrightarrow> (\<forall>x \<in> set xs. x = (0 :: nat))"
proof (induction xs)
  case (Cons x xs)
  then show ?case using count_le_length [of xs 0] by auto
qed simp

text \<open>\<open>left\<close> in the over-subscription check.\<close>

definition codes_left :: "(nat \<Rightarrow> nat) \<Rightarrow> nat \<Rightarrow> int" where
  "codes_left cnt l = (if l = 0 then 1 else 2 ^ l - int (first_code cnt l + cnt l))"

lemma codes_left_0: "codes_left cnt 0 = 1"
  by (simp add: codes_left_def)

lemma codes_left_Suc: "codes_left cnt (Suc l) = 2 * codes_left cnt l - int (cnt (Suc l))"
  by (auto simp: codes_left_def)

lemma fits_codes_left: "fits cnt m \<longleftrightarrow> (\<forall>l. 1 \<le> l \<and> l \<le> m \<longrightarrow> 0 \<le> codes_left cnt l)"
  by (auto simp: fits_def codes_left_def of_nat_le_of_nat_power_cancel_iff [symmetric]
      simp del: of_nat_add of_nat_le_of_nat_power_cancel_iff)

lemma check_left_eq:
  assumes "a \<le> Suc MAXBITS" "1 \<le> a"
  shows "check_left (counts lens) [a..<MAXBITS + 1] (codes_left (count_list lens) (a - 1)) =
    (if \<forall>l. a \<le> l \<and> l \<le> MAXBITS \<longrightarrow> 0 \<le> codes_left (count_list lens) l
     then Inr (codes_left (count_list lens) MAXBITS)
     else Inl (codes_left (count_list lens)
            (LEAST l. a \<le> l \<and> codes_left (count_list lens) l < 0)))"
  using assms
proof (induction a rule: inc_induct)
  case base
  then show ?case by simp
next
  case (step a)
  let ?c = "codes_left (count_list lens)"
  have a: "[a..<MAXBITS + 1] = a # [Suc a..<MAXBITS + 1]"
    using step.hyps by (subst upt_conv_Cons) auto
  have c: "push_bit 1 (?c (a - 1)) - int (counts lens ! a) = ?c a"
    using step codes_left_Suc [of "count_list lens" "a - 1"]
    by (simp add: MAXBITS_def push_bit_eq_mult)
  show ?case
  proof (cases "?c a < 0")
    case True
    then have "(LEAST l. a \<le> l \<and> ?c l < 0) = a" by (intro Least_equality) auto
    with True step.hyps show ?thesis unfolding a check_left.simps c by (auto simp: Let_def)
  next
    case False
    have *: "(a \<le> l \<and> ?c l < 0) = (Suc a \<le> l \<and> ?c l < 0)" for l
      using False by (cases "l = a") auto
    have **: "(\<forall>l. a \<le> l \<and> l \<le> MAXBITS \<longrightarrow> 0 \<le> ?c l) = (\<forall>l. Suc a \<le> l \<and> l \<le> MAXBITS \<longrightarrow> 0 \<le> ?c l)"
      using False by (metis Suc_leD le_antisym not_less not_less_eq_eq)
    show ?thesis unfolding a check_left.simps c * **
      using False step.IH by (simp add: Let_def)
  qed
qed

lemma gen_offs_nth:
  assumes "1 \<le> a" "a \<le> MAXBITS" "length offs = MAXBITS + 1"
    and "\<forall>l. 1 \<le> l \<and> l \<le> a \<longrightarrow> offs ! l = first_index (count_list lens) l"
  shows "length (gen_offs (counts lens) [a..<MAXBITS] offs) = MAXBITS + 1 \<and>
    (\<forall>l. 1 \<le> l \<and> l \<le> MAXBITS \<longrightarrow>
      gen_offs (counts lens) [a..<MAXBITS] offs ! l = first_index (count_list lens) l)"
  using assms(2,1,3,4)
proof (induction a arbitrary: offs rule: inc_induct)
  case base
  then show ?case by simp
next
  case (step a)
  have a: "[a..<MAXBITS] = a # [Suc a..<MAXBITS]"
    using step.hyps by (subst upt_conv_Cons) auto
  let ?o = "offs[a + 1 := offs ! a + counts lens ! a]"
  have "\<forall>l. 1 \<le> l \<and> l \<le> Suc a \<longrightarrow> ?o ! l = first_index (count_list lens) l"
    using step by (auto simp: nth_list_update MAXBITS_def le_Suc_eq)
  then show ?case unfolding a gen_offs.simps
    using step.prems by (intro step.IH) auto
qed

lemma first_index_Cons:
  "first_index (count_list (x # xs)) m = first_index (count_list xs) m + (if 1 \<le> x \<and> x < m then 1 else 0)"
  by (induction m) auto

lemma first_index_length: "first_index (count_list xs) m \<le> length xs"
proof (induction xs)
  case Nil
  show ?case by (induction m) auto
next
  case (Cons x xs)
  then show ?case unfolding first_index_Cons by auto
qed

lemma canon_index_bound: "k < length lens \<Longrightarrow> lens ! k \<noteq> 0 \<Longrightarrow> canon_index lens k < length lens"
proof -
  assume k: "k < length lens" "lens ! k \<noteq> 0"
  have "canon_index lens k < first_index (count_list lens) (Suc (lens ! k))"
    using rank_less_count [OF k(1)] k(2) by (simp add: canon_index_def)
  also have "\<dots> \<le> length lens" by (rule first_index_length)
  finally show ?thesis .
qed

text \<open>
  The sorting loop keeps, for every length, the next free place, and puts each symbol at
  its canonical index.
\<close>

lemma sort_symbols_eq:
  assumes "n \<le> length lengths" "lens = take n lengths" "lengths_ok lens" "n \<le> length symbol"
    and "j \<le> n" "length offs = MAXBITS + 1"
    and "\<forall>l. 1 \<le> l \<and> l \<le> MAXBITS \<longrightarrow>
      offs ! l = first_index (count_list lens) l + count_list (take j lens) l"
    and "\<forall>k < j. lens ! k \<noteq> 0 \<longrightarrow> symbol ! canon_index lens k = k"
  shows "\<exists>symbol'. sort_symbols lengths offs symbol [j..<n] = Inr symbol' \<and>
    length symbol' = length symbol \<and>
    (\<forall>k < n. lens ! k \<noteq> 0 \<longrightarrow> symbol' ! canon_index lens k = k)"
  using assms(5,4,6-)
proof (induction j arbitrary: offs symbol rule: inc_induct)
  case base
  then show ?case by simp
next
  case (step j)
  have j: "[j..<n] = j # [Suc j..<n]" using step.hyps by (subst upt_conv_Cons) auto
  have lj: "lengths ! j = lens ! j" "j < length lens" "j < length lengths"
    using step.hyps assms(1,2) by auto
  have l15: "lens ! j \<le> MAXBITS" using lengths_okD [OF assms(3) lj(2)] by (simp add: MAXBITS_def)
  have take: "count_list (take (Suc j) lens) l = count_list (take j lens) l + (if lens ! j = l then 1 else 0)" for l
    using lj(2) by (simp add: take_Suc_conv_app_nth)
  show ?case
  proof (cases "lens ! j = 0")
    case True
    then show ?thesis using step.prems lj step.IH [of symbol offs]
      by (auto simp: j aget_def take less_Suc_eq)
  next
    case False
    let ?i = "canon_index lens j"
    have i: "offs ! (lens ! j) = ?i"
      using False l15 step.prems(3) by (simp add: canon_index_def rank_def)
    have ib: "?i < length symbol"
      using canon_index_bound [OF lj(2) False] lj assms(1,2) step.prems(1) by simp
    have "\<forall>k < Suc j. lens ! k \<noteq> 0 \<longrightarrow> symbol[?i := j] ! canon_index lens k = k"
    proof (intro allI impI)
      fix k assume k: "k < Suc j" "lens ! k \<noteq> 0"
      show "symbol[?i := j] ! canon_index lens k = k"
      proof (cases "k = j")
        case True
        then show ?thesis using ib by simp
      next
        case kj: False
        with canon_index_inj [of k lens j] k lj(2) False have "canon_index lens k \<noteq> ?i" by auto
        with kj k step.prems(4) show ?thesis by simp
      qed
    qed
    moreover have "\<forall>l. 1 \<le> l \<and> l \<le> MAXBITS \<longrightarrow> offs[lens ! j := ?i + 1] ! l =
        first_index (count_list lens) l + count_list (take (Suc j) lens) l"
      using step.prems(2,3) i l15 by (auto simp: take nth_list_update)
    ultimately obtain symbol' where "sort_symbols lengths (offs[lens ! j := ?i + 1]) (symbol[?i := j]) [Suc j..<n] = Inr symbol'"
      "length symbol' = length symbol" "\<forall>k < n. lens ! k \<noteq> 0 \<longrightarrow> symbol' ! canon_index lens k = k"
      using step.IH [of "symbol[?i := j]" "offs[lens ! j := ?i + 1]"] step.prems(1,2) by auto
    then show ?thesis using False lj i ib l15 step.prems(2) by (simp add: j aget_def aset_def)
  qed
qed


section \<open>What \<open>construct\<close> returns\<close>

lemma construct_cases:
  fixes lengths n defines "lens \<equiv> take n lengths"
  assumes "n \<le> length lengths" "lengths_ok lens" "n \<le> length (hsymbol h)"
  obtains (empty) "\<forall>l \<in> set lens. l = 0"
      "construct h lengths n = Inr (0, h\<lparr>hcount := counts lens\<rparr>)"
    | (over) "\<exists>l \<in> set lens. l \<noteq> 0" "\<not> fits (count_list lens) MAXBITS"
      "\<exists>left. left < 0 \<and> construct h lengths n = Inr (left, h\<lparr>hcount := counts lens\<rparr>)"
    | (ok) h' where "\<exists>l \<in> set lens. l \<noteq> 0" "fits (count_list lens) MAXBITS"
      "construct h lengths n = Inr (codes_left (count_list lens) MAXBITS, h')"
      "table_for h' lens" "length (hsymbol h') = length (hsymbol h)"
proof -
  have n: "length lens = n" using assms(2) by (simp add: lens_def)
  have cnt: "count_lengths (replicate (MAXBITS + 1) 0) lengths [0..<n] = Inr (counts lens)"
    using construct_counts [OF assms(2)] assms(3) by (simp add: lens_def)
  have zero: "counts lens ! 0 = n \<longleftrightarrow> (\<forall>l \<in> set lens. l = 0)"
    using count_list_0_length [of lens] n by simp
  have check: "check_left (counts lens) [1..<MAXBITS + 1] 1 =
      (if fits (count_list lens) MAXBITS then Inr (codes_left (count_list lens) MAXBITS)
       else Inl (codes_left (count_list lens) (LEAST l. 1 \<le> l \<and> codes_left (count_list lens) l < 0)))"
    unfolding fits_codes_left using check_left_eq [of 1 lens, simplified diff_self_eq_0 codes_left_0]
    by (simp only: MAXBITS_def)
  consider "\<forall>l \<in> set lens. l = 0" | "\<exists>l \<in> set lens. l \<noteq> 0" "\<not> fits (count_list lens) MAXBITS"
    | "\<exists>l \<in> set lens. l \<noteq> 0" "fits (count_list lens) MAXBITS" by blast
  then show thesis
  proof cases
    case 1
    with zero cnt show thesis by (intro empty) (auto simp: construct_def)
  next
    case 2
    then obtain l where "1 \<le> l \<and> codes_left (count_list lens) l < 0"
      by (auto simp: fits_codes_left not_le)
    then have "codes_left (count_list lens) (LEAST l. 1 \<le> l \<and> codes_left (count_list lens) l < 0) < 0"
      by (rule LeastI2) simp
    moreover have "construct h lengths n = Inr (codes_left (count_list lens)
        (LEAST l. 1 \<le> l \<and> codes_left (count_list lens) l < 0), h\<lparr>hcount := counts lens\<rparr>)"
      using 2 zero by (simp only: construct_def cnt ebind_simps check if_False sum.case) auto
    ultimately show thesis using 2 over by blast
  next
    case 3
    let ?offs = "gen_offs (counts lens) [1..<MAXBITS] (replicate (MAXBITS + 1) 0)"
    have "length ?offs = MAXBITS + 1 \<and>
        (\<forall>l. 1 \<le> l \<and> l \<le> MAXBITS \<longrightarrow> ?offs ! l = first_index (count_list lens) l)"
      by (rule gen_offs_nth) (auto simp: MAXBITS_def le_Suc_eq)
    with sort_symbols_eq [OF assms(2) lens_def [THEN meta_eq_to_obj_eq] assms(3,4), of 0 ?offs]
    obtain symbol where symbol: "sort_symbols lengths ?offs (hsymbol h) [0..<n] = Inr symbol"
      "length symbol = length (hsymbol h)"
      "\<forall>k < n. lens ! k \<noteq> 0 \<longrightarrow> symbol ! canon_index lens k = k"
      by auto
    let ?h = "h\<lparr>hcount := counts lens, hsymbol := symbol\<rparr>"
    have "construct h lengths n = Inr (codes_left (count_list lens) MAXBITS, ?h)"
      using 3 zero by (simp only: construct_def cnt ebind_simps check if_True sum.case Let_def symbol(1)) auto
    moreover have "table_for ?h lens"
      using symbol(2,3) n assms(4) canon_index_bound [of _ lens]
      by (fastforce simp: table_for_def intro: less_le_trans)
    ultimately show thesis using 3 symbol(2) by (intro ok [of ?h]) auto
  qed
qed


section \<open>The scan inverts the code\<close>

lemma msb_bits_Suc_Cons: "msb_bits (Suc n) v = bit v n # msb_bits n v"
  by (simp add: msb_bits_def nat_bits_Suc_snoc)

lemma double_half: "2 * (v div 2) + of_bool (odd v) = (v :: nat)"
  using mult_div_mod_eq [of 2 v] by (simp only: mod_2_eq_odd)

lemma div_pow2_step: "2 * (v div 2 ^ Suc m) + of_bool (bit v m) = v div (2 ^ m :: nat)"
proof -
  have "v div 2 ^ Suc m = v div 2 ^ m div 2"
    by (simp only: div_mult2_eq [symmetric] power_Suc2)
  then show ?thesis using double_half [of "v div 2 ^ m"] by (simp only: bit_iff_odd)
qed

definition level :: "nat list \<Rightarrow> nat \<Rightarrow> nat \<Rightarrow> bitstring \<Rightarrow> scan" where
  "level lens l c bs = canon_scan (counts lens) (16 - l) l (2 * int c)
     (int (first_code (count_list lens) l)) (int (first_index (count_list lens) l)) bs"

lemma level_Cons:
  assumes "1 \<le> l" "l \<le> 15"
  shows "level lens l c (b # bs) =
    (if 2 * c + of_bool b < first_code (count_list lens) l + count_list lens l
     then Hit (int (first_index (count_list lens) l) + (int (2 * c + of_bool b) -
            int (first_code (count_list lens) l))) l
     else level lens (l + 1) (2 * c + of_bool b) bs)"
proof -
  have "16 - l = Suc (15 - l)" "16 - (l + 1) = 15 - l" using assms by simp_all
  moreover have "(2 * int c + of_bool b - int (count_list lens l) < int (first_code (count_list lens) l)) =
      (2 * c + of_bool b < first_code (count_list lens) l + count_list lens l)"
    by (cases b) (simp_all, linarith+)
  ultimately show ?thesis using assms
    by (simp add: level_def algebra_simps)
qed

lemma level_start: "canon_scan (counts lens) 15 (Suc 0) 0 0 0 bs = level lens (Suc 0) 0 bs"
  by (simp add: level_def)

lemma level_16: "level lens 16 c bs = Exhausted"
  by (simp add: level_def)

lemma level_Nil: "l \<le> 15 \<Longrightarrow> level lens l c [] = Short"
  by (cases "16 - l") (simp_all add: level_def)

lemma level_hit:
  assumes k: "k < length lens" and l: "1 \<le> l" "l \<le> lens ! k" "lens ! k \<le> 15"
  shows "level lens l (canon_code lens k div 2 ^ (lens ! k - l + 1))
      (msb_bits (lens ! k - l + 1) (canon_code lens k) @ bs) =
    Hit (int (canon_index lens k)) (lens ! k)"
  using l(2,1)
proof (induction l rule: inc_induct)
  case base
  note h = double_half [of "canon_code lens k"]
  have "level lens (lens ! k) (canon_code lens k div 2) (odd (canon_code lens k) # bs) =
      Hit (int (canon_index lens k)) (lens ! k)"
    unfolding level_Cons [OF base l(3)] h
    using canon_code_bounds [OF k] by (simp add: canon_index_def canon_code_def)
  then show ?case by (simp add: msb_bits_def nat_bits_def bit_0)
next
  case (step l)
  let ?L = "lens ! k" and ?C = "canon_code lens k"
  have L: "?L - l + 1 = Suc (?L - Suc l + 1)" using step.hyps by simp
  have c: "2 * (?C div 2 ^ (?L - l + 1)) + of_bool (bit ?C (?L - Suc l + 1)) = ?C div 2 ^ (?L - Suc l + 1)"
    unfolding L by (rule div_pow2_step)
  have "first_code (count_list lens) l + count_list lens l \<le> ?C div 2 ^ (?L - Suc l + 1)"
    using canon_code_prefix [OF k step.prems step.hyps(2)] step.hyps(2) by (simp add: Suc_diff_Suc)
  then have "\<not> ?C div 2 ^ (?L - Suc l + 1) < first_code (count_list lens) l + count_list lens l" by simp
  moreover have "l \<le> 15" using step.hyps l(3) by simp
  ultimately have "level lens l (?C div 2 ^ (?L - l + 1))
      (bit ?C (?L - Suc l + 1) # (msb_bits (?L - Suc l + 1) ?C @ bs)) =
      level lens (l + 1) (?C div 2 ^ (?L - Suc l + 1)) (msb_bits (?L - Suc l + 1) ?C @ bs)"
    by (simp only: level_Cons [OF step.prems] c if_False)
  with step.IH show ?case
    by (subst (2) L, subst msb_bits_Suc_Cons) simp
qed

lemma canon_scan_canon_bits:
  assumes "k < length lens" "lens ! k \<noteq> 0" "lengths_ok lens" "fits (count_list lens) MAXBITS"
  shows "canon_scan (counts lens) 15 1 0 0 0 (canon_bits lens k @ bs) =
    Hit (int (canon_index lens k)) (lens ! k)"
proof -
  have l: "1 \<le> lens ! k" "lens ! k \<le> 15"
    using assms by (auto simp: Suc_le_eq lengths_okD)
  then have "lens ! k - 1 + 1 = lens ! k" by simp
  moreover have "canon_code lens k < 2 ^ (lens ! k)"
    using l by (intro canon_code_fits [OF assms(4,1)]) (simp_all add: MAXBITS_def)
  ultimately show ?thesis
    using level_hit [OF assms(1) _ l, of bs] by (simp add: level_start canon_bits_def)
qed

text \<open>Conversely, a hit is the code of the symbol at the index found.\<close>

lemma rank_ex: "r < count_list lens l \<Longrightarrow> \<exists>k < length lens. lens ! k = l \<and> rank lens k = r"
proof (induction lens arbitrary: r rule: rev_induct)
  case (snoc x xs)
  show ?case
  proof (cases "r < count_list xs l")
    case True
    with snoc.IH obtain k where "k < length xs" "xs ! k = l" "rank xs k = r" by blast
    then show ?thesis by (intro exI [of _ k]) (auto simp: rank_def nth_append)
  next
    case False
    with snoc.prems have "x = l" "r = count_list xs l" by (auto split: if_splits)
    then show ?thesis by (intro exI [of _ "length xs"]) (auto simp: rank_def)
  qed
qed simp

lemma level_Hit_sound:
  assumes "level lens l c bs = Hit i m" "1 \<le> l" "l \<le> 16" "first_code (count_list lens) l \<le> 2 * c"
  shows "\<exists>k < length lens. lens ! k = m \<and> l \<le> m \<and> m \<le> 15 \<and> i = int (canon_index lens k) \<and> m - l < length bs \<and>
    canon_code lens k = c * 2 ^ (m - l + 1) + bits_nat (rev (take (m - l + 1) bs))"
  using assms
proof (induction bs arbitrary: l c)
  case Nil
  then show ?case by (cases "l = 16") (auto simp: level_16 level_Nil)
next
  case (Cons b bs)
  then have l: "l \<le> 15" by (cases "l = 16") (auto simp: level_16)
  let ?c = "2 * c + of_bool b" and ?cnt = "count_list lens"
  show ?case
  proof (cases "?c < first_code ?cnt l + ?cnt l")
    case True
    then have r: "?c - first_code ?cnt l < ?cnt l" "first_code ?cnt l \<le> ?c" using Cons.prems(4) by auto
    then obtain k where k: "k < length lens" "lens ! k = l" "rank lens k = ?c - first_code ?cnt l"
      using rank_ex by blast
    from Cons.prems(1) True l Cons.prems(2) have "m = l"
      "i = int (first_index ?cnt l) + (int ?c - int (first_code ?cnt l))"
      by (auto simp: level_Cons)
    with k r l show ?thesis
      by (intro exI [of _ k]) (auto simp: canon_index_def canon_code_def of_nat_diff)
  next
    case False
    with Cons.prems l have "level lens (l + 1) ?c bs = Hit i m" by (simp add: level_Cons)
    moreover have "first_code ?cnt (l + 1) \<le> 2 * ?c" using False Cons.prems(2) by simp
    ultimately obtain k where k: "k < length lens" "lens ! k = m" "l + 1 \<le> m" "m \<le> 15"
      "i = int (canon_index lens k)" "m - (l + 1) < length bs"
      "canon_code lens k = ?c * 2 ^ (m - (l + 1) + 1) + bits_nat (rev (take (m - (l + 1) + 1) bs))"
      using Cons.IH [of "l + 1" ?c] l by auto
    let ?d = "m - (l + 1) + 1"
    have d: "m - l + 1 = Suc ?d" "length (take ?d bs) = ?d" using k(3,6) by simp_all
    have "bits_nat (rev (take (m - l + 1) (b # bs))) = bits_nat (rev (take ?d bs)) + 2 ^ ?d * of_bool b"
      unfolding d(1) take_Suc_Cons rev.simps bits_nat_append length_rev d(2) by simp
    then have "canon_code lens k = c * 2 ^ (m - l + 1) + bits_nat (rev (take (m - l + 1) (b # bs)))"
      using k(7) d(1) by (simp add: algebra_simps)
    with k d(1) show ?thesis by (intro exI [of _ k]) auto
  qed
qed

lemma level_Exhausted:
  assumes "level lens l c bs = Exhausted" "1 \<le> l" "l \<le> 16"
    and "l = 16 \<longrightarrow> first_code (count_list lens) 15 + count_list lens 15 \<le> c"
  shows "16 - l \<le> length bs \<and> first_code (count_list lens) 15 + count_list lens 15 \<le>
    c * 2 ^ (16 - l) + bits_nat (rev (take (16 - l) bs))"
  using assms
proof (induction bs arbitrary: l c)
  case Nil
  then show ?case by (cases "l = 16") (auto simp: level_Nil)
next
  case (Cons b bs)
  show ?case
  proof (cases "l = 16")
    case False
    with Cons.prems have l: "l \<le> 15" "1 \<le> l" by auto
    let ?c = "2 * c + of_bool b" and ?d = "15 - l"
    have nl: "\<not> ?c < first_code (count_list lens) l + count_list lens l"
      and rec: "level lens (l + 1) ?c bs = Exhausted"
      using Cons.prems(1) l by (auto simp: level_Cons split: if_splits)
    have "16 - (l + 1) \<le> length bs \<and> first_code (count_list lens) 15 + count_list lens 15 \<le>
        ?c * 2 ^ (16 - (l + 1)) + bits_nat (rev (take (16 - (l + 1)) bs))"
      using nl l by (intro Cons.IH [OF rec]) auto
    then have IH: "?d \<le> length bs" "first_code (count_list lens) 15 + count_list lens 15 \<le>
        ?c * 2 ^ ?d + bits_nat (rev (take ?d bs))" by simp_all
    have d: "16 - l = Suc ?d" "length (take ?d bs) = ?d" using l IH(1) by simp_all
    have "bits_nat (rev (take (16 - l) (b # bs))) = bits_nat (rev (take ?d bs)) + 2 ^ ?d * of_bool b"
      unfolding d(1) take_Suc_Cons rev.simps bits_nat_append length_rev d(2) by simp
    then show ?thesis using IH d(1) by (simp add: algebra_simps)
  qed (use Cons.prems in auto)
qed

lemma complete_not_Exhausted:
  assumes "codes_left (count_list lens) MAXBITS = 0"
  shows "canon_scan (counts lens) 15 1 0 0 0 bs \<noteq> Exhausted"
proof
  assume "canon_scan (counts lens) 15 1 0 0 0 bs = Exhausted"
  then have *: "15 \<le> length bs" "first_code (count_list lens) 15 + count_list lens 15 \<le> bits_nat (rev (take 15 bs))"
    using level_Exhausted [of lens 1 0 bs] by (simp_all add: level_start)
  have "int (first_code (count_list lens) 15 + count_list lens 15) = int (2 ^ 15)"
    using assms by (simp add: codes_left_def MAXBITS_def)
  then have "first_code (count_list lens) 15 + count_list lens 15 = 2 ^ 15"
    by (simp only: of_nat_eq_iff)
  moreover have "bits_nat (rev (take 15 bs)) < 2 ^ length (rev (take 15 bs))" by (rule bits_nat_bound)
  ultimately show False using * by simp
qed

section \<open>Decoding is the inverse of the canonical code\<close>

text \<open>A table as \<open>construct\<close> leaves it for a set of lengths that can be used.\<close>

definition usable :: "huffman \<Rightarrow> nat list \<Rightarrow> bool" where
  "usable h lens \<longleftrightarrow> lengths_ok lens \<and> fits (count_list lens) MAXBITS \<and> table_for h lens"

lemma usable_hcount: "usable h lens \<Longrightarrow> hcount h = counts lens" "usable h lens \<Longrightarrow> length (hcount h) = 16"
  by (simp_all add: usable_def table_for_def)

context huffman_decoder
begin

lemma dec_code:
  assumes "wf_puff s" "usable h lens" "k < length lens" "lens ! k \<noteq> 0"
    and "rest s = canon_bits lens k @ bs"
  obtains s' where "dec s h = Inr (int k, s')" "wf_puff s'" "pframe s' = pframe s" "rest s' = bs"
proof -
  have scan: "canon_scan (hcount h) 15 1 0 0 0 (rest s) = Hit (int (canon_index lens k)) (lens ! k)"
    using assms canon_scan_canon_bits [of k lens bs] by (simp add: usable_def table_for_def)
  have "canon_index lens k < length (hsymbol h)" "hsymbol h ! canon_index lens k = k"
    using assms(2-4) by (auto simp: usable_def table_for_def)
  with assms(5) that show ?thesis
    by (auto intro: dec_hit [OF assms(1) usable_hcount(2) [OF assms(2)] scan] simp: canon_bits_def)
qed

lemma dec_sound:
  assumes "wf_puff s" "usable h lens" "dec s h = Inr (v, s')" "0 \<le> v"
  shows "\<exists>k < length lens. v = int k \<and> lens ! k \<noteq> 0 \<and> rest s = canon_bits lens k @ rest s' \<and>
    wf_puff s' \<and> pframe s' = pframe s"
proof (cases "canon_scan (hcount h) 15 1 0 0 0 (rest s)")
  case (Hit i l)
  then have "level lens 1 0 (rest s) = Hit i l"
    using assms(2) by (simp add: usable_hcount level_start [symmetric])
  from level_Hit_sound [OF this] obtain k where k: "k < length lens" "lens ! k = l" "1 \<le> l" "l \<le> 15"
    "i = int (canon_index lens k)" "l \<le> length (rest s)" "canon_code lens k = bits_nat (rev (take l (rest s)))"
    by auto
  have sym: "canon_index lens k < length (hsymbol h)" "hsymbol h ! canon_index lens k = k"
    using assms(2) k by (auto simp: usable_def table_for_def)
  obtain s1 where s1: "dec s h = Inr (int k, s1)" "wf_puff s1" "pframe s1 = pframe s" "rest s1 = drop l (rest s)"
    using dec_hit [OF assms(1) usable_hcount(2) [OF assms(2)] Hit] k(5) sym by auto
  have "nat_bits l (bits_nat (rev (take l (rest s)))) = rev (take l (rest s))"
    using nat_bits_bits_nat [of "rev (take l (rest s))"] k(6) by simp
  then have "canon_bits lens k = take l (rest s)"
    by (simp add: canon_bits_def msb_bits_def k(2,7))
  then have "rest s = canon_bits lens k @ rest s1"
    by (simp add: s1(4))
  then show ?thesis using s1 k assms(3) by (intro exI [of _ k]) auto
next
  case Exhausted
  then show ?thesis using dec_exhausted [OF assms(1) usable_hcount(2) [OF assms(2)]] assms(3,4) by force
next
  case Short
  then show ?thesis using dec_short [OF assms(1) usable_hcount(2) [OF assms(2)]] assms(3) by force
qed

end

text \<open>
  (C8) \<open>decode\<close> inverts the canonical code: on the tables that \<open>construct\<close> builds for a set
  of code lengths that is not over-subscribed, \<open>decode\<close> returns symbol \<open>k\<close> and the state
  \<open>s'\<close> exactly when the bits left are the code of \<open>k\<close> followed by the bits left in \<open>s'\<close>.
\<close>

theorem decode_iff_code:
  assumes "wf_puff s" and "n \<le> length lengths" "lengths_ok (take n lengths)" "n \<le> length (hsymbol h0)"
    and "construct h0 lengths n = Inr (left, h)" "0 \<le> left" "\<exists>l \<in> set (take n lengths). l \<noteq> 0"
  shows "(\<exists>s'. decode s h = Inr (int k, s') \<and> rest s' = bs) \<longleftrightarrow>
    k < n \<and> lengths ! k \<noteq> 0 \<and> rest s = canon_bits (take n lengths) k @ bs"
proof -
  have u: "usable h (take n lengths)"
    by (rule construct_cases [OF assms(2-4)]) (use assms in \<open>auto simp: usable_def\<close>)
  show ?thesis
  proof
    assume "\<exists>s'. decode s h = Inr (int k, s') \<and> rest s' = bs"
    then show "k < n \<and> lengths ! k \<noteq> 0 \<and> rest s = canon_bits (take n lengths) k @ bs"
      using fast.dec_sound [OF assms(1) u] assms(2) by fastforce
  next
    assume "k < n \<and> lengths ! k \<noteq> 0 \<and> rest s = canon_bits (take n lengths) k @ bs"
    then show "\<exists>s'. decode s h = Inr (int k, s') \<and> rest s' = bs"
      using fast.dec_code [OF assms(1) u, of k bs] assms(2) by (metis length_take min_absorb2 nth_take)
  qed
qed

theorem decode_iff_code_witness:
  "(\<exists>s'. decode (puff_init None 0 [6] 1) \<lparr>hcount = 0 # 1 # 2 # replicate 13 0, hsymbol = [0, 1, 2]\<rparr> =
      Inr (int 0, s') \<and> rest s' = nat_bits 7 3) \<longleftrightarrow>
    0 < (3 :: nat) \<and> [1, 2, 2] ! 0 \<noteq> (0 :: nat) \<and>
    rest (puff_init None 0 [6] 1) = canon_bits (take 3 [1, 2, 2]) 0 @ nat_bits 7 3"
proof (rule decode_iff_code)
  show "construct \<lparr>hcount = [], hsymbol = [0, 0, 0]\<rparr> [1, 2, 2] 3 =
      Inr (0, \<lparr>hcount = 0 # 1 # 2 # replicate 13 0, hsymbol = [0, 1, 2]\<rparr>)"
    by code_simp
qed (simp_all add: wf_puff_def wf_in_def puff_init_def lengths_ok_def MAXBITS_def)

section \<open>When \<open>decode\<close> gives up\<close>

lemma canon_scan_no_codes:
  assumes "\<forall>l. 1 \<le> l \<and> l < 16 \<longrightarrow> cnt ! l = 0" "n \<le> length bs" "0 \<le> code" "1 \<le> len" "len + n \<le> 16"
  shows "canon_scan cnt n len code 0 0 bs = Exhausted"
  using assms(2-)
proof (induction n arbitrary: len code bs)
  case (Suc n)
  then obtain b bs' where bs: "bs = b # bs'" by (cases bs) auto
  have "cnt ! len = 0" using assms(1) Suc.prems by simp
  with Suc.IH [of bs' "2 * (code + of_bool b)" "len + 1"] Suc.prems bs show ?case by simp
qed simp



end
