(* ===== verification/Puff_Safety.thy ===== *)
theory Puff_Safety
  imports Puff_Tables
begin

text \<open>
  \<open>puff\<close> is memory safe: with buffers at least as long as the lengths it is given, no
  operation reads or writes outside of an array on any input, the output is only ever
  extended, and bytes beyond the reported length stay as they were.
\<close>

section \<open>States and outcomes\<close>

definition out_ok :: "pstate \<Rightarrow> bool" where
  "out_ok s \<longleftrightarrow> (case pout s of None \<Rightarrow> True
     | Some buf \<Rightarrow> poutlen s \<le> length buf \<and> poutcnt s \<le> poutlen s)"

definition wf_st :: "pstate \<Rightarrow> bool" where
  "wf_st s \<longleftrightarrow> wf_puff s \<and> out_ok s"

definition extends :: "pstate \<Rightarrow> pstate \<Rightarrow> bool" where
  "extends s s' \<longleftrightarrow> pin s' = pin s \<and> pinlen s' = pinlen s \<and> poutlen s' = poutlen s \<and>
     poutcnt s \<le> poutcnt s' \<and>
     (case (pout s, pout s') of
        (None, None) \<Rightarrow> True
      | (Some buf, Some buf') \<Rightarrow> length buf' = length buf \<and> poutcnt s' \<le> poutlen s \<and>
          take (poutcnt s) buf' = take (poutcnt s) buf \<and>
          drop (poutcnt s') buf' = drop (poutcnt s') buf
      | _ \<Rightarrow> False)"

text \<open>
  The outcome of an operation started in \<open>s\<close>: never an access outside of an array, and a
  value that satisfies \<open>P\<close> when it returns.
\<close>

definition safe :: "('a \<Rightarrow> bool) \<Rightarrow> pstate \<Rightarrow> fault + 'a \<times> pstate \<Rightarrow> bool" where
  "safe P s r \<longleftrightarrow> (case r of Inl Oob \<Rightarrow> False | Inl (Longjmp s') \<Rightarrow> extends s s'
     | Inr (x, s') \<Rightarrow> P x \<and> extends s s' \<and> wf_st s')"

lemma extends_refl: "out_ok s \<Longrightarrow> extends s s"
  by (auto simp: extends_def out_ok_def split: option.splits)

lemma drop_eq_mono: "drop n xs = drop n ys \<Longrightarrow> n \<le> m \<Longrightarrow> drop m xs = drop m ys"
  by (metis drop_drop le_add_diff_inverse2)

lemma take_eq_mono: "take n xs = take n ys \<Longrightarrow> m \<le> n \<Longrightarrow> take m xs = take m ys"
  by (metis min.absorb1 take_take)

lemma extends_trans: "extends s t \<Longrightarrow> extends t u \<Longrightarrow> extends s u"
  unfolding extends_def
  by (auto split: option.splits dest: drop_eq_mono take_eq_mono)

lemma extends_pframe: "out_ok s \<Longrightarrow> pframe s' = pframe s \<Longrightarrow> extends s s' \<and> out_ok s'"
  by (auto simp: extends_def out_ok_def pframe_def split: option.splits)

lemma safe_bind:
  assumes "safe P s m" and "\<And>x t. m = Inr (x, t) \<Longrightarrow> P x \<Longrightarrow> extends s t \<Longrightarrow> wf_st t \<Longrightarrow> safe Q t (f x t)"
  shows "safe Q s (ebind m (\<lambda>(x, t). f x t))"
proof (cases m)
  case (Inr p)
  obtain x t where p: "p = (x, t)" by (cases p)
  with assms Inr have "extends s t" "safe Q t (f x t)" by (auto simp: safe_def)
  with Inr p show ?thesis
    by (auto simp: safe_def split: sum.splits fault.splits intro: extends_trans)
qed (use assms in \<open>auto simp: safe_def\<close>)

lemma safe_Inr: "wf_st s \<Longrightarrow> P x \<Longrightarrow> safe P s (Inr (x, s))"
  by (simp add: safe_def extends_refl wf_st_def)

lemma safe_weaken: "safe P s r \<Longrightarrow> (\<And>x. P x \<Longrightarrow> Q x) \<Longrightarrow> safe Q s r"
  by (auto simp: safe_def split: sum.splits fault.splits)

section \<open>Input\<close>

lemma safe_bits:
  assumes "wf_st s"
  shows "safe (\<lambda>v. v < 2 ^ n) s (bits s n)"
proof -
  have wf: "out_ok s" "wf_puff s" using assms by (simp_all add: wf_st_def)
  show ?thesis
  proof (cases "n \<le> length (rest s)")
    case True
    from puff_bits.get_enough [OF wf(2) True] wf show ?thesis
      by (auto simp: safe_def wf_st_def dest: extends_pframe puff_bits.get_bound)
  next
    case False
    then obtain s' where "bits s n = Inl (Longjmp s')" "pframe s' = pframe s"
      using bits_short wf(2) by (metis not_le)
    with wf(1) show ?thesis by (auto simp: safe_def dest: extends_pframe)
  qed
qed

text \<open>\<open>decode\<close> with tables from \<open>construct\<close>: a symbol of the code, or \<open>-10\<close>.\<close>

lemma safe_decode:
  assumes wf: "wf_st s" and u: "usable h lens"
  shows "safe (\<lambda>v. v = - 10 \<or> (0 \<le> v \<and> nat v < length lens)) s (decode s h)"
proof -
  have *: "wf_puff s" "out_ok s" using wf by (simp_all add: wf_st_def)
  show ?thesis
  proof (cases "canon_scan (hcount h) 15 1 0 0 0 (rest s)")
    case (Hit i l)
    then have "level lens (Suc 0) 0 (rest s) = Hit i l"
      using u by (simp add: usable_hcount level_start)
    from level_Hit_sound [OF this] obtain k where k: "k < length lens" "lens ! k \<noteq> 0"
      "i = int (canon_index lens k)" by auto
    then have "canon_index lens k < length (hsymbol h)" "hsymbol h ! canon_index lens k = k"
      using u by (auto simp: usable_def table_for_def)
    then obtain s1 where "decode s h = Inr (int k, s1)" "wf_puff s1" "pframe s1 = pframe s"
      using fast.dec_hit [OF *(1) usable_hcount(2) [OF u] Hit] k(3) by auto
    with *(2) k(1) show ?thesis by (auto simp: safe_def wf_st_def dest: extends_pframe)
  next
    case Exhausted
    show ?thesis
      by (rule fast.dec_exhausted [OF *(1) usable_hcount(2) [OF u] Exhausted])
        (use *(2) in \<open>auto simp: safe_def wf_st_def dest: extends_pframe\<close>)
  next
    case Short
    show ?thesis
      by (rule fast.dec_short [OF *(1) usable_hcount(2) [OF u] Short])
        (use *(2) in \<open>auto simp: safe_def dest: extends_pframe\<close>)
  qed
qed

section \<open>Output\<close>

lemma copy_loop_nth:
  assumes "1 \<le> dist" "dist \<le> outcnt" "outcnt + len \<le> length buf"
  shows "\<exists>buf'. copy_loop buf outcnt dist len = Inr buf' \<and> length buf' = length buf \<and>
    take outcnt buf' = take outcnt buf \<and> drop (outcnt + len) buf' = drop (outcnt + len) buf \<and>
    (\<forall>i < len. buf' ! (outcnt + i) = buf' ! (outcnt + i - dist))"
  using assms
proof (induction buf outcnt dist len rule: copy_loop.induct)
  case (2 buf outcnt dist len)
  let ?buf = "buf[outcnt := buf ! (outcnt - dist)]"
  from "2.IH" [of "buf ! (outcnt - dist)" ?buf] "2.prems" obtain buf' where
    b: "copy_loop ?buf (outcnt + 1) dist len = Inr buf'" "length buf' = length buf"
      "take (outcnt + 1) buf' = take (outcnt + 1) ?buf"
      "drop (outcnt + 1 + len) buf' = drop (outcnt + 1 + len) buf"
      "\<forall>i < len. buf' ! (outcnt + 1 + i) = buf' ! (outcnt + 1 + i - dist)"
    by (auto simp: arraysimps)
  have run: "copy_loop buf outcnt dist (Suc len) = Inr buf'"
    using "2.prems" b(1) by (simp add: arraysimps)
  have t: "buf' ! i = ?buf ! i" if "i \<le> outcnt" for i
    using b(3) that by (metis less_Suc_eq_le nth_take Suc_eq_plus1)
  have "take outcnt buf' = take outcnt buf"
    using take_eq_mono [OF b(3), of outcnt] by simp
  moreover have "buf' ! (outcnt + i) = buf' ! (outcnt + i - dist)" if "i < Suc len" for i
  proof (cases i)
    case 0
    with t [of outcnt] t [of "outcnt - dist"] "2.prems" show ?thesis by simp
  next
    case (Suc j)
    with b(5) that show ?thesis by simp
  qed
  ultimately show ?case using run b(2,4) by auto
qed simp

lemma safe_emit_literal: "wf_st s \<Longrightarrow> safe (\<lambda>e. e = 0 \<or> e = 1) s (emit_literal s v)"
  by (auto simp: emit_literal_def safe_def extends_def wf_st_def wf_puff_def wf_in_def out_ok_def
      arraysimps split: option.splits)

lemma safe_copy_match:
  assumes "wf_st s" "1 \<le> dist" "dist \<le> poutcnt s"
  shows "safe (\<lambda>e. e = 0 \<or> e = 1) s (copy_match s len dist)"
proof (cases "pout s")
  case None
  with assms show ?thesis
    by (auto simp: copy_match_def safe_def extends_def wf_st_def wf_puff_def wf_in_def out_ok_def)
next
  case (Some buf)
  show ?thesis
  proof (cases "poutcnt s + len > poutlen s")
    case False
    with assms Some obtain buf' where "copy_loop buf (poutcnt s) dist len = Inr buf'"
      "length buf' = length buf" "take (poutcnt s) buf' = take (poutcnt s) buf"
      "drop (poutcnt s + len) buf' = drop (poutcnt s + len) buf"
      using copy_loop_nth [of dist "poutcnt s" len buf] by (auto simp: wf_st_def out_ok_def)
    with assms Some False show ?thesis
      by (auto simp: copy_match_def safe_def extends_def wf_st_def wf_puff_def wf_in_def out_ok_def)
  qed (use assms Some in \<open>simp add: copy_match_def safe_Inr\<close>)
qed

lemma dists_pos: "k < 30 \<Longrightarrow> 1 \<le> dists ! k"
  by (simp add: dists_def nth_Cons split: nat.splits)

lemma length_tables: "length lens_base = 29" "length lext = 29" "length dists = 30" "length dext = 30"
  by (simp_all add: lens_base_def lext_def dists_def dext_def)

abbreviation codes_result :: "int \<Rightarrow> bool" where
  "codes_result e \<equiv> e \<in> {0, 1, - 10, - 11}"

lemma safe_codes_match:
  assumes wf: "wf_st s" and u: "usable h lens" "length lens \<le> 30"
  shows "safe codes_result s (codes_match s h k)"
proof -
  have "safe codes_result s3 (if base + x > poutcnt s3 then Inr (- 11, s3)
      else copy_match s3 len (base + x))" if "wf_st s3" "1 \<le> base" for s3 base x len
    using that by (auto intro!: safe_Inr safe_weaken [OF safe_copy_match])
  then have "safe codes_result s2
      (if symbol < 0 then Inr (symbol, s2)
       else ebind (oob (aget dists (nat symbol))) (\<lambda>base.
            ebind (oob (aget dext (nat symbol))) (\<lambda>need.
            ebind (bits s2 need) (\<lambda>(x, s).
              let dist = base + x in
              if dist > poutcnt s then Inr (- 11, s) else copy_match s len dist))))"
    if "wf_st s2" "symbol = - 10 \<or> (0 \<le> symbol \<and> nat symbol < length lens)" for s2 symbol len
    using that u(2) dists_pos [of "nat symbol"]
    by (auto simp: arraysimps length_tables Let_def intro!: safe_Inr safe_bind [OF safe_bits])
  then show ?thesis
    unfolding codes_match_def Let_def
    by (auto simp: wf intro!: safe_Inr safe_bind [OF safe_bits] safe_bind [OF safe_decode [OF _ u(1)]])
qed

lemma safe_codes:
  assumes "wf_st s" and u: "usable l llens" "usable d dlens" "length dlens \<le> 30"
  shows "safe codes_result s (codes s l d)"
  using assms
proof (induction s l d rule: codes.induct)
  case (1 s l d)
  note dec = safe_decode [OF "1.prems"(1,2)]
  have lit: "safe codes_result s1 (ebind (emit_literal s1 (of_int v)) (\<lambda>(err, s).
      if err \<noteq> 0 then Inr (err, s) else codes s l d))"
    if "decode s l = Inr (v, s1)" "wf_st s1" "\<not> v < 0" "v < 256" for v s1
    by (rule safe_bind [OF safe_emit_literal [OF that(2)]])
      (use "1.IH"(1) [OF that(1) refl that(3,4) _ refl] "1.prems"(2-) in \<open>auto intro: safe_Inr\<close>)
  have mat: "safe codes_result s1 (ebind (codes_match s1 d (nat (v - 257))) (\<lambda>(err, s).
      if err \<noteq> 0 then Inr (err, s) else codes s l d))"
    if "decode s l = Inr (v, s1)" "wf_st s1" "\<not> v < 0" "\<not> v < 256" "256 < v" for v s1
    by (rule safe_bind [OF safe_codes_match [OF that(2) "1.prems"(3,4)]])
      (use "1.IH"(2) [OF that(1) refl that(3-5) _ refl] "1.prems"(2-) in \<open>auto intro: safe_Inr\<close>)
  show ?case
    by (subst codes.simps, rule safe_bind [OF dec]) (use lit mat in \<open>auto intro: safe_Inr\<close>)
qed

section \<open>Stored blocks\<close>

lemma stored_copy_eq:
  assumes "pincnt s + n \<le> length (pin s)" "poutcnt s + n \<le> length buf"
  shows "stored_copy s buf n = Inr (s\<lparr>pincnt := pincnt s + n, poutcnt := poutcnt s + n,
    pout := Some (take (poutcnt s) buf @ take n (drop (pincnt s) (pin s)) @ drop (poutcnt s + n) buf)\<rparr>)"
  using assms
proof (induction n arbitrary: s buf)
  case (Suc n)
  let ?s = "s\<lparr>pincnt := pincnt s + 1, poutcnt := poutcnt s + 1\<rparr>"
    and ?b = "pin s ! pincnt s"
  have "next_byte s = Inr (?b, s\<lparr>pincnt := pincnt s + 1\<rparr>)"
    using Suc.prems by (simp add: next_byte_def arraysimps)
  then have "stored_copy s buf (Suc n) = stored_copy ?s (buf[poutcnt s := ?b]) n"
    using Suc.prems by (simp add: arraysimps)
  also have "\<dots> = Inr (s\<lparr>pincnt := pincnt s + Suc n, poutcnt := poutcnt s + Suc n,
      pout := Some (take (poutcnt s + 1) (buf[poutcnt s := ?b]) @
        take n (drop (pincnt s + 1) (pin s)) @ drop (poutcnt s + 1 + n) (buf[poutcnt s := ?b]))\<rparr>)"
    using Suc.prems by (subst Suc.IH) simp_all
  also have "take (poutcnt s + 1) (buf[poutcnt s := ?b]) = take (poutcnt s) buf @ [?b]"
    using Suc.prems by (simp add: take_Suc_conv_app_nth)
  finally show ?case
    using Suc.prems by (simp add: Cons_nth_drop_Suc [symmetric])
qed simp

abbreviation stored_result :: "int \<Rightarrow> bool" where
  "stored_result e \<equiv> e \<in> {0, 1, 2, - 2}"

text \<open>The length of a stored block and its check, at input position \<open>i\<close>.\<close>

definition stored_len :: "byte list \<Rightarrow> nat \<Rightarrow> uint" where
  "stored_len src i = ucast (src ! i) OR push_bit 8 (ucast (src ! (i + 1)))"

definition stored_check :: "byte list \<Rightarrow> nat \<Rightarrow> bool" where
  "stored_check src i \<longleftrightarrow>
     (ucast (src ! (i + 2)) :: uint) = NOT (stored_len src i) AND 255 \<and>
     (ucast (src ! (i + 3)) :: uint) = drop_bit 8 (NOT (stored_len src i)) AND 255"

lemma stored_cases:
  fixes s
  defines "i \<equiv> pincnt s" and "src \<equiv> pin s"
  assumes "wf_in s"
  obtains
    (noheader) "pinlen s < i + 4" "stored s = Inr (2, s\<lparr>pbitbuf := 0, pbitcnt := 0\<rparr>)"
  | (mismatch) c where "i + 4 \<le> pinlen s" "\<not> stored_check src i" "c = 3 \<or> c = 4"
      "stored s = Inr (- 2, s\<lparr>pbitbuf := 0, pbitcnt := 0, pincnt := i + c\<rparr>)"
  | (noinput) "i + 4 \<le> pinlen s" "stored_check src i" "pinlen s < i + 4 + unat (stored_len src i)"
      "stored s = Inr (2, s\<lparr>pbitbuf := 0, pbitcnt := 0, pincnt := i + 4\<rparr>)"
  | (scan) "i + 4 + unat (stored_len src i) \<le> pinlen s" "stored_check src i" "pout s = None"
      "stored s = Inr (0, s\<lparr>pbitbuf := 0, pbitcnt := 0, pincnt := i + 4 + unat (stored_len src i),
         poutcnt := poutcnt s + unat (stored_len src i)\<rparr>)"
  | (full) buf where "i + 4 + unat (stored_len src i) \<le> pinlen s" "stored_check src i" "pout s = Some buf"
      "poutlen s < poutcnt s + unat (stored_len src i)"
      "stored s = Inr (1, s\<lparr>pbitbuf := 0, pbitcnt := 0, pincnt := i + 4\<rparr>)"
  | (copy) buf where "i + 4 + unat (stored_len src i) \<le> pinlen s" "stored_check src i" "pout s = Some buf"
      "poutcnt s + unat (stored_len src i) \<le> poutlen s"
      "stored s = ebind (stored_copy (s\<lparr>pbitbuf := 0, pbitcnt := 0, pincnt := i + 4\<rparr>) buf
         (unat (stored_len src i))) (\<lambda>s. Inr (0, s))"
proof -
  let ?s = "s\<lparr>pbitbuf := 0, pbitcnt := 0\<rparr>"
  show thesis
  proof (cases "pinlen s < i + 4")
    case True
    then show ?thesis by (intro noheader) (simp_all add: stored_def i_def)
  next
    case False
    then have i4: "\<not> i + 4 > pinlen s" "i + 4 \<le> length src"
      using assms(3) by (auto simp: wf_in_def src_def)
    then have nb: "next_byte ?s = Inr (src ! i, ?s\<lparr>pincnt := i + 1\<rparr>)"
      "next_byte (?s\<lparr>pincnt := i + 1\<rparr>) = Inr (src ! (i + 1), ?s\<lparr>pincnt := i + 2\<rparr>)"
      "next_byte (?s\<lparr>pincnt := i + 2\<rparr>) = Inr (src ! (i + 2), ?s\<lparr>pincnt := i + 3\<rparr>)"
      "next_byte (?s\<lparr>pincnt := i + 3\<rparr>) = Inr (src ! (i + 3), ?s\<lparr>pincnt := i + 4\<rparr>)"
      by (simp_all add: next_byte_def arraysimps src_def i_def)
    have st: "stored s = (
         if (ucast (src ! (i + 2)) :: uint) \<noteq> (NOT (stored_len src i) AND 255) then Inr (- 2, ?s\<lparr>pincnt := i + 3\<rparr>)
         else if (ucast (src ! (i + 3)) :: uint) \<noteq> (drop_bit 8 (NOT (stored_len src i)) AND 255)
           then Inr (- 2, ?s\<lparr>pincnt := i + 4\<rparr>)
           else if i + 4 + unat (stored_len src i) > pinlen s then Inr (2, ?s\<lparr>pincnt := i + 4\<rparr>)
           else case pout s of
             Some buf \<Rightarrow>
               if poutcnt s + unat (stored_len src i) > poutlen s then Inr (1, ?s\<lparr>pincnt := i + 4\<rparr>)
               else ebind (stored_copy (?s\<lparr>pincnt := i + 4\<rparr>) buf (unat (stored_len src i))) (\<lambda>s. Inr (0, s))
           | None \<Rightarrow> Inr (0, ?s\<lparr>poutcnt := poutcnt s + unat (stored_len src i),
                               pincnt := i + 4 + unat (stored_len src i)\<rparr>))"
      using i4(1) by (simp add: stored_def i_def [symmetric] nb nb [simplified] stored_len_def Let_def split: option.split)
    let ?c0 = "(ucast (src ! (i + 2)) :: uint) = NOT (stored_len src i) AND 255"
      and ?c1 = "(ucast (src ! (i + 3)) :: uint) = drop_bit 8 (NOT (stored_len src i)) AND 255"
    have ck: "stored_check src i \<longleftrightarrow> ?c0 \<and> ?c1" by (simp only: stored_check_def)
    consider "\<not> ?c0" | "?c0" "\<not> ?c1" | "?c0" "?c1" "i + 4 + unat (stored_len src i) > pinlen s"
      | "?c0" "?c1" "i + 4 + unat (stored_len src i) \<le> pinlen s" by linarith
    then show ?thesis
    proof cases
      case 1
      with st have "stored s = Inr (- 2, ?s\<lparr>pincnt := i + 3\<rparr>)" by (simp only: if_True not_False_eq_True)
      with 1 ck i4(1) show ?thesis by (intro mismatch [of 3]) auto
    next
      case 2
      with st have "stored s = Inr (- 2, ?s\<lparr>pincnt := i + 4\<rparr>)"
        by (simp only: if_True if_False simp_thms)
      with 2 ck i4(1) show ?thesis by (intro mismatch [of 4]) auto
    next
      case 3
      with st have "stored s = Inr (2, ?s\<lparr>pincnt := i + 4\<rparr>)"
        by (simp only: if_True if_False simp_thms)
      with 3 ck i4(1) show ?thesis by (intro noinput) simp_all
    next
      case 4
      then have nl: "(pinlen s < i + 4 + unat (stored_len src i)) = False" by simp
      show ?thesis
      proof (cases "pout s")
        case None
        with st 4(1,2) have "stored s = Inr (0, ?s\<lparr>poutcnt := poutcnt s + unat (stored_len src i),
            pincnt := i + 4 + unat (stored_len src i)\<rparr>)"
          by (simp only: nl if_False simp_thms option.case)
        with None 4 ck show ?thesis by (intro scan) simp_all
      next
        case (Some buf)
        with st 4(1,2) have st': "stored s =
            (if poutcnt s + unat (stored_len src i) > poutlen s then Inr (1, ?s\<lparr>pincnt := i + 4\<rparr>)
             else ebind (stored_copy (?s\<lparr>pincnt := i + 4\<rparr>) buf (unat (stored_len src i))) (\<lambda>s. Inr (0, s)))"
          by (simp only: nl if_False simp_thms option.case)
        show ?thesis
        proof (cases "poutcnt s + unat (stored_len src i) > poutlen s")
          case True
          with Some 4 ck st' show ?thesis by (intro full) simp_all
        next
          case False
          with Some 4 ck st' show ?thesis by (intro copy) simp_all
        qed
      qed
    qed
  qed
qed

lemma safe_stored:
  assumes wf: "wf_st s"
  shows "safe stored_result s (stored s)"
proof -
  have *: "wf_in s" "out_ok s" using wf by (auto simp: wf_st_def wf_puff_def)
  have reset: "safe stored_result s (Inr (e, s\<lparr>pbitbuf := 0, pbitcnt := 0, pincnt := j\<rparr>))"
    if "j \<le> pinlen s" "stored_result e" for j e
    using that * extends_pframe [OF *(2), of "s\<lparr>pbitbuf := 0, pbitcnt := 0, pincnt := j\<rparr>"]
    by (simp add: safe_def pframe_def wf_st_def wf_puff_def wf_in_def)
  from *(1) show ?thesis
  proof (cases rule: stored_cases)
    case noheader
    have "s\<lparr>pbitbuf := 0, pbitcnt := 0\<rparr> = s\<lparr>pbitbuf := 0, pbitcnt := 0, pincnt := pincnt s\<rparr>" by simp
    with noheader(2) reset [of "pincnt s" 2] *(1) show ?thesis by (simp only: wf_in_def) simp
  next
    case (mismatch c)
    then show ?thesis using reset [of "pincnt s + c" "- 2"] by auto
  next
    case noinput
    then show ?thesis using reset [of "pincnt s + 4" 2] by auto
  next
    case scan
    then show ?thesis using *
      by (simp add: safe_def extends_def wf_st_def wf_puff_def wf_in_def out_ok_def)
  next
    case (full buf)
    then show ?thesis using reset [of "pincnt s + 4" 1] by auto
  next
    case (copy buf)
    let ?n = "unat (stored_len (pin s) (pincnt s))"
    have le: "pincnt s + 4 + ?n \<le> length (pin s)" "poutcnt s + ?n \<le> length buf"
      using copy * by (auto simp: wf_in_def out_ok_def)
    let ?buf = "take (poutcnt s) buf @ take ?n (drop (pincnt s + 4) (pin s)) @ drop (poutcnt s + ?n) buf"
    let ?s = "s\<lparr>pbitbuf := 0, pbitcnt := 0, pincnt := pincnt s + 4 + ?n,
        poutcnt := poutcnt s + ?n, pout := Some ?buf\<rparr>"
    have "stored s = Inr (0, ?s)" using copy(5) le by (simp add: stored_copy_eq)
    moreover have "extends s ?s" using le copy(3,4) by (simp add: extends_def)
    moreover have "wf_st ?s"
      using le copy(1,3,4) * by (simp add: wf_st_def wf_puff_def wf_in_def out_ok_def)
    ultimately show ?thesis by (simp add: safe_def)
  qed
qed

section \<open>Tables\<close>

lemma first_code_zero: "\<forall>l. 1 \<le> l \<longrightarrow> cnt l = 0 \<Longrightarrow> first_code cnt m = 0"
  by (induction m) auto

lemma usable_zero:
  assumes "\<forall>l \<in> set lens. l = 0" "hcount h = counts lens"
  shows "usable h lens"
proof -
  have "\<forall>l. 1 \<le> l \<longrightarrow> count_list lens l = 0" using assms(1) by (auto simp: count_list_0_iff)
  then have "fits (count_list lens) MAXBITS" by (simp add: fits_def first_code_zero)
  with assms show ?thesis by (auto simp: usable_def table_for_def lengths_ok_def)
qed

lemma construct_usable:
  assumes "n \<le> length lengths" "lengths_ok (take n lengths)" "n \<le> length (hsymbol h0)"
  obtains left h where "construct h0 lengths n = Inr (left, h)"
    "0 \<le> left \<Longrightarrow> usable h (take n lengths)" "hcount h = counts (take n lengths)"
    "length (hsymbol h) = length (hsymbol h0)"
proof (cases rule: construct_cases [OF assms])
  case 1
  then show ?thesis
    by (intro that [of 0 "h0\<lparr>hcount := counts (take n lengths)\<rparr>"]) (simp_all add: usable_zero)
next
  case 2
  then obtain left where "left < 0"
    "construct h0 lengths n = Inr (left, h0\<lparr>hcount := counts (take n lengths)\<rparr>)" by blast
  then show ?thesis by (intro that [of left "h0\<lparr>hcount := counts (take n lengths)\<rparr>"]) simp_all
next
  case (3 h')
  then show ?thesis
    using assms(2) by (intro that [OF 3(3)]) (simp_all add: usable_def table_for_def)
qed

lemma count_list_replicate: "count_list (replicate n x) y = (if x = y then n else 0)"
  by (induction n) auto

lemma count_fixed:
  "count_list fixed_lengths = (\<lambda>l. if l = 7 then 24 else if l = 8 then 152 else if l = 9 then 112 else 0)"
  "count_list (replicate MAXDCODES 5) = (\<lambda>l. if l = 5 then 30 else (0 :: nat))"
  by (auto simp: fixed_lengths_def FIXLCODES_def MAXDCODES_def count_list_replicate)

lemma first_code_numeral: "first_code cnt (numeral k) =
    2 * (first_code cnt (pred_numeral k) + (if pred_numeral k = 0 then 0 else cnt (pred_numeral k)))"
  by (simp add: numeral_eq_Suc)

lemma fits_fixed:
  "fits (count_list fixed_lengths) MAXBITS" "fits (count_list (replicate MAXDCODES 5)) MAXBITS"
  unfolding count_fixed fits_code MAXBITS_def
  by (simp_all add: first_code_numeral upt_rec)

lemma length_fixed_lengths [simp]: "length fixed_lengths = FIXLCODES"
  by (simp add: fixed_lengths_def FIXLCODES_def)

lemma lengths_ok_fixed: "lengths_ok fixed_lengths" "lengths_ok (replicate MAXDCODES 5)"
  by (auto simp: lengths_ok_def fixed_lengths_def MAXBITS_def)

text \<open>The tables of \<open>fixed\<close>: the literal/length code is complete, the distance code is not.\<close>

lemma fixed_tables:
  obtains ll l dl d where
    "construct (huffman_arrays FIXLCODES)
       fixed_lengths FIXLCODES = Inr (ll, l)"
    "construct (huffman_arrays MAXDCODES)
       (replicate MAXDCODES 5) MAXDCODES = Inr (dl, d)"
    "usable l fixed_lengths" "usable d (replicate MAXDCODES 5)"
proof -
  have nz: "\<exists>l \<in> set fixed_lengths. l \<noteq> 0" by (simp add: fixed_lengths_def)
  obtain l where l: "construct (huffman_arrays FIXLCODES)
       fixed_lengths FIXLCODES = Inr (codes_left (count_list fixed_lengths) MAXBITS, l)" "table_for l fixed_lengths"
    using construct_cases [of FIXLCODES fixed_lengths "huffman_arrays FIXLCODES"]
      fits_fixed(1) lengths_ok_fixed(1) nz by auto
  obtain d where d: "construct (huffman_arrays MAXDCODES)
       (replicate MAXDCODES 5) MAXDCODES = Inr (codes_left (count_list (replicate MAXDCODES 5)) MAXBITS, d)"
      "table_for d (replicate MAXDCODES 5)"
    using construct_cases [of MAXDCODES "replicate MAXDCODES 5" "huffman_arrays MAXDCODES"]
      fits_fixed(2) lengths_ok_fixed(2) by (auto simp: MAXDCODES_def)
  from l d fits_fixed lengths_ok_fixed that show ?thesis by (simp add: usable_def)
qed

lemma safe_fixed:
  assumes "wf_st s"
  shows "safe codes_result s (fixed s)"
proof (rule fixed_tables)
  fix ll l dl d
  assume c: "construct (huffman_arrays FIXLCODES)
       fixed_lengths FIXLCODES = Inr (ll, l)"
    "construct (huffman_arrays MAXDCODES)
       (replicate MAXDCODES 5) MAXDCODES = Inr (dl, d)"
    and u: "usable l fixed_lengths" "usable d (replicate MAXDCODES 5)"
  have "safe codes_result s (codes s l d)"
    by (rule safe_codes [OF assms u]) (simp add: MAXDCODES_def)
  then show ?thesis by (simp only: fixed_def c ebind_simps prod.case)
qed

section \<open>Dynamic blocks\<close>

lemma order_bound: "i < 19 \<Longrightarrow> order ! i < 19"
  by (simp add: order_def nth_Cons split: nat.splits)

text \<open>The array \<open>lengths\<close> of \<open>dynamic\<close> at any point: \<open>MAXCODES\<close> entries of at most 15.\<close>

definition wf_lengths :: "nat list \<Rightarrow> bool" where
  "wf_lengths ls \<longleftrightarrow> length ls = MAXCODES \<and> lengths_ok ls"

lemma lengths_ok_update: "lengths_ok ls \<Longrightarrow> v \<le> MAXBITS \<Longrightarrow> lengths_ok (ls[i := v])"
  by (auto simp: lengths_ok_def dest: set_update_subset_insert [THEN subsetD])

lemma wf_lengths_update: "wf_lengths ls \<Longrightarrow> v \<le> MAXBITS \<Longrightarrow> wf_lengths (ls[i := v])"
  by (simp add: wf_lengths_def lengths_ok_update)

lemma lengths_ok_take_drop: "wf_lengths ls \<Longrightarrow> lengths_ok (take n ls)" "wf_lengths ls \<Longrightarrow> lengths_ok (take n (drop m ls))"
  by (auto simp: wf_lengths_def lengths_ok_def dest: in_set_takeD in_set_dropD)

lemma safe_read_lenlens:
  "wf_st s \<Longrightarrow> wf_lengths ls \<Longrightarrow> safe wf_lengths s (read_lenlens s ls is)"
proof (induction "is" arbitrary: s ls)
  case (Cons i "is")
  then show ?case
    by (auto intro!: safe_bind [OF safe_bits] Cons.IH wf_lengths_update simp: MAXBITS_def)
qed (simp add: safe_Inr)

lemma wf_clear_lenlens: "wf_lengths ls \<Longrightarrow> wf_lengths (clear_lenlens ls is)"
  by (induction ls "is" rule: clear_lenlens.induct) (auto simp: wf_lengths_update)

lemma wf_fill_lengths:
  "wf_lengths ls \<Longrightarrow> len \<le> MAXBITS \<Longrightarrow> i + n \<le> MAXCODES \<Longrightarrow>
    \<exists>ls'. fill_lengths ls i len n = Inr ls' \<and> wf_lengths ls'"
proof (induction ls i len n rule: fill_lengths.induct)
  case (2 ls i len n)
  have "wf_lengths (ls[i := len])" using "2.prems" by (simp add: wf_lengths_update)
  moreover have "aset ls i len = Some (ls[i := len])"
    using "2.prems" by (simp add: arraysimps wf_lengths_def)
  ultimately show ?case using "2.IH" "2.prems" by auto
qed auto

lemma safe_repeat_code:
  assumes "wf_st s" "wf_lengths ls" "i < MAXCODES"
  shows "safe (\<lambda>r. case r of Inl e \<Rightarrow> e = - 5 | Inr (len, n) \<Rightarrow> len \<le> MAXBITS \<and> 1 \<le> n) s (repeat_code s ls i v)"
proof -
  have "ls ! (i - 1) \<le> MAXBITS" "i - 1 < length ls"
    using assms(2,3) by (auto simp: wf_lengths_def lengths_ok_def)
  then show ?thesis using assms(1)
    by (auto simp: repeat_code_def arraysimps intro!: safe_bind [OF safe_bits] safe_Inr)
qed

abbreviation lengths_result :: "int \<times> nat list \<Rightarrow> bool" where
  "lengths_result r \<equiv> fst r \<in> {0, - 5, - 6, - 10} \<and> wf_lengths (snd r)"

lemma safe_read_lengths:
  assumes "wf_st s" "usable h lens" "wf_lengths ls" "tot \<le> MAXCODES"
  shows "safe lengths_result s (read_lengths s h ls i tot)"
  using assms
proof (induction s h ls i tot rule: read_lengths.induct)
  case (1 s h ls i tot)
  show ?case
  proof (cases "i < tot")
    case False
    with "1.prems" show ?thesis by (subst read_lengths.simps) (simp add: safe_Inr)
  next
    case True
    note IH = "1.IH"(1) [OF True _ refl] "1.IH"(2) [OF True _ refl]
    have i: "i < length ls" "i < MAXCODES" using True "1.prems"(3,4) by (auto simp: wf_lengths_def)
    have len: "safe lengths_result s1 (read_lengths s1 h (ls[i := nat v]) (i + 1) tot)"
      if "decode s h = Inr (v, s1)" "wf_st s1" "\<not> v < 0" "v < 16" for v s1
    proof (rule IH(1) [OF that(1,3,4)])
      show "oob (aset ls i (nat v)) = Inr (ls[i := nat v])" using i by (simp add: arraysimps)
      show "wf_lengths (ls[i := nat v])"
        using that "1.prems"(3) by (intro wf_lengths_update) (auto simp: MAXBITS_def)
    qed (use that "1.prems" in auto)
    have rep: "safe lengths_result s2 (if i + n > tot then Inr ((- 6, ls), s2)
        else ebind (fill_lengths ls i l n) (\<lambda>ls. read_lengths s2 h ls (i + n) tot))"
      if r: "decode s h = Inr (v, s1)" "\<not> v < 0" "\<not> v < 16" "repeat_code s1 ls i v = Inr (Inr (l, n), s2)"
        "wf_st s2" "l \<le> MAXBITS" for v s1 s2 l n
    proof (cases "i + n > tot")
      case False
      then obtain ls' where f: "fill_lengths ls i l n = Inr ls'" "wf_lengths ls'"
        using wf_fill_lengths [OF "1.prems"(3) r(6), of i n] "1.prems"(4) by auto
      show ?thesis
        using IH(2) [OF r(1-4) refl refl refl False f(1) r(5) "1.prems"(2) f(2) "1.prems"(4)] False
        by (simp add: f(1))
    qed (use r "1.prems" in \<open>simp add: safe_Inr\<close>)
    have tail: "safe lengths_result s1 (ebind (repeat_code s1 ls i v) (\<lambda>(r, s). case r of
        Inl err \<Rightarrow> Inr ((err, ls), s)
      | Inr (len, n) \<Rightarrow> if i + n > tot then Inr ((- 6, ls), s)
          else ebind (fill_lengths ls i len n) (\<lambda>ls. read_lengths s h ls (i + n) tot)))"
      if "decode s h = Inr (v, s1)" "wf_st s1" "\<not> v < 0" "\<not> v < 16" for v s1
      by (rule safe_bind [OF safe_repeat_code [OF that(2) "1.prems"(3) i(2)]])
        (use rep [OF that(1,3,4)] "1.prems"(3) in \<open>auto intro: safe_Inr split: sum.splits prod.splits\<close>)
    show ?thesis
      by (subst read_lengths.simps, simp only: True if_True,
          rule safe_bind [OF safe_decode [OF "1.prems"(1,2)]])
        (use len tail i "1.prems"(3) in \<open>auto simp: arraysimps intro: safe_Inr\<close>)
  qed
qed

abbreviation block_result :: "int \<Rightarrow> bool" where
  "block_result e \<equiv> - 11 \<le> e \<and> e \<le> 2"

lemma safe_dynamic_codes:
  assumes "wf_st s" "wf_lengths ls" "nlen \<le> MAXLCODES" "ndist \<le> MAXDCODES"
    "length (hsymbol lencode) = MAXLCODES"
  shows "safe block_result s (dynamic_codes s lencode ls nlen ndist)"
proof -
  have n: "nlen \<le> length ls" "ndist \<le> length (drop nlen ls)"
    using assms by (auto simp: wf_lengths_def MAXCODES_def)
  obtain e1 l where l: "construct lencode ls nlen = Inr (e1, l)" "0 \<le> e1 \<Longrightarrow> usable l (take nlen ls)"
    using construct_usable [OF n(1) lengths_ok_take_drop(1) [OF assms(2)], of lencode] assms by metis
  obtain e2 d where d: "construct (huffman_arrays MAXDCODES)
      (drop nlen ls) ndist = Inr (e2, d)" "0 \<le> e2 \<Longrightarrow> usable d (take ndist (drop nlen ls))"
    using construct_usable [OF n(2) lengths_ok_take_drop(2) [OF assms(2)],
        of "huffman_arrays MAXDCODES"] assms(4)
    by (metis huffman_arrays_simps length_replicate)
  have "safe block_result s (codes s l d)" if "0 \<le> e1" "0 \<le> e2"
  proof -
    have "length (take ndist (drop nlen ls)) \<le> 30" using assms(4) by (simp add: MAXDCODES_def)
    from safe_codes [OF assms(1) l(2) [OF that(1)] d(2) [OF that(2)] this] show ?thesis
      by (rule safe_weaken) auto
  qed
  then show ?thesis using assms(1) by (auto simp: dynamic_codes_def l(1) d(1) intro: safe_Inr)
qed

lemma wf_lengths_init: "wf_lengths (replicate MAXCODES 0)"
  by (simp add: wf_lengths_def lengths_ok_def)

lemma safe_dynamic_lengths:
  assumes "wf_st s" "wf_lengths ls" "nlen \<le> MAXLCODES" "ndist \<le> MAXDCODES"
  shows "safe block_result s (dynamic_lengths s ls nlen ndist)"
proof -
  have n: "19 \<le> length ls" "nlen + ndist \<le> MAXCODES"
    using assms by (auto simp: wf_lengths_def MAXCODES_def MAXLCODES_def)
  have "19 \<le> length (hsymbol (huffman_arrays MAXLCODES))" by (simp add: MAXLCODES_def)
  from construct_usable [OF n(1) lengths_ok_take_drop(1) [OF assms(2)] this]
  obtain e h where c: "construct (huffman_arrays MAXLCODES) ls 19 = Inr (e, h)"
    "0 \<le> e \<Longrightarrow> usable h (take 19 ls)" "length (hsymbol h) = MAXLCODES"
    by (metis huffman_arrays_simps length_replicate)
  show ?thesis
  proof (cases "e = 0")
    case True
    then have u: "usable h (take 19 ls)" using c(2) by simp
    show ?thesis unfolding dynamic_lengths_def c(1) ebind_simps prod.case True
      by (simp only: simp_thms if_False, rule safe_bind [OF safe_read_lengths [OF assms(1) u assms(2) n(2)]])
        (use assms(3,4) c(3) in \<open>auto intro!: safe_Inr safe_dynamic_codes\<close>)
  qed (use assms(1) c(1) in \<open>simp add: dynamic_lengths_def safe_Inr\<close>)
qed

lemma safe_dynamic:
  assumes "wf_st s"
  shows "safe block_result s (dynamic s)"
  unfolding dynamic_def Let_def
  by (rule safe_bind [OF safe_bits [OF assms]], rule safe_bind [OF safe_bits], assumption,
      rule safe_bind [OF safe_bits], assumption)
    (auto simp: not_less intro!: safe_Inr
      safe_bind [OF safe_read_lenlens [OF _ wf_lengths_init]] safe_dynamic_lengths wf_clear_lenlens)

section \<open>The whole inflater\<close>

lemma safe_block: "wf_st s \<Longrightarrow> safe block_result s (block s type)"
  by (auto simp: block_def intro: safe_Inr safe_dynamic safe_weaken [OF safe_stored] safe_weaken [OF safe_fixed])

lemma safe_puff_blocks: "wf_st s \<Longrightarrow> safe block_result s (puff_blocks s)"
proof (induction s rule: puff_blocks.induct)
  case (1 s)
  show ?case
    by (subst puff_blocks.simps, rule safe_bind [OF safe_bits [OF "1.prems"]],
        rule safe_bind [OF safe_bits], assumption, rule safe_bind [OF safe_block], assumption)
      (use "1.IH" in \<open>auto intro: safe_Inr\<close>)
qed

lemma wf_st_puff_init:
  assumes "sourcelen \<le> length source" "case dest of None \<Rightarrow> True | Some buf \<Rightarrow> destlen \<le> length buf"
  shows "wf_st (puff_init dest destlen source sourcelen)"
  using assms by (auto simp: wf_st_def wf_puff_def wf_in_def out_ok_def puff_init_def split: option.splits)



end
