(* ===== verification/Deflate_Format.thy ===== *)
theory Deflate_Format
  imports Puff_Safety
begin

text \<open>
  The DEFLATE format as a relation between bit strings and the bytes they stand for: tokens,
  their codes, the blocks and the stream. It is what \<open>trees.c\<close> writes and what \<open>puff.c\<close>
  and \<open>inflate.c\<close> read; the two sides are verified against it separately.
\<close>

section \<open>Tokens\<close>

datatype token = Literal byte | Match nat nat

text \<open>A match copies \<open>len\<close> bytes from \<open>dist\<close> back, byte by byte: the copy may overlap itself.\<close>

fun lz_copy :: "byte list \<Rightarrow> nat \<Rightarrow> nat \<Rightarrow> byte list" where
  "lz_copy out 0 dist = out"
| "lz_copy out (Suc len) dist = lz_copy (out @ [out ! (length out - dist)]) len dist"

fun lz_expand :: "byte list \<Rightarrow> token list \<Rightarrow> byte list option" where
  "lz_expand out [] = Some out"
| "lz_expand out (Literal b # ts) = lz_expand (out @ [b]) ts"
| "lz_expand out (Match len dist # ts) =
     (if 1 \<le> dist \<and> dist \<le> length out then lz_expand (lz_copy out len dist) ts else None)"

lemma length_lz_copy [simp]: "length (lz_copy out len dist) = length out + len"
  by (induction out len dist rule: lz_copy.induct) auto

lemma lz_copy_prefix: "\<exists>ys. lz_copy out len dist = out @ ys"
  by (induction out len dist rule: lz_copy.induct) auto

lemma lz_expand_prefix: "lz_expand out ts = Some out' \<Longrightarrow> \<exists>ys. out' = out @ ys"
proof (induction out ts rule: lz_expand.induct)
  case (3 out len dist ts)
  then obtain ys where "out' = lz_copy out len dist @ ys" by (auto split: if_splits)
  moreover obtain zs where "lz_copy out len dist = out @ zs" using lz_copy_prefix by blast
  ultimately show ?case by simp
qed auto

lemma lz_expand_length: "lz_expand out ts = Some out' \<Longrightarrow> length out \<le> length out'"
  by (auto dest: lz_expand_prefix)

section \<open>Codes of tokens\<close>

text \<open>
  \<open>token_code ll dl t bs\<close>: with literal/length code lengths \<open>ll\<close> and distance code lengths
  \<open>dl\<close> the token \<open>t\<close> may be written as \<open>bs\<close>.
\<close>

inductive token_code :: "nat list \<Rightarrow> nat list \<Rightarrow> token \<Rightarrow> bitstring \<Rightarrow> bool"
  for ll dl :: "nat list" where
  literal: "unat b < length ll \<Longrightarrow> ll ! unat b \<noteq> 0 \<Longrightarrow> token_code ll dl (Literal b) (canon_bits ll (unat b))"
| match: "k < 29 \<Longrightarrow> 257 + k < length ll \<Longrightarrow> ll ! (257 + k) \<noteq> 0 \<Longrightarrow> x < 2 ^ (lext ! k) \<Longrightarrow>
    d < length dl \<Longrightarrow> d < 30 \<Longrightarrow> dl ! d \<noteq> 0 \<Longrightarrow> y < 2 ^ (dext ! d) \<Longrightarrow>
    token_code ll dl (Match (lens_base ! k + x) (dists ! d + y))
      (canon_bits ll (257 + k) @ nat_bits (lext ! k) x @ canon_bits dl d @ nat_bits (dext ! d) y)"

inductive_cases token_code_LiteralE: "token_code ll dl (Literal b) bs"
inductive_cases token_code_MatchE: "token_code ll dl (Match len dist) bs"

text \<open>A sequence of tokens and the end-of-block code.\<close>

inductive tokens_code :: "nat list \<Rightarrow> nat list \<Rightarrow> token list \<Rightarrow> bitstring \<Rightarrow> bool"
  for ll dl :: "nat list" where
  end_block: "256 < length ll \<Longrightarrow> ll ! 256 \<noteq> 0 \<Longrightarrow> tokens_code ll dl [] (canon_bits ll 256)"
| token: "token_code ll dl t bs \<Longrightarrow> tokens_code ll dl ts cs \<Longrightarrow> tokens_code ll dl (t # ts) (bs @ cs)"

inductive_cases tokens_code_NilE: "tokens_code ll dl [] bs"
inductive_cases tokens_code_ConsE: "tokens_code ll dl (t # ts) bs"

section \<open>The produced side of \<open>puff\<close>\<close>

definition produced :: "pstate \<Rightarrow> byte list" where
  "produced s = (case pout s of None \<Rightarrow> [] | Some buf \<Rightarrow> take (poutcnt s) buf)"

definition wf_out :: "pstate \<Rightarrow> bool" where
  "wf_out s \<longleftrightarrow> wf_st s \<and> pout s \<noteq> None"

lemma wf_outE:
  assumes "wf_out s"
  obtains buf where "pout s = Some buf" "poutlen s \<le> length buf" "poutcnt s \<le> poutlen s"
    "produced s = take (poutcnt s) buf" "length (produced s) = poutcnt s" "wf_puff s"
  using assms by (auto simp: wf_out_def wf_st_def out_ok_def produced_def)

text \<open>The fields that an operation on the input leaves alone.\<close>

lemma pframe_wf_out:
  assumes "wf_out s" "pframe s' = pframe s" "wf_puff s'"
  shows "wf_out s'" "produced s' = produced s" "poutlen s' = poutlen s" "poutcnt s' = poutcnt s"
  using assms by (auto simp: wf_out_def wf_st_def out_ok_def produced_def pframe_def split: option.splits)

lemma extends_out:
  assumes "wf_out s" "extends s s'" "wf_st s'"
  shows "wf_out s'" "poutlen s' = poutlen s" "\<exists>ys. produced s' = produced s @ ys"
proof -
  from assms obtain buf buf' where b: "pout s = Some buf" "pout s' = Some buf'"
    "poutcnt s \<le> poutcnt s'" "take (poutcnt s) buf' = take (poutcnt s) buf"
    by (auto simp: wf_out_def extends_def split: option.splits)
  then have "produced s' = produced s @ take (poutcnt s' - poutcnt s) (drop (poutcnt s) buf')"
    by (simp add: produced_def) (metis le_add_diff_inverse take_add)
  then show "\<exists>ys. produced s' = produced s @ ys" by blast
qed (use assms in \<open>auto simp: wf_out_def extends_def split: option.splits\<close>)

subsection \<open>Literals\<close>

lemma emit_literal_cases:
  assumes "wf_out s"
  obtains (full) "poutcnt s = poutlen s" "emit_literal s b = Inr (1, s)"
  | (ok) s' where "poutcnt s < poutlen s" "emit_literal s b = Inr (0, s')" "wf_out s'" "produced s' = produced s @ [b]"
      "rest s' = rest s" "poutlen s' = poutlen s"
proof (rule wf_outE [OF assms])
  fix buf assume b: "pout s = Some buf" "poutlen s \<le> length buf" "poutcnt s \<le> poutlen s" "wf_puff s"
  show ?thesis
  proof (cases "poutcnt s = poutlen s")
    case True
    then show ?thesis using b by (intro full) (simp_all add: emit_literal_def)
  next
    case False
    let ?s = "s\<lparr>pout := Some (buf[poutcnt s := b]), poutcnt := poutcnt s + 1\<rparr>"
    have "emit_literal s b = Inr (0, ?s)"
      using b False by (simp add: emit_literal_def arraysimps)
    moreover have "wf_out ?s"
      using b False by (simp add: wf_out_def wf_st_def out_ok_def wf_puff_def wf_in_def)
    moreover have "produced ?s = produced s @ [b]"
      using b False by (simp add: produced_def take_Suc_conv_app_nth)
    ultimately show ?thesis using b False
      by (intro ok [of ?s]) (simp_all add: rest_def buffered_def unread_def)
  qed
qed

subsection \<open>Matches\<close>

lemma copy_loop_lz_copy:
  assumes "1 \<le> dist" "dist \<le> outcnt" "outcnt + len \<le> length buf"
  shows "\<exists>buf'. copy_loop buf outcnt dist len = Inr buf' \<and> length buf' = length buf \<and>
    take (outcnt + len) buf' = lz_copy (take outcnt buf) len dist"
  using assms
proof (induction buf outcnt dist len rule: copy_loop.induct)
  case (2 buf outcnt dist len)
  let ?buf = "buf[outcnt := buf ! (outcnt - dist)]"
  have "oob (aget buf (outcnt - dist)) = Inr (buf ! (outcnt - dist))"
    "oob (aset buf outcnt (buf ! (outcnt - dist))) = Inr ?buf" "\<not> outcnt < dist"
    using "2.prems" by (simp_all add: arraysimps)
  with "2.IH" [of "buf ! (outcnt - dist)" ?buf] "2.prems" obtain buf' where
    b: "copy_loop ?buf (outcnt + 1) dist len = Inr buf'" "length buf' = length buf"
      "take (outcnt + 1 + len) buf' = lz_copy (take (outcnt + 1) ?buf) len dist" by auto
  have "take (outcnt + 1) ?buf = take outcnt buf @ [take outcnt buf ! (length (take outcnt buf) - dist)]"
    using "2.prems" by (simp add: take_Suc_conv_app_nth)
  with b "2.prems" show ?case by (simp add: arraysimps)
qed simp

lemma copy_match_cases:
  assumes "wf_out s" "1 \<le> dist" "dist \<le> poutcnt s"
  obtains (full) "poutlen s < poutcnt s + len" "copy_match s len dist = Inr (1, s)"
  | (ok) s' where "poutcnt s + len \<le> poutlen s" "copy_match s len dist = Inr (0, s')" "wf_out s'"
      "produced s' = lz_copy (produced s) len dist" "rest s' = rest s" "poutlen s' = poutlen s"
proof (rule wf_outE [OF assms(1)])
  fix buf assume b: "pout s = Some buf" "poutlen s \<le> length buf" "poutcnt s \<le> poutlen s" "wf_puff s"
  show ?thesis
  proof (cases "poutlen s < poutcnt s + len")
    case True
    then show ?thesis using b by (intro full) (simp_all add: copy_match_def)
  next
    case False
    then obtain buf' where c: "copy_loop buf (poutcnt s) dist len = Inr buf'" "length buf' = length buf"
      "take (poutcnt s + len) buf' = lz_copy (take (poutcnt s) buf) len dist"
      using copy_loop_lz_copy [of dist "poutcnt s" len buf] assms b by auto
    let ?s = "s\<lparr>pout := Some buf', poutcnt := poutcnt s + len\<rparr>"
    have "copy_match s len dist = Inr (0, ?s)"
      using b False c by (simp add: copy_match_def)
    moreover have "wf_out ?s"
      using b False c by (simp add: wf_out_def wf_st_def out_ok_def wf_puff_def wf_in_def)
    moreover have "produced ?s = lz_copy (produced s) len dist"
      using b c by (simp add: produced_def)
    ultimately show ?thesis using b False
      by (intro ok [of ?s]) (simp_all add: rest_def buffered_def unread_def)
  qed
qed

section \<open>\<open>codes\<close> reads token sequences\<close>

lemma codes_step:
  assumes "decode s l = Inr (int k, s1)"
  shows "k < 256 \<Longrightarrow> codes s l d = ebind (emit_literal s1 (of_nat k)) (\<lambda>(err, s).
      if err \<noteq> 0 then Inr (err, s) else codes s l d)"
    and "k = 256 \<Longrightarrow> codes s l d = Inr (0, s1)"
    and "257 \<le> k \<Longrightarrow> codes s l d = ebind (codes_match s1 d (k - 257)) (\<lambda>(err, s).
      if err \<noteq> 0 then Inr (err, s) else codes s l d)"
  by (subst codes.simps, simp add: assms nat_diff_distrib)+

lemma codes_match_run:
  assumes wf: "wf_out s" and u: "usable h dl" and k: "k < 29" "x < 2 ^ (lext ! k)"
    and dd: "dd < length dl" "dd < 30" "dl ! dd \<noteq> 0" "y < 2 ^ (dext ! dd)"
    and r: "rest s = nat_bits (lext ! k) x @ canon_bits dl dd @ nat_bits (dext ! dd) y @ bs"
  obtains s1 where "wf_out s1" "produced s1 = produced s" "rest s1 = bs" "poutlen s1 = poutlen s"
    "poutcnt s1 = poutcnt s"
    "codes_match s h k = (if dists ! dd + y > poutcnt s1 then Inr (- 11, s1)
      else copy_match s1 (lens_base ! k + x) (dists ! dd + y))"
proof -
  have wfp: "wf_puff s" using wf by (simp add: wf_out_def wf_st_def)
  obtain s1 where s1: "bits s (lext ! k) = Inr (x, s1)" "rest s1 = canon_bits dl dd @ nat_bits (dext ! dd) y @ bs"
    "pframe s1 = pframe s" "wf_puff s1"
    using puff_bits.get_written [OF wfp r k(2)] by blast
  obtain s2 where s2: "decode s1 h = Inr (int dd, s2)" "wf_puff s2" "pframe s2 = pframe s1"
    "rest s2 = nat_bits (dext ! dd) y @ bs"
    using fast.dec_code [OF s1(4) u dd(1,3) s1(2)] by blast
  obtain s3 where s3: "bits s2 (dext ! dd) = Inr (y, s3)" "rest s3 = bs" "pframe s3 = pframe s2" "wf_puff s3"
    using puff_bits.get_written [OF s2(2,4) dd(4)] by blast
  have fr: "pframe s3 = pframe s" using s1 s2 s3 by simp
  have "codes_match s h k = (if dists ! dd + y > poutcnt s3 then Inr (- 11, s3)
      else copy_match s3 (lens_base ! k + x) (dists ! dd + y))"
    using k dd s1(1) s2(1) s3(1) by (simp add: codes_match_def Let_def arraysimps length_tables)
  with pframe_wf_out [OF wf fr s3(4)] s3(2) that show ?thesis by blast
qed

lemma codes_complete:
  assumes "tokens_code ll dl ts cs" "wf_out s" "usable l ll" "usable d dl"
    and "rest s = cs @ bs" "lz_expand (produced s) ts = Some out" "length out \<le> poutlen s"
  shows "\<exists>s'. codes s l d = Inr (0, s') \<and> wf_out s' \<and> produced s' = out \<and> rest s' = bs \<and> poutlen s' = poutlen s"
  using assms(1,2,5-)
proof (induction ts cs arbitrary: s)
  case end_block
  then have "wf_puff s" by (simp add: wf_out_def wf_st_def)
  from fast.dec_code [OF this assms(3) end_block(1,2,4)] obtain s' where
    s': "decode s l = Inr (int 256, s')" "wf_puff s'" "pframe s' = pframe s" "rest s' = bs" by blast
  with codes_step(2) [OF s'(1) refl] pframe_wf_out [OF end_block(3) s'(3,2)] end_block show ?case by simp
next
  case (token t tb ts cs)
  have wfp: "wf_puff s" using token.prems(1) by (simp add: wf_out_def wf_st_def)
  have r: "rest s = tb @ cs @ bs" using token.prems(2) by simp
  from token.hyps(1) show ?case
  proof cases
    case (literal b)
    from fast.dec_code [OF wfp assms(3) literal(3,4)] r literal(2) obtain s1 where
      s1: "decode s l = Inr (int (unat b), s1)" "wf_puff s1" "pframe s1 = pframe s" "rest s1 = cs @ bs" by auto
    note w = pframe_wf_out [OF token.prems(1) s1(3,2)]
    have exp: "lz_expand (produced s @ [b]) ts = Some out" using token.prems(3) literal(1) by simp
    have "length (produced s) < length out" using lz_expand_length [OF exp] by simp
    moreover have "length (produced s) = poutcnt s1"
      using w(1,2) by (metis wf_outE)
    ultimately have lt: "poutcnt s1 < poutlen s1" using token.prems(4) w(3) by simp
    obtain s2 where s2: "emit_literal s1 b = Inr (0, s2)" "wf_out s2" "produced s2 = produced s1 @ [b]"
      "rest s2 = rest s1" "poutlen s2 = poutlen s1"
      using emit_literal_cases [OF w(1), of b] lt by (metis nat_neq_iff)
    have "codes s l d = codes s2 l d"
      using codes_step(1) [OF s1(1), of d] unat_byte_bound [of b] s2(1) by simp
    with token.IH [of s2] s2 s1 w exp token.prems(4) show ?thesis by simp
  next
    case (match k x dd y)
    from fast.dec_code [OF wfp assms(3) match(4,5)] r match(2) obtain s1 where
      s1: "decode s l = Inr (int (257 + k), s1)" "wf_puff s1" "pframe s1 = pframe s"
        "rest s1 = nat_bits (lext ! k) x @ canon_bits dl dd @ nat_bits (dext ! dd) y @ cs @ bs" by auto
    note w = pframe_wf_out [OF token.prems(1) s1(3,2)]
    from codes_match_run [OF w(1) assms(4) match(3,6-10) s1(4)] obtain s2 where
      s2: "wf_out s2" "produced s2 = produced s1" "rest s2 = cs @ bs" "poutlen s2 = poutlen s1"
      "poutcnt s2 = poutcnt s1"
      "codes_match s1 d k = (if dists ! dd + y > poutcnt s2 then Inr (- 11, s2)
        else copy_match s2 (lens_base ! k + x) (dists ! dd + y))" by blast
    let ?len = "lens_base ! k + x" and ?dist = "dists ! dd + y"
    have cnt: "length (produced s) = poutcnt s2" using s2(1,2) w(2) by (metis wf_outE)
    have exp: "1 \<le> ?dist" "?dist \<le> poutcnt s2" "lz_expand (lz_copy (produced s) ?len ?dist) ts = Some out"
      using token.prems(3) match(1) cnt by (auto split: if_splits)
    have "poutcnt s2 + ?len \<le> poutlen s2"
      using lz_expand_length [OF exp(3)] token.prems(4) w(3) s2(4) cnt by simp
    then obtain s3 where s3: "copy_match s2 ?len ?dist = Inr (0, s3)" "wf_out s3"
      "produced s3 = lz_copy (produced s2) ?len ?dist" "rest s3 = rest s2" "poutlen s3 = poutlen s2"
      using copy_match_cases [OF s2(1) exp(1,2), of ?len] by (metis not_le)
    have "codes s l d = codes s3 l d"
      using codes_step(3) [OF s1(1), of d] s2(6) exp(2) s3(1) by simp
    with token.IH [of s3] s3 s2 s1 w exp token.prems(4) show ?thesis by simp
  qed
qed

lemma codes_match_sound:
  assumes wf: "wf_out s" and u: "usable h dl" "length dl \<le> 30" and run: "codes_match s h k = Inr (0, s')"
  obtains x dd y where "k < 29" "x < 2 ^ (lext ! k)" "dd < length dl" "dd < 30" "dl ! dd \<noteq> 0" "y < 2 ^ (dext ! dd)"
    "rest s = nat_bits (lext ! k) x @ canon_bits dl dd @ nat_bits (dext ! dd) y @ rest s'"
    "1 \<le> dists ! dd + y" "dists ! dd + y \<le> length (produced s)"
    "produced s' = lz_copy (produced s) (lens_base ! k + x) (dists ! dd + y)" "wf_out s'" "poutlen s' = poutlen s"
proof -
  have wfp: "wf_puff s" using wf by (simp add: wf_out_def wf_st_def)
  have k: "k < 29" using run by (auto simp: codes_match_def split: if_splits)
  with run obtain x s1 v s2 where b: "bits s (lext ! k) = Inr (x, s1)" "decode s1 h = Inr (v, s2)" "0 \<le> v"
    by (auto simp: codes_match_def ebind_Inr_iff Let_def split: if_splits)
  note g1 = puff_bits.get_prefix [OF wfp b(1)]
  from fast.dec_sound [OF g1(4) u(1) b(2,3)] obtain dd where
    dd: "dd < length dl" "v = int dd" "dl ! dd \<noteq> 0" "rest s1 = canon_bits dl dd @ rest s2" "wf_puff s2" "pframe s2 = pframe s1"
    by blast
  have d30: "dd < 30" using dd(1) u(2) by simp
  then have tab: "oob (aget dists dd) = Inr (dists ! dd)" "oob (aget dext dd) = Inr (dext ! dd)"
    by (simp_all add: arraysimps length_tables)
  from run k b dd(2) tab obtain y s3 where c: "bits s2 (dext ! dd) = Inr (y, s3)"
    by (auto simp: codes_match_def ebind_Inr_iff Let_def split: if_splits)
  note g3 = puff_bits.get_prefix [OF dd(5) c]
  let ?dist = "dists ! dd + y" and ?len = "lens_base ! k + x"
  from run k b dd(2) tab c have m: "?dist \<le> poutcnt s3" "copy_match s3 ?len ?dist = Inr (0, s')"
    by (auto simp: codes_match_def Let_def split: if_splits)
  have fr: "pframe s3 = pframe s" using g1 g3 dd by simp
  note w = pframe_wf_out [OF wf fr g3(4)]
  have d1: "1 \<le> ?dist" using dists_pos [OF d30] by simp
  have cnt: "length (produced s) = poutcnt s3" using w(1,2) by (metis wf_outE)
  show ?thesis
  proof (cases rule: copy_match_cases [OF w(1) d1 m(1), of ?len])
    case (2 t)
    with m(2) have "t = s'" by simp
    with 2 w g1 g3 dd m cnt d1 d30 k show ?thesis
      by (intro that [of x dd y]) simp_all
  qed (use m in simp)
qed

lemma codes_sound:
  assumes "codes s l d = Inr (0, s')" "wf_out s" "usable l ll" "usable d dl" "length dl \<le> 30"
  shows "\<exists>ts cs. tokens_code ll dl ts cs \<and> rest s = cs @ rest s' \<and>
    lz_expand (produced s) ts = Some (produced s') \<and> wf_out s' \<and> poutlen s' = poutlen s"
  using assms
proof (induction s l d rule: codes.induct)
  case (1 s l d)
  have wfp: "wf_puff s" using "1.prems"(2) by (simp add: wf_out_def wf_st_def)
  from "1.prems"(1) obtain v s1 where d: "decode s l = Inr (v, s1)"
    by (subst (asm) codes.simps) (auto simp: ebind_Inr_iff)
  with "1.prems"(1) have v: "0 \<le> v" by (subst (asm) codes.simps) (auto split: if_splits)
  from fast.dec_sound [OF wfp "1.prems"(3) d v] obtain k where
    k: "k < length ll" "v = int k" "ll ! k \<noteq> 0" "rest s = canon_bits ll k @ rest s1" "wf_puff s1" "pframe s1 = pframe s"
    by blast
  note w = pframe_wf_out [OF "1.prems"(2) k(6,5)]
  note step = codes_step [OF d [unfolded k(2)], of d]
  consider "k < 256" | "k = 256" | "257 \<le> k" by linarith
  then show ?case
  proof cases
    case 1
    have bk: "unat (of_nat k :: byte) = k" using 1 by (simp add: unat_of_nat take_bit_nat_eq_self)
    from step(1) [OF 1, unfolded \<open>codes s l d = Inr (0, s')\<close>, symmetric] obtain s2 where
      e: "emit_literal s1 (of_nat k) = Inr (0, s2)" "codes s2 l d = Inr (0, s')"
      by (auto simp: ebind_Inr_iff split: if_splits)
    from emit_literal_cases [OF w(1), of "of_nat k"] e(1) have
      s2: "wf_out s2" "produced s2 = produced s @ [of_nat k]" "rest s2 = rest s1" "poutlen s2 = poutlen s"
      using w by auto
    have "emit_literal s1 (of_int v) = Inr (0, s2)" using e(1) by (simp add: k(2))
    from "1.IH"(1) [OF d refl _ _ this refl] 1 k(2) e(2) s2(1) "1.prems"(3-) obtain ts cs where
      IH: "tokens_code ll dl ts cs" "rest s2 = cs @ rest s'" "lz_expand (produced s2) ts = Some (produced s')"
        "wf_out s'" "poutlen s' = poutlen s2" by auto
    have "tokens_code ll dl (Literal (of_nat k) # ts) (canon_bits ll (unat (of_nat k :: byte)) @ cs)"
      using k(1,3) by (intro tokens_code.token token_code.literal IH(1)) (simp_all only: bk simp_thms)
    then show ?thesis
      using IH s2 k(4) by (intro exI [of _ "Literal (of_nat k) # ts"] exI [of _ "canon_bits ll k @ cs"]) (simp add: bk)
  next
    case 2
    with step(2) \<open>codes s l d = Inr (0, s')\<close> have "s' = s1" by simp
    with 2 k w show ?thesis
      by (intro exI [of _ "[]"] exI [of _ "canon_bits ll 256"]) (auto intro: tokens_code.end_block)
  next
    case 3
    from step(3) [OF 3, unfolded \<open>codes s l d = Inr (0, s')\<close>, symmetric] obtain s2 where
      e: "codes_match s1 d (k - 257) = Inr (0, s2)" "codes s2 l d = Inr (0, s')"
      by (auto simp: ebind_Inr_iff split: if_splits)
    from codes_match_sound [OF w(1) "1.prems"(4,5) e(1)] obtain x dd y where
      m: "k - 257 < 29" "x < 2 ^ (lext ! (k - 257))" "dd < length dl" "dd < 30" "dl ! dd \<noteq> 0" "y < 2 ^ (dext ! dd)"
      "rest s1 = nat_bits (lext ! (k - 257)) x @ canon_bits dl dd @ nat_bits (dext ! dd) y @ rest s2"
      "1 \<le> dists ! dd + y" "dists ! dd + y \<le> length (produced s1)"
      "produced s2 = lz_copy (produced s1) (lens_base ! (k - 257) + x) (dists ! dd + y)" "wf_out s2" "poutlen s2 = poutlen s1"
      by blast
    have "codes_match s1 d (nat (v - 257)) = Inr (0, s2)" using e(1) 3 by (simp add: k(2) nat_diff_distrib)
    from "1.IH"(2) [OF d refl _ _ _ this refl] 3 k(2) e(2) m(11) "1.prems"(3-) obtain ts cs where
      IH: "tokens_code ll dl ts cs" "rest s2 = cs @ rest s'" "lz_expand (produced s2) ts = Some (produced s')"
        "wf_out s'" "poutlen s' = poutlen s2" by auto
    have k': "257 + (k - 257) = k" using 3 by simp
    have "tokens_code ll dl (Match (lens_base ! (k - 257) + x) (dists ! dd + y) # ts)
      ((canon_bits ll (257 + (k - 257)) @ nat_bits (lext ! (k - 257)) x @ canon_bits dl dd @ nat_bits (dext ! dd) y) @ cs)"
      using k(1,3) m(1-6) by (intro tokens_code.token token_code.match IH(1)) (simp_all only: k' simp_thms)
    with IH m k(4) w show ?thesis
      by (intro exI [of _ "Match (lens_base ! (k - 257) + x) (dists ! dd + y) # ts"]
          exI [of _ "canon_bits ll k @ nat_bits (lext ! (k - 257)) x @ canon_bits dl dd @ nat_bits (dext ! dd) y @ cs"])
        (simp add: k')
  qed
qed

end
