(* ===== verification/Deflate_Blocks.thy ===== *)
theory Deflate_Blocks
  imports Deflate_Format
begin

text \<open>
  The blocks of the DEFLATE format and the stream, and that \<open>puff\<close> accepts exactly the
  streams of the format whose output fits, with the output the format gives them.
\<close>

section \<open>Stored blocks\<close>

text \<open>
  The bits left of a stream that ends on a byte boundary determine the position in a byte:
  \<open>align\<close> skips to the next byte.
\<close>

definition align :: "bitstring \<Rightarrow> bitstring" where
  "align bs = drop (length bs mod 8) bs"

inductive stored_code :: "bitstring \<Rightarrow> byte list \<Rightarrow> bitstring \<Rightarrow> bool" where
  "align bs = bytes_bits ([lo, hi, NOT lo, NOT hi] @ data) @ bs' \<Longrightarrow>
   length data = unat lo + 256 * unat hi \<Longrightarrow> stored_code bs data bs'"

lemma len32: "LENGTH(32) = 32" by simp

lemma unat_stored_len: "unat (stored_len src i) = unat (src ! i) + 256 * unat (src ! (i + 1))"
proof -
  let ?lo = "src ! i" and ?hi = "src ! (i + 1)"
  have "ucast ?lo AND push_bit 8 (ucast ?hi) = (0 :: uint)"
    by (rule bit_word_eqI) (auto simp: bit_simps dest: bit_imp_le_length)
  then have "stored_len src i = ucast ?lo + push_bit 8 (ucast ?hi)"
    by (simp only: stored_len_def disjunctive_add_eq_or)
  also have "\<dots> = of_nat (unat ?lo + 256 * unat ?hi)"
    by (simp add: push_bit_eq_mult)
  finally have "unat (stored_len src i) = unat (of_nat (unat ?lo + 256 * unat ?hi) :: uint)" by (simp only:)
  moreover have "unat ?lo + 256 * unat ?hi < 2 ^ 32"
    using unat_byte_bound [of ?lo] unat_byte_bound [of ?hi] by simp
  ultimately show ?thesis by (simp only: unat_of_nat len32 mod_less)
qed

lemma ucast_byte_inj: "(ucast (a :: byte) :: uint) = ucast b \<Longrightarrow> a = b"
  proof -
  assume "(ucast a :: uint) = ucast b"
  then have "bit (ucast a :: uint) n = bit (ucast b :: uint) n" for n by simp
  from this have "n < 8 \<Longrightarrow> bit a n = bit b n" for n
    using \<open>\<And>n. bit (ucast a :: uint) n = bit (ucast b :: uint) n\<close> [of n] by (simp add: bit_simps)
  then show "a = b" by (intro bit_word_eqI) simp
qed

lemma byte_complement:
  fixes c lo hi :: byte
  shows "(ucast c :: uint) = NOT (ucast lo OR push_bit 8 (ucast hi)) AND 255 \<longleftrightarrow> c = NOT lo" (is "?A \<longleftrightarrow> _")
    and "(ucast c :: uint) = drop_bit 8 (NOT (ucast lo OR push_bit 8 (ucast hi))) AND 255 \<longleftrightarrow> c = NOT hi"
proof -
  have m: "(255 :: uint) = mask 8" by (simp add: mask_eq_exp_minus_1)
  have "NOT (ucast lo OR push_bit 8 (ucast hi)) AND mask 8 = (ucast (NOT lo) :: uint)"
    by (rule bit_word_eqI) (auto simp: bit_simps)
  then show "(ucast c :: uint) = NOT (ucast lo OR push_bit 8 (ucast hi)) AND 255 \<longleftrightarrow> c = NOT lo"
    unfolding m by (simp only:) (metis ucast_byte_inj)
  have "drop_bit 8 (NOT (ucast lo OR push_bit 8 (ucast hi))) AND mask 8 = (ucast (NOT hi) :: uint)"
    by (rule bit_word_eqI) (auto simp: bit_simps dest: bit_imp_le_length)
  then show "(ucast c :: uint) = drop_bit 8 (NOT (ucast lo OR push_bit 8 (ucast hi))) AND 255 \<longleftrightarrow> c = NOT hi"
    unfolding m by (simp only:) (metis ucast_byte_inj)
qed

lemma stored_check_iff: "stored_check src i \<longleftrightarrow> src ! (i + 2) = NOT (src ! i) \<and> src ! (i + 3) = NOT (src ! (i + 1))"
  by (simp only: stored_check_def stored_len_def byte_complement)

lemma align_rest: "wf_puff s \<Longrightarrow> align (rest s) = bytes_bits (unread s)"
  by (simp add: align_def rest_def buffered_def wf_puff_def length_unread)

lemma bytes_bits_prefix:
  assumes "bytes_bits xs = bytes_bits ys @ bs"
  shows "\<exists>zs. xs = ys @ zs \<and> bs = bytes_bits zs"
  using assms
proof (induction ys arbitrary: xs)
  case (Cons y ys)
  have "xs \<noteq> []" using Cons.prems by (auto dest: arg_cong [of _ _ length])
  then obtain x xs' where xs: "xs = x # xs'" by (cases xs) auto
  have "byte_bits x = byte_bits y" "bytes_bits xs' = bytes_bits ys @ bs"
    using Cons.prems xs by (simp_all add: append_eq_append_conv)
  with Cons.IH [of xs'] xs show ?case by (simp add: byte_bits_inject)
qed simp

lemma nth_unread: "wf_in s \<Longrightarrow> j < length (unread s) \<Longrightarrow> pin s ! (pincnt s + j) = unread s ! j"
  by (simp add: unread_def wf_in_def)

lemma stored_iff:
  assumes wf: "wf_out s"
  defines "n \<equiv> unat (stored_len (pin s) (pincnt s))"
  shows "(\<exists>s'. stored s = Inr (0, s')) \<longleftrightarrow>
      4 + n \<le> length (unread s) \<and> stored_check (pin s) (pincnt s) \<and> length (produced s) + n \<le> poutlen s"
    and "stored s = Inr (0, s') \<Longrightarrow> wf_out s' \<and> produced s' = produced s @ take n (drop 4 (unread s)) \<and>
      rest s' = bytes_bits (drop (4 + n) (unread s)) \<and> poutlen s' = poutlen s"
proof -
  obtain buf where b: "pout s = Some buf" "poutlen s \<le> length buf" "poutcnt s \<le> poutlen s"
    "produced s = take (poutcnt s) buf" "length (produced s) = poutcnt s" "wf_puff s"
    by (rule wf_outE [OF wf])
  have w: "wf_in s" using b(6) by (simp add: wf_puff_def)
  have len: "length (unread s) = pinlen s - pincnt s" "pincnt s \<le> pinlen s" "pinlen s \<le> length (pin s)"
    using w by (simp_all add: length_unread wf_in_def)
  let ?ok = "4 + n \<le> length (unread s) \<and> stored_check (pin s) (pincnt s) \<and> length (produced s) + n \<le> poutlen s"
  let ?buf = "take (poutcnt s) buf @ take n (drop (pincnt s + 4) (pin s)) @ drop (poutcnt s + n) buf"
  let ?s = "s\<lparr>pbitbuf := 0, pbitcnt := 0, pincnt := pincnt s + 4 + n, poutcnt := poutcnt s + n, pout := Some ?buf\<rparr>"
  have eq: "if ?ok then stored s = Inr (0, ?s) else \<exists>e s'. stored s = Inr (e, s') \<and> e \<noteq> 0"
    using w
  proof (cases rule: stored_cases)
    case (copy buf')
    then have "pincnt s + 4 + n \<le> length (pin s)" "poutcnt s + n \<le> length buf" "buf' = buf"
      using len b by (simp_all add: n_def)
    with copy have "stored s = Inr (0, ?s)" by (simp add: stored_copy_eq n_def)
    moreover have ?ok using copy(1,2,4) b(5) len by (simp add: n_def)
    ultimately show ?thesis by (subst if_P)
  qed (use b len in \<open>auto simp: n_def\<close>)
  then show "(\<exists>s'. stored s = Inr (0, s')) \<longleftrightarrow> ?ok" by (auto split: if_splits)
  show "wf_out s' \<and> produced s' = produced s @ take n (drop 4 (unread s)) \<and>
      rest s' = bytes_bits (drop (4 + n) (unread s)) \<and> poutlen s' = poutlen s" if run: "stored s = Inr (0, s')"
  proof -
    from eq run have s': "s' = ?s" and ok: ?ok by (auto split: if_splits)
    have "4 + n \<le> pinlen s - pincnt s" using ok by (simp only: len(1))
    then have le: "pincnt s + 4 + n \<le> pinlen s" using le_diff_conv2 [OF len(2), of "4 + n"] by (simp only: ac_simps)
    have "take n (drop 4 (unread s)) = take n (drop (pincnt s + 4) (pin s))"
      using le by (simp add: unread_def drop_take add.commute [of 4] min_absorb1)
    moreover have "unread ?s = drop (4 + n) (unread s)" by (simp add: unread_def ac_simps)
    moreover have "wf_out ?s" using b ok le len(3)
      by (simp add: wf_out_def wf_st_def out_ok_def wf_puff_def wf_in_def)
    ultimately show ?thesis
      using b ok le len(3) by (simp add: s' produced_def rest_def buffered_def)
  qed
qed

lemma stored_complete:
  assumes wf: "wf_out s" and c: "stored_code (rest s) data bs'" and room: "length (produced s) + length data \<le> poutlen s"
  shows "\<exists>s'. stored s = Inr (0, s') \<and> wf_out s' \<and> produced s' = produced s @ data \<and> rest s' = bs' \<and> poutlen s' = poutlen s"
proof -
  have w: "wf_puff s" "wf_in s" using wf by (simp_all add: wf_out_def wf_st_def wf_puff_def)
  from c obtain lo hi where c: "bytes_bits (unread s) = bytes_bits ([lo, hi, NOT lo, NOT hi] @ data) @ bs'"
    "length data = unat lo + 256 * unat hi"
    by cases (simp add: align_rest [OF w(1)])
  then obtain zs where u: "unread s = [lo, hi, NOT lo, NOT hi] @ data @ zs" "bs' = bytes_bits zs"
    using bytes_bits_prefix [OF c(1)] by auto
  have p: "pin s ! pincnt s = lo" "pin s ! (pincnt s + 1) = hi" "pin s ! (pincnt s + 2) = NOT lo" "pin s ! (pincnt s + 3) = NOT hi"
    using nth_unread [OF w(2), of 0] nth_unread [OF w(2), of 1] nth_unread [OF w(2), of 2] nth_unread [OF w(2), of 3]
    by (simp_all add: u)
  have n: "unat (stored_len (pin s) (pincnt s)) = length data" by (simp only: unat_stored_len p c(2))
  have "stored_check (pin s) (pincnt s)" by (simp only: stored_check_iff p simp_thms)
  then obtain s' where "stored s = Inr (0, s')"
    using stored_iff(1) [OF wf] n u room by auto
  moreover have "drop (4 + length data) (unread s) = zs" by (simp add: u(1) numeral_eq_Suc)
  ultimately show ?thesis using stored_iff(2) [OF wf, of s'] n u by simp
qed

lemma list4: "4 \<le> length xs \<Longrightarrow> xs = [xs ! 0, xs ! 1, xs ! 2, xs ! 3] @ drop 4 xs"
  by (rule nth_equalityI) (auto simp: nth_Cons numeral_eq_Suc split: nat.splits)

lemma stored_sound:
  assumes wf: "wf_out s" and run: "stored s = Inr (0, s')"
  shows "\<exists>data. stored_code (rest s) data (rest s') \<and> produced s' = produced s @ data \<and> wf_out s' \<and> poutlen s' = poutlen s"
proof -
  have w: "wf_puff s" "wf_in s" using wf by (simp_all add: wf_out_def wf_st_def wf_puff_def)
  let ?n = "unat (stored_len (pin s) (pincnt s))" and ?u = "unread s"
  have ok: "4 + ?n \<le> length ?u" "stored_check (pin s) (pincnt s)" using stored_iff(1) [OF wf] run by blast+
  have "?u \<noteq> []" using ok(1) by auto
  then have p: "pin s ! pincnt s = ?u ! 0" "pin s ! (pincnt s + 1) = ?u ! 1" "pin s ! (pincnt s + 2) = ?u ! 2" "pin s ! (pincnt s + 3) = ?u ! 3"
    using ok(1) nth_unread [OF w(2), of 0] nth_unread [OF w(2), of 1] nth_unread [OF w(2), of 2] nth_unread [OF w(2), of 3]
    by simp_all
  have ck: "?u ! 2 = NOT (?u ! 0)" "?u ! 3 = NOT (?u ! 1)" "?n = unat (?u ! 0) + 256 * unat (?u ! 1)"
    using ok(2) by (simp_all only: stored_check_iff p unat_stored_len)
  have "?u = [?u ! 0, ?u ! 1, ?u ! 2, ?u ! 3] @ drop 4 ?u" using ok(1) by (intro list4) simp
  also have "drop 4 ?u = take ?n (drop 4 ?u) @ drop (4 + ?n) ?u"
    by (metis add.commute append_take_drop_id drop_drop)
  finally have "?u = ([?u ! 0, ?u ! 1, NOT (?u ! 0), NOT (?u ! 1)] @ take ?n (drop 4 ?u)) @ drop (4 + ?n) ?u"
    by (simp only: ck append_assoc)
  then have "bytes_bits ?u = bytes_bits ([?u ! 0, ?u ! 1, NOT (?u ! 0), NOT (?u ! 1)] @ take ?n (drop 4 ?u)) @ bytes_bits (drop (4 + ?n) ?u)"
    by (metis bytes_bits_append)
  moreover have "length (take ?n (drop 4 ?u)) = unat (?u ! 0) + 256 * unat (?u ! 1)"
    using ok(1) ck(3) by simp
  ultimately have "stored_code (rest s) (take ?n (drop 4 ?u)) (bytes_bits (drop (4 + ?n) ?u))"
    by (intro stored_code.intros) (simp_all only: align_rest [OF w(1)])
  with stored_iff(2) [OF wf run] show ?thesis by auto
qed

section \<open>Dynamic headers\<close>

text \<open>
  A repeat instruction: symbol \<open>v\<close> with \<open>k\<close> extra bits repeats \<open>len\<close> at least \<open>b\<close> times.
\<close>

abbreviation repeat_instr :: "nat \<Rightarrow> nat \<Rightarrow> nat \<Rightarrow> nat list \<Rightarrow> nat \<Rightarrow> bool" where
  "repeat_instr v k b acc len \<equiv> v = 16 \<and> k = 2 \<and> b = 3 \<and> acc \<noteq> [] \<and> len = last acc \<or>
     v = 17 \<and> k = 3 \<and> b = 3 \<and> len = 0 \<or> v = 18 \<and> k = 7 \<and> b = 11 \<and> len = 0"

text \<open>The instructions for the code lengths, written with the code length code \<open>cl\<close>.\<close>

inductive lens_code :: "nat list \<Rightarrow> nat list \<Rightarrow> bitstring \<Rightarrow> nat list \<Rightarrow> bool" for cl :: "nat list" where
  lens_end: "lens_code cl acc [] acc"
| lens_len: "v < 16 \<Longrightarrow> cl ! v \<noteq> 0 \<Longrightarrow> lens_code cl (acc @ [v]) bs res \<Longrightarrow> lens_code cl acc (canon_bits cl v @ bs) res"
| lens_rep: "repeat_instr v k b acc len \<Longrightarrow> cl ! v \<noteq> 0 \<Longrightarrow> x < 2 ^ k \<Longrightarrow>
    lens_code cl (acc @ replicate (b + x) len) bs res \<Longrightarrow>
    lens_code cl acc (canon_bits cl v @ nat_bits k x @ bs) res"

definition complete_code :: "nat list \<Rightarrow> bool" where
  "complete_code lens \<longleftrightarrow> fits (count_list lens) MAXBITS \<and> codes_left (count_list lens) MAXBITS = 0"

text \<open>A code is complete, or has at most the one code of length one.\<close>

definition acceptable :: "nat list \<Rightarrow> bool" where
  "acceptable lens \<longleftrightarrow> complete_code lens \<or> (fits (count_list lens) MAXBITS \<and> (\<forall>l \<in> set lens. l \<le> 1))"

inductive dyn_header :: "bitstring \<Rightarrow> nat list \<Rightarrow> nat list \<Rightarrow> bool" where
  "257 \<le> length ll \<Longrightarrow> length ll \<le> MAXLCODES \<Longrightarrow> 1 \<le> length dl \<Longrightarrow> length dl \<le> MAXDCODES \<Longrightarrow>
   4 \<le> ncode \<Longrightarrow> ncode \<le> 19 \<Longrightarrow> length cl = 19 \<Longrightarrow> \<forall>l \<in> set cl. l < 8 \<Longrightarrow>
   \<forall>i. ncode \<le> i \<and> i < 19 \<longrightarrow> cl ! (order ! i) = 0 \<Longrightarrow> complete_code cl \<Longrightarrow>
   lens_code cl [] lb (ll @ dl) \<Longrightarrow> ll ! 256 \<noteq> 0 \<Longrightarrow> acceptable ll \<Longrightarrow> acceptable dl \<Longrightarrow>
   dyn_header (nat_bits 5 (length ll - 257) @ nat_bits 5 (length dl - 1) @ nat_bits 4 (ncode - 4) @
     concat (map (\<lambda>i. nat_bits 3 (cl ! (order ! i))) [0..<ncode]) @ lb) ll dl"

subsection \<open>Reading the code lengths\<close>

lemma fill_lengths_eq:
  "i + n \<le> length ls \<Longrightarrow> fill_lengths ls i len n = Inr (take i ls @ replicate n len @ drop (i + n) ls)"
proof (induction ls i len n rule: fill_lengths.induct)
  case (2 ls i len n)
  then have "fill_lengths ls i len (Suc n) = fill_lengths (ls[i := len]) (i + 1) len n"
    by (simp add: arraysimps)
  also have "\<dots> = Inr (take (i + 1) (ls[i := len]) @ replicate n len @ drop (i + 1 + n) (ls[i := len]))"
    using "2.IH" [of "ls[i := len]"] "2.prems" by (simp add: arraysimps)
  also have "take (i + 1) (ls[i := len]) = take i ls @ [len]"
    using "2.prems" by (simp add: take_Suc_conv_app_nth)
  finally show ?case by simp
qed simp

lemma lens_code_length: "lens_code cl acc bs res \<Longrightarrow> length acc \<le> length res"
  by (induction rule: lens_code.induct) auto

lemma read_lengths_len:
  assumes "i < tot" "decode s h = Inr (int v, s1)" "v < 16" "i < length ls"
  shows "read_lengths s h ls i tot = read_lengths s1 h (ls[i := v]) (i + 1) tot"
  using assms by (subst read_lengths.simps) (simp add: arraysimps)

lemma read_lengths_rep:
  assumes "i < tot" "decode s h = Inr (int v, s1)" "16 \<le> v" "repeat_code s1 ls i (int v) = Inr (Inr (len, n), s2)"
    and "i + n \<le> tot" "tot \<le> length ls"
  shows "read_lengths s h ls i tot = read_lengths s2 h (take i ls @ replicate n len @ drop (i + n) ls) (i + n) tot"
  using assms by (subst read_lengths.simps) (simp add: fill_lengths_eq)

text \<open>One repeat instruction: symbol \<open>v\<close>, \<open>k\<close> extra bits, base count \<open>b\<close>.\<close>

lemma repeat_code_run:
  assumes "wf_puff s" "rest s = nat_bits k x @ bs" "x < 2 ^ k" "i \<le> length ls"
    and "v = 16 \<and> k = 2 \<and> b = 3 \<and> i \<noteq> 0 \<and> len = ls ! (i - 1) \<or>
      v = 17 \<and> k = 3 \<and> b = 3 \<and> len = 0 \<or> v = 18 \<and> k = 7 \<and> b = 11 \<and> len = 0"
  obtains s' where "repeat_code s ls i v = Inr (Inr (len, b + x), s')" "wf_puff s'" "pframe s' = pframe s" "rest s' = bs"
proof -
  obtain s' where "bits s k = Inr (x, s')" "rest s' = bs" "pframe s' = pframe s" "wf_puff s'"
    using puff_bits.get_written [OF assms(1-3)] by blast
  with assms(4,5) that show ?thesis by (auto simp: repeat_code_def arraysimps)
qed

lemma take_last_nth: "take i ls = acc \<Longrightarrow> length acc = i \<Longrightarrow> acc \<noteq> [] \<Longrightarrow> last acc = ls ! (i - 1)"
  by (auto simp: last_conv_nth)

lemma read_repeat:
  assumes wf: "wf_puff s" "usable h cl" "length cl = 19" and v: "repeat_instr v k b acc len" "cl ! v \<noteq> 0" "x < 2 ^ k"
    and r: "rest s = canon_bits cl v @ nat_bits k x @ bs" and acc: "take (length acc) ls = acc"
    and n: "length acc + (b + x) \<le> tot" "tot \<le> length ls"
  obtains s2 ls2 where "read_lengths s h ls (length acc) tot = read_lengths s2 h ls2 (length (acc @ replicate (b + x) len)) tot"
    "take (length (acc @ replicate (b + x) len)) ls2 = acc @ replicate (b + x) len" "length ls2 = length ls"
    "wf_puff s2" "pframe s2 = pframe s" "rest s2 = bs"
proof -
  have "v < length cl" using v(1) wf(3) by auto
  from fast.dec_code [OF wf(1,2) this v(2) r] obtain s1 where
    s1: "decode s h = Inr (int v, s1)" "wf_puff s1" "pframe s1 = pframe s" "rest s1 = nat_bits k x @ bs" by blast
  have last: "acc \<noteq> [] \<Longrightarrow> last acc = ls ! (length acc - 1)" using take_last_nth [OF acc refl] .
  obtain s2 where s2: "repeat_code s1 ls (length acc) (int v) = Inr (Inr (len, b + x), s2)" "wf_puff s2"
      "pframe s2 = pframe s1" "rest s2 = bs"
    by (rule repeat_code_run [OF s1(2,4) v(3), of "length acc" ls "int v" b len]) (use v(1) n last in auto)
  let ?ls = "take (length acc) ls @ replicate (b + x) len @ drop (length acc + (b + x)) ls"
  have "read_lengths s h ls (length acc) tot = read_lengths s2 h ?ls (length acc + (b + x)) tot"
    using v(1) n by (intro read_lengths_rep [OF _ s1(1) _ s2(1)]) auto
  moreover have "take (length (acc @ replicate (b + x) len)) ?ls = acc @ replicate (b + x) len" "length ?ls = length ls"
    using n acc by simp_all
  ultimately show ?thesis using that [of s2 ?ls] s2 s1(3) by simp
qed

lemma read_lengths_complete:
  assumes "lens_code cl acc lb res" "wf_puff s" "usable h cl" "length cl = 19" "rest s = lb @ bs"
    and "length res \<le> length ls" "take (length acc) ls = acc"
  shows "\<exists>ls' s'. read_lengths s h ls (length acc) (length res) = Inr ((0, ls'), s') \<and> length ls' = length ls \<and>
    take (length res) ls' = res \<and> wf_puff s' \<and> pframe s' = pframe s \<and> rest s' = bs"
  using assms(1,2,5-)
proof (induction acc lb res arbitrary: s ls)
  case (lens_end acc)
  then have "read_lengths s h ls (length acc) (length acc) = Inr ((0, ls), s)"
    by (subst read_lengths.simps) simp
  with lens_end show ?case by auto
next
  case (lens_len v acc lb res)
  obtain s1 where s1: "decode s h = Inr (int v, s1)" "wf_puff s1" "pframe s1 = pframe s" "rest s1 = lb @ bs"
    using fast.dec_code [OF lens_len.prems(1) assms(3), of v "lb @ bs"] lens_len assms(4) by auto
  have lt: "length acc < length res" using lens_code_length [OF lens_len.hyps(3)] by simp
  have t: "take (length (acc @ [v])) (ls[length acc := v]) = acc @ [v]"
    using lt lens_len.prems by (simp add: take_Suc_conv_app_nth)
  have "read_lengths s h ls (length acc) (length res) = read_lengths s1 h (ls[length acc := v]) (length (acc @ [v])) (length res)"
    using read_lengths_len [OF lt s1(1) lens_len.hyps(1)] lt lens_len.prems(3) by simp
  with lens_len.IH [OF s1(2,4) _ t] lens_len.prems(3) s1(3) show ?case by simp
next
  case (lens_rep v k b acc len x lb res)
  have le: "length acc + (b + x) \<le> length res" using lens_code_length [OF lens_rep.hyps(4)] by simp
  obtain s2 ls2 where "read_lengths s h ls (length acc) (length res) = read_lengths s2 h ls2 (length (acc @ replicate (b + x) len)) (length res)"
    "take (length (acc @ replicate (b + x) len)) ls2 = acc @ replicate (b + x) len" "length ls2 = length ls"
    "wf_puff s2" "pframe s2 = pframe s" "rest s2 = lb @ bs"
    by (rule read_repeat [OF lens_rep.prems(1) assms(3,4) lens_rep.hyps(1-3), of "lb @ bs" ls "length res"])
      (use lens_rep.prems le in simp_all)
  with lens_rep.IH [of s2 ls2] lens_rep.prems show ?case by simp
qed

lemma repeat_code_sound:
  assumes "wf_puff s" "repeat_code s ls i (int v) = Inr (Inr (len, n), s')" "16 \<le> v" "v < 19" "i \<le> length ls"
  obtains k b x where "repeat_instr v k b (take i ls) len" "x < 2 ^ k" "n = b + x" "rest s = nat_bits k x @ rest s'"
    "wf_puff s'" "pframe s' = pframe s"
proof -
  consider "v = 16" | "v = 17" | "v = 18" using assms(3,4) by linarith
  then show ?thesis
  proof cases
    case 1
    with assms(2,5) obtain x where x: "i \<noteq> 0" "len = ls ! (i - 1)" "n = 3 + x" "bits s 2 = Inr (x, s')"
      by (auto simp: repeat_code_def ebind_Inr_iff arraysimps split: if_splits)
    have "take i ls \<noteq> []" using x(1) assms(5) by auto
    moreover from this have "last (take i ls) = ls ! (i - 1)" using assms(5) by (simp add: last_conv_nth min_absorb2)
    ultimately show ?thesis using 1 x puff_bits.get_prefix [OF assms(1) x(4)] by (intro that [of 2 3 x]) auto
  next
    case 2
    with assms(2) obtain x where x: "len = 0" "n = 3 + x" "bits s 3 = Inr (x, s')"
      by (auto simp: repeat_code_def ebind_Inr_iff)
    with 2 puff_bits.get_prefix [OF assms(1) x(3)] show ?thesis by (intro that [of 3 3 x]) auto
  next
    case 3
    with assms(2) obtain x where x: "len = 0" "n = 11 + x" "bits s 7 = Inr (x, s')"
      by (auto simp: repeat_code_def ebind_Inr_iff)
    with 3 puff_bits.get_prefix [OF assms(1) x(3)] show ?thesis by (intro that [of 7 11 x]) auto
  qed
qed

lemma read_lengths_sound:
  assumes "read_lengths s h ls i tot = Inr ((0, ls'), s')" "wf_puff s" "usable h cl" "length cl = 19"
    and "i \<le> tot" "tot \<le> length ls"
  shows "\<exists>lb. lens_code cl (take i ls) lb (take tot ls') \<and> rest s = lb @ rest s' \<and> length ls' = length ls \<and>
    wf_puff s' \<and> pframe s' = pframe s"
  using assms
proof (induction s h ls i tot rule: read_lengths.induct)
  case (1 s h ls i tot)
  show ?case
  proof (cases "i < tot")
    case False
    with "1.prems" have "i = tot" "ls' = ls" "s' = s"
      by (simp_all add: read_lengths.simps [of s h ls i tot])
    with "1.prems" show ?thesis by (intro exI [of _ "[]"]) (simp add: lens_code.lens_end)
  next
    case True
    from "1.prems"(1) True obtain w s1 where d: "decode s h = Inr (w, s1)" and w: "0 \<le> w"
      by (subst (asm) read_lengths.simps) (auto simp: ebind_Inr_iff split: if_splits)
    from fast.dec_sound [OF "1.prems"(2,3) d w] obtain v where
      v: "v < 19" "w = int v" "cl ! v \<noteq> 0" "rest s = canon_bits cl v @ rest s1" "wf_puff s1" "pframe s1 = pframe s"
      using "1.prems"(4) by auto
    note dv = d [unfolded v(2)]
    show ?thesis
    proof (cases "v < 16")
      case v16: True
      have run: "read_lengths s1 h (ls[i := v]) (i + 1) tot = Inr ((0, ls'), s')"
        using read_lengths_len [OF True dv v16] True "1.prems" by simp
      have "oob (aset ls i (nat w)) = Inr (ls[i := v])" using True "1.prems"(6) v(2) by (simp add: arraysimps)
      from "1.IH"(1) [OF True d refl _ _ this] run v16 v(2,5) "1.prems"(3-) True obtain lb where
        lb: "lens_code cl (take (i + 1) (ls[i := v])) lb (take tot ls')" "rest s1 = lb @ rest s'"
          "length ls' = length ls" "wf_puff s'" "pframe s' = pframe s1" by auto
      have "take (i + 1) (ls[i := v]) = take i ls @ [v]"
        using True "1.prems"(6) by (simp add: take_Suc_conv_app_nth)
      with lb(1) have "lens_code cl (take i ls) (canon_bits cl v @ lb) (take tot ls')"
        by (intro lens_code.lens_len [OF v16 v(3)]) simp
      with lb v show ?thesis by (intro exI [of _ "canon_bits cl v @ lb"]) simp
    next
      case v16: False
      note unf = "1.prems"(1) [unfolded read_lengths.simps [of s h ls i tot]]
      from unf True d w obtain r0 s2 where r0: "repeat_code s1 ls i w = Inr (r0, s2)"
        using v(2) v16 by (auto simp: ebind_Inr_iff)
      with unf True d w v(2) v16 obtain len n ls1 where r1: "r0 = Inr (len, n)" and n: "\<not> i + n > tot"
        and f: "fill_lengths ls i len n = Inr ls1"
        and rec: "read_lengths s2 h ls1 (i + n) tot = Inr ((0, ls'), s')"
        by (cases r0) (auto simp: ebind_Inr_iff dest!: repeat_code_Inl_neg split: if_splits)
      note r = r0 [unfolded r1]
      obtain k b x where x: "repeat_instr v k b (take i ls) len" "x < 2 ^ k" "n = b + x" "rest s1 = nat_bits k x @ rest s2"
        "wf_puff s2" "pframe s2 = pframe s1"
        using repeat_code_sound [OF v(5) r [unfolded v(2)] _ v(1)] v16 True "1.prems"(6) by auto
      have ls1: "ls1 = take i ls @ replicate n len @ drop (i + n) ls"
        using f n "1.prems"(6) by (simp add: fill_lengths_eq)
      then have t1: "take (i + n) ls1 = take i ls @ replicate n len" "length ls1 = length ls"
        using n "1.prems"(6) True by simp_all
      from "1.IH"(2) [OF True d refl _ _ r refl refl refl n f rec x(5) "1.prems"(3,4)] n "1.prems"(6) t1 w v16 v(2)
      obtain lb where lb: "lens_code cl (take i ls @ replicate (b + x) len) lb (take tot ls')" "rest s2 = lb @ rest s'"
        "length ls' = length ls" "wf_puff s'" "pframe s' = pframe s2" by (auto simp: x(3))
      with lens_code.lens_rep [OF x(1) v(3) x(2) lb(1)] v x show ?thesis
        by (intro exI [of _ "canon_bits cl v @ nat_bits k x @ lb"]) simp
    qed
  qed
qed

subsection \<open>Reading the code length code\<close>

definition set_lens :: "(nat \<Rightarrow> nat) \<Rightarrow> nat list \<Rightarrow> nat list \<Rightarrow> nat list" where
  "set_lens f is ls = foldl (\<lambda>ls i. ls[order ! i := f i]) ls is"

lemma set_lens_simps [simp]:
  "set_lens f [] ls = ls" "set_lens f (i # is) ls = set_lens f is (ls[order ! i := f i])"
  "set_lens f (xs @ ys) ls = set_lens f ys (set_lens f xs ls)"
  by (simp_all add: set_lens_def)

lemma length_set_lens [simp]: "length (set_lens f is ls) = length ls"
  by (induction "is" arbitrary: ls) auto

lemma set_lens_cong: "(\<And>i. i \<in> set is \<Longrightarrow> f i = g i) \<Longrightarrow> set_lens f is ls = set_lens g is ls"
  by (induction "is" arbitrary: ls) auto

lemma clear_lenlens_eq: "clear_lenlens ls is = set_lens (\<lambda>_. 0) is ls"
  by (induction ls "is" rule: clear_lenlens.induct) auto

lemma read_lenlens_complete:
  assumes "wf_puff s" "\<forall>i \<in> set is. f i < 8" "rest s = concat (map (\<lambda>i. nat_bits 3 (f i)) is) @ bs"
  shows "\<exists>s'. read_lenlens s ls is = Inr (set_lens f is ls, s') \<and> wf_puff s' \<and> pframe s' = pframe s \<and> rest s' = bs"
  using assms
proof (induction "is" arbitrary: s ls)
  case (Cons i "is")
  then obtain s1 where s1: "bits s 3 = Inr (f i, s1)" "rest s1 = concat (map (\<lambda>i. nat_bits 3 (f i)) is) @ bs"
    "pframe s1 = pframe s" "wf_puff s1"
    using puff_bits.get_written [of s 3 "f i" "concat (map (\<lambda>i. nat_bits 3 (f i)) is) @ bs"] by auto
  with Cons.IH [of s1 "ls[order ! i := f i]"] Cons.prems show ?case by auto
qed simp

lemma read_lenlens_sound:
  assumes "wf_puff s" "distinct is" "read_lenlens s ls is = Inr (ls', s')"
  shows "\<exists>f. (\<forall>i \<in> set is. f i < 8) \<and> ls' = set_lens f is ls \<and> rest s = concat (map (\<lambda>i. nat_bits 3 (f i)) is) @ rest s' \<and>
    wf_puff s' \<and> pframe s' = pframe s"
  using assms
proof (induction "is" arbitrary: s ls)
  case (Cons i "is")
  then obtain v s1 where v: "bits s 3 = Inr (v, s1)" "read_lenlens s1 (ls[order ! i := v]) is = Inr (ls', s')"
    by (auto simp: ebind_Inr_iff)
  note g = puff_bits.get_prefix [OF Cons.prems(1) v(1)]
  from Cons.IH [OF g(4) _ v(2)] Cons.prems(2) obtain f where
    f: "\<forall>i \<in> set is. f i < 8" "ls' = set_lens f is (ls[order ! i := v])"
      "rest s1 = concat (map (\<lambda>i. nat_bits 3 (f i)) is) @ rest s'" "wf_puff s'" "pframe s' = pframe s1" by auto
  have ne: "\<And>j. j \<in> set is \<Longrightarrow> j \<noteq> i" using Cons.prems(2) by auto
  let ?f = "\<lambda>j. if j = i then v else f j"
  have "set_lens ?f is (ls[order ! i := v]) = set_lens f is (ls[order ! i := v])"
    using ne by (intro set_lens_cong) auto
  moreover have "concat (map (\<lambda>j. nat_bits 3 (?f j)) is) = concat (map (\<lambda>j. nat_bits 3 (f j)) is)"
    using ne by (intro arg_cong [of _ _ concat] map_cong) auto
  ultimately show ?case using f g by (intro exI [of _ ?f]) simp
qed auto

lemma order_inj: "i < 19 \<Longrightarrow> j < 19 \<Longrightarrow> order ! i = order ! j \<Longrightarrow> i = j"
  using nth_eq_iff_index_eq [of order i j] by (simp add: order_def)

lemma order_surj: "p < 19 \<Longrightarrow> \<exists>i < 19. order ! i = p"
proof -
  assume "p < 19"
  then have "p \<in> set [0..<19]" by simp
  moreover have "set order = set [0..<19]" by code_simp
  ultimately have "p \<in> set order" by simp
  moreover have "length order = 19" by (simp add: order_def)
  ultimately show ?thesis by (simp add: in_set_conv_nth)
qed

lemma nth_set_lens:
  assumes "i < 19" "set is \<subseteq> {..<19}" "19 \<le> length ls"
  shows "set_lens f is ls ! (order ! i) = (if i \<in> set is then f i else ls ! (order ! i))"
  using assms(2,3)
proof (induction "is" arbitrary: ls)
  case (Cons j "is")
  have "order ! i < length ls" using order_bound [OF assms(1)] Cons.prems(2) by simp
  then have "ls[order ! j := f j] ! (order ! i) = (if i = j then f j else ls ! (order ! i))"
    using order_inj [OF assms(1), of j] Cons.prems(1) by (cases "i = j") (simp_all, metis nth_list_update_neq)
  then show ?case
    using Cons.IH [of "ls[order ! j := f j]"] Cons.prems by auto
qed simp

text \<open>The array after the code length code has been read: \<open>f i\<close> at \<open>order[i]\<close>, the rest zero.\<close>

lemma nth_lenlens:
  assumes "ncode \<le> 19" "length ls = MAXCODES" "i < 19"
  shows "clear_lenlens (set_lens f [0..<ncode] ls) [ncode..<19] ! (order ! i) = (if ncode \<le> i then 0 else f i)"
proof -
  have len: "19 \<le> length ls" using assms(2) by (simp add: MAXCODES_def MAXLCODES_def)
  have "set [0..<ncode] \<subseteq> {..<19}" "set [ncode..<19] \<subseteq> {..<19}" using assms(1) by auto
  then show ?thesis
    using assms(3) len unfolding clear_lenlens_eq
    by (subst nth_set_lens [OF assms(3)]) (simp_all add: nth_set_lens [OF assms(3)])
qed

lemma lenlens_eq:
  assumes "ncode \<le> 19" "length ls = MAXCODES" "length cl = 19" "\<And>i. i < ncode \<Longrightarrow> cl ! (order ! i) = f i"
    and "\<And>i. ncode \<le> i \<Longrightarrow> i < 19 \<Longrightarrow> cl ! (order ! i) = 0"
  shows "take 19 (clear_lenlens (set_lens f [0..<ncode] ls) [ncode..<19]) = cl"
proof (rule nth_equalityI)
  fix p assume "p < length (take 19 (clear_lenlens (set_lens f [0..<ncode] ls) [ncode..<19]))"
  then have "p < 19" by simp
  then obtain i where i: "i < 19" "order ! i = p" using order_surj by blast
  with nth_lenlens [OF assms(1,2) i(1), of f] assms(4,5) [of i] \<open>p < 19\<close>
  show "take 19 (clear_lenlens (set_lens f [0..<ncode] ls) [ncode..<19]) ! p = cl ! p" by auto
qed (use assms(2,3) in \<open>simp add: clear_lenlens_eq MAXCODES_def MAXLCODES_def\<close>)

subsection \<open>The tests on the codes\<close>

lemma count_01: "length xs = count_list xs 0 + count_list xs (Suc 0) \<longleftrightarrow> (\<forall>x \<in> set xs. x \<le> 1)"
proof -
  have "count_list xs 0 + count_list xs (Suc 0) + length (filter (\<lambda>x. 1 < x) xs) = length xs"
    by (induction xs) auto
  then show ?thesis
    by (metis (no_types, lifting) add_cancel_right_right filter_False filter_empty_conv length_0_conv not_le One_nat_def)
qed

lemma codes_left_nonneg: "fits cnt MAXBITS \<Longrightarrow> 0 \<le> codes_left cnt MAXBITS"
  by (simp add: fits_codes_left MAXBITS_def)

lemma codes_left_zero: "\<forall>l \<in> set lens. l = 0 \<Longrightarrow> codes_left (count_list lens) MAXBITS \<noteq> 0"
proof -
  assume "\<forall>l \<in> set lens. l = 0"
  then have "\<forall>l. 1 \<le> l \<longrightarrow> count_list lens l = 0" by (auto simp: count_list_0_iff)
  then show ?thesis by (simp add: codes_left_def first_code_zero MAXBITS_def)
qed

lemma construct_accept:
  fixes lengths n defines "lens \<equiv> take n lengths"
  assumes "n \<le> length lengths" "lengths_ok lens" "n \<le> length (hsymbol h0)"
  obtains e h where "construct h0 lengths n = Inr (e, h)" "0 \<le> e \<longrightarrow> usable h lens"
    "length (hsymbol h) = length (hsymbol h0)"
    "(e \<noteq> 0 \<and> (e < 0 \<or> n \<noteq> hcount h ! 0 + hcount h ! 1)) \<longleftrightarrow> \<not> acceptable lens"
    "e = 0 \<longleftrightarrow> complete_code lens \<or> (\<forall>l \<in> set lens. l = 0)"
proof -
  have len: "length lens = n" using assms(2) by (simp add: lens_def)
  have n: "n = counts lens ! 0 + counts lens ! 1 \<longleftrightarrow> (\<forall>l \<in> set lens. l \<le> 1)"
    using count_01 [of lens] len by simp
  show ?thesis
  proof (cases rule: construct_cases [OF assms(2) assms(3) [unfolded lens_def] assms(4)])
    case 1
    then have u: "usable (h0\<lparr>hcount := counts lens\<rparr>) lens" by (intro usable_zero) (simp_all add: lens_def)
    with 1 show ?thesis
      by (intro that [of 0 "h0\<lparr>hcount := counts lens\<rparr>"]) (auto simp: lens_def usable_def acceptable_def)
  next
    case 2
    then obtain left where "left < 0" "construct h0 lengths n = Inr (left, h0\<lparr>hcount := counts lens\<rparr>)"
      by (auto simp: lens_def)
    with 2(1,2) show ?thesis
      by (intro that [of left "h0\<lparr>hcount := counts lens\<rparr>"]) (auto simp: acceptable_def complete_code_def lens_def)
  next
    case (3 h')
    note 3 = this [folded lens_def]
    have "usable h' lens" using 3 assms(3) by (simp add: usable_def)
    moreover have "hcount h' = counts lens" using 3(4) by (simp add: table_for_def)
    ultimately show ?thesis using 3 n codes_left_nonneg [OF 3(2)]
      by (intro that [OF 3(3)]) (auto simp: acceptable_def complete_code_def)
  qed
qed

section \<open>Dynamic blocks\<close>

abbreviation block_done :: "pstate \<Rightarrow> fault + int \<times> pstate \<Rightarrow> bitstring \<Rightarrow> byte list \<Rightarrow> bool" where
  "block_done s r bs out \<equiv> \<exists>s'. r = Inr (0, s') \<and> wf_out s' \<and> produced s' = out \<and> rest s' = bs \<and> poutlen s' = poutlen s"

lemma wf_lengths_split:
  assumes "wf_lengths ls" "nlen \<le> MAXLCODES" "ndist \<le> MAXDCODES"
  shows "nlen \<le> length ls" "ndist \<le> length (drop nlen ls)" "lengths_ok (take nlen ls)"
    "lengths_ok (take ndist (drop nlen ls))"
  using assms lengths_ok_take_drop [OF assms(1)] by (auto simp: wf_lengths_def MAXCODES_def)

text \<open>\<open>dynamic_codes\<close> goes on to the data exactly when the two codes can be used.\<close>

lemma dynamic_codes_cases:
  fixes nlen ndist ls
  defines "ll \<equiv> take nlen ls" and "dl \<equiv> take ndist (drop nlen ls)"
  assumes "wf_lengths ls" "257 \<le> nlen" "nlen \<le> MAXLCODES" "ndist \<le> MAXDCODES" "length (hsymbol h) = MAXLCODES"
  obtains (reject) e where "dynamic_codes s h ls nlen ndist = Inr (e, s)" "e \<noteq> 0"
      "\<not> (ll ! 256 \<noteq> 0 \<and> acceptable ll \<and> acceptable dl)"
  | (accept) l d where "dynamic_codes s h ls nlen ndist = codes s l d" "usable l ll" "usable d dl"
      "ll ! 256 \<noteq> 0" "acceptable ll" "acceptable dl"
proof -
  note w = wf_lengths_split [OF assms(3,5,6)]
  have "nlen \<le> length (hsymbol h)" using assms(5,7) by simp
  from construct_accept [OF w(1,3) this] obtain e1 l where
    l: "construct h ls nlen = Inr (e1, l)" "0 \<le> e1 \<longrightarrow> usable l ll"
      "(e1 \<noteq> 0 \<and> (e1 < 0 \<or> nlen \<noteq> hcount l ! 0 + hcount l ! 1)) \<longleftrightarrow> \<not> acceptable ll"
    unfolding ll_def by metis
  have "ndist \<le> length (hsymbol (huffman_arrays MAXDCODES))" using assms(6) by simp
  from construct_accept [OF w(2,4) this] obtain e2 d where
    d: "construct (huffman_arrays MAXDCODES) (drop nlen ls) ndist = Inr (e2, d)" "0 \<le> e2 \<longrightarrow> usable d dl"
      "(e2 \<noteq> 0 \<and> (e2 < 0 \<or> ndist \<noteq> hcount d ! 0 + hcount d ! 1)) \<longleftrightarrow> \<not> acceptable dl"
    unfolding dl_def by metis
  have "ls ! 256 = ll ! 256" using assms(4) by (simp add: ll_def)
  then have eq: "dynamic_codes s h ls nlen ndist = (if ll ! 256 = 0 then Inr (- 9, s)
      else if \<not> acceptable ll then Inr (- 7, s) else if \<not> acceptable dl then Inr (- 8, s) else codes s l d)"
    unfolding dynamic_codes_def l(1) d(1) ebind_simps prod.case l(3) d(3) by simp
  have u: "acceptable ll \<Longrightarrow> usable l ll" "acceptable dl \<Longrightarrow> usable d dl"
    using l(2,3) d(2,3) by linarith+
  show ?thesis
  proof (cases "ll ! 256 \<noteq> 0 \<and> acceptable ll \<and> acceptable dl")
    case True
    with eq u show ?thesis by (intro accept) simp_all
  next
    case False
    have "\<exists>e. dynamic_codes s h ls nlen ndist = Inr (e, s) \<and> e \<noteq> 0"
      unfolding eq using False by auto
    with False reject show ?thesis by blast
  qed
qed

lemma wf_set_lens:
  "wf_lengths ls \<Longrightarrow> \<forall>i \<in> set is. f i \<le> MAXBITS \<Longrightarrow> wf_lengths (set_lens f is ls)"
  by (induction "is" arbitrary: ls) (auto simp: wf_lengths_update)

lemma construct_cl:
  assumes "wf_lengths ls"
  obtains e h where "construct (huffman_arrays MAXLCODES) ls 19 = Inr (e, h)" "0 \<le> e \<longrightarrow> usable h (take 19 ls)"
    "length (hsymbol h) = MAXLCODES" "e = 0 \<longleftrightarrow> complete_code (take 19 ls) \<or> (\<forall>l \<in> set (take 19 ls). l = 0)"
proof -
  have "19 \<le> length ls" "19 \<le> length (hsymbol (huffman_arrays MAXLCODES))"
    using assms by (auto simp: wf_lengths_def MAXCODES_def MAXLCODES_def)
  then show ?thesis
    by (rule construct_accept [OF _ lengths_ok_take_drop(1) [OF assms]]) (rule that, simp_all)
qed

text \<open>\<open>dynamic_lengths\<close> on well-formed instructions.\<close>

lemma dynamic_lengths_run:
  assumes wf: "wf_out s" "wf_lengths ls" and cl: "take 19 ls = cl" "complete_code cl"
    and lc: "lens_code cl [] lb res" "rest s = lb @ bs" and n: "length res = nlen + ndist" "nlen + ndist \<le> MAXCODES"
  obtains ls' s' h where "dynamic_lengths s ls nlen ndist = dynamic_codes s' h ls' nlen ndist"
    "take (nlen + ndist) ls' = res" "wf_lengths ls'" "wf_puff s'" "pframe s' = pframe s" "rest s' = bs"
    "length (hsymbol h) = MAXLCODES"
proof -
  have w: "wf_st s" "wf_puff s" using wf(1) by (simp_all add: wf_out_def wf_st_def)
  have l19: "length cl = 19" "nlen + ndist \<le> length ls"
    using wf(2) cl(1) n(2) by (auto simp: wf_lengths_def MAXCODES_def MAXLCODES_def)
  obtain h where h: "construct (huffman_arrays MAXLCODES) ls 19 = Inr (0, h)" "usable h cl" "length (hsymbol h) = MAXLCODES"
    by (rule construct_cl [OF wf(2)]) (use cl in auto)
  obtain ls' s' where r: "read_lengths s h ls 0 (nlen + ndist) = Inr ((0, ls'), s')" "take (nlen + ndist) ls' = res"
    "wf_puff s'" "pframe s' = pframe s" "rest s' = bs"
    using read_lengths_complete [OF lc(1) w(2) h(2) l19(1) lc(2), of ls] n(1) l19(2) by auto
  have "wf_lengths ls'"
    using safe_read_lengths [OF w(1) h(2) wf(2) n(2), of 0] r(1) by (simp add: safe_def)
  moreover have "dynamic_lengths s ls nlen ndist = dynamic_codes s' h ls' nlen ndist"
    by (simp add: dynamic_lengths_def h(1) r(1))
  ultimately show ?thesis using that r h(3) by blast
qed

lemma dynamic_complete:
  assumes hd: "dyn_header hs ll dl" and tk: "tokens_code ll dl ts cs" and wf: "wf_out s"
    and r: "rest s = hs @ cs @ bs" and ex: "lz_expand (produced s) ts = Some out" "length out \<le> poutlen s"
  shows "block_done s (dynamic s) bs out"
  using hd
proof cases
  case (1 ncode cl lb)
  have wfp: "wf_puff s" using wf by (simp add: wf_out_def wf_st_def)
  let ?cb = "concat (map (\<lambda>i. nat_bits 3 (cl ! (order ! i))) [0..<ncode])"
  have bounds: "length ll - 257 < 2 ^ 5" "length dl - 1 < 2 ^ 5" "ncode - 4 < 2 ^ 4"
    using 1 by (simp_all add: MAXLCODES_def MAXDCODES_def)
  have "rest s = nat_bits 5 (length ll - 257) @ nat_bits 5 (length dl - 1) @ nat_bits 4 (ncode - 4) @ ?cb @ lb @ cs @ bs"
    using r 1(1) by simp
  from puff_bits.get_written [OF wfp this bounds(1)] obtain s1 where
    s1: "bits s 5 = Inr (length ll - 257, s1)" "rest s1 = nat_bits 5 (length dl - 1) @ nat_bits 4 (ncode - 4) @ ?cb @ lb @ cs @ bs"
      "pframe s1 = pframe s" "wf_puff s1" by blast
  from puff_bits.get_written [OF s1(4,2) bounds(2)] obtain s2 where
    s2: "bits s1 5 = Inr (length dl - 1, s2)" "rest s2 = nat_bits 4 (ncode - 4) @ ?cb @ lb @ cs @ bs"
      "pframe s2 = pframe s1" "wf_puff s2" by blast
  from puff_bits.get_written [OF s2(4,2) bounds(3)] obtain s3 where
    s3: "bits s2 4 = Inr (ncode - 4, s3)" "rest s3 = ?cb @ lb @ cs @ bs" "pframe s3 = pframe s2" "wf_puff s3" by blast
  have small: "\<forall>i \<in> set [0..<ncode]. cl ! (order ! i) < 8"
    using 1 order_bound by auto
  from read_lenlens_complete [OF s3(4) small s3(2), of "replicate MAXCODES 0"] obtain s4 where
    s4: "read_lenlens s3 (replicate MAXCODES 0) [0..<ncode] =
        Inr (set_lens (\<lambda>i. cl ! (order ! i)) [0..<ncode] (replicate MAXCODES 0), s4)"
      "wf_puff s4" "pframe s4 = pframe s3" "rest s4 = lb @ cs @ bs" by blast
  let ?ls = "clear_lenlens (set_lens (\<lambda>i. cl ! (order ! i)) [0..<ncode] (replicate MAXCODES 0)) [ncode..<19]"
  have cl: "take 19 ?ls = cl" using 1 by (intro lenlens_eq) auto
  have n: "length ll - 257 + 257 = length ll" "length dl - 1 + 1 = length dl" "ncode - 4 + 4 = ncode"
    "(length ll > MAXLCODES \<or> length dl > MAXDCODES) = False"
    using 1 by auto
  have run: "dynamic s = dynamic_lengths s4 ?ls (length ll) (length dl)"
    by (simp only: dynamic_def Let_def s1(1) s2(1) s3(1) s4(1) ebind_simps prod.case n if_False)
  have fr: "pframe s4 = pframe s" using s1 s2 s3 s4 by simp
  note w4 = pframe_wf_out [OF wf fr s4(2)]
  have "cl ! (order ! i) \<le> MAXBITS" if "i \<in> set [0..<ncode]" for i
    using bspec [OF small that] by (simp add: MAXBITS_def)
  then have ls: "wf_lengths ?ls" by (intro wf_clear_lenlens wf_set_lens wf_lengths_init) blast
  have tot: "length ll + length dl \<le> MAXCODES" using 1 by (simp add: MAXCODES_def)
  obtain ls' s5 h where
    s5: "dynamic_lengths s4 ?ls (length ll) (length dl) = dynamic_codes s5 h ls' (length ll) (length dl)"
      "take (length ll + length dl) ls' = ll @ dl" "wf_lengths ls'" "wf_puff s5" "pframe s5 = pframe s4" "rest s5 = cs @ bs"
      "length (hsymbol h) = MAXLCODES"
    by (rule dynamic_lengths_run [OF w4(1) ls cl 1(11,12) s4(4) length_append tot])
  note w5 = pframe_wf_out [OF w4(1) s5(5,4)]
  have "take (length ll) (take (length ll + length dl) ls') = ll" "drop (length ll) (take (length ll + length dl) ls') = dl"
    by (simp_all only: s5(2)) simp_all
  then have lens: "take (length ll) ls' = ll" "take (length dl) (drop (length ll) ls') = dl"
    by (simp_all add: drop_take)
  show ?thesis
  proof (cases rule: dynamic_codes_cases [OF s5(3) 1(2,3,5) s5(7), of s5])
    case (2 l d)
    with codes_complete [OF tk w5(1), of l d bs out] lens s5(6) ex w4 w5 run s5(1) show ?thesis by simp
  qed (use 1 lens in simp_all)
qed

lemma lens_code_nonzero:
  assumes "lens_code cl [] lb res" "res \<noteq> []" "length cl = 19"
  shows "\<exists>l \<in> set cl. l \<noteq> 0"
  using assms(1)
proof cases
  case (lens_len v bs)
  with assms(3) show ?thesis by (intro bexI [of _ "cl ! v"]) auto
next
  case (lens_rep v k b len x bs)
  with assms(3) show ?thesis by (intro bexI [of _ "cl ! v"]) auto
qed (use assms(2) in simp)

lemma dynamic_lengths_sound:
  assumes wf: "wf_out s" "wf_lengths ls" and run: "dynamic_lengths s ls nlen ndist = Inr (0, s')"
    and n: "0 < nlen + ndist" "nlen + ndist \<le> MAXCODES"
  obtains lb ls' h s1 where "complete_code (take 19 ls)" "lens_code (take 19 ls) [] lb (take (nlen + ndist) ls')"
    "rest s = lb @ rest s1" "wf_puff s1" "pframe s1 = pframe s" "wf_lengths ls'"
    "dynamic_codes s1 h ls' nlen ndist = Inr (0, s')" "length (hsymbol h) = MAXLCODES"
proof -
  have w: "wf_st s" "wf_puff s" using wf(1) by (simp_all add: wf_out_def wf_st_def)
  have l19: "length (take 19 ls) = 19" "nlen + ndist \<le> length ls"
    using wf(2) n(2) by (auto simp: wf_lengths_def MAXCODES_def MAXLCODES_def)
  obtain e h where
    h: "construct (huffman_arrays MAXLCODES) ls 19 = Inr (e, h)" "0 \<le> e \<longrightarrow> usable h (take 19 ls)" "length (hsymbol h) = MAXLCODES"
      "e = 0 \<longleftrightarrow> complete_code (take 19 ls) \<or> (\<forall>l \<in> set (take 19 ls). l = 0)"
    by (rule construct_cl [OF wf(2)])
  from run h(1) have e: "e = 0" by (auto simp: dynamic_lengths_def split: if_splits)
  then have u: "usable h (take 19 ls)" using h(2) by simp
  from run h(1) e obtain ls' s1 where r: "read_lengths s h ls 0 (nlen + ndist) = Inr ((0, ls'), s1)"
    "dynamic_codes s1 h ls' nlen ndist = Inr (0, s')"
    by (auto simp: dynamic_lengths_def ebind_Inr_iff split: if_splits)
  from read_lengths_sound [OF r(1) w(2) u l19(1) _ l19(2)] obtain lb where
    lb: "lens_code (take 19 ls) [] lb (take (nlen + ndist) ls')" "rest s = lb @ rest s1" "length ls' = length ls" "wf_puff s1" "pframe s1 = pframe s"
    by auto
  have "take (nlen + ndist) ls' \<noteq> []" using n(1) l19(2) lb(3) by auto
  from lens_code_nonzero [OF lb(1) this l19(1)] h(4) e have "complete_code (take 19 ls)" by auto
  moreover have "wf_lengths ls'"
    using safe_read_lengths [OF w(1) u wf(2) n(2), of 0] r(1) by (simp add: safe_def)
  ultimately show ?thesis using that lb r(2) h(3) by blast
qed

lemma dynamic_sound:
  assumes wf: "wf_out s" and run: "dynamic s = Inr (0, s')"
  shows "\<exists>hs ll dl ts cs. dyn_header hs ll dl \<and> tokens_code ll dl ts cs \<and> rest s = hs @ cs @ rest s' \<and>
    lz_expand (produced s) ts = Some (produced s') \<and> wf_out s' \<and> poutlen s' = poutlen s"
proof -
  have wfp: "wf_puff s" using wf by (simp add: wf_out_def wf_st_def)
  from run obtain a s1 b s2 c s3 ls s4 where b1: "bits s 5 = Inr (a, s1)" and b2: "bits s1 5 = Inr (b, s2)"
    and b3: "bits s2 4 = Inr (c, s3)" and n: "a + 257 \<le> MAXLCODES" "b + 1 \<le> MAXDCODES"
    and rl: "read_lenlens s3 (replicate MAXCODES 0) [0..<c + 4] = Inr (ls, s4)"
    and dl: "dynamic_lengths s4 (clear_lenlens ls [c + 4..<19]) (a + 257) (b + 1) = Inr (0, s')"
    by (auto simp: dynamic_def ebind_Inr_iff Let_def not_less split: if_splits)
  note g1 = puff_bits.get_prefix [OF wfp b1] note g2 = puff_bits.get_prefix [OF g1(4) b2]
  note g3 = puff_bits.get_prefix [OF g2(4) b3]
  from read_lenlens_sound [OF g3(4) distinct_upt rl] obtain f where
    f: "\<forall>i \<in> set [0..<c + 4]. f i < 8" "ls = set_lens f [0..<c + 4] (replicate MAXCODES 0)"
      "rest s3 = concat (map (\<lambda>i. nat_bits 3 (f i)) [0..<c + 4]) @ rest s4" "wf_puff s4" "pframe s4 = pframe s3"
    by blast
  let ?ls = "clear_lenlens ls [c + 4..<19]"
  define cl where "cl = take 19 ?ls"
  have fr: "pframe s4 = pframe s" using f(5) g1 g2 g3 by simp
  note w4 = pframe_wf_out [OF wf fr f(4)]
  have c: "c + 4 \<le> 19" using g3(2) by simp
  have fb: "f i \<le> MAXBITS" if "i \<in> set [0..<c + 4]" for i using bspec [OF f(1) that] by (simp add: MAXBITS_def)
  then have wl: "wf_lengths ?ls" unfolding f(2) by (intro wf_clear_lenlens wf_set_lens wf_lengths_init) blast
  have nth: "cl ! (order ! i) = (if c + 4 \<le> i then 0 else f i)" if "i < 19" for i
    using nth_lenlens [OF c _ that, of "replicate MAXCODES 0" f] order_bound [OF that] by (simp add: cl_def f(2))
  have cl: "length cl = 19" using wl by (simp add: cl_def wf_lengths_def MAXCODES_def MAXLCODES_def)
  have small: "\<forall>l \<in> set cl. l < 8"
  proof
    fix l assume "l \<in> set cl"
    then obtain p where "p < 19" "l = cl ! p" using cl by (auto simp: in_set_conv_nth)
    moreover from this(1) obtain i where "i < 19" "order ! i = p" using order_surj by blast
    ultimately show "l < 8" using nth [of i] f(1) by auto
  qed
  let ?nlen = "a + 257" and ?ndist = "b + 1"
  have tot: "0 < ?nlen + ?ndist" "?nlen + ?ndist \<le> MAXCODES" using n by (simp_all add: MAXCODES_def)
  obtain lb ls' h s5 where s5: "complete_code cl" "lens_code cl [] lb (take (?nlen + ?ndist) ls')"
    "rest s4 = lb @ rest s5" "wf_puff s5" "pframe s5 = pframe s4" "wf_lengths ls'"
    "dynamic_codes s5 h ls' ?nlen ?ndist = Inr (0, s')" "length (hsymbol h) = MAXLCODES"
    unfolding cl_def by (rule dynamic_lengths_sound [OF w4(1) wl dl tot])
  note w5 = pframe_wf_out [OF w4(1) s5(5,4)]
  define ll where "ll = take ?nlen ls'"
  define dlens where "dlens = take ?ndist (drop ?nlen ls')"
  have len: "length ll = ?nlen" "length dlens = ?ndist"
    using s5(6) tot by (simp_all add: ll_def dlens_def wf_lengths_def)
  have app: "take (?nlen + ?ndist) ls' = ll @ dlens" unfolding ll_def dlens_def by (rule take_add)
  show ?thesis
  proof (cases rule: dynamic_codes_cases [OF s5(6) _ n s5(8), of s5, folded ll_def dlens_def])
    case 3
    let ?hs = "nat_bits 5 (length ll - 257) @ nat_bits 5 (length dlens - 1) @ nat_bits 4 (c + 4 - 4) @
      concat (map (\<lambda>i. nat_bits 3 (cl ! (order ! i))) [0..<c + 4]) @ lb"
    have hd: "dyn_header ?hs ll dlens"
      by (rule dyn_header.intros [where cl = cl]) (use len app n c cl small nth s5(1,2) 3 in simp_all)
    have "length dlens \<le> 30" using len n by (simp add: MAXDCODES_def)
    from codes_sound [OF s5(7) [unfolded 3(1)] w5(1) 3(2,3) this] obtain ts cs where
      ts: "tokens_code ll dlens ts cs" "rest s5 = cs @ rest s'" "lz_expand (produced s5) ts = Some (produced s')"
        "wf_out s'" "poutlen s' = poutlen s5" by auto
    have "concat (map (\<lambda>i. nat_bits 3 (cl ! (order ! i))) [0..<c + 4]) = concat (map (\<lambda>i. nat_bits 3 (f i)) [0..<c + 4])"
      using c nth by (intro arg_cong [of _ _ concat] map_cong) auto
    then have "rest s = ?hs @ cs @ rest s'"
      using g1(1) g2(1) g3(1) f(3) s5(3) ts(2) len by simp
    with hd ts w4 w5 show ?thesis by (metis (no_types))
  qed (use s5(7) in simp_all)
qed

section \<open>Blocks and streams\<close>

text \<open>
  \<open>block_code t bs out bs' out'\<close>: the bits \<open>bs\<close> start with a block of type \<open>t\<close> after which
  \<open>bs'\<close> is left, and the block extends the output \<open>out\<close> to \<open>out'\<close>.
\<close>

inductive block_code :: "nat \<Rightarrow> bitstring \<Rightarrow> byte list \<Rightarrow> bitstring \<Rightarrow> byte list \<Rightarrow> bool" where
  stored: "stored_code bs data bs' \<Longrightarrow> block_code 0 bs out bs' (out @ data)"
| fixed: "tokens_code fixed_lengths (replicate MAXDCODES 5) ts cs \<Longrightarrow> lz_expand out ts = Some out' \<Longrightarrow>
    block_code 1 (cs @ bs') out bs' out'"
| dynamic: "dyn_header hs ll dl \<Longrightarrow> tokens_code ll dl ts cs \<Longrightarrow> lz_expand out ts = Some out' \<Longrightarrow>
    block_code 2 (hs @ cs @ bs') out bs' out'"

inductive stream_code :: "bitstring \<Rightarrow> byte list \<Rightarrow> bitstring \<Rightarrow> byte list \<Rightarrow> bool" where
  last_block: "block_code t bs out bs' out' \<Longrightarrow> stream_code (nat_bits 1 1 @ nat_bits 2 t @ bs) out bs' out'"
| more_blocks: "block_code t bs out bs1 out1 \<Longrightarrow> stream_code bs1 out1 bs' out' \<Longrightarrow>
    stream_code (nat_bits 1 0 @ nat_bits 2 t @ bs) out bs' out'"

inductive_cases block_codeE: "block_code t bs out bs' out'"
inductive_simps block_code_3: "block_code 3 bs out bs' out'"

lemma block_code_length: "block_code t bs out bs' out' \<Longrightarrow> length out \<le> length out' \<and> t < 3"
  by (induction rule: block_code.induct) (auto dest: lz_expand_length)

lemma stream_code_length: "stream_code bs out bs' out' \<Longrightarrow> length out \<le> length out'"
  by (induction rule: stream_code.induct) (auto dest: block_code_length)

lemma block_complete:
  assumes "block_code t (rest s) (produced s) bs out" "wf_out s" "length out \<le> poutlen s"
  shows "block_done s (block s t) bs out"
  using assms(1)
proof cases
  case (stored data)
  then show ?thesis using stored_complete [OF assms(2) stored(3)] assms(3) by (simp add: block_def)
next
  case (fixed ts cs)
  obtain ll l dl d where
    "construct (huffman_arrays FIXLCODES) fixed_lengths FIXLCODES = Inr (ll, l)"
    "construct (huffman_arrays MAXDCODES) (replicate MAXDCODES 5) MAXDCODES = Inr (dl, d)"
    and u: "usable l fixed_lengths" "usable d (replicate MAXDCODES 5)"
    by (rule fixed_tables)
  then have "block s t = codes s l d" by (simp add: block_def fixed_def fixed(1))
  with codes_complete [OF fixed(3) assms(2) u fixed(2,4) assms(3)] show ?thesis by simp
next
  case (dynamic hs ll dl ts cs)
  from dynamic_complete [OF dynamic(3,4) assms(2) dynamic(2,5) assms(3)] dynamic(1) show ?thesis
    by (simp add: block_def)
qed

lemma block_sound:
  assumes wf: "wf_out s" and run: "block s t = Inr (0, s')"
  shows "block_code t (rest s) (produced s) (rest s') (produced s') \<and> wf_out s' \<and> poutlen s' = poutlen s"
proof -
  consider "t = 0" | "t = 1" | "t = 2" using run by (auto simp: block_def split: if_splits)
  then show ?thesis
  proof cases
    case 1
    with stored_sound [OF wf, of s'] run show ?thesis by (auto simp: block_def intro: block_code.stored)
  next
    case 2
    obtain ll l dl d where
      "construct (huffman_arrays FIXLCODES) fixed_lengths FIXLCODES = Inr (ll, l)"
      "construct (huffman_arrays MAXDCODES) (replicate MAXDCODES 5) MAXDCODES = Inr (dl, d)"
      and u: "usable l fixed_lengths" "usable d (replicate MAXDCODES 5)"
      by (rule fixed_tables)
    then have "codes s l d = Inr (0, s')" using run 2 by (simp add: block_def fixed_def)
    moreover have "length (replicate MAXDCODES (5 :: nat)) \<le> 30" by (simp add: MAXDCODES_def)
    ultimately obtain ts cs where "tokens_code fixed_lengths (replicate MAXDCODES 5) ts cs" "rest s = cs @ rest s'"
      "lz_expand (produced s) ts = Some (produced s')" "wf_out s' \<and> poutlen s' = poutlen s"
      using codes_sound [OF _ wf u] by blast
    with 2 show ?thesis using block_code.fixed by metis
  next
    case 3
    then have "dynamic s = Inr (0, s')" using run by (simp add: block_def)
    from dynamic_sound [OF wf this] obtain hs ll dl ts cs where "dyn_header hs ll dl" "tokens_code ll dl ts cs"
      "rest s = hs @ cs @ rest s'" "lz_expand (produced s) ts = Some (produced s')" "wf_out s' \<and> poutlen s' = poutlen s"
      by blast
    with 3 show ?thesis using block_code.dynamic by metis
  qed
qed

lemma puff_blocks_header:
  assumes wf: "wf_out s" and r: "rest s = nat_bits 1 b @ nat_bits 2 t @ bs" "b < 2 ^ 1" "t < 2 ^ 2"
  obtains s2 where "wf_out s2" "produced s2 = produced s" "rest s2 = bs" "poutlen s2 = poutlen s"
    "puff_blocks s = ebind (block s2 t) (\<lambda>(err, s). if err \<noteq> 0 then Inr (err, s)
       else if b \<noteq> 0 then Inr (0, s) else puff_blocks s)"
proof -
  have wfp: "wf_puff s" using wf by (simp add: wf_out_def wf_st_def)
  from puff_bits.get_written [OF wfp r(1,2)] obtain s1 where
    s1: "bits s 1 = Inr (b, s1)" "rest s1 = nat_bits 2 t @ bs" "pframe s1 = pframe s" "wf_puff s1" by blast
  from puff_bits.get_written [OF s1(4,2) r(3)] obtain s2 where
    s2: "bits s1 2 = Inr (t, s2)" "rest s2 = bs" "pframe s2 = pframe s1" "wf_puff s2" by blast
  have "puff_blocks s = ebind (block s2 t) (\<lambda>(err, s). if err \<noteq> 0 then Inr (err, s)
       else if b \<noteq> 0 then Inr (0, s) else puff_blocks s)"
    by (subst puff_blocks.simps) (simp only: s1(1) s2(1) ebind_simps prod.case)
  moreover have "pframe s2 = pframe s" using s1 s2 by simp
  ultimately show ?thesis using that pframe_wf_out [OF wf _ s2(4)] s2(2) by blast
qed

lemma puff_blocks_complete:
  assumes "stream_code bs out bs' out'" "wf_out s" "rest s = bs" "produced s = out" "length out' \<le> poutlen s"
  shows "block_done s (puff_blocks s) bs' out'"
  using assms
proof (induction arbitrary: s)
  case (last_block t bs out bs' out')
  have t: "t < 2 ^ 2" using block_code_length [OF last_block.hyps] by simp
  obtain s2 where s2: "wf_out s2" "produced s2 = produced s" "rest s2 = bs" "poutlen s2 = poutlen s"
    "puff_blocks s = ebind (block s2 t) (\<lambda>(err, s). if err \<noteq> 0 then Inr (err, s)
       else if 1 \<noteq> (0 :: nat) then Inr (0, s) else puff_blocks s)"
    by (rule puff_blocks_header [OF last_block.prems(1,2) _ t]) simp_all
  with block_complete [of t s2 bs' out'] last_block show ?case by auto
next
  case (more_blocks t bs out bs1 out1 bs' out')
  have t: "t < 2 ^ 2" using block_code_length [OF more_blocks.hyps(1)] by simp
  obtain s2 where s2: "wf_out s2" "produced s2 = produced s" "rest s2 = bs" "poutlen s2 = poutlen s"
    "puff_blocks s = ebind (block s2 t) (\<lambda>(err, s). if err \<noteq> 0 then Inr (err, s)
       else if 0 \<noteq> (0 :: nat) then Inr (0, s) else puff_blocks s)"
    by (rule puff_blocks_header [OF more_blocks.prems(1,2) _ t]) simp_all
  have "length out1 \<le> poutlen s2" using stream_code_length [OF more_blocks.hyps(2)] more_blocks.prems(4) s2(4) by simp
  then obtain s3 where s3: "block s2 t = Inr (0, s3)" "wf_out s3" "produced s3 = out1" "rest s3 = bs1" "poutlen s3 = poutlen s2"
    using block_complete [of t s2 bs1 out1] more_blocks.hyps(1) more_blocks.prems(3) s2 by auto
  with more_blocks.IH [OF s3(2,4,3)] more_blocks.prems(4) s2 show ?case by simp
qed

lemma puff_blocks_sound:
  assumes "puff_blocks s = Inr (0, s')" "wf_out s"
  shows "stream_code (rest s) (produced s) (rest s') (produced s') \<and> wf_out s' \<and> poutlen s' = poutlen s"
  using assms
proof (induction s rule: puff_blocks.induct)
  case (1 s)
  have wfp: "wf_puff s" using "1.prems"(2) by (simp add: wf_out_def wf_st_def)
  note unf = "1.prems"(1) [unfolded puff_blocks.simps [of s]]
  from unf obtain b s1 t s2 s3 where b: "bits s 1 = Inr (b, s1)" "bits s1 2 = Inr (t, s2)" "block s2 t = Inr (0, s3)"
    and tl: "if b \<noteq> 0 then s' = s3 else puff_blocks s3 = Inr (0, s')"
    by (auto simp: ebind_Inr_iff split: if_splits)
  note g1 = puff_bits.get_prefix [OF wfp b(1)] note g2 = puff_bits.get_prefix [OF g1(4) b(2)]
  have "pframe s2 = pframe s" using g1 g2 by simp
  note w = pframe_wf_out [OF "1.prems"(2) this g2(4)]
  note blk = block_sound [OF w(1) b(3)]
  have r: "rest s = nat_bits 1 b @ nat_bits 2 t @ rest s2" using g1(1) g2(1) by simp
  show ?case
  proof (cases "b \<noteq> 0")
    case True
    with g1(2) have "b = 1" by simp
    with True tl blk w r stream_code.last_block [of t "rest s2"] show ?thesis by simp
  next
    case False
    then have run: "puff_blocks s3 = Inr (0, s')" using tl by simp
    from "1.IH" [OF b(1) refl b(2) refl b(3) refl _ _ run] False blk have
      "stream_code (rest s3) (produced s3) (rest s') (produced s')" "wf_out s'" "poutlen s' = poutlen s3" by auto
    with False blk w r stream_code.more_blocks [of t "rest s2"] show ?thesis by auto
  qed
qed

section \<open>\<open>puff\<close> decodes exactly the format\<close>

text \<open>Input bytes that a run of \<open>puff\<close> has not touched.\<close>

lemma wf_out_puff_init:
  "sourcelen \<le> length source \<Longrightarrow> destlen \<le> length dest \<Longrightarrow> wf_out (puff_init (Some dest) destlen source sourcelen)"
  using wf_st_puff_init [where dest = "Some dest"] by (simp add: wf_out_def puff_init_def)

lemma rest_puff_init: "rest (puff_init dest destlen source sourcelen) = bytes_bits (take sourcelen source)"
  by (simp add: rest_def buffered_def unread_def puff_init_def)

lemma puff_complete:
  assumes "sourcelen \<le> length source" "destlen \<le> length dest" "length out \<le> destlen"
    "stream_code (bytes_bits (take sourcelen source)) [] bs out"
  shows "\<exists>buf dl sl. puff (Some dest) destlen source sourcelen = Some (0, Some buf, dl, sl) \<and> take dl buf = out \<and> dl = length out"
proof -
  let ?s = "puff_init (Some dest) destlen source sourcelen"
  have wf: "wf_out ?s" using assms(1,2) by (rule wf_out_puff_init)
  have init: "produced ?s = []" "poutlen ?s = destlen" by (simp_all add: produced_def puff_init_def)
  from assms(4) have "stream_code (rest ?s) [] bs out" by (simp add: rest_puff_init)
  then obtain s where s: "puff_blocks ?s = Inr (0, s)" "wf_out s" "produced s = out"
    using puff_blocks_complete [of "rest ?s" "[]" bs out ?s] assms(3) wf init by auto
  then obtain buf where "pout s = Some buf" "take (poutcnt s) buf = out" "length out = poutcnt s"
    by (metis wf_outE)
  with s(1) show ?thesis by (simp add: puff_def)
qed

lemma puff_sound:
  assumes "sourcelen \<le> length source" "destlen \<le> length dest"
    "puff (Some dest) destlen source sourcelen = Some (0, Some buf, length out, sl)" "take (length out) buf = out"
  shows "length out \<le> destlen \<and> (\<exists>bs. stream_code (bytes_bits (take sourcelen source)) [] bs out)"
proof -
  let ?s = "puff_init (Some dest) destlen source sourcelen"
  have wf: "wf_out ?s" using assms(1,2) by (rule wf_out_puff_init)
  have init: "produced ?s = []" "poutlen ?s = destlen" by (simp_all add: produced_def puff_init_def)
  obtain s where s: "puff_blocks ?s = Inr (0, s)" "produced s = out"
    using assms(3,4) by (auto simp: puff_def produced_def split: sum.splits fault.splits if_splits)
  from puff_blocks_sound [OF s(1) wf] s(2) init have "stream_code (rest ?s) [] (rest s) out" "wf_out s" "poutlen s = destlen"
    by simp_all
  moreover from this(2,3) have "length out \<le> destlen" using s(2) by (metis wf_outE)
  ultimately show ?thesis by (auto simp: rest_puff_init)
qed

text \<open>
  (C2) Correctness of \<open>puff\<close> against the format: with buffers of the given lengths, \<open>puff\<close>
  returns zero with output \<open>out\<close> exactly when the source starts with a DEFLATE stream that
  stands for \<open>out\<close> and \<open>out\<close> fits into the destination.
\<close>

theorem puff_correct:
  assumes "sourcelen \<le> length source" "destlen \<le> length dest"
  shows "(\<exists>buf dl sl. puff (Some dest) destlen source sourcelen = Some (0, Some buf, dl, sl) \<and> take dl buf = out \<and> dl = length out) \<longleftrightarrow>
    length out \<le> destlen \<and> (\<exists>bs. stream_code (bytes_bits (take sourcelen source)) [] bs out)"
    (is "?L \<longleftrightarrow> ?R")
proof
  assume ?L
  then obtain buf sl where "puff (Some dest) destlen source sourcelen = Some (0, Some buf, length out, sl)" "take (length out) buf = out"
    by (elim exE conjE) (rule that, simp_all)
  then show ?R by (rule puff_sound [OF assms])
next
  assume ?R
  then obtain bs where "length out \<le> destlen" "stream_code (bytes_bits (take sourcelen source)) [] bs out" by (elim conjE exE)
  then show ?L by (rule puff_complete [OF assms])
qed

theorem puff_correct_witness:
  "(\<exists>buf dl sl. puff (Some [0, 0]) 2 [3, 0] 2 = Some (0, Some buf, dl, sl) \<and> take dl buf = [] \<and> dl = length ([] :: byte list)) \<longleftrightarrow>
    length ([] :: byte list) \<le> 2 \<and> (\<exists>bs. stream_code (bytes_bits (take 2 [3, 0])) [] bs [])"
  by (rule puff_correct) simp_all

end
