(* ===== verification/Trees_Codes.thy ===== *)
theory Trees_Codes
  imports Trees_Bits Deflate_Blocks
begin

text \<open>
  \<open>gen_codes\<close> assigns the canonical codes, bit reversed because \<open>send_bits\<close> writes the least
  significant bit first; the static tables of \<open>trees.h\<close> are those of \<open>tr_static_init\<close>, and
  the length and distance tables are inverse to the bases and extra bits of the decoders.
\<close>

section \<open>Reversal\<close>

lemma bit_rev_step:
  "bit (push_bit 1 (res OR (code AND 1)) :: uint) i \<longleftrightarrow>
    i < 32 \<and> 1 \<le> i \<and> (bit res (i - 1) \<or> (i = 1 \<and> bit code 0))"
  unfolding bit_push_bit_iff bit_or_iff bit_and_iff bit_1_iff possible_bit_word by auto

lemma bi_reverse_loop_bits:
  "\<not> bit res 0 \<Longrightarrow> 1 \<le> len \<Longrightarrow>
    bit (bi_reverse_loop len code res) i \<longleftrightarrow>
      i < 32 \<and> 1 \<le> i \<and> (if i \<le> len then bit code (len - i) else bit res (i - len))"
proof (induction len code res rule: bi_reverse_loop.induct)
  case (1 len code res)
  let ?res = "push_bit 1 (res OR (code AND 1))" and ?code = "drop_bit 1 code"
  have *: "\<not> bit ?res 0" by (simp only: bit_rev_step) simp
  show ?case
  proof (cases "len \<le> 1")
    case True
    with "1.prems" have "len = 1" by simp
    then have "bi_reverse_loop len code res = ?res" by (subst bi_reverse_loop.simps) (simp add: Let_def)
    then have "bit (bi_reverse_loop len code res) i \<longleftrightarrow> i < 32 \<and> 1 \<le> i \<and> (bit res (i - 1) \<or> (i = 1 \<and> bit code 0))"
      by (simp only: bit_rev_step)
    then show ?thesis using "1.prems" \<open>len = 1\<close> by (cases "i = 1") auto
  next
    case False
    have "bi_reverse_loop len code res = bi_reverse_loop (len - 1) ?code ?res"
      using False by (simp add: bi_reverse_loop.simps [of len])
    then have IH: "bit (bi_reverse_loop len code res) i \<longleftrightarrow> i < 32 \<and> 1 \<le> i \<and>
        (if i \<le> len - 1 then bit ?code (len - 1 - i) else bit ?res (i - (len - 1)))"
      using "1.IH" [OF refl refl False * ] False by simp
    consider "i \<le> len - 1" | "i = len" | "len < i" by linarith
    then show ?thesis
    proof cases
      case 1
      then have i: "1 + (len - 1 - i) = len - i" if "1 \<le> i" using False that by simp
      from 1 show ?thesis using False i unfolding IH bit_drop_bit_eq by auto
    next
      case 2
      then have i: "i - (len - 1) = 1" "\<not> i \<le> len - 1" using False by simp_all
      show ?thesis using False 2 "1.prems" unfolding IH i bit_rev_step by auto
    next
      case 3
      then have i: "i - (len - 1) - 1 = i - len" "\<not> i \<le> len - 1" "i - (len - 1) \<noteq> 1" "1 \<le> i - (len - 1)"
        using False by simp_all
      show ?thesis using False 3 i(2-4) unfolding IH bit_rev_step i(1) by auto
    qed
  qed
qed

lemma bi_reverse_bits:
  assumes "1 \<le> len" "len \<le> 15"
  shows "bit (bi_reverse code len) i \<longleftrightarrow> i < len \<and> bit code (len - 1 - i)"
  using assms bi_reverse_loop_bits [of 0 len code "Suc i"]
  by (auto simp: bi_reverse_def bit_drop_bit_eq not_le not_less)

definition rev_code :: "nat \<Rightarrow> nat \<Rightarrow> ush" where
  "rev_code c len = ucast (bi_reverse (ucast (of_nat c :: ush)) len)"

lemma rev_code_bits:
  assumes "1 \<le> len" "len \<le> 15"
  shows "nat_bits len (unat (rev_code c len)) = msb_bits len c" "unat (rev_code c len) < 2 ^ len"
proof -
  have *: "bit (rev_code c len) i \<longleftrightarrow> i < len \<and> bit c (len - 1 - i)" for i
    using assms by (auto simp: rev_code_def bit_simps bi_reverse_bits)
  then show "unat (rev_code c len) < 2 ^ len" by (intro unat_less_exp) simp
  show "nat_bits len (unat (rev_code c len)) = msb_bits len c"
    by (rule nth_equalityI) (auto simp: * nat_bits_unat msb_bits_def rev_nth)
qed

section \<open>The codes that \<open>gen_codes\<close> assigns\<close>

definition tree_lens :: "ct_data list \<Rightarrow> nat \<Rightarrow> nat list" where
  "tree_lens tree max_code = map (Len tree) [0..<max_code + 1]"

text \<open>Every used symbol of the tree has the canonical code of the lengths.\<close>

definition tree_canonical :: "ct_data list \<Rightarrow> nat list \<Rightarrow> bool" where
  "tree_canonical tree lens \<longleftrightarrow> length lens \<le> length tree \<and> (\<forall>k < length lens. Len tree k = lens ! k) \<and>
     (\<forall>k < length lens. lens ! k \<noteq> 0 \<longrightarrow> fc (tree ! k) = rev_code (canon_code lens k) (lens ! k))"

lemma next_codes_length [simp]: "length (next_codes blc code bs nc) = length nc"
  by (induction blc code bs nc rule: next_codes.induct) (auto simp: Let_def)

lemma ucast_uint_ush: "(ucast (of_nat c :: uint) :: ush) = of_nat c"
  by (rule bit_word_eqI) (auto simp: bit_simps)

lemma ucast_ush_uint: "c < 65536 \<Longrightarrow> (ucast (of_nat c :: ush) :: uint) = of_nat c"
  by (simp add: unsigned_of_nat take_bit_nat_eq_self)

lemma next_codes_first:
  assumes "\<And>l. l < 16 \<Longrightarrow> blc ! l = of_nat (cnt l)" "\<And>l. cnt l < 65536" "cnt 0 = 0"
  shows "1 \<le> m \<Longrightarrow> m \<le> 16 \<Longrightarrow> length nc = 16 \<Longrightarrow> l < 16 \<Longrightarrow>
    next_codes blc (of_nat (first_code cnt (m - 1))) [m..<16] nc ! l =
      (if m \<le> l then of_nat (first_code cnt l) else nc ! l)"
proof (induction "16 - m" arbitrary: m nc)
  case (Suc d)
  then have m: "m < 16" by simp
  have step: "push_bit 1 (of_nat (first_code cnt (m - 1)) + ucast (blc ! (m - 1))) = (of_nat (first_code cnt m) :: uint)"
    using Suc.prems m assms by (cases m) (auto simp: ucast_ush_uint)
  have "next_codes blc (of_nat (first_code cnt (m - 1))) [m..<16] nc =
      next_codes blc (of_nat (first_code cnt m)) [Suc m..<16] (nc[m := of_nat (first_code cnt m)])"
    using m by (simp only: upt_conv_Cons [OF m] next_codes.simps step Let_def ucast_uint_ush)
  moreover have "m \<le> l \<longleftrightarrow> Suc m \<le> l \<or> m = l" by auto
  ultimately show ?case using Suc.hyps(1) [of "Suc m" "nc[m := of_nat (first_code cnt m)]"] Suc.hyps(2) Suc.prems m
    by (auto simp: nth_list_update)
qed simp

lemma assign_codes_length [simp]: "length (assign_codes ns nc tree) = length tree"
  by (induction ns nc tree rule: assign_codes.induct) (auto simp: Let_def)

lemma gen_codes_length [simp]: "length (gen_codes tree m blc) = length tree"
  by (simp add: gen_codes_def)

lemma assign_codes_dl: "dl (assign_codes ns nc tree ! k) = dl (tree ! k)"
proof (induction ns nc tree rule: assign_codes.induct)
  case (2 n ns nc tree)
  then show ?case
    by (cases "n < length tree"; cases "n = k") (auto simp: Let_def list_update_beyond)
qed simp

lemma assign_codes_other: "k \<notin> set ns \<Longrightarrow> assign_codes ns nc tree ! k = tree ! k"
  by (induction ns nc tree rule: assign_codes.induct) (auto simp: Let_def)

lemma count_list_take_Suc:
  "n < length xs \<Longrightarrow> count_list (take (Suc n) xs) l = count_list (take n xs) l + (if xs ! n = l then 1 else 0)"
  by (simp add: take_Suc_conv_app_nth)

lemma assign_codes_canonical:
  assumes lens: "\<forall>k < length lens. Len tree k = lens ! k" "length lens \<le> length tree" "\<forall>l \<in> set lens. l < 16"
    and nc: "length nc = 16" "\<And>l. 1 \<le> l \<Longrightarrow> l < 16 \<Longrightarrow>
      nc ! l = of_nat (first_code (count_list lens) l + count_list (take m lens) l)"
    and k: "m \<le> k" "k < length lens" "lens ! k \<noteq> 0"
  shows "fc (assign_codes [m..<length lens] nc tree ! k) = rev_code (canon_code lens k) (lens ! k)"
  using lens nc k
proof (induction "length lens - m" arbitrary: m nc tree)
  case (Suc d)
  then have m: "m < length lens" by simp
  let ?l = "lens ! m"
  let ?nc = "nc[?l := nc ! ?l + 1]" and ?t = "tree[m := (tree ! m)\<lparr>fc := ucast (bi_reverse (ucast (nc ! ?l)) ?l)\<rparr>]"
  have lm: "?l < 16" "Len tree m = ?l" using Suc.prems m by auto
  show ?case
  proof (cases "?l = 0")
    case True
    with Suc.prems(8) have "m \<noteq> k" by metis
    have "assign_codes [m..<length lens] nc tree = assign_codes [Suc m..<length lens] nc tree"
      using True lm by (simp add: upt_conv_Cons [OF m])
    then show ?thesis using Suc.hyps(1) [of "Suc m" tree nc] Suc.hyps(2) Suc.prems True m \<open>m \<noteq> k\<close>
      by (auto simp: count_list_take_Suc)
  next
    case False
    have step: "assign_codes [m..<length lens] nc tree = assign_codes [Suc m..<length lens] ?nc ?t"
      using False lm by (simp add: upt_conv_Cons [OF m] Let_def)
    show ?thesis
    proof (cases "m = k")
      case True
      have "fc (assign_codes [Suc m..<length lens] ?nc ?t ! k) = fc (?t ! k)"
        using True by (subst assign_codes_other) auto
      also have "\<dots> = rev_code (canon_code lens k) (lens ! k)"
        using True Suc.prems m False lm by (simp add: rev_code_def canon_code_def rank_def)
      finally show ?thesis by (simp only: step)
    next
      case False
      have "fc (assign_codes [Suc m..<length lens] ?nc ?t ! k) = rev_code (canon_code lens k) (lens ! k)"
      proof (rule Suc.hyps(1))
        show "\<forall>k<length lens. Len ?t k = lens ! k"
          using Suc.prems(1,2) m by (auto simp: Len_def nth_list_update)
        show "?nc ! l = of_nat (first_code (count_list lens) l + count_list (take (Suc m) lens) l)"
          if "1 \<le> l" "l < 16" for l
          using that Suc.prems(4,5) m lm by (auto simp: count_list_take_Suc nth_list_update)
      qed (use Suc.hyps(2) Suc.prems False in auto)
      then show ?thesis by (simp only: step)
    qed
  qed
qed simp

lemma gen_codes_canonical:
  assumes lens: "lens = tree_lens tree max_code" "max_code < length tree" "\<forall>l \<in> set lens. l < 16" "length lens < 65536"
    and blc: "blc ! 0 = 0" "\<And>l. 1 \<le> l \<Longrightarrow> l < 16 \<Longrightarrow> blc ! l = of_nat (count_list lens l)"
  shows "tree_canonical (gen_codes tree max_code blc) lens"
proof -
  define cnt where "cnt l = (if l = 0 then 0 else count_list lens l)" for l
  have fc: "first_code cnt l = first_code (count_list lens) l" for l
    by (induction l) (auto simp: cnt_def)
  have len: "length lens = max_code + 1" "\<forall>k < length lens. Len tree k = lens ! k"
    by (simp_all add: lens(1) tree_lens_def nth_append del: upt_Suc)
  have cnt: "cnt l < 65536" for l
    using count_le_length [of lens l] lens(4) by (simp add: cnt_def)
  let ?nc = "next_codes blc 0 [1..<16] (replicate 16 0)"
  have nc: "?nc ! l = of_nat (first_code (count_list lens) l + count_list (take 0 lens) l)" if "1 \<le> l" "l < 16" for l
    using next_codes_first [of blc cnt 1 "replicate 16 0" l] cnt blc that
    by (simp add: fc cnt_def)
  have g: "gen_codes tree max_code blc = assign_codes [0..<length lens] ?nc tree"
    by (simp add: gen_codes_def len(1) MAX_BITS_def del: upt_Suc)
  show ?thesis unfolding tree_canonical_def
    using assign_codes_canonical [of lens tree ?nc 0] nc len lens
    by (auto simp: g Len_def assign_codes_dl)
qed

text \<open>A canonical tree makes \<open>send_code\<close> write the code words of the format.\<close>

lemma tree_canonical_code:
  assumes "tree_canonical tree lens" "\<forall>l \<in> set lens. l < 16" "k < length lens" "lens ! k \<noteq> 0"
  shows "nat_bits (Len tree k) (Code tree k) = canon_bits lens k" "Code tree k < 2 ^ Len tree k"
    "0 < Len tree k" "Len tree k \<le> 15"
proof -
  have "lens ! k \<le> 15" using assms(2,3) nth_mem [of k lens] by fastforce
  then show "nat_bits (Len tree k) (Code tree k) = canon_bits lens k" "Code tree k < 2 ^ Len tree k"
    "0 < Len tree k" "Len tree k \<le> 15"
    using assms rev_code_bits [of "lens ! k" "canon_code lens k"]
    by (auto simp: tree_canonical_def Code_def canon_bits_def)
qed


section \<open>The static tables\<close>

primrec rev_int :: "nat \<Rightarrow> int \<Rightarrow> int" where
  "rev_int 0 v = 0"
| "rev_int (Suc n) v = rev_int n (v div 2) + 2 ^ n * (v mod 2)"

lemma rev_int_bits: "int (bits_nat (msb_bits n v)) = rev_int n (int v)"
proof (induction n arbitrary: v)
  case (Suc n)
  then show ?case by (cases "even v") (auto simp: msb_bits_Suc bits_nat_append zdiv_int elim!: evenE oddE)
qed (simp add: msb_bits_def)

lemma uint_rev_code:
  assumes "1 \<le> len" "len \<le> 15"
  shows "uint (rev_code c len) = rev_int len (int c)"
proof -
  have "bits_nat (nat_bits len (unat (rev_code c len))) = unat (rev_code c len)"
    using rev_code_bits(2) [OF assms] by (simp add: take_bit_nat_eq_self)
  then show ?thesis by (metis rev_code_bits(1) [OF assms] rev_int_bits uint_nat)
qed

definition code_run :: "nat \<Rightarrow> int \<Rightarrow> nat \<Rightarrow> int list" where
  "code_run len a n = map (\<lambda>i. rev_int len (a + int i)) [0..<n]"

lemma code_run_simps [simp]:
  "length (code_run len a n) = n" "i < n \<Longrightarrow> code_run len a n ! i = rev_int len (a + int i)"
  by (simp_all add: code_run_def)

definition static_codes :: "int list" where
  "static_codes = code_run 8 48 144 @ code_run 9 400 112 @ code_run 7 0 24 @ code_run 8 192 8"

lemma static_ltree_codes: "map (\<lambda>t. uint (fc t)) static_ltree = static_codes"
  by code_simp

lemma static_ltree_lens: "map (\<lambda>t. unat (dl t)) static_ltree = static_llens"
  by code_simp


declare count_list_replicate [simp]

lemma static_first_codes:
  "first_code (count_list static_llens) 7 = 0"
  "first_code (count_list static_llens) 8 = 48"
  "first_code (count_list static_llens) 9 = 400"
  by code_simp+


lemma static_canon_code:
  assumes "k < 288"
  shows "int (canon_code static_llens k) = (if k < 144 then int k + 48 else if k < 256 then int k + 256
      else if k < 280 then int k - 256 else int k - 88)"
    and "static_llens ! k = (if k < 144 then 8 else if k < 256 then 9 else if k < 280 then 7 else 8)"
proof -
  show len: "static_llens ! k = (if k < 144 then 8 else if k < 256 then 9 else if k < 280 then 7 else 8)"
    using assms by (auto simp: static_llens_def nth_append)
  have rank: "rank static_llens k = (if k < 144 then k else if k < 256 then k - 144 else if k < 280 then k - 256 else k - 136)"
    using assms unfolding rank_def len by (auto simp: static_llens_def)
  show "int (canon_code static_llens k) = (if k < 144 then int k + 48 else if k < 256 then int k + 256
      else if k < 280 then int k - 256 else int k - 88)"
    using assms unfolding canon_code_def rank len by (auto simp: static_first_codes)
qed

lemma static_codes_nth:
  assumes "k < 288"
  shows "static_codes ! k = rev_int (static_llens ! k) (int (canon_code static_llens k))"
  using assms unfolding static_codes_def static_canon_code [OF assms]
  by (auto simp: nth_append add.commute)

lemma static_ltree_canonical: "tree_canonical static_ltree static_llens"
proof -
  have l: "length static_llens = 288" "length static_ltree = 288"
    by (simp add: static_llens_def) (simp add: static_ltree_def)
  have len: "Len static_ltree k = static_llens ! k" if "k < 288" for k
    using that l arg_cong [OF static_ltree_lens, of "\<lambda>xs. xs ! k"] by (simp add: Len_def)
  have "fc (static_ltree ! k) = rev_code (canon_code static_llens k) (static_llens ! k)" if "k < 288" for k
  proof -
    have "uint (fc (static_ltree ! k)) = static_codes ! k"
      using that l arg_cong [OF static_ltree_codes, of "\<lambda>xs. xs ! k"] by simp
    also have "\<dots> = uint (rev_code (canon_code static_llens k) (static_llens ! k))"
      using static_codes_nth [OF that] static_canon_code(2) [OF that] by (simp add: uint_rev_code)
    finally show ?thesis by (simp add: word_uint_eq_iff)
  qed
  with l len show ?thesis by (simp add: tree_canonical_def)
qed

lemma rank_replicate: "k < n \<Longrightarrow> rank (replicate n x) k = k"
  by (simp add: rank_def)

lemma static_dtree_canonical: "tree_canonical static_dtree (replicate 30 5)"
proof -
  have c: "canon_code (replicate 30 5) k = k" if "k < 30" for k
  proof -
    have "first_code (count_list (replicate 30 5)) 5 = 0" by code_simp
    with that rank_replicate [OF that] show ?thesis by (simp add: canon_code_def nth_replicate)
  qed
  have "map (\<lambda>t. uint (fc t)) static_dtree = code_run 5 0 30"  "map (\<lambda>t. unat (dl t)) static_dtree = replicate 30 5"
     by code_simp+
  note t = arg_cong [OF this(1), of "\<lambda>xs. xs ! k" for k] arg_cong [OF this(2), of "\<lambda>xs. xs ! k" for k]
  have l: "length static_dtree = 30" by (simp add: static_dtree_def)
  have "fc (static_dtree ! k) = rev_code k 5" if "k < 30" for k
    using that l t(1) [of k] by (simp add: word_uint_eq_iff uint_rev_code)
  moreover have "unat (dl (static_dtree ! k)) = 5" if "k < 30" for k
    using that l t(2) [of k] by (simp add: nth_replicate)
  ultimately show ?thesis using l c by (simp add: tree_canonical_def Len_def)
qed


section \<open>Lengths and distances\<close>

lemma extra_bits_tables: "extra_lbits = lext" "extra_dbits = dext"
  by (simp_all add: extra_lbits_def lext_def extra_dbits_def dext_def)

text \<open>The loops of \<open>tr_static_init\<close>: every index lies in the run of its code.\<close>

lemma fill_codes_inverse:
  "fill_codes r [a..<b] (bs, cs) = (bases, cods) \<Longrightarrow>
    (\<exists>bs' cs'. bases = bs @ bs' \<and> cods = cs @ cs') \<and>
    (\<forall>i. length cs \<le> i \<and> i < length cods \<longrightarrow> (\<exists>j. cods ! i = a + j \<and> a + j < b \<and>
      length bs + j < length bases \<and> bases ! (length bs + j) \<le> i \<and> i < bases ! (length bs + j) + r (a + j)))"
proof (induction "b - a" arbitrary: a bs cs)
  case (Suc d)
  then have ab: "a < b" by simp
  let ?bs = "bs @ [length cs]" and ?cs = "cs @ replicate (r a) a"
  have "fill_codes r [Suc a..<b] (?bs, ?cs) = (bases, cods)"
    using Suc.prems ab by (simp add: upt_conv_Cons)
  moreover have "d = b - Suc a" using Suc.hyps(2) by simp
  ultimately have IH: "\<exists>bs' cs'. bases = ?bs @ bs' \<and> cods = ?cs @ cs'"
    and IH2: "\<forall>i. length ?cs \<le> i \<and> i < length cods \<longrightarrow> (\<exists>j. cods ! i = Suc a + j \<and> Suc a + j < b \<and>
      length ?bs + j < length bases \<and> bases ! (length ?bs + j) \<le> i \<and> i < bases ! (length ?bs + j) + r (Suc a + j))"
    using Suc.hyps(1) by blast+
  obtain bs' cs' where e: "bases = ?bs @ bs'" "cods = ?cs @ cs'" using IH by blast
  have "\<exists>j. cods ! i = a + j \<and> a + j < b \<and> length bs + j < length bases \<and>
      bases ! (length bs + j) \<le> i \<and> i < bases ! (length bs + j) + r (a + j)"
    if i: "length cs \<le> i" "i < length cods" for i
  proof (cases "i < length ?cs")
    case True
    then have "i - length cs < r a" using i by auto
    then have "cods ! i = a" using i(1) by (simp add: e nth_append)
    then show ?thesis using True i(1) ab by (intro exI [of _ 0]) (simp add: e nth_append)
  next
    case False
    then obtain j where "cods ! i = Suc a + j" "Suc a + j < b" "length ?bs + j < length bases"
        "bases ! (length ?bs + j) \<le> i" "i < bases ! (length ?bs + j) + r (Suc a + j)"
      using IH2 i by (meson not_less)
    then show ?thesis by (intro exI [of _ "Suc j"]) simp
  qed
  then show ?case using e by auto
qed simp

lemma init_lengths_eq: "init_lengths = (base_length, length_code)"
  by code_simp

lemma init_lengths_runs:
  "fill_codes (\<lambda>c. 2 ^ (extra_lbits ! c)) [0..<28] ([], []) = (take 28 base_length, take 255 length_code @ [27])"
  by code_simp

definition dist_blocks :: "nat list" where
  "dist_blocks = [2, 3, 4, 6, 8, 12, 16, 24, 32, 48, 64, 96, 128, 192]"

definition dist_low :: "nat list" where
  "dist_low = [0, 1, 2, 3, 4, 6, 8, 12, 16, 24, 32, 48, 64, 96, 128, 192]"

lemma init_dists_low: "fill_codes (\<lambda>c. 2 ^ (extra_dbits ! c)) [0..<16] ([], []) = (dist_low, take 256 dist_code)"
  by code_simp

lemma init_dists_high:
  "fill_codes (\<lambda>c. 2 ^ (extra_dbits ! c - 7)) [16..<30] ([], [0, 0]) = (dist_blocks, drop 256 dist_code)"
  by code_simp

lemma base_dist_blocks: "base_dist = dist_low @ map (\<lambda>d. d * 128) dist_blocks"
  by (simp add: base_dist_def dist_low_def dist_blocks_def)

lemma init_dists_eq: "init_dists = (base_dist, dist_code)"
proof -
  have "length (take 256 dist_code) div 128 = 2" by (simp add: dist_code_def)
  then have "replicate (length (take 256 dist_code) div 128) 0 = [0 :: nat, 0]" by (simp add: numeral_2_eq_2)
  then show ?thesis
    by (simp only: init_dists_def D_CODES_def init_dists_low Let_def case_prod_conv init_dists_high
        append_take_drop_id base_dist_blocks [symmetric])
qed

lemma base_dist_dists: "map (\<lambda>d. d + 1) base_dist = dists"
  by (simp add: base_dist_def dists_def)

lemma length_code_inverse:
  assumes "lc < 256" "c = length_code ! lc"
  shows "c < 29" "lext ! c = 0 \<Longrightarrow> lens_base ! c = lc + 3"
    "lext ! c \<noteq> 0 \<Longrightarrow> lc - base_length ! c < 2 ^ (lext ! c) \<and> lens_base ! c + (lc - base_length ! c) = lc + 3"
proof -
  have l: "length length_code = 256" "length base_length = 29" "length lens_base = 29"
    by (simp_all add: length_code_def base_length_def lens_base_def)
  have bases: "map (\<lambda>x. x + 3) (take 28 base_length) = take 28 lens_base"
    by (simp add: base_length_def lens_base_def)
  have "c < 29 \<and> (lext ! c = 0 \<longrightarrow> lens_base ! c = lc + 3) \<and>
    (lext ! c \<noteq> 0 \<longrightarrow> lc - base_length ! c < 2 ^ (lext ! c) \<and> lens_base ! c + (lc - base_length ! c) = lc + 3)"
  proof (cases "lc = 255")
    case True
    then show ?thesis by (simp add: assms(2) length_code_def lext_def lens_base_def)
  next
    case False
    then have lc: "(take 255 length_code @ [27]) ! lc = c" using assms l by (simp add: nth_append)
    from False assms(1) obtain j where j: "c = j" "j < 28" "base_length ! j \<le> lc" "lc < base_length ! j + 2 ^ (lext ! j)"
      using conjunct2 [OF fill_codes_inverse [OF init_lengths_runs], rule_format, of lc] l
      by (auto simp: lc extra_bits_tables)
    moreover from this have "lens_base ! c = base_length ! c + 3"
      using l arg_cong [OF bases, of "\<lambda>xs. xs ! c"] by simp
    ultimately show ?thesis by auto
  qed
  then show "c < 29" "lext ! c = 0 \<Longrightarrow> lens_base ! c = lc + 3"
    "lext ! c \<noteq> 0 \<Longrightarrow> lc - base_length ! c < 2 ^ (lext ! c) \<and> lens_base ! c + (lc - base_length ! c) = lc + 3" by simp_all
qed

lemma d_code_inverse:
  assumes "d < 32768" "c = d_code d"
  shows "c < 30" "d - base_dist ! c < 2 ^ (dext ! c)" "dists ! c + (d - base_dist ! c) = d + 1"
proof -
  have l: "length dist_code = 512" "length dist_blocks = 14" "length dist_low = 16" "length dext = 30"
    by (simp_all add: dist_code_def dist_blocks_def dist_low_def dext_def)
  have c: "c < 30 \<and> base_dist ! c \<le> d \<and> d < base_dist ! c + 2 ^ (dext ! c)"
  proof (cases "d < 256")
    case True
    then obtain j where "c = j" "j < 16" "dist_low ! j \<le> d" "d < dist_low ! j + 2 ^ (dext ! j)"
      using conjunct2 [OF fill_codes_inverse [OF init_dists_low], rule_format, of d] l
      by (auto simp: d_code_def assms(2) extra_bits_tables)
    then show ?thesis using l by (simp add: base_dist_blocks nth_append)
  next
    case False
    let ?q = "d div 128"
    have q: "2 \<le> ?q" "?q < 256" using False assms(1) by (simp_all add: less_mult_imp_div_less)
    then obtain j where j: "c = 16 + j" "j < 14" "dist_blocks ! j \<le> ?q" "?q < dist_blocks ! j + 2 ^ (dext ! (16 + j) - 7)"
      using conjunct2 [OF fill_codes_inverse [OF init_dists_high], rule_format, of ?q] False l
      by (auto simp: d_code_def assms(2) extra_bits_tables)
    then have b: "base_dist ! c = 128 * dist_blocks ! j"
      using l by (simp add: base_dist_blocks nth_append)
    have "list_all (\<lambda>x. 7 \<le> x) (drop 16 dext)" by (simp add: dext_def)
    then have "7 \<le> dext ! c" using l j(1,2) by (simp add: list_all_length)
    then have "(2 :: nat) ^ (dext ! c) = 128 * 2 ^ (dext ! c - 7)"
      using power_add [of "2 :: nat" 7 "dext ! c - 7"] by simp
    with b j show ?thesis by auto
  qed
  moreover have "length base_dist = 30" by (simp add: base_dist_def)
  ultimately have "dists ! c = base_dist ! c + 1"
    using arg_cong [OF base_dist_dists, of "\<lambda>xs. xs ! c"] by simp
  with c show "c < 30" "d - base_dist ! c < 2 ^ (dext ! c)" "dists ! c + (d - base_dist ! c) = d + 1" by linarith+
qed

end
