(* ===== verification/Trees_Blocks.thy ===== *)
theory Trees_Blocks
  imports Trees_Codes
begin

text \<open>
  The blocks that \<open>trees.c\<close> writes are blocks of the DEFLATE format: \<open>compress_block\<close> writes
  the tokens of \<open>sym_buf\<close>, \<open>tr_stored_block\<close> a stored block and \<open>tr_align\<close> an empty one.
\<close>

section \<open>Writing a bit string\<close>

definition tframe :: "trees_state \<Rightarrow> trees_state" where
  "tframe s = s\<lparr>pending_buf := [], bi_buf := 0, bi_valid := 0\<rparr>"

text \<open>An operation appends \<open>bs\<close> to the output and leaves everything else alone.\<close>

definition writes :: "trees_state \<Rightarrow> trees_state \<Rightarrow> bitstring \<Rightarrow> bool" where
  "writes s s' bs \<longleftrightarrow> bi_wf s' \<and> bits_written s' = bits_written s @ bs \<and> tframe s' = tframe s"

named_theorems framesimps \<open>fields that writing leaves alone\<close>

lemma tframe_eqD [framesimps]:
  assumes "tframe s' = tframe s"
  shows "dyn_ltree s' = dyn_ltree s" "dyn_dtree s' = dyn_dtree s" "bl_tree s' = bl_tree s"
    "l_max_code s' = l_max_code s" "d_max_code s' = d_max_code s" "sym_buf s' = sym_buf s" "sym_next s' = sym_next s"
  using assms by (cases s; cases s'; simp add: tframe_def)+

lemma writes_refl: "bi_wf s \<Longrightarrow> writes s s []"
  by (simp add: writes_def)

lemma writes_trans: "writes s s1 bs \<Longrightarrow> writes s1 s2 cs \<Longrightarrow> writes s s2 (bs @ cs)"
  by (simp add: writes_def)

lemma writes_wf: "writes s s' bs \<Longrightarrow> bi_wf s'"
  by (simp add: writes_def)

lemma writes_fields:
  assumes "writes s s' bs"
  shows "dyn_ltree s' = dyn_ltree s" "dyn_dtree s' = dyn_dtree s" "bl_tree s' = bl_tree s"
    "l_max_code s' = l_max_code s" "d_max_code s' = d_max_code s" "sym_buf s' = sym_buf s" "sym_next s' = sym_next s"
  using assms tframe_eqD [of s' s] by (simp_all add: writes_def)

lemma tframe_send_bits: "tframe (send_bits s v n) = tframe s"
  by (simp add: tframe_def send_bits_def Let_def put_short_def put_byte_def)

lemma tframe_bi_flush: "tframe (bi_flush s) = tframe s"
  by (simp add: tframe_def bi_flush_def put_short_def put_byte_def)

lemma tframe_bi_windup: "tframe (bi_windup s) = tframe s"
  by (simp add: tframe_def bi_windup_def put_short_def put_byte_def Let_def)

lemma writes_send_bits:
  "bi_wf s \<Longrightarrow> 0 < n \<Longrightarrow> n \<le> 16 \<Longrightarrow> v < 2 ^ n \<Longrightarrow> writes s (send_bits s v n) (nat_bits n v)"
  by (simp add: writes_def tw.put_written tw.put_wf tframe_send_bits)

lemma writes_bi_flush: "bi_wf s \<Longrightarrow> writes s (bi_flush s) []"
  by (simp add: writes_def bi_flush_written tframe_bi_flush)

text \<open>A pair of trees that has the canonical codes of two lists of lengths.\<close>

definition coded :: "ct_data list \<Rightarrow> nat list \<Rightarrow> bool" where
  "coded tree lens \<longleftrightarrow> tree_canonical tree lens \<and> (\<forall>l \<in> set lens. l < 16)"

lemma writes_send_code:
  assumes "bi_wf s" "coded tree lens" "c < length lens" "lens ! c \<noteq> 0"
  shows "writes s (send_code s c tree) (canon_bits lens c)"
proof -
  note t = tree_canonical_code [OF conjunct1 [OF assms(2) [unfolded coded_def]] conjunct2 [OF assms(2) [unfolded coded_def]]
      assms(3,4)]
  then show ?thesis unfolding send_code_def t(1) [symmetric]
    by (intro writes_send_bits assms(1)) auto
qed

lemma fixed_lengths_set: "\<forall>l \<in> set fixed_lengths. l < 16"
  by (auto simp: fixed_lengths_def)

lemma coded_static: "coded static_ltree fixed_lengths" "coded static_dtree (replicate MAXDCODES 5)"
proof -
  have "static_llens = fixed_lengths"
    by (simp add: static_llens_def fixed_lengths_def FIXLCODES_def)
  then show "coded static_ltree fixed_lengths"
    using static_ltree_canonical fixed_lengths_set by (simp add: coded_def)
  show "coded static_dtree (replicate MAXDCODES 5)"
    using static_dtree_canonical by (simp add: coded_def MAXDCODES_def)
qed

section \<open>Tokens\<close>

definition sym_token :: "nat \<Rightarrow> nat \<Rightarrow> token" where
  "sym_token dist lc = (if dist = 0 then Literal (of_nat lc) else Match (lc + 3) dist)"

definition sym_entry :: "byte list \<Rightarrow> nat \<Rightarrow> token" where
  "sym_entry buf sx = sym_token (sym_dist buf sx) (unat (buf ! (sx + 2)))"

text \<open>The tokens in the first \<open>n\<close> entries of \<open>sym_buf\<close>.\<close>

definition sym_tokens :: "byte list \<Rightarrow> nat \<Rightarrow> token list" where
  "sym_tokens buf n = map (\<lambda>i. sym_entry buf (3 * i)) [0..<n]"

text \<open>Both symbols of a token have a code.\<close>

fun codable :: "nat list \<Rightarrow> nat list \<Rightarrow> token \<Rightarrow> bool" where
  "codable ll dd (Literal b) \<longleftrightarrow> unat b < length ll \<and> ll ! unat b \<noteq> 0"
| "codable ll dd (Match len dist) \<longleftrightarrow> 3 \<le> len \<and> len \<le> 258 \<and> 1 \<le> dist \<and> dist \<le> 32768 \<and>
     257 + length_code ! (len - 3) < length ll \<and> ll ! (257 + length_code ! (len - 3)) \<noteq> 0 \<and>
     d_code (dist - 1) < length dd \<and> dd ! d_code (dist - 1) \<noteq> 0"

lemma send_extra:
  assumes "bi_wf s" "x < 2 ^ n" "n \<le> 16"
  shows "writes s (if n \<noteq> 0 then send_bits s x n else s) (nat_bits n x)"
  using assms by (auto intro: writes_send_bits writes_refl)

lemma send_match_written:
  assumes "bi_wf s" "coded lt ll" "coded dt dd" "codable ll dd (Match len dist)"
  shows "\<exists>bs. token_code ll dd (Match len dist) bs \<and> writes s (send_match s lt dt dist (len - 3)) bs"
proof -
  define lc c x d dc y where
    "lc = len - 3" "c = length_code ! lc" "x = (if lext ! c = 0 then 0 else lc - base_length ! c)"
    "d = dist - 1" "dc = d_code d" "y = d - base_dist ! dc"
  note defs = this
  have lc: "lc < 256" "lc + 3 = len" and d: "d < 32768" "d + 1 = dist" using assms(4) by (auto simp: defs)
  note lci = length_code_inverse [OF lc(1) defs(2)] and di = d_code_inverse [OF d(1) defs(5)]
  have l: "x < 2 ^ (lext ! c)" "lens_base ! c + x = len"
    using lci lc(2) by (auto simp: defs(3))
  have ext: "lext ! c \<le> 16" "dext ! dc \<le> 16"
    using lci(1) di(1) by (auto simp: lext_def dext_def nth_Cons' split: if_splits)
  let ?s1 = "send_code s (c + LITERALS + 1) lt"
  let ?s2 = "if lext ! c \<noteq> 0 then send_bits ?s1 x (lext ! c) else ?s1"
  let ?s3 = "send_code ?s2 dc dt"
  let ?s4 = "if dext ! dc \<noteq> 0 then send_bits ?s3 y (dext ! dc) else ?s3"
  have w1: "writes s ?s1 (canon_bits ll (257 + c))"
    using writes_send_code [OF assms(1,2), of "257 + c"] assms(4) by (simp add: defs LITERALS_def add.commute)
  have w2: "writes ?s1 ?s2 (nat_bits (lext ! c) x)"
    by (rule send_extra [OF writes_wf [OF w1] l(1) ext(1)])
  have w3: "writes ?s2 ?s3 (canon_bits dd dc)"
    using writes_send_code [OF writes_wf [OF w2] assms(3), of dc] assms(4) by (simp add: defs)
  have w4: "writes ?s3 ?s4 (nat_bits (dext ! dc) y)"
    by (rule send_extra [OF writes_wf [OF w3] _ ext(2)]) (use di in \<open>simp add: defs\<close>)
  have eq: "send_match s lt dt dist (len - 3) = ?s4"
    unfolding send_match_def Let_def extra_bits_tables defs by simp
  note w = writes_trans [OF w1 writes_trans [OF w2 writes_trans [OF w3 w4]]]
  have "token_code ll dd (Match (lens_base ! c + x) (dists ! dc + y))
      (canon_bits ll (257 + c) @ nat_bits (lext ! c) x @ canon_bits dd dc @ nat_bits (dext ! dc) y)"
    using assms(4) lci(1) di l(1) by (intro token_code.match) (auto simp: defs)
  moreover have "dists ! dc + y = dist" using di d(2) by (simp add: defs)
  ultimately show ?thesis using w l(2) by (auto simp: eq)
qed


lemma send_symbol_written:
  assumes "bi_wf s" "coded lt ll" "coded dt dd" "codable ll dd (sym_token dist lc)" "lc < 256"
  shows "\<exists>bs. token_code ll dd (sym_token dist lc) bs \<and> writes s (send_symbol s lt dt dist lc) bs"
proof (cases "dist = 0")
  case True
  then have lc: "unat (of_nat lc :: byte) = lc" using assms(5) by (simp add: unat_of_nat take_bit_nat_eq_self)
  with True assms(4) have "lc < length ll" "ll ! lc \<noteq> 0" by (simp_all add: sym_token_def)
  then show ?thesis using True lc writes_send_code [OF assms(1,2), of lc] token_code.literal [of "of_nat lc" ll dd]
    by (auto simp: sym_token_def send_symbol_def)
next
  case False
  then show ?thesis using send_match_written [OF assms(1-3), of "lc + 3" dist] assms(4)
    by (simp add: sym_token_def send_symbol_def)
qed

lemma tokens_code_concat:
  "list_all2 (token_code ll dd) ts bss \<Longrightarrow> tokens_code ll dd us cs \<Longrightarrow> tokens_code ll dd (ts @ us) (concat bss @ cs)"
proof (induction ts bss rule: list_all2_induct)
  case (Cons t ts bs bss)
  then show ?case using tokens_code.token [of ll dd t bs "ts @ us" "concat bss @ cs"] by simp
qed simp

lemma compress_loop_written:
  assumes "coded lt ll" "coded dt dd" "sx = 3 * i" "i < n" "bi_wf s"
    and "\<forall>j. i \<le> j \<and> j < n \<longrightarrow> codable ll dd (sym_entry (sym_buf s) (3 * j))"
  shows "\<exists>bss. list_all2 (token_code ll dd) (map (\<lambda>j. sym_entry (sym_buf s) (3 * j)) [i..<n]) bss \<and>
    writes s (compress_loop lt dt (3 * n) sx s) (concat bss)"
  using assms(3-6)
proof (induction "n - i" arbitrary: i sx s)
  case (Suc d)
  let ?s = "send_symbol s lt dt (sym_dist (sym_buf s) sx) (unat (sym_buf s ! (sx + 2)))"
  have c: "codable ll dd (sym_entry (sym_buf s) (3 * i))" using Suc.prems by simp
  obtain bs where bs: "token_code ll dd (sym_entry (sym_buf s) (3 * i)) bs" "writes s ?s bs"
    using send_symbol_written [OF Suc.prems(3) assms(1,2), of "sym_dist (sym_buf s) sx" "unat (sym_buf s ! (sx + 2))"]
      c Suc.prems(1) unat_byte_bound by (auto simp: sym_entry_def)
  have sb: "sym_buf ?s = sym_buf s" by (rule writes_fields [OF bs(2)])
  show ?case
  proof (cases "Suc i < n")
    case True
    then have "compress_loop lt dt (3 * n) sx s = compress_loop lt dt (3 * n) (3 * Suc i) ?s"
      using Suc.prems(1) by (subst compress_loop.simps) (simp add: Let_def add.commute)
    moreover obtain bss where "list_all2 (token_code ll dd) (map (\<lambda>j. sym_entry (sym_buf ?s) (3 * j)) [Suc i..<n]) bss"
        "writes ?s (compress_loop lt dt (3 * n) (3 * Suc i) ?s) (concat bss)"
      using Suc.hyps(1) [of "Suc i" "3 * Suc i" ?s] Suc.hyps(2) True Suc.prems(4) writes_wf [OF bs(2)] sb by fastforce
    ultimately show ?thesis using bs writes_trans [OF bs(2)] Suc.prems(2) sb
      by (intro exI [of _ "bs # bss"]) (simp add: upt_conv_Cons)
  next
    case False
    then have "n = Suc i" using Suc.prems(2) by simp
    then show ?thesis using bs Suc.prems(1)
      by (intro exI [of _ "[bs]"]) (subst compress_loop.simps, simp add: Let_def)
  qed
qed simp

lemma compress_block_written:
  assumes "coded lt ll" "coded dt dd" "bi_wf s" "sym_next s = 3 * n"
    and "\<forall>t \<in> set (sym_tokens (sym_buf s) n). codable ll dd t" "256 < length ll" "ll ! 256 \<noteq> 0"
  shows "\<exists>bs. tokens_code ll dd (sym_tokens (sym_buf s) n) bs \<and> writes s (compress_block s lt dt) bs"
proof -
  let ?s = "if sym_next s \<noteq> 0 then compress_loop lt dt (sym_next s) 0 s else s"
  have "\<exists>bss. list_all2 (token_code ll dd) (sym_tokens (sym_buf s) n) bss \<and> writes s ?s (concat bss)"
  proof (cases "n = 0")
    case False
    then show ?thesis using compress_loop_written [OF assms(1,2), of 0 0 n s] assms(3-5)
      by (auto simp: sym_tokens_def)
  qed (use assms(3,4) in \<open>simp add: sym_tokens_def writes_refl\<close>)
  then obtain bss where b: "list_all2 (token_code ll dd) (sym_tokens (sym_buf s) n) bss" "writes s ?s (concat bss)"
    by blast
  have "writes ?s (send_code ?s END_BLOCK lt) (canon_bits ll 256)"
    using writes_send_code [OF writes_wf [OF b(2)] assms(1), of 256] assms(6,7) by (simp add: END_BLOCK_def)
  with b(2) have "writes s (compress_block s lt dt) (concat bss @ canon_bits ll 256)"
    unfolding compress_block_def Let_def by (rule writes_trans)
  moreover have "tokens_code ll dd (sym_tokens (sym_buf s) n @ []) (concat bss @ canon_bits ll 256)"
    by (rule tokens_code_concat [OF b(1) tokens_code.end_block]) (use assms(6,7) in auto)
  ultimately show ?thesis by auto
qed


section \<open>Blocks\<close>

text \<open>
  \<open>blk\<close>, written after \<open>bs\<close>, is a block that takes the output from \<open>out\<close> to \<open>out'\<close>. A stored
  block skips to a byte boundary, so this depends on the position in a stream of whole bytes.
\<close>

definition block_bits :: "bool \<Rightarrow> bitstring \<Rightarrow> bitstring \<Rightarrow> byte list \<Rightarrow> byte list \<Rightarrow> bool" where
  "block_bits fin bs blk out out' \<longleftrightarrow> (\<forall>tail. 8 dvd length (bs @ blk @ tail) \<longrightarrow>
     (\<exists>t bs0. blk = nat_bits 1 (of_bool fin) @ nat_bits 2 t @ bs0 \<and> block_code t (bs0 @ tail) out tail out'))"

text \<open>A sequence of blocks, none of them the last one.\<close>

inductive emitted :: "bitstring \<Rightarrow> byte list \<Rightarrow> bool" where
  emitted_Nil: "emitted [] []"
| emitted_block: "emitted bs out \<Longrightarrow> block_bits False bs blk out out' \<Longrightarrow> emitted (bs @ blk) out'"

lemma emitted_stream:
  "emitted bs out \<Longrightarrow> stream_code tail out bs' out' \<Longrightarrow> 8 dvd length (bs @ tail) \<Longrightarrow> stream_code (bs @ tail) [] bs' out'"
proof (induction arbitrary: tail rule: emitted.induct)
  case (emitted_block bs out blk out1)
  then obtain t bs0 where "blk = nat_bits 1 0 @ nat_bits 2 t @ bs0" "block_code t (bs0 @ tail) out tail out1"
    by (auto simp: block_bits_def)
  then have "stream_code (blk @ tail) out bs' out'"
    using stream_code.more_blocks [OF _ emitted_block.prems(1), of t "bs0 @ tail" out] by simp
  then show ?case using emitted_block.IH [of "blk @ tail"] emitted_block.prems(2) by simp
qed simp

lemma emitted_final:
  assumes "emitted bs out" "block_bits True bs blk out out'" "8 dvd length (bs @ blk @ pad)"
  shows "stream_code (bs @ blk @ pad) [] pad out'"
proof -
  obtain t bs0 where "blk = nat_bits 1 1 @ nat_bits 2 t @ bs0" "block_code t (bs0 @ pad) out pad out'"
    using assms(2,3) by (auto simp: block_bits_def)
  then have "stream_code (blk @ pad) out pad out'"
    using stream_code.last_block [of t "bs0 @ pad" out pad out'] by simp
  with assms(1,3) show ?thesis by (intro emitted_stream)
qed

lemma block_header: "b < 2 \<Longrightarrow> nat_bits 3 (2 * t + b) = nat_bits 1 b @ nat_bits 2 t"
proof -
  assume "b < 2"
  then have "drop_bit 1 (2 * t + b) = t" "bit (2 * t + b) 0 = bit b 0"
    by (simp_all add: drop_bit_Suc bit_0)
  with nat_bits_add [of 1 2 "2 * t + b"] show ?thesis
    by (simp add: numeral_3_eq_3 numeral_2_eq_2 nat_bits_def)
qed

lemma fixed_block_bits:
  assumes "tokens_code fixed_lengths (replicate MAXDCODES 5) ts cs" "lz_expand out ts = Some out'"
  shows "block_bits fin bs (nat_bits 3 (2 * STATIC_TREES + of_bool fin) @ cs) out out'"
proof -
  have "nat_bits 3 (2 * STATIC_TREES + of_bool fin) = nat_bits 1 (of_bool fin) @ nat_bits 2 STATIC_TREES"
    by (rule block_header) (simp add: of_bool_def)
  then show ?thesis using block_code.fixed [OF assms] unfolding block_bits_def STATIC_TREES_def by auto
qed

lemma dynamic_block_bits:
  assumes "dyn_header hs ll dd" "tokens_code ll dd ts cs" "lz_expand out ts = Some out'"
  shows "block_bits fin bs (nat_bits 3 (2 * DYN_TREES + of_bool fin) @ hs @ cs) out out'"
proof -
  have "nat_bits 3 (2 * DYN_TREES + of_bool fin) = nat_bits 1 (of_bool fin) @ nat_bits 2 DYN_TREES"
    by (rule block_header) (simp add: of_bool_def)
  then show ?thesis using block_code.dynamic [OF assms] unfolding block_bits_def DYN_TREES_def by auto
qed

lemma dvd_pad: "8 dvd (k :: nat) + (8 - k mod 8) mod 8"
proof (cases "k mod 8 = 0")
  case False
  have "k mod 8 < 8" by simp
  with False have "(8 - k mod 8) mod 8 = 8 - k mod 8" by simp
  moreover define q r where "q = k div 8" "r = k mod 8"
  then have "k = 8 * q + r" "r < 8" by simp_all
  then have "k + (8 - r) = 8 * (q + 1)" by simp
  ultimately show ?thesis by (simp add: \<open>r = k mod 8\<close>)
qed auto

lemma stored_block_bits:
  fixes len :: ush
  assumes "unat len = length data" "k = length (bs @ nat_bits 3 (2 * STORED_BLOCK + of_bool fin))"
  shows "block_bits fin bs (nat_bits 3 (2 * STORED_BLOCK + of_bool fin) @ replicate ((8 - k mod 8) mod 8) False @
    bytes_bits ([ucast (len AND 255), ucast (drop_bit 8 len), ucast (NOT len AND 255), ucast (drop_bit 8 (NOT len))] @ data))
    out (out @ data)"
proof -
  let ?hdr = "[ucast (len AND 255), ucast (drop_bit 8 len), ucast (NOT len AND 255), ucast (drop_bit 8 (NOT len))] :: byte list"
  let ?bs0 = "replicate ((8 - k mod 8) mod 8) False @ bytes_bits (?hdr @ data)"
  have h: "nat_bits 3 (2 * STORED_BLOCK + of_bool fin) = nat_bits 1 (of_bool fin) @ nat_bits 2 0"
    unfolding STORED_BLOCK_def by (rule block_header) (simp add: of_bool_def)
  have not: "ucast (NOT len AND 255) = (NOT (ucast (len AND 255)) :: byte)"
    "ucast (drop_bit 8 (NOT len)) = (NOT (ucast (drop_bit 8 len)) :: byte)"
    by (rule bit_word_eqI, auto simp: bit_simps less_Suc_eq numeral_eq_Suc)+
  have "bits_nat (nat_bits 16 (unat len)) = bits_nat (bytes_bits [ucast (len AND 255), ucast (drop_bit 8 len)])"
    by (simp only: short_bits)
  then have ln: "length data = unat (ucast (len AND 255) :: byte) + 256 * unat (ucast (drop_bit 8 len) :: byte)"
    using assms(1) unat_byte_bound unsigned_less [of len, where 'a = nat]
    by (simp add: bits_nat_append byte_bits_def take_bit_nat_eq_self)
  have "block_code 0 (?bs0 @ tail) out tail (out @ data)" if "8 dvd length (bs @ (nat_bits 3 (2 * STORED_BLOCK + of_bool fin) @ ?bs0) @ tail)" for tail
  proof (rule block_code.stored, rule stored_code.intros)
    have "8 dvd k + (8 - k mod 8) mod 8" by (simp add: dvd_pad)
    moreover have "8 dvd k + ((8 - k mod 8) mod 8 + (32 + 8 * length data + length tail))"
      using that unfolding assms(2) by (simp add: add.assoc)
    ultimately have "8 dvd 32 + 8 * length data + length tail" by (metis add.assoc dvd_add_right_iff)
    then have "((8 - k mod 8) mod 8 + (32 + 8 * length data + length tail)) mod 8 = (8 - k mod 8) mod 8"
      by (metis dvd_imp_mod_0 mod_add_right_eq mod_mod_trivial add.right_neutral)
    then have "length (?bs0 @ tail) mod 8 = (8 - k mod 8) mod 8" by (simp add: add.assoc)
    then show "align (?bs0 @ tail) = bytes_bits ([ucast (len AND 255), ucast (drop_bit 8 len), NOT (ucast (len AND 255)), NOT (ucast (drop_bit 8 len))] @ data) @ tail"
      by (simp only: align_def) (simp add: not)
  qed (use ln in simp)
  then show ?thesis unfolding block_bits_def h by (metis append_assoc)
qed


section \<open>The operations on blocks\<close>

lemma tr_stored_block_bits:
  assumes "bi_wf s" "length buf < 65536"
  shows "\<exists>blk. block_bits fin (bits_written s) blk out (out @ buf) \<and> writes s (tr_stored_block s buf fin) blk \<and>
    bi_valid (tr_stored_block s buf fin) = 0"
proof -
  let ?h = "nat_bits 3 (2 * STORED_BLOCK + of_bool fin)"
  let ?s1 = "send_bits s (2 * STORED_BLOCK + of_bool fin) 3" and ?len = "of_nat (length buf) :: ush"
  let ?hdr = "[ucast (?len AND 255), ucast (drop_bit 8 ?len), ucast (NOT ?len AND 255), ucast (drop_bit 8 (NOT ?len))] :: byte list"
  have w1: "writes s ?s1 ?h" using assms(1) by (intro writes_send_bits) (simp_all add: STORED_BLOCK_def)
  note w2 = bi_windup_written [OF writes_wf [OF w1]]
  let ?s = "tr_stored_block s buf fin"
  have e: "pending_buf ?s = pending_buf (bi_windup ?s1) @ ?hdr @ buf" "bi_buf ?s = 0" "bi_valid ?s = 0"
    using w2(2,3) by (simp_all add: tr_stored_block_def Let_def)
  have fr: "tframe ?s = tframe s"
    using tframe_bi_windup [of ?s1] tframe_send_bits [of s]
    by (simp add: tr_stored_block_def Let_def tframe_def put_short_def put_byte_def)
  have "unat ?len = length buf" using assms(2) by (simp add: unat_of_nat take_bit_nat_eq_self)
  from stored_block_bits [OF this refl, of fin "bits_written s" out]
  have "block_bits fin (bits_written s) (?h @ replicate (pad_len (bits_written ?s1)) False @ bytes_bits (?hdr @ buf)) out (out @ buf)"
    using w1 by (simp add: pad_len_def writes_def)
  moreover have "writes s ?s (?h @ replicate (pad_len (bits_written ?s1)) False @ bytes_bits (?hdr @ buf))"
    using w1 fr e w2(1) by (simp add: writes_def bi_wf_def bits_written_def del: bytes_bits_simps)
  ultimately show ?thesis using e(3) by blast
qed

lemma fixed_lengths_nth: "length fixed_lengths = 288" "k < 288 \<Longrightarrow> fixed_lengths ! k \<noteq> 0"
  by (auto simp: fixed_lengths_def FIXLCODES_def nth_append)

lemma static_block_bits:
  assumes "bi_wf s" "sym_next s = 3 * n" "lz_expand out (sym_tokens (sym_buf s) n) = Some out'"
    and "\<forall>t \<in> set (sym_tokens (sym_buf s) n). codable fixed_lengths (replicate MAXDCODES 5) t"
  shows "\<exists>blk. block_bits fin (bits_written s) blk out out' \<and>
    writes s (compress_block (send_bits s (2 * STATIC_TREES + of_bool fin) 3) static_ltree static_dtree) blk"
proof -
  let ?s1 = "send_bits s (2 * STATIC_TREES + of_bool fin) 3"
  have w1: "writes s ?s1 (nat_bits 3 (2 * STATIC_TREES + of_bool fin))"
    using assms(1) by (intro writes_send_bits) (simp_all add: STATIC_TREES_def)
  obtain cs where "tokens_code fixed_lengths (replicate MAXDCODES 5) (sym_tokens (sym_buf s) n) cs"
      "writes ?s1 (compress_block ?s1 static_ltree static_dtree) cs"
    using compress_block_written [OF coded_static writes_wf [OF w1], of n] assms writes_fields [OF w1] fixed_lengths_nth
    by auto
  then show ?thesis using fixed_block_bits [OF _ assms(3)] writes_trans [OF w1] by blast
qed

lemma tr_align_bits:
  assumes "bi_wf s"
  shows "\<exists>blk. block_bits False (bits_written s) blk out out \<and> writes s (tr_align s) blk"
proof -
  let ?s1 = "send_bits s (2 * STATIC_TREES) 3"
  have w1: "writes s ?s1 (nat_bits 3 (2 * STATIC_TREES + of_bool False))"
    using writes_send_bits [OF assms, of 3 "2 * STATIC_TREES"] by (simp add: STATIC_TREES_def)
  have w2: "writes ?s1 (send_code ?s1 END_BLOCK static_ltree) (canon_bits fixed_lengths 256)"
    unfolding END_BLOCK_def by (intro writes_send_code writes_wf [OF w1] coded_static) (simp_all add: fixed_lengths_nth FIXLCODES_def)
  have "tokens_code fixed_lengths (replicate MAXDCODES 5) [] (canon_bits fixed_lengths 256)"
    by (intro tokens_code.end_block) (simp_all add: fixed_lengths_nth FIXLCODES_def)
  from fixed_block_bits [OF this, of out out False "bits_written s"]
  show ?thesis using writes_trans [OF w1 writes_trans [OF w2 writes_bi_flush [OF writes_wf [OF w2]]]]
    unfolding tr_align_def by auto
qed

end
