(* ===== verification/Trees_Kraft.thy ===== *)
theory Trees_Kraft
  imports Trees_Blocks
begin

text \<open>
  Why the code lengths of \<open>gen_bitlen\<close> form a complete code, as statements on numbers. A node
  weighs \<open>2 ^ (M - length)\<close>; a binary tree whose lengths are cut at \<open>M\<close> is too heavy by one
  for every node of length \<open>M\<close> that has children, and every turn of the loop that repairs an
  overflow takes off one.
\<close>

section \<open>Lengths cut at a maximum\<close>

text \<open>
  \<open>N\<close> are the nodes below the root, \<open>I\<close> the nodes with children, \<open>f\<close> the lengths.
\<close>

definition cut_tree :: "nat set \<Rightarrow> nat set \<Rightarrow> nat \<Rightarrow> (nat \<Rightarrow> nat) \<Rightarrow> nat \<Rightarrow> (nat \<Rightarrow> nat) \<Rightarrow> bool" where
  "cut_tree N I root dad M f \<longleftrightarrow> finite N \<and> finite I \<and> root \<in> I \<and> root \<notin> N \<and> I - {root} \<subseteq> N \<and> dad ` N \<subseteq> I \<and>
     (\<forall>p \<in> I. card {n \<in> N. dad n = p} = 2) \<and> f root = 0 \<and> (\<forall>n \<in> N. f n = min (f (dad n) + 1) M)"

definition too_deep :: "nat set \<Rightarrow> nat \<Rightarrow> (nat \<Rightarrow> nat) \<Rightarrow> nat" where
  "too_deep I M f = card {p \<in> I. f p = M}"

lemma cut_tree_le: "cut_tree N I root dad M f \<Longrightarrow> n \<in> N \<union> I \<Longrightarrow> f n \<le> M"
  by (auto simp: cut_tree_def)

lemma cut_tree_overflow:
  assumes "cut_tree N I root dad M f"
  shows "card {n \<in> N. M \<le> f (dad n)} = 2 * too_deep I M f"
proof -
  let ?D = "{p \<in> I. f p = M}"
  have fin: "finite N" "finite I" and dad: "dad ` N \<subseteq> I" and two: "\<forall>p \<in> I. card {n \<in> N. dad n = p} = 2"
    using assms by (auto simp: cut_tree_def)
  have le: "f p \<le> M" if "p \<in> I" for p using cut_tree_le [OF assms] that by blast
  have "{n \<in> N. M \<le> f (dad n)} = (\<Union>p \<in> ?D. {n \<in> N. dad n = p})"
    using dad le by fastforce
  also have "card \<dots> = (\<Sum>p \<in> ?D. card {n \<in> N. dad n = p})"
    using fin by (intro card_UN_disjoint) auto
  also have "\<dots> = 2 * too_deep I M f" using two by (simp add: too_deep_def)
  finally show ?thesis .
qed

lemma cut_tree_weight:
  assumes "cut_tree N I root dad M f"
  shows "(\<Sum>n \<in> N - I. 2 ^ (M - f n)) = 2 ^ M + too_deep I M f"
proof -
  let ?w = "\<lambda>n. 2 ^ (M - f n) :: nat"
  have fin: "finite N" "finite I" and I: "root \<in> I" "root \<notin> N" "I - {root} \<subseteq> N" and dad: "dad ` N \<subseteq> I"
    and two: "\<forall>p \<in> I. card {n \<in> N. dad n = p} = 2" and f: "f root = 0" "\<forall>n \<in> N. f n = min (f (dad n) + 1) M"
    using assms by (auto simp: cut_tree_def)
  have le: "f p \<le> M" if "p \<in> I" for p using cut_tree_le [OF assms] that by blast
  have w: "2 * 2 ^ (M - min (f p + 1) M) = ?w p + of_bool (f p = M)" if "p \<in> I" for p
    using le [OF that] by (cases "f p = M") (auto simp: min_def Suc_diff_Suc simp flip: power_Suc)
  have "sum ?w N = (\<Sum>p \<in> I. sum ?w {n \<in> N. dad n = p})"
    using sum.group [OF fin dad, of ?w] by simp
  also have "\<dots> = (\<Sum>p \<in> I. ?w p + of_bool (f p = M))"
  proof (rule sum.cong)
    fix p assume p: "p \<in> I"
    have "sum ?w {n \<in> N. dad n = p} = (\<Sum>n \<in> {n \<in> N. dad n = p}. 2 ^ (M - min (f p + 1) M))"
      using f(2) by (intro sum.cong) auto
    with two p w [OF p] show "sum ?w {n \<in> N. dad n = p} = ?w p + of_bool (f p = M)" by simp
  qed simp
  also have "\<dots> = sum ?w I + too_deep I M f"
    using fin by (simp add: sum.distrib too_deep_def Int_def conj_commute)
  also have "sum ?w I = sum ?w (I - {root}) + 2 ^ M"
    using fin I(1) f(1) by (simp add: sum.remove)
  finally have "sum ?w N = sum ?w (I - {root}) + 2 ^ M + too_deep I M f" .
  moreover have "sum ?w N = sum ?w (N - (I - {root})) + sum ?w (I - {root})"
    using fin I(3) by (simp add: sum.subset_diff)
  moreover have "N - (I - {root}) = N - I" using I by auto
  ultimately show ?thesis by simp
qed

lemma cut_tree_deepest:
  assumes "cut_tree N I root dad M f" "0 < M"
  shows "too_deep I M f \<le> card {n \<in> N - I. f n = M}"
proof -
  have fin: "finite N" "finite I" and I: "root \<notin> N" "I - {root} \<subseteq> N" and f: "f root = 0" "\<forall>n \<in> N. f n = min (f (dad n) + 1) M"
    using assms by (auto simp: cut_tree_def)
  have "2 * too_deep I M f \<le> card {n \<in> N. f n = M}"
    unfolding cut_tree_overflow [OF assms(1), symmetric] using fin f(2) by (intro card_mono) auto
  also have "{n \<in> N. f n = M} = {n \<in> N - I. f n = M} \<union> {p \<in> I. f p = M}"
    using I f(1) assms(2) by auto
  also have "card \<dots> = card {n \<in> N - I. f n = M} + too_deep I M f"
    unfolding too_deep_def using fin by (intro card_Un_disjoint) auto
  finally show ?thesis by simp
qed

section \<open>Counting the lengths\<close>

definition kraft :: "nat \<Rightarrow> (nat \<Rightarrow> nat) \<Rightarrow> nat" where
  "kraft M cnt = (\<Sum>b \<in> {1..M}. cnt b * 2 ^ (M - b))"

definition ncodes :: "nat \<Rightarrow> (nat \<Rightarrow> nat) \<Rightarrow> nat" where
  "ncodes M cnt = (\<Sum>b \<in> {1..M}. cnt b)"

lemma kraft_of_set:
  assumes "finite A" "\<And>n. n \<in> A \<Longrightarrow> 1 \<le> f n \<and> f n \<le> M"
  shows "kraft M (\<lambda>b. card {n \<in> A. f n = b}) = (\<Sum>n \<in> A. 2 ^ (M - f n))"
    and "ncodes M (\<lambda>b. card {n \<in> A. f n = b}) = card A"
proof -
  have f: "f ` A \<subseteq> {1..M}" using assms(2) by auto
  have "(\<Sum>n \<in> A. 2 ^ (M - f n) :: nat) = (\<Sum>b \<in> {1..M}. \<Sum>n \<in> {n \<in> A. f n = b}. 2 ^ (M - f n))"
    using sum.group [OF assms(1) _ f, of "\<lambda>n. 2 ^ (M - f n) :: nat"] by simp
  also have "\<dots> = kraft M (\<lambda>b. card {n \<in> A. f n = b})"
    unfolding kraft_def by (intro sum.cong) auto
  finally show "kraft M (\<lambda>b. card {n \<in> A. f n = b}) = (\<Sum>n \<in> A. 2 ^ (M - f n))" ..
  show "ncodes M (\<lambda>b. card {n \<in> A. f n = b}) = card A"
    unfolding ncodes_def using sum.group [OF assms(1) _ f, of "\<lambda>_. 1 :: nat"] by simp
qed

text \<open>A set of lengths of weight \<open>2 ^ M\<close> is a complete code.\<close>

lemma first_code_kraft: "1 \<le> l \<Longrightarrow> first_code cnt l + cnt l = kraft l cnt"
proof (induction l rule: nat_induct_at_least)
  case (Suc l)
  have "{1..Suc l} = insert (Suc l) {1..l}" by auto
  moreover have "2 * kraft l cnt = (\<Sum>b \<in> {1..l}. cnt b * 2 ^ (Suc l - b))"
    unfolding kraft_def sum_distrib_left by (intro sum.cong) (auto simp: Suc_diff_le)
  ultimately show ?case using Suc by (simp add: kraft_def)
qed (simp add: kraft_def)

lemma kraft_shift:
  assumes "l \<le> m"
  shows "kraft l cnt * 2 ^ (m - l) + (\<Sum>b \<in> {Suc l..m}. cnt b * 2 ^ (m - b)) = kraft m cnt"
proof -
  have "kraft l cnt * 2 ^ (m - l) = (\<Sum>b \<in> {1..l}. cnt b * 2 ^ (m - b))"
    unfolding kraft_def sum_distrib_right using assms
    by (intro sum.cong) (auto simp: mult.assoc simp flip: power_add)
  moreover have "{1..m} = {1..l} \<union> {Suc l..m}" "{1..l} \<inter> {Suc l..m} = {}" using assms by auto
  ultimately show ?thesis unfolding kraft_def by (simp add: sum.union_disjoint)
qed

lemma kraft_complete:
  assumes "kraft M (count_list lens) = 2 ^ M" "\<forall>l \<in> set lens. l \<le> M" "M \<le> MAXBITS" "0 < M"
  shows "complete_code lens"
proof -
  let ?c = "count_list lens"
  have c0: "?c b = 0" if "M < b" for b using assms(2) that by (fastforce simp: count_list_0_iff)
  have full: "kraft m ?c = 2 ^ m" if "M \<le> m" for m
    using kraft_shift [OF that, of ?c] c0 assms(1) that by (simp flip: power_add)
  have le: "kraft l ?c \<le> 2 ^ l" for l
  proof (cases "l \<le> M")
    case True
    then have "kraft l ?c * 2 ^ (M - l) \<le> 2 ^ l * 2 ^ (M - l)"
      using kraft_shift [OF True, of ?c] assms(1) by (simp flip: power_add)
    then show ?thesis by simp
  qed (use full in simp)
  then have "fits ?c MAXBITS" by (simp add: fits_def first_code_kraft)
  moreover have "codes_left ?c MAXBITS = 0"
    using full [OF assms(3)] first_code_kraft [of MAXBITS ?c] by (simp add: codes_left_def MAXBITS_def)
  ultimately show ?thesis by (simp add: complete_code_def)
qed

section \<open>Repairing an overflow\<close>

definition ucnt :: "ush list \<Rightarrow> nat \<Rightarrow> nat" where
  "ucnt blc b = unat (blc ! b)"

lemma ucnt_update: "k < length blc \<Longrightarrow> ucnt (blc[k := w]) = (ucnt blc)(k := unat w)"
  by (auto simp: ucnt_def fun_eq_iff nth_list_update)

lemma kraft_update:
  assumes "1 \<le> k" "k \<le> M"
  shows "kraft M (c(k := v)) + c k * 2 ^ (M - k) = kraft M c + v * 2 ^ (M - k)"
    and "ncodes M (c(k := v)) + c k = ncodes M c + v"
proof -
  have "{1..M} = insert k ({1..M} - {k})" using assms by auto
  then have "sum g {1..M} = g k + sum g ({1..M} - {k})" for g :: "nat \<Rightarrow> nat"
    by (metis finite_atLeastAtMost finite_Diff sum.insert_remove insert_absorb insertCI Diff_idemp)
  note this [of "\<lambda>b. (c(k := v)) b * 2 ^ (M - b)"] this [of "\<lambda>b. c b * 2 ^ (M - b)"]
    this [of "c(k := v)"] this [of c]
  then show "kraft M (c(k := v)) + c k * 2 ^ (M - k) = kraft M c + v * 2 ^ (M - k)"
    "ncodes M (c(k := v)) + c k = ncodes M c + v"
    unfolding kraft_def ncodes_def by (simp_all add: algebra_simps)
qed

lemma ncodes_ge: "1 \<le> k \<Longrightarrow> k \<le> M \<Longrightarrow> c k \<le> ncodes M c"
  unfolding ncodes_def by (rule member_le_sum) auto

lemma find_bits_range:
  assumes "1 \<le> b" "b \<le> m" "blc ! b \<noteq> 0"
  shows "1 \<le> find_bits blc m \<and> find_bits blc m \<le> m \<and> blc ! find_bits blc m \<noteq> 0"
  using assms by (induction blc m rule: find_bits.induct) (auto simp: le_Suc_eq)

text \<open>With more weight than \<open>2 ^ M\<close> on at most \<open>2 ^ M\<close> codes, some code is shorter than \<open>M\<close>.\<close>

lemma shorter_code:
  assumes "ncodes M c \<le> 2 ^ M" "2 ^ M < kraft M c"
  shows "\<exists>b. 1 \<le> b \<and> b < M \<and> c b \<noteq> 0"
proof (rule ccontr)
  assume "\<not> ?thesis"
  then have "c b * 2 ^ (M - b) = c b" if "b \<in> {1..M}" for b using that by (cases "b = M") auto
  then have "kraft M c = ncodes M c" unfolding kraft_def ncodes_def by (rule sum.cong [OF refl])
  with assms show False by simp
qed

text \<open>The counts between two turns: \<open>E\<close> is half of the overflow that is left.\<close>

definition excess :: "nat \<Rightarrow> nat \<Rightarrow> nat \<Rightarrow> ush list \<Rightarrow> bool" where
  "excess M L E blc \<longleftrightarrow> length blc = 16 \<and> blc ! 0 = 0 \<and> kraft M (ucnt blc) = 2 ^ M + E \<and> ncodes M (ucnt blc) = L \<and>
     E \<le> ucnt blc M \<and> (\<forall>b. M < b \<and> b < 16 \<longrightarrow> blc ! b = 0)"

definition fix_step :: "nat \<Rightarrow> ush list \<Rightarrow> ush list" where
  "fix_step M blc =
     (let b = find_bits blc (M - 1); blc = blc[b := blc ! b - 1]; blc = blc[b + 1 := blc ! (b + 1) + 2]
      in blc[M := blc ! M - 1])"

lemma unat_minus_one': "w \<noteq> 0 \<Longrightarrow> unat (w - 1 :: 'a :: len word) = unat w - 1"
  by (simp add: unat_minus_one)

lemma fix_step_excess:
  assumes "excess M L (Suc E) blc" "M < 16" "L \<le> 2 ^ M" "L < 60000"
  shows "excess M L E (fix_step M blc)"
proof -
  define b where "b = find_bits blc (M - 1)"
  let ?c = "ucnt blc"
  have x: "length blc = 16" "blc ! 0 = 0" "kraft M ?c = 2 ^ M + Suc E" "ncodes M ?c = L" "Suc E \<le> ?c M"
      "\<forall>b. M < b \<and> b < 16 \<longrightarrow> blc ! b = 0"
    using assms(1) by (simp_all add: excess_def)
  obtain k where "1 \<le> k" "k < M" "?c k \<noteq> 0" using shorter_code [of M ?c] x assms(3) by auto
  then have "1 \<le> k" "k \<le> M - 1" "blc ! k \<noteq> 0" "0 < M" by (auto simp: ucnt_def)
  from find_bits_range [OF this(1-3)] this(4) have b: "1 \<le> b" "b < M" "blc ! b \<noteq> 0"
    by (auto simp: b_def)
  have bound: "?c k < 60000" if "1 \<le> k" "k \<le> M" for k
    using ncodes_ge [OF that, of ?c] x(4) assms(4) by simp
  define c1 where "c1 = ?c(b := ?c b - 1)"
  define c2 where "c2 = c1(b + 1 := c1 (b + 1) + 2)"
  define c3 where "c3 = c2(M := c2 M - 1)"
  have cM: "1 \<le> c2 M" using x(5) b by (auto simp: c2_def c1_def)
  have c: "ucnt (fix_step M blc) = c3"
  proof -
    have u2: "unat (blc ! Suc b + 2) = ?c (Suc b) + 2"
      using bound [of "Suc b"] b by (simp add: ucnt_def unat_word_ariths take_bit_nat_eq_self)
    let ?blc2 = "blc[b := blc ! b - 1, Suc b := blc ! Suc b + 2]"
    have c2: "ucnt ?blc2 = c2"
      using b x(1) assms(2) u2 by (auto simp: ucnt_update c2_def c1_def unat_minus_one' fun_eq_iff) (simp_all add: ucnt_def)
    then have "?blc2 ! M \<noteq> 0" using cM by (metis not_one_le_zero ucnt_def unat_0)
    then have "unat (?blc2 ! M - 1) = c2 M - 1" by (simp only: c2 [symmetric] ucnt_def) (rule unat_minus_one')
    moreover have "fix_step M blc = ?blc2[M := ?blc2 ! M - 1]" by (simp add: fix_step_def Let_def b_def)
    moreover have "M < length ?blc2" using x(1) assms(2) by simp
    ultimately show ?thesis by (simp only: ucnt_update c2 c3_def)
  qed
  obtain v where v: "?c b = Suc v" using b(3) by (metis not0_implies_Suc ucnt_def unat_eq_zero)
  have w: "2 ^ (M - b) = 2 * (2 :: nat) ^ (M - Suc b)" using b by (simp add: Suc_diff_Suc flip: power_Suc)
  note k1 = kraft_update [of b M ?c "?c b - 1", folded c1_def]
    and k2 = kraft_update [of "b + 1" M c1 "c1 (b + 1) + 2", folded c2_def]
    and k3 = kraft_update [of M M c2 "c2 M - 1", folded c3_def]
  have "kraft M c1 + 2 ^ (M - b) = kraft M ?c" "ncodes M c1 + 1 = ncodes M ?c"
    using k1 b by (simp_all add: v)
  moreover have "kraft M c2 = kraft M c1 + 2 * 2 ^ (M - Suc b)" "ncodes M c2 = ncodes M c1 + 2"
    using k2 b by (simp_all add: algebra_simps)
  moreover have "kraft M c3 + 1 = kraft M c2" "ncodes M c3 + 1 = ncodes M c2"
    using k3 b cM by simp_all
  ultimately have "kraft M c3 = 2 ^ M + E" "ncodes M c3 = L" using x w by simp_all
  moreover have "E \<le> c3 M" using x(5) b by (auto simp: c3_def c2_def c1_def)
  moreover have "length (fix_step M blc) = 16" "fix_step M blc ! 0 = 0" "\<forall>k. M < k \<and> k < 16 \<longrightarrow> fix_step M blc ! k = 0"
    using x b assms(2) unfolding fix_step_def Let_def b_def [symmetric] by simp_all
  ultimately show ?thesis by (simp add: excess_def c)
qed

lemma fix_overflow_excess:
  assumes "excess M L E blc" "0 < E" "M < 16" "L \<le> 2 ^ M" "L < 60000"
  shows "excess M L 0 (fix_overflow M blc (int (2 * E)))"
  using assms(1,2)
proof (induction E arbitrary: blc)
  case (Suc E)
  note step = fix_step_excess [OF Suc.prems(1) assms(3-5)]
  have eq: "fix_overflow M blc (int (2 * Suc E)) =
      (if 0 < E then fix_overflow M (fix_step M blc) (int (2 * E)) else fix_step M blc)"
    by (subst fix_overflow.simps) (simp add: fix_step_def Let_def)
  show ?case unfolding eq using Suc.IH [OF step] step by (cases "E = 0") simp_all
qed simp

end
