(* ===== verification/Trees_Heap.thy ===== *)
theory Trees_Heap
  imports Trees_Kraft "HOL-Library.Multiset"
begin

text \<open>
  The first half of \<open>build_tree\<close>: the priority queue in the lower part of \<open>heap\<close>, and the
  nodes taken from it, which are stored from its upper end downwards, every node after its
  parent. Which two nodes are combined does not matter here: whatever they are, the result is
  a binary tree in which the parents come first.
\<close>

section \<open>The priority queue\<close>

definition live :: "trees_state \<Rightarrow> nat list" where
  "live s = take (heap_len s) (drop 1 (heap s))"

definition finished :: "trees_state \<Rightarrow> nat list" where
  "finished s = drop (heap_max s) (heap s)"

text \<open>What building a tree leaves alone.\<close>

definition hframe :: "trees_state \<Rightarrow> trees_state" where
  "hframe s = s\<lparr>heap := [], heap_len := 0, heap_max := 0, depth := [], bl_count := [], opt_len := 0, static_len := 0\<rparr>"

lemma mset_move_hole:
  "k < length hp \<Longrightarrow> j < length hp \<Longrightarrow> k \<noteq> j \<Longrightarrow> mset (hp[k := hp ! j, j := v]) = mset (hp[k := v])"
  using mset_swap [of k "hp[k := v]" j] by (simp add: list_update_swap [of k j])

lemma pqdown_loop_perm:
  assumes "1 \<le> k" "k < j" "k \<le> hlen" "hlen < length hp"
  shows "mset (pqdown_loop tree dep hlen v hp k j) = mset (hp[k := v]) \<and>
    length (pqdown_loop tree dep hlen v hp k j) = length hp \<and>
    pqdown_loop tree dep hlen v hp k j ! 0 = hp ! 0 \<and>
    drop (Suc hlen) (pqdown_loop tree dep hlen v hp k j) = drop (Suc hlen) hp"
  using assms
proof (induction tree dep hlen v hp k j rule: pqdown_loop.induct)
  case (1 tree dep hlen v hp k j)
  let ?j = "if j < hlen \<and> smaller tree dep (hp ! (j + 1)) (hp ! j) then j + 1 else j"
  show ?case
  proof (cases "0 < j \<and> j \<le> hlen \<and> \<not> smaller tree dep v (hp ! ?j)")
    case True
    then have j: "k < ?j" "?j < 2 * ?j" "?j \<le> hlen" "0 < j \<and> j \<le> hlen" "1 \<le> ?j" using "1.prems" by auto
    have eq: "pqdown_loop tree dep hlen v hp k j = pqdown_loop tree dep hlen v (hp[k := hp ! ?j]) ?j (2 * ?j)"
      using True by (subst pqdown_loop.simps) (simp add: Let_def)
    have "mset (hp[k := hp ! ?j, ?j := v]) = mset (hp[k := v])"
      using "1.prems" j by (intro mset_move_hole) linarith+
    moreover have "drop (Suc hlen) (hp[k := hp ! ?j]) = drop (Suc hlen) hp" using "1.prems" by simp
    ultimately show ?thesis unfolding eq
      using "1.IH" [OF j(4) refl _ j(5) j(2) j(3)] True "1.prems" by simp
  next
    case False
    then have "pqdown_loop tree dep hlen v hp k j = hp[k := v]"
      by (subst pqdown_loop.simps) (auto simp: Let_def)
    with "1.prems" show ?thesis by simp
  qed
qed

lemma heap_split: "Suc n \<le> length hp \<Longrightarrow> hp = hp ! 0 # take n (drop 1 hp) @ drop (Suc n) hp"
  by (metis One_nat_def append_take_drop_id Cons_nth_drop_Suc drop0 drop_drop plus_1_eq_Suc Suc_le_lessD
      add.commute zero_less_Suc order_less_le_trans)

lemma pqdownheap_live:
  assumes "1 \<le> k" "k \<le> heap_len s" "heap_len s < length (heap s)"
  shows "\<exists>hp. pqdownheap s tree k = s\<lparr>heap := hp\<rparr> \<and> length hp = length (heap s) \<and>
    mset (take (heap_len s) (drop 1 hp)) = mset (live s) \<and> drop (Suc (heap_len s)) hp = drop (Suc (heap_len s)) (heap s)"
proof -
  let ?hp = "pqdown_loop tree (depth s) (heap_len s) (heap s ! k) (heap s) k (2 * k)"
  have p: "mset ?hp = mset (heap s)" "length ?hp = length (heap s)" "?hp ! 0 = heap s ! 0"
    "drop (Suc (heap_len s)) ?hp = drop (Suc (heap_len s)) (heap s)"
    using pqdown_loop_perm [of k "2 * k" "heap_len s" "heap s" tree "depth s" "heap s ! k"] assms by simp_all
  have "mset (take (heap_len s) (drop 1 ?hp)) = mset (live s)"
    using arg_cong [OF heap_split [of "heap_len s" ?hp], of mset] arg_cong [OF heap_split [of "heap_len s" "heap s"], of mset] p assms(3)
    by (simp add: live_def)
  with p show ?thesis by (intro exI [of _ ?hp]) (simp add: pqdownheap_def)
qed

lemma live_nth:
  "heap_len s < length (heap s) \<Longrightarrow> 0 < heap_len s \<Longrightarrow> live s = heap s ! 1 # take (heap_len s - 1) (drop 2 (heap s))"
  by (cases "heap_len s"; cases "heap s"; cases "tl (heap s)") (auto simp: live_def)

lemma pqremove_live:
  assumes "2 \<le> heap_len s" "heap_len s < length (heap s)"
  obtains hp where "pqremove s tree = (heap s ! 1, s\<lparr>heap := hp, heap_len := heap_len s - 1\<rparr>)"
    "length hp = length (heap s)" "mset (live s) = add_mset (heap s ! 1) (mset (take (heap_len s - 1) (drop 1 hp)))"
    "drop (Suc (heap_len s)) hp = drop (Suc (heap_len s)) (heap s)"
proof -
  let ?hl = "heap_len s" and ?h = "heap s"
  let ?s = "s\<lparr>heap := ?h[1 := ?h ! ?hl], heap_len := ?hl - 1\<rparr>"
  obtain h where h: "?hl = Suc (Suc h)" using le_Suc_ex [OF assms(1)] by auto
  have "1 \<le> heap_len ?s" "heap_len ?s < length (heap ?s)" using assms by simp_all
  from pqdownheap_live [OF order_refl this, of tree] obtain hp where
    p: "pqdownheap ?s tree 1 = ?s\<lparr>heap := hp\<rparr>" "length hp = length (heap ?s)"
      "mset (take (heap_len ?s) (drop 1 hp)) = mset (live ?s)" "drop (Suc (heap_len ?s)) hp = drop (Suc (heap_len ?s)) (heap ?s)"
    by blast
  then have hp: "length hp = length ?h" "mset (take (?hl - 1) (drop 1 hp)) = mset (live ?s)" "drop ?hl hp = drop ?hl ?h"
    by (simp_all add: h)
  have "live s = ?h ! 1 # take h (drop 2 ?h) @ [?h ! ?hl]"
    using live_nth [of s] assms h take_Suc_conv_app_nth [of h "drop 2 ?h"] by simp
  moreover have "live ?s = ?h ! ?hl # take h (drop 2 ?h)"
    using live_nth [of ?s] assms h by simp
  ultimately have "mset (live s) = add_mset (?h ! 1) (mset (take (?hl - 1) (drop 1 hp)))"
    using hp(2) by simp
  moreover have "drop (Suc ?hl) hp = drop (Suc ?hl) ?h"
    using arg_cong [OF hp(3), of "drop 1"] assms(1) by simp
  ultimately show ?thesis using p(1) hp(1) that [of hp] by (simp add: pqremove_def SMALLEST_def)
qed

lemma merge_nodes_spec:
  assumes len: "2 \<le> heap_len s" "heap_len s + 1 < heap_max s" "heap_max s \<le> length (heap s)" "node < length tree" "node < 65536"
    and new: "distinct (live s)" "node \<notin> set (live s)" "set (live s) \<subseteq> {..<length tree}"
  obtains tree' s' n m where "merge_nodes tree node s = (tree', s')" "n \<noteq> m"
    "mset (live s) + {#node#} = mset (live s') + {#n, m#}" "finished s' = m # n # finished s"
    "heap_len s' = heap_len s - 1" "heap_max s' = heap_max s - 2" "length (heap s') = length (heap s)" "hframe s' = hframe s"
    "length (depth s') = length (depth s)" "bl_count s' = bl_count s"
    "length tree' = length tree" "\<forall>k. Len tree' k = (if k = n \<or> k = m then node else Len tree k)"
    "\<forall>k. k \<noteq> node \<longrightarrow> fc (tree' ! k) = fc (tree ! k)"
    "n \<in> set (live s)" "m \<in> set (live s)" "node \<in> set (live s')"
proof -
  let ?n = "heap s ! 1" and ?hl = "heap_len s" and ?hm = "heap_max s"
  obtain hp where p: "pqremove s tree = (?n, s\<lparr>heap := hp, heap_len := ?hl - 1\<rparr>)" "length hp = length (heap s)"
      "mset (live s) = add_mset ?n (mset (take (?hl - 1) (drop 1 hp)))" "drop (Suc ?hl) hp = drop (Suc ?hl) (heap s)"
    using pqremove_live [of s tree] len by auto
  let ?m = "hp ! 1" and ?rest = "take (?hl - 2) (drop 2 hp)"
  have l1: "take (?hl - 1) (drop 1 hp) = ?m # ?rest"
    using live_nth [of "s\<lparr>heap := hp, heap_len := ?hl - 1\<rparr>"] len p(2) by (simp add: live_def numeral_2_eq_2)
  define tree1 where "tree1 = tree[node := (tree ! node)\<lparr>fc := fc (tree ! ?n) + fc (tree ! ?m)\<rparr>]"
  define tree2 where "tree2 = tree1[?n := (tree1 ! ?n)\<lparr>dl := of_nat node\<rparr>]"
  define tree' where "tree' = tree2[?m := (tree2 ! ?m)\<lparr>dl := of_nat node\<rparr>]"
  define dep where "dep = (depth s)[node := (if depth s ! ?n \<ge> depth s ! ?m then depth s ! ?n else depth s ! ?m) + 1]"
  define hp2 where "hp2 = hp[?hm - 1 := ?n, ?hm - 2 := ?m, 1 := node]"
  define s1 where "s1 = s\<lparr>heap_len := ?hl - 1, heap_max := ?hm - 2, depth := dep, heap := hp2\<rparr>"
  have eq: "merge_nodes tree node s = (tree', pqdownheap s1 tree' 1)"
    by (simp add: merge_nodes_def p(1) Let_def SMALLEST_def tree1_def tree2_def tree'_def dep_def hp2_def s1_def)
  have len2: "length hp2 = length (heap s)" by (simp add: hp2_def p(2))
  have "take (?hl - 1) (drop 1 hp2) = node # ?rest"
  proof -
    have "live (s\<lparr>heap := hp2, heap_len := ?hl - 1\<rparr>) = hp2 ! 1 # take (?hl - 2) (drop 2 hp2)"
      using live_nth [of "s\<lparr>heap := hp2, heap_len := ?hl - 1\<rparr>"] len len2 by (simp add: numeral_2_eq_2)
    moreover have "take (?hl - 2) (drop 2 hp2) = ?rest"
      by (rule nth_equalityI) (use len p(2) in \<open>auto simp: hp2_def nth_list_update\<close>)
    moreover have "hp2 ! 1 = node" using len p(2) by (simp add: hp2_def)
    ultimately show ?thesis by (simp add: live_def)
  qed
  then have l2: "live s1 = node # ?rest" by (simp add: live_def s1_def)
  have "1 \<le> heap_len s1" "heap_len s1 < length (heap s1)" using len len2 by (simp_all add: s1_def)
  from pqdownheap_live [OF order_refl this, of tree'] obtain hp3 where
    h: "pqdownheap s1 tree' 1 = s1\<lparr>heap := hp3\<rparr>" "length hp3 = length (heap s1)"
      "mset (take (heap_len s1) (drop 1 hp3)) = mset (live s1)" "drop (Suc (heap_len s1)) hp3 = drop (Suc (heap_len s1)) (heap s1)"
    by blast
  obtain h where hl: "?hl = Suc (Suc h)" using le_Suc_ex [OF len(1)] by auto
  have "heap s1 = hp2" "heap_len s1 = Suc h" by (simp_all add: s1_def hl)
  with h len2 hl have h3: "pqdownheap s1 tree' 1 = s1\<lparr>heap := hp3\<rparr>" "length hp3 = length (heap s)"
      "mset (take (?hl - 1) (drop 1 hp3)) = mset (live s1)" "drop ?hl hp3 = drop ?hl hp2" by simp_all
  let ?s' = "s1\<lparr>heap := hp3\<rparr>"
  have fin: "finished ?s' = ?m # ?n # finished s"
  proof -
    obtain d where d: "?hm = Suc (Suc d)" "?hl \<le> d" using len by (cases ?hm; cases "?hm - 1") auto
    have "drop d hp3 = drop d hp2" using arg_cong [OF h3(4), of "drop (d - ?hl)"] d by simp
    also have "\<dots> = ?m # ?n # drop ?hm hp"
      using d len p(2) by (simp add: hp2_def drop_update_cancel flip: Cons_nth_drop_Suc)
    also have "drop ?hm hp = drop ?hm (heap s)" using arg_cong [OF p(4), of "drop (?hm - Suc ?hl)"] d by simp
    finally show ?thesis by (simp add: finished_def s1_def d(1))
  qed
  have ms: "mset (live s) = {#?n, ?m#} + mset ?rest" using p(3) l1 by simp
  have ne: "?n \<noteq> ?m" "?n \<in> set (live s)" "?m \<in> set (live s)"
  proof -
    have "count (mset (live s)) ?n \<le> 1" using new(1) by (simp add: distinct_count_atmost_1)
    with ms show "?n \<noteq> ?m" by auto
    have "set_mset (mset (live s)) = {?n, ?m} \<union> set ?rest" unfolding ms by simp
    then show "?n \<in> set (live s)" "?m \<in> set (live s)" by (simp_all flip: set_mset_mset)
  qed
  then have bound: "?n < length tree" "?m < length tree" "?n \<noteq> node" "?m \<noteq> node" using new by auto
  have lens: "Len tree' k = (if k = ?n \<or> k = ?m then node else Len tree k)" for k
    using bound len ne(1) by (auto simp: Len_def tree'_def tree2_def tree1_def nth_list_update unat_of_nat take_bit_nat_eq_self)
  have fcs: "fc (tree' ! k) = fc (tree ! k)" if "k \<noteq> node" for k
    using that bound len ne(1) by (auto simp: tree'_def tree2_def tree1_def nth_list_update)
  have live: "mset (live ?s') = mset (node # ?rest)" using h3(3) l2 by (simp add: live_def s1_def)
  show ?thesis
  proof (rule that [of tree' ?s' ?n ?m])
    show "mset (live s) + {#node#} = mset (live ?s') + {#?n, ?m#}" unfolding live ms by simp
    show "node \<in> set (live ?s')" using arg_cong [OF live, of set_mset] by simp
  qed (use eq h3 ne fin lens fcs in \<open>simp_all add: s1_def hframe_def dep_def tree'_def tree2_def tree1_def\<close>)
qed

section \<open>Combining the nodes\<close>

fun parents_first :: "(nat \<Rightarrow> nat) \<Rightarrow> nat list \<Rightarrow> bool" where
  "parents_first dad [] \<longleftrightarrow> True"
| "parents_first dad (n # ns) \<longleftrightarrow> dad n \<notin> set (n # ns) \<and> parents_first dad ns"

lemma parents_first_cong: "(\<And>n. n \<in> set ns \<Longrightarrow> f n = g n) \<Longrightarrow> parents_first f ns \<longleftrightarrow> parents_first g ns"
  by (induction ns) auto

text \<open>
  \<open>Lv\<close> are the leaves, numbered below \<open>E\<close>, and the nodes from \<open>E\<close> up to \<open>node\<close> have been
  made. Before \<open>gen_bitlen\<close> the field \<open>dl\<close>, which \<open>Len\<close> reads, is the parent \<open>Dad\<close>.
\<close>

definition merged :: "nat set \<Rightarrow> nat \<Rightarrow> ct_data list \<Rightarrow> nat \<Rightarrow> trees_state \<Rightarrow> bool" where
  "merged Lv E tree node s \<longleftrightarrow> mset (live s) + mset (finished s) = mset_set (Lv \<union> {E..<node}) \<and>
     length (heap s) = HEAP_SIZE \<and> E \<le> node \<and> 1 \<le> heap_len s \<and> heap_len s + (node - E) = card Lv \<and>
     heap_max s + 2 * (node - E) = HEAP_SIZE \<and> parents_first (Len tree) (finished s) \<and>
     (\<forall>n \<in> set (finished s). E \<le> Len tree n \<and> Len tree n < node) \<and>
     (\<forall>p \<in> {E..<node}. card {n \<in> set (finished s). Len tree n = p} = 2) \<and> (E < node \<longrightarrow> node - 1 \<in> set (live s))"

lemma mset_eq_mset_set:
  assumes "mset xs = mset_set A" "finite A"
  shows "distinct xs" "set xs = A"
proof -
  show A: "set xs = A" using arg_cong [OF assms(1), of set_mset] assms(2) by simp
  then show "distinct xs" using assms(2) by (simp add: distinct_count_atmost_1 assms(1))
qed

lemma merged_sets:
  assumes "merged Lv E tree node s" "finite Lv"
  shows "distinct (live s)" "distinct (finished s)" "set (live s) \<inter> set (finished s) = {}"
    "set (live s) \<union> set (finished s) = Lv \<union> {E..<node}"
proof -
  have m: "mset (live s @ finished s) = mset_set (Lv \<union> {E..<node})" using assms(1) by (simp add: merged_def)
  from mset_eq_mset_set [OF m] assms(2)
  show "distinct (live s)" "distinct (finished s)" "set (live s) \<inter> set (finished s) = {}"
    "set (live s) \<union> set (finished s) = Lv \<union> {E..<node}" by auto
qed

lemma merged_step:
  assumes inv: "merged Lv E tree node s" and Lv: "finite Lv" "Lv \<subseteq> {..<E}" "2 * card Lv < HEAP_SIZE" "E + card Lv \<le> length tree"
    and E: "E < 60000" and len: "2 \<le> heap_len s"
  obtains tree' s' where "merge_nodes tree node s = (tree', s')" "merged Lv E tree' (node + 1) s'" "hframe s' = hframe s"
    "length tree' = length tree" "heap_len s' = heap_len s - 1" "bl_count s' = bl_count s" "length (depth s') = length (depth s)"
    "\<forall>k < E. fc (tree' ! k) = fc (tree ! k)" "\<forall>k. k \<notin> Lv \<union> {E..<node} \<longrightarrow> Len tree' k = Len tree k"
proof -
  note ms = merged_sets [OF inv Lv(1)]
  have i: "mset (live s) + mset (finished s) = mset_set (Lv \<union> {E..<node})" "length (heap s) = HEAP_SIZE" "E \<le> node"
    "heap_len s + (node - E) = card Lv" "heap_max s + 2 * (node - E) = HEAP_SIZE" "parents_first (Len tree) (finished s)"
    "\<forall>n \<in> set (finished s). E \<le> Len tree n \<and> Len tree n < node"
    "\<forall>p \<in> {E..<node}. card {n \<in> set (finished s). Len tree n = p} = 2"
    using inv by (simp_all add: merged_def)
  have pre: "heap_len s + 1 < heap_max s" "heap_max s \<le> length (heap s)" "node < length tree" "node < 65536"
    using i(2-5) Lv(3,4) len E by (auto simp: HEAP_SIZE_def L_CODES_def LITERALS_def LENGTH_CODES_def)
  have "node \<notin> Lv \<union> {E..<node}" using Lv(2) i(3) by auto
  then have new: "node \<notin> set (live s)" "node \<notin> set (finished s)" unfolding ms(4) [symmetric] by simp_all
  have sub: "set (live s) \<subseteq> {..<length tree}" 
  proof -
    have "Lv \<union> {E..<node} \<subseteq> {..<length tree}" using Lv(2,4) pre(3) by auto
    with ms(4) show ?thesis by blast
  qed
  obtain tree' s' n m where r: "merge_nodes tree node s = (tree', s')" "n \<noteq> m"
      "mset (live s) + {#node#} = mset (live s') + {#n, m#}" "finished s' = m # n # finished s"
      "heap_len s' = heap_len s - 1" "heap_max s' = heap_max s - 2" "length (heap s') = length (heap s)" "hframe s' = hframe s"
      "length (depth s') = length (depth s)" "bl_count s' = bl_count s" "length tree' = length tree"
      "\<forall>k. Len tree' k = (if k = n \<or> k = m then node else Len tree k)" "\<forall>k. k \<noteq> node \<longrightarrow> fc (tree' ! k) = fc (tree ! k)"
      and nm: "n \<in> set (live s)" "m \<in> set (live s)" "node \<in> set (live s')"
    using merge_nodes_spec [OF len pre ms(1) new(1) sub] by blast
  have fin: "n \<notin> set (finished s)" "m \<notin> set (finished s)" using nm ms(3) by auto
  have len': "Len tree' k = Len tree k" if "k \<in> set (finished s)" for k using that fin r(12) by auto
  have "mset (live s') + mset (finished s') = mset_set (Lv \<union> {E..<node + 1})"
  proof -
    have "mset (live s') + mset (finished s') = mset (live s) + {#node#} + mset (finished s)" unfolding r(3,4) by simp
    also have "\<dots> = add_mset node (mset_set (Lv \<union> {E..<node}))" using i(1) by simp
    also have "\<dots> = mset_set (insert node (Lv \<union> {E..<node}))" using Lv(1,2) i(3) by (intro mset_set.insert [symmetric]) auto
    also have "insert node (Lv \<union> {E..<node}) = Lv \<union> {E..<node + 1}" using i(3) by auto
    finally show ?thesis .
  qed
  moreover have "parents_first (Len tree') (finished s')"
    using i(6) new(2) nm(1,2) new(1) len' r(2) parents_first_cong [of "finished s" "Len tree'" "Len tree"]
    by (auto simp: r(4) r(12))
  moreover have "\<forall>k \<in> set (finished s'). E \<le> Len tree' k \<and> Len tree' k < node + 1"
    using i(3,7) len' by (auto simp: r(4) r(12))
  moreover have "card {k \<in> set (finished s'). Len tree' k = p} = 2" if "p \<in> {E..<node + 1}" for p
  proof (cases "p = node")
    case True
    then have "{k \<in> set (finished s'). Len tree' k = p} = {n, m}" using i(7) len' by (auto simp: r(4) r(12))
    with r(2) show ?thesis by simp
  next
    case False
    then have "{k \<in> set (finished s'). Len tree' k = p} = {k \<in> set (finished s). Len tree k = p}"
      using fin by (auto simp: r(4) r(12))
    with i(8) that False show ?thesis by simp
  qed
  ultimately have "merged Lv E tree' (node + 1) s'"
    using r(5-7) i(2-5) len pre(1) nm(3) by (auto simp: merged_def)
  moreover have "n \<in> Lv \<union> {E..<node}" "m \<in> Lv \<union> {E..<node}" using nm ms(4) by blast+
  then have "\<forall>k. k \<notin> Lv \<union> {E..<node} \<longrightarrow> Len tree' k = Len tree k" using r(12) by metis
  ultimately show ?thesis using that r(1,5,8-11,13) i(3) by auto
qed

lemma merge_loop_merged:
  assumes "merged Lv E tree node s" and Lv: "finite Lv" "Lv \<subseteq> {..<E}" "2 * card Lv < HEAP_SIZE" "E + card Lv \<le> length tree" "E < 60000"
  obtains tree' s' where "merge_loop tree node s = (tree', s')" "merged Lv E tree' (E + card Lv - 1) s'" "hframe s' = hframe s"
    "length tree' = length tree" "heap_len s' = 1" "bl_count s' = bl_count s" "length (depth s') = length (depth s)"
    "\<forall>k < E. fc (tree' ! k) = fc (tree ! k)" "\<forall>k < E. k \<notin> Lv \<longrightarrow> Len tree' k = Len tree k"
  using assms(1,5)
proof (induction "heap_len s" arbitrary: tree node s thesis rule: less_induct)
  case less
  show ?case
  proof (cases "2 \<le> heap_len s")
    case True
    obtain tree1 s1 where step: "merge_nodes tree node s = (tree1, s1)" "merged Lv E tree1 (node + 1) s1" "hframe s1 = hframe s"
        "length tree1 = length tree" "heap_len s1 = heap_len s - 1" "bl_count s1 = bl_count s" "length (depth s1) = length (depth s)"
        "\<forall>k < E. fc (tree1 ! k) = fc (tree ! k)" "\<forall>k. k \<notin> Lv \<union> {E..<node} \<longrightarrow> Len tree1 k = Len tree k"
      using merged_step [OF less.prems(2) Lv(1-3) less.prems(3) assms(6) True] by blast
    have "heap_len s1 < heap_len s" "E + card Lv \<le> length tree1" using step(4,5) True less.prems(3) by simp_all
    from less.hyps [OF this(1) _ step(2) this(2)] obtain tree' s' where
      r: "merge_loop tree1 (node + 1) s1 = (tree', s')" "merged Lv E tree' (E + card Lv - 1) s'" "hframe s' = hframe s1"
        "length tree' = length tree1" "heap_len s' = 1" "bl_count s' = bl_count s1" "length (depth s') = length (depth s1)"
        "\<forall>k < E. fc (tree' ! k) = fc (tree1 ! k)" "\<forall>k < E. k \<notin> Lv \<longrightarrow> Len tree' k = Len tree1 k" by blast
    have "merge_loop tree node s = (tree', s')"
      using True r(1) by (subst merge_loop.simps) (simp add: step(1))
    then show ?thesis using less.prems(1) r step by auto
  next
    case False
    then have "heap_len s = 1" "node = E + card Lv - 1" using less.prems(2) by (auto simp: merged_def)
    moreover from this have "merge_loop tree node s = (tree, s)" by (subst merge_loop.simps) simp
    ultimately show ?thesis using less.prems by auto
  qed
qed

text \<open>
  After the loop the last node is the root. Moved in front of the finished nodes it completes
  the list that \<open>gen_bitlen\<close> goes through.
\<close>

lemma merged_root:
  assumes "merged Lv E tree (E + card Lv - 1) s" "heap_len s = 1" "finite Lv" "Lv \<subseteq> {..<E}" "2 \<le> card Lv"
  shows "live s = [E + card Lv - 2]" "heap s ! SMALLEST = E + card Lv - 2"
    "set (finished s) = Lv \<union> {E..<E + card Lv - 2}" "distinct (finished s)" "length (finished s) = 2 * card Lv - 2"
proof -
  let ?root = "E + card Lv - 2"
  have l: "length (live s) = 1" "?root \<in> set (live s)"
    using assms(1,2,5) by (auto simp: merged_def live_def HEAP_SIZE_def numeral_2_eq_2)
  then show root: "live s = [?root]" by (cases "live s") auto
  then show "heap s ! SMALLEST = ?root" using live_nth [of s] assms(1,2)
    by (simp add: merged_def SMALLEST_def HEAP_SIZE_def L_CODES_def)
  note ms = merged_sets [OF assms(1,3)]
  have "{E..<E + card Lv - 1} = insert ?root {E..<?root}" using assms(5) by auto
  moreover have "?root \<notin> Lv" using assms(4,5) by (auto dest!: subsetD)
  moreover have "?root \<notin> set (finished s)" using ms(3) root by simp
  moreover have "insert ?root (set (finished s)) = Lv \<union> {E..<E + card Lv - 1}" using ms(4) root by simp
  ultimately show "set (finished s) = Lv \<union> {E..<?root}"
    by (metis Un_insert_right insert_ident Un_iff atLeastLessThan_iff less_irrefl)
  show "distinct (finished s)" by (rule ms(2))
  show "length (finished s) = 2 * card Lv - 2" using assms(1) by (auto simp: merged_def finished_def)
qed

end
