(* ===== verification/Trees_Start.thy ===== *)
theory Trees_Start
  imports Trees_Heap
begin

text \<open>
  The initial queue of \<open>build_tree\<close>: all symbols that occur, and one or two more if there are
  less than two.
\<close>

section \<open>Symbols in use\<close>

definition used :: "ct_data list \<Rightarrow> nat \<Rightarrow> nat set" where
  "used tree E = {n. n < E \<and> fc (tree ! n) \<noteq> 0}"

text \<open>The operations on the queue change its contents and the depths only.\<close>

definition keeps :: "trees_state \<Rightarrow> trees_state \<Rightarrow> bool" where
  "keeps s s' \<longleftrightarrow> hframe s' = hframe s \<and> heap_max s' = heap_max s \<and> bl_count s' = bl_count s \<and>
     length (heap s') = length (heap s) \<and> length (depth s') = length (depth s)"

lemma keeps_trans: "keeps s s1 \<Longrightarrow> keeps s1 s2 \<Longrightarrow> keeps s s2"
  by (simp add: keeps_def)

definition enqueue :: "trees_state \<Rightarrow> nat \<Rightarrow> trees_state" where
  "enqueue s n = s\<lparr>heap_len := heap_len s + 1, heap := (heap s)[heap_len s + 1 := n], depth := (depth s)[n := 0]\<rparr>"

lemma live_upto:
  assumes "Suc n < length hp" "take n (drop 1 hp') = take n (drop 1 hp)" "length hp' = length hp" "hp' ! Suc n = x"
  shows "take (Suc n) (drop 1 hp') = take n (drop 1 hp) @ [x]"
  using assms take_Suc_conv_app_nth [of n "drop 1 hp'"] by simp

lemma live_enqueue:
  assumes "heap_len s + 1 < length (heap s)"
  shows "live (enqueue s n) = live s @ [n]"
proof -
  have "take (heap_len s) (drop 1 ((heap s)[Suc (heap_len s) := n])) = take (heap_len s) (drop 1 (heap s))"
    by (rule nth_equalityI) auto
  from live_upto [OF _ this] assms show ?thesis by (simp add: live_def enqueue_def)
qed

lemma enqueue_keeps: "keeps s (enqueue s n)" "heap_len (enqueue s n) = heap_len s + 1"
  by (simp_all add: keeps_def enqueue_def hframe_def)

lemma init_heap_spec:
  assumes "heap_len s + length ns < length (heap s)" "\<forall>n \<in> set ns. n < length tree" "distinct ns"
    "us = filter (\<lambda>n. fc (tree ! n) \<noteq> 0) ns"
  shows "\<exists>tree' s'. init_heap ns tree mc s = (tree', if us = [] then mc else int (last us), s') \<and> keeps s s' \<and>
    live s' = live s @ us \<and> heap_len s' = heap_len s + length us \<and> length tree' = length tree \<and>
    (\<forall>k. fc (tree' ! k) = fc (tree ! k)) \<and> (\<forall>k. Len tree' k = (if k \<in> set ns \<and> fc (tree ! k) = 0 then 0 else Len tree k))"
  using assms
proof (induction ns arbitrary: tree mc s us)
  case Nil
  then show ?case by (simp add: keeps_def)
next
  case (Cons n ns)
  show ?case
  proof (cases "fc (tree ! n) = 0")
    case True
    let ?t = "tree[n := (tree ! n)\<lparr>dl := 0\<rparr>]"
    have fc: "fc (?t ! k) = fc (tree ! k)" for k using Cons.prems by (cases "k = n") auto
    have len: "Len ?t k = (if k = n then 0 else Len tree k)" for k using Cons.prems by (simp add: Len_def nth_list_update)
    have "us = filter (\<lambda>n. fc (?t ! n) \<noteq> 0) ns" using True Cons.prems(4) by (simp add: fc)
    from Cons.IH [of s ?t us mc, OF _ _ _ this] Cons.prems True show ?thesis by (auto simp: fc len)
  next
    case False
    have l: "live (enqueue s n) = live s @ [n]" using Cons.prems by (intro live_enqueue) simp
    let ?us = "filter (\<lambda>n. fc (tree ! n) \<noteq> 0) ns"
    have us: "us = n # ?us" using False Cons.prems(4) by simp
    have step: "init_heap (n # ns) tree mc s = init_heap ns tree (int n) (enqueue s n)"
      using False by (simp add: enqueue_def)
    have "heap_len (enqueue s n) + length ns < length (heap (enqueue s n))" using Cons.prems(1) by (simp add: enqueue_def)
    from Cons.IH [OF this _ _ refl, of tree "int n"] Cons.prems obtain tree' s' where
      r: "init_heap ns tree (int n) (enqueue s n) = (tree', if ?us = [] then int n else int (last ?us), s')"
        "keeps (enqueue s n) s'" "live s' = live s @ [n] @ ?us" "heap_len s' = heap_len s + 1 + length ?us" "length tree' = length tree"
        "\<forall>k. fc (tree' ! k) = fc (tree ! k)" "\<forall>k. Len tree' k = (if k \<in> set ns \<and> fc (tree ! k) = 0 then 0 else Len tree k)"
      by (auto simp: l enqueue_keeps)
    then show ?thesis using keeps_trans [OF enqueue_keeps(1) r(2)] False
      unfolding us step by (intro exI [of _ tree'] exI [of _ s']) auto
  qed
qed

text \<open>The queue while symbols are added.\<close>

definition queued :: "nat \<Rightarrow> ct_data list \<Rightarrow> int \<Rightarrow> trees_state \<Rightarrow> bool" where
  "queued E tree mc s \<longleftrightarrow> length (heap s) = HEAP_SIZE \<and> heap_len s \<le> E \<and> distinct (live s) \<and> set (live s) = used tree E \<and>
     (\<forall>n \<in> set (live s). int n \<le> mc) \<and> mc < int E \<and> (live s = [] \<longrightarrow> mc = - 1) \<and>
     (length (live s) < 2 \<longrightarrow> 2 \<le> mc \<longrightarrow> 0 \<notin> set (live s)) \<and> (\<forall>n < E. n \<notin> used tree E \<longrightarrow> Len tree n = 0)"

lemma length_live: "heap_len s < length (heap s) \<Longrightarrow> length (live s) = heap_len s"
  by (simp add: live_def)

lemma filter_upt_last:
  assumes "n < E" "P n"
  shows "filter P [0..<E] \<noteq> []" "n \<le> last (filter P [0..<E])"
proof -
  let ?us = "filter P [0..<E]"
  have n: "n \<in> set ?us" using assms by simp
  then show ne: "?us \<noteq> []" by (metis list.distinct(1) list.set_cases)
  have "sorted ?us" by (rule sorted_wrt_filter) simp
  then have "sorted (butlast ?us @ [last ?us])" by (simp only: append_butlast_last_id [OF ne])
  then show "n \<le> last ?us" using n append_butlast_last_id [OF ne] unfolding sorted_append
    by (metis Un_iff empty_iff empty_set list.set_intros(1) order_refl set_ConsD set_append)
qed

lemma init_heap_queued:
  assumes "length (heap s) = HEAP_SIZE" "heap_len s = 0" "E \<le> length tree" "E < HEAP_SIZE"
  shows "\<exists>tree' mc s'. init_heap [0..<E] tree (- 1) s = (tree', mc, s') \<and> queued E tree' mc s' \<and> keeps s s' \<and>
    length tree' = length tree \<and> (\<forall>k. fc (tree' ! k) = fc (tree ! k))"
proof -
  define us where "us = filter (\<lambda>n. fc (tree ! n) \<noteq> 0) [0..<E]"
  define mc where "mc = (if us = [] then - 1 else int (last us))"
  have pre: "heap_len s + length [0..<E] < length (heap s)" "\<forall>n \<in> set [0..<E]. n < length tree" "distinct [0..<E]"
    using assms by simp_all
  have l: "live s = []" using assms(2) by (simp add: live_def)
  obtain tree' s' where r: "init_heap [0..<E] tree (- 1) s = (tree', mc, s')" "keeps s s'"
      "live s' = us" "heap_len s' = length us" "length tree' = length tree"
      "\<forall>k. fc (tree' ! k) = fc (tree ! k)" "\<forall>k. Len tree' k = (if k \<in> set [0..<E] \<and> fc (tree ! k) = 0 then 0 else Len tree k)"
    using init_heap_spec [OF pre us_def, of "- 1"] unfolding mc_def [symmetric] l assms(2) append_Nil add_0 by blast
  have us: "set us = used tree' E" "distinct us" using r(6) by (auto simp: used_def us_def)
  have le: "int n \<le> mc" if "n \<in> set us" for n
    using that filter_upt_last [of n E "\<lambda>n. fc (tree ! n) \<noteq> 0"] by (auto simp: mc_def us_def)
  have mc: "mc < int E" using last_in_set [of us] us(1) by (auto simp: mc_def used_def)
  have "length us < 2 \<longrightarrow> 2 \<le> mc \<longrightarrow> 0 \<notin> set us"
    by (cases us; cases "tl us") (auto simp: mc_def split: if_splits)
  moreover have "length us \<le> E" using length_filter_le [of _ "[0..<E]"] by (simp add: us_def)
  ultimately have "queued E tree' mc s'"
    unfolding queued_def r(3,4) using us le mc r(2,6,7) assms(1) by (auto simp: used_def keeps_def mc_def)
  with r show ?thesis by blast
qed

section \<open>At least two codes\<close>

definition force_node :: "int \<Rightarrow> nat" where
  "force_node mc = (if mc < 2 then nat (mc + 1) else 0)"

definition force_max :: "int \<Rightarrow> int" where
  "force_max mc = (if mc < 2 then mc + 1 else mc)"

lemma queued_force:
  assumes q: "queued E tree mc s" and len: "heap_len s < 2" "3 \<le> E" "E \<le> length tree" "E < HEAP_SIZE"
    and s1: "keeps s s1" "live s1 = live s @ [force_node mc]" "heap_len s1 = heap_len s + 1"
  shows "queued E (tree[force_node mc := (tree ! force_node mc)\<lparr>fc := 1\<rparr>]) (force_max mc) s1"
    "force_node mc \<notin> used tree E" "force_node mc < E"
proof -
  let ?n = "force_node mc"
  have i: "length (heap s) = HEAP_SIZE" "distinct (live s)" "set (live s) = used tree E" "\<forall>n \<in> set (live s). int n \<le> mc" "mc < int E"
      "live s = [] \<longrightarrow> mc = - 1" "length (live s) < 2 \<longrightarrow> 2 \<le> mc \<longrightarrow> 0 \<notin> set (live s)" "\<forall>n < E. n \<notin> used tree E \<longrightarrow> Len tree n = 0"
    using q unfolding queued_def by blast+
  have ll: "length (live s) = heap_len s" using i(1) len by (intro length_live) (simp add: HEAP_SIZE_def)
  have mc: "- 1 \<le> mc" using i(4,6) by (cases "live s") auto
  show new: "?n \<notin> used tree E" "?n < E"
    using i(3,4,7) ll len mc by (auto simp: force_node_def nat_less_iff split: if_splits)
  let ?t = "tree[?n := (tree ! ?n)\<lparr>fc := 1\<rparr>]"
  have fc: "fc (?t ! k) = (if k = ?n then 1 else fc (tree ! k))" for k
    using new len by (simp add: nth_list_update)
  have lens: "Len ?t k = Len tree k" for k using new len by (simp add: Len_def nth_list_update)
  have used: "used ?t E = insert ?n (used tree E)" using new by (auto simp: used_def fc)
  have "length (live s1) < 2 \<longrightarrow> force_max mc < 2" using i(6) mc by (auto simp: s1(2) force_max_def)
  moreover have "\<forall>n < E. n \<notin> used ?t E \<longrightarrow> Len ?t n = 0" using i(8) unfolding used lens by blast
  moreover have "force_max mc < int E" "int ?n \<le> force_max mc" "\<forall>n \<in> set (live s). int n \<le> force_max mc"
    using i(4,5) len(2) mc by (auto simp: force_max_def force_node_def)
  ultimately show "queued E ?t (force_max mc) s1"
    unfolding queued_def s1(2,3) used using i(1-3) new len(1,2) s1(1) by (auto simp: keeps_def)
qed

lemma force_codes_queued:
  assumes "queued E tree mc s" "3 \<le> E" "E \<le> length tree" "E < HEAP_SIZE"
  shows "\<exists>tree' mc' s'. force_codes st tree mc s = (tree', mc', s') \<and> queued E tree' mc' s' \<and> keeps s s' \<and> 2 \<le> heap_len s' \<and>
    length tree' = length tree \<and> used tree E \<subseteq> used tree' E"
  using assms
proof (induction "2 - heap_len s" arbitrary: tree mc s rule: less_induct)
  case less
  show ?case
  proof (cases "heap_len s < 2")
    case True
    let ?n = "force_node mc" and ?t = "tree[force_node mc := (tree ! force_node mc)\<lparr>fc := 1\<rparr>]"
    let ?s0 = "(enqueue s ?n)\<lparr>opt_len := opt_len s - 1\<rparr>"
    let ?s1 = "case st of None \<Rightarrow> ?s0 | Some t \<Rightarrow> ?s0\<lparr>static_len := static_len s - of_nat (Len t ?n)\<rparr>"
    have step: "force_codes st tree mc s = force_codes st ?t (force_max mc) ?s1"
      using True by (subst force_codes.simps) (simp add: Let_def enqueue_def force_node_def force_max_def split: option.splits)
    have "length (heap s) = HEAP_SIZE" using less.prems(1) by (simp add: queued_def)
    then have "heap_len s + 1 < length (heap s)" using True less.prems(2,4) by simp
    note l = live_enqueue [OF this, of ?n]
    have s1: "keeps s ?s1" "live ?s1 = live s @ [?n]" "heap_len ?s1 = heap_len s + 1"
      using l enqueue_keeps by (auto simp: live_def keeps_def hframe_def split: option.splits)
    note q = queued_force [OF less.prems(1) True less.prems(2-4) s1]
    have sub: "used tree E \<subseteq> used ?t E" using q(2) unfolding used_def by (auto, metis nth_list_update_neq)
    have lt: "2 - heap_len ?s1 < 2 - heap_len s" using True unfolding s1(3) by linarith
    have len: "E \<le> length ?t" using less.prems(3) by simp
    from less.hyps [OF lt q(1) less.prems(2) len less.prems(4)]
    obtain tree' mc' s' where r: "force_codes st ?t (force_max mc) ?s1 = (tree', mc', s')" "queued E tree' mc' s'"
        "keeps ?s1 s'" "2 \<le> heap_len s'" "length tree' = length ?t" "used ?t E \<subseteq> used tree' E"
      by (elim exE conjE)
    show ?thesis unfolding step r(1) using r keeps_trans [OF s1(1) r(3)] sub by auto
  next
    case False
    then have "force_codes st tree mc s = (tree, mc, s)" by (subst force_codes.simps) simp
    with False less.prems(1) show ?thesis by (simp add: keeps_def)
  qed
qed

section \<open>The heap\<close>

lemma pqdown_fold:
  assumes "heap_len s < length (heap s)" "\<forall>n \<in> set ns. 1 \<le> n \<and> n \<le> heap_len s"
  shows "\<exists>s'. foldl (\<lambda>s n. pqdownheap s tree n) s ns = s' \<and> keeps s s' \<and> heap_len s' = heap_len s \<and> mset (live s') = mset (live s)"
  using assms
proof (induction ns arbitrary: s)
  case (Cons n ns)
  then obtain hp where hp: "pqdownheap s tree n = s\<lparr>heap := hp\<rparr>" "length hp = length (heap s)"
      "mset (take (heap_len s) (drop 1 hp)) = mset (live s)"
    using pqdownheap_live [of n s tree] by auto
  then obtain s' where "foldl (\<lambda>s n. pqdownheap s tree n) (s\<lparr>heap := hp\<rparr>) ns = s'" "keeps (s\<lparr>heap := hp\<rparr>) s'"
      "heap_len s' = heap_len s" "mset (live s') = mset (live (s\<lparr>heap := hp\<rparr>))"
    using Cons.IH [of "s\<lparr>heap := hp\<rparr>"] Cons.prems by auto
  then show ?case using hp by (auto simp: keeps_def hframe_def live_def)
qed (simp add: keeps_def)

text \<open>What the combining loop starts from.\<close>

lemma queued_merged:
  assumes "queued E tree mc s" "keeps s s'" "heap_len s' = heap_len s" "mset (live s') = mset (live s)"
    "heap_max s = HEAP_SIZE" "2 \<le> heap_len s" "E < HEAP_SIZE"
  shows "merged (used tree E) E tree E s'" "2 \<le> card (used tree E)" "card (used tree E) \<le> E"
proof -
  have q: "length (heap s) = HEAP_SIZE" "heap_len s \<le> E" "distinct (live s)" "set (live s) = used tree E"
    using assms(1) by (simp_all add: queued_def)
  have "length (live s) = heap_len s" using q assms(7) by (intro length_live) simp
  then have c: "card (used tree E) = heap_len s" using distinct_card [OF q(3)] q(4) by simp
  then show "2 \<le> card (used tree E)" "card (used tree E) \<le> E" using assms(6) q(2) by simp_all
  have "mset (live s) = mset_set (used tree E)" using mset_set_set [OF q(3)] q(4) by simp
  moreover have "finished s' = []" using assms(2,5) q(1) by (simp add: finished_def keeps_def)
  ultimately show "merged (used tree E) E tree E s'"
    using assms q(1) c by (simp add: merged_def keeps_def)
qed

end
