(* ===== verification/Trees_Lengths.thy ===== *)
theory Trees_Lengths
  imports Trees_Start
begin

text \<open>
  The bit lengths that \<open>gen_bitlen\<close> computes from the tree: the pass from the root to the
  leaves, the repair of an overflow, and the pass that deals out the repaired lengths.
\<close>

section \<open>The first pass\<close>

lemma Len_update:
  "n < length tree \<Longrightarrow> v < 65536 \<Longrightarrow> Len (tree[n := (tree ! n)\<lparr>dl := of_nat v\<rparr>]) k = (if k = n then v else Len tree k)"
  by (auto simp: Len_def nth_list_update unat_of_nat take_bit_nat_eq_self)

lemma fc_update_dl: "n < length tree \<Longrightarrow> fc (tree[n := (tree ! n)\<lparr>dl := w\<rparr>] ! k) = fc (tree ! k)"
  by (auto simp: nth_list_update)

lemma card_filter_insert:
  "finite A \<Longrightarrow> n \<notin> A \<Longrightarrow> card {x \<in> insert n A. P x} = (if P n then 1 else 0) + card {x \<in> A. P x}"
proof -
  assume "finite A" "n \<notin> A"
  moreover have "{x \<in> insert n A. P x} = (if P n then insert n {x \<in> A. P x} else {x \<in> A. P x})" by auto
  ultimately show ?thesis by simp
qed

definition same_queue :: "trees_state \<Rightarrow> trees_state \<Rightarrow> bool" where
  "same_queue s s' \<longleftrightarrow> hframe s' = hframe s \<and> heap s' = heap s \<and> heap_len s' = heap_len s \<and> heap_max s' = heap_max s \<and>
     depth s' = depth s"

lemma bitlen_pass_spec:
  assumes "ns = map ((!) (heap s)) hs" "distinct ns" "set ns \<subseteq> {..<length tree}" "parents_first (Len tree) ns"
    "M = max_length desc" "M < 16" "length (bl_count s) = 16"
  shows "\<exists>tree' s' ov'. bitlen_pass desc mc hs tree s ov = (tree', s', ov') \<and> same_queue s s' \<and> length tree' = length tree \<and>
    (\<forall>k. fc (tree' ! k) = fc (tree ! k)) \<and> (\<forall>k. k \<notin> set ns \<longrightarrow> Len tree' k = Len tree k) \<and>
    (\<forall>n \<in> set ns. Len tree' n = min (Len tree' (Len tree n) + 1) M) \<and>
    ov' = ov + int (card {n \<in> set ns. M \<le> Len tree' (Len tree n)}) \<and> length (bl_count s') = 16 \<and>
    (\<forall>b < 16. bl_count s' ! b = bl_count s ! b + of_nat (card {n \<in> set ns. n \<le> mc \<and> Len tree' n = b}))"
  using assms
proof (induction hs arbitrary: ns tree s ov)
  case Nil
  then show ?case by (simp add: same_queue_def)
next
  case (Cons h hs)
  define n ns' where "n = heap s ! h" and "ns' = map ((!) (heap s)) hs"
  have ns: "ns = n # ns'" using Cons.prems(1) by (simp add: n_def ns'_def)
  define d where "d = Len tree n"
  have n: "n < length tree" "n \<notin> set ns'" "d \<noteq> n" "d \<notin> set ns'" and pf: "parents_first (Len tree) ns'" "distinct ns'"
    using Cons.prems(2-4) by (auto simp: ns d_def)
  define bits where "bits = min (Len tree d + 1) M"
  define tree1 where "tree1 = tree[n := (tree ! n)\<lparr>dl := of_nat bits\<rparr>]"
  define ov1 where "ov1 = (if M \<le> Len tree d then ov + 1 else ov)"
  have bits: "bits < 16" using Cons.prems(6) by (simp add: bits_def)
  have len1: "Len tree1 k = (if k = n then bits else Len tree k)" for k
    unfolding tree1_def using n(1) bits by (subst Len_update) auto
  have fc1: "fc (tree1 ! k) = fc (tree ! k)" for k unfolding tree1_def using n(1) by (rule fc_update_dl)
  have "parents_first (Len tree1) ns'"
    using pf(1) n(2) len1 by (subst parents_first_cong [of ns' "Len tree1" "Len tree"]) auto
  have "\<exists>s1. same_queue s s1 \<and> bitlen_pass desc mc (h # hs) tree s ov = bitlen_pass desc mc hs tree1 s1 ov1 \<and> length (bl_count s1) = 16 \<and>
    (\<forall>b < 16. bl_count s1 ! b = bl_count s ! b + of_nat (if n \<le> mc \<and> bits = b then 1 else 0))"
  proof -
    have b: "(if Len tree (unat (dl (tree ! n))) + 1 > max_length desc then max_length desc else Len tree (unat (dl (tree ! n))) + 1) = bits"
      "(if Len tree (unat (dl (tree ! n))) + 1 > max_length desc then ov + 1 else ov) = ov1"
      by (auto simp: bits_def ov1_def d_def Len_def Cons.prems(5))
    show ?thesis
    proof (cases "n > mc")
      case True
      then have "bitlen_pass desc mc (h # hs) tree s ov = bitlen_pass desc mc hs tree1 s ov1"
        unfolding bitlen_pass.simps Let_def n_def [symmetric] b tree1_def [symmetric] by simp
      with True show ?thesis by (intro exI [of _ s]) (simp add: same_queue_def Cons.prems(7))
    next
      case False
      let ?x = "if n \<ge> extra_base desc then extra_bits desc ! (n - extra_base desc) else 0"
      let ?s0 = "s\<lparr>bl_count := (bl_count s)[bits := bl_count s ! bits + 1], opt_len := opt_len s + ucast (fc (tree ! n)) * of_nat (bits + ?x)\<rparr>"
      let ?s1 = "case static_tree desc of None \<Rightarrow> ?s0
        | Some st \<Rightarrow> ?s0\<lparr>static_len := static_len ?s0 + ucast (fc (tree ! n)) * of_nat (Len st n + ?x)\<rparr>"
      have "bitlen_pass desc mc (h # hs) tree s ov = bitlen_pass desc mc hs tree1 ?s1 ov1"
        unfolding bitlen_pass.simps Let_def n_def [symmetric] b tree1_def [symmetric] fc1 using False by simp
      moreover have "same_queue s ?s1" "bl_count ?s1 = (bl_count s)[bits := bl_count s ! bits + 1]"
        by (simp_all add: same_queue_def hframe_def split: option.split)
      ultimately show ?thesis using False bits Cons.prems(7)
        by (intro exI [of _ ?s1]) (simp add: nth_list_update)
    qed
  qed
  then obtain s1 where s1: "same_queue s s1" "bitlen_pass desc mc (h # hs) tree s ov = bitlen_pass desc mc hs tree1 s1 ov1"
      "length (bl_count s1) = 16" "\<forall>b < 16. bl_count s1 ! b = bl_count s ! b + of_nat (if n \<le> mc \<and> bits = b then 1 else 0)" by blast
  have pre: "ns' = map ((!) (heap s1)) hs" "set ns' \<subseteq> {..<length tree1}"
    using s1(1) Cons.prems(3) by (auto simp: ns'_def same_queue_def ns tree1_def)
  obtain tree' s' ov' where r: "bitlen_pass desc mc hs tree1 s1 ov1 = (tree', s', ov')" "same_queue s1 s'" "length tree' = length tree1"
      "\<forall>k. fc (tree' ! k) = fc (tree1 ! k)" "\<forall>k. k \<notin> set ns' \<longrightarrow> Len tree' k = Len tree1 k"
      "\<forall>n \<in> set ns'. Len tree' n = min (Len tree' (Len tree1 n) + 1) M"
      "ov' = ov1 + int (card {n \<in> set ns'. M \<le> Len tree' (Len tree1 n)})" "length (bl_count s') = 16"
      "\<forall>b < 16. bl_count s' ! b = bl_count s1 ! b + of_nat (card {n \<in> set ns'. n \<le> mc \<and> Len tree' n = b})"
    using Cons.IH [OF pre(1) pf(2) pre(2) \<open>parents_first (Len tree1) ns'\<close> Cons.prems(5,6) s1(3), of ov1] by (elim exE conjE)
  have same: "Len tree1 x = Len tree x" if "x \<in> set ns'" for x using that n(2) len1 by auto
  have dn: "Len tree' n = bits" "Len tree' d = Len tree d" using r(5) n(2-4) len1 by auto
  have c: "card {x \<in> set ns. P x} = (if P n then 1 else 0) + card {x \<in> set ns'. P x}" for P
    using card_filter_insert [of "set ns'" n P] n(2) by (simp add: ns)
  have "card {x \<in> set ns'. M \<le> Len tree' (Len tree1 x)} = card {x \<in> set ns'. M \<le> Len tree' (Len tree x)}"
    using same by (intro arg_cong [of _ _ card]) auto
  then have "ov' = ov + int (card {n \<in> set ns. M \<le> Len tree' (Len tree n)})"
    unfolding c r(7) using dn(2) by (simp add: ov1_def d_def)
  moreover have "\<forall>b < 16. bl_count s' ! b = bl_count s ! b + of_nat (card {n \<in> set ns. n \<le> mc \<and> Len tree' n = b})"
    unfolding c using r(9) s1(4) dn(1) by simp
  moreover have "\<forall>x \<in> set ns. Len tree' x = min (Len tree' (Len tree x) + 1) M"
    using r(6) same dn by (auto simp: ns bits_def simp flip: d_def)
  moreover have "\<forall>k. k \<notin> set ns \<longrightarrow> Len tree' k = Len tree k" using r(5) len1 by (simp add: ns)
  moreover have "same_queue s s'" using s1(1) r(2) by (simp add: same_queue_def)
  ultimately show ?case using s1(2) r(1,3,4,8) fc1 by (simp add: tree1_def)
qed

section \<open>The last pass\<close>

text \<open>The leaves from heap index \<open>h\<close> downwards.\<close>

definition leaves_down :: "nat list \<Rightarrow> nat \<Rightarrow> nat \<Rightarrow> nat list" where
  "leaves_down hp mc h = filter (\<lambda>m. m \<le> mc) (rev (take h hp))"

lemma recompute_len_spec:
  assumes "n \<le> length (leaves_down hp mc h)" "h \<le> length hp" "set (take n (leaves_down hp mc h)) \<subseteq> {..<length tree}" "bl < 65536"
    "distinct (take n (leaves_down hp mc h))"
  shows "\<exists>h' tree' opt'. recompute_len bl mc hp h n tree opt = (h', tree', opt') \<and> h' \<le> h \<and>
    leaves_down hp mc h' = drop n (leaves_down hp mc h) \<and> length tree' = length tree \<and> (\<forall>k. fc (tree' ! k) = fc (tree ! k)) \<and>
    (\<forall>k. Len tree' k = (if k \<in> set (take n (leaves_down hp mc h)) then bl else Len tree k))"
  using assms
proof (induction bl mc hp h n tree opt rule: recompute_len.induct)
  case (1 bl mc hp n tree opt)
  then show ?case by (simp add: leaves_down_def)
next
  case (2 bl mc hp h n tree opt)
  let ?m = "hp ! h"
  have seq: "leaves_down hp mc (Suc h) = (if ?m \<le> mc then ?m # leaves_down hp mc h else leaves_down hp mc h)"
    using "2.prems"(2) by (simp add: leaves_down_def take_Suc_conv_app_nth)
  consider "n = 0" | "n \<noteq> 0" "mc < ?m" | "n \<noteq> 0" "?m \<le> mc" by linarith
  then show ?case
  proof cases
    case 2
    then have "recompute_len bl mc hp (Suc h) n tree opt = recompute_len bl mc hp h n tree opt" by (simp add: Let_def)
    then show ?thesis using "2.IH"(1) [OF 2(1) refl 2(2)] "2.prems" 2 seq by auto
  next
    case 3
    define tree1 where "tree1 = (if Len tree ?m \<noteq> bl then tree[?m := (tree ! ?m)\<lparr>dl := of_nat bl\<rparr>] else tree)"
    define opt1 where "opt1 = (if Len tree ?m \<noteq> bl then opt + (of_nat bl - ucast (dl (tree ! ?m))) * ucast (fc (tree ! ?m)) else opt)"
    obtain k where k: "n = Suc k" using 3(1) by (cases n) auto
    have l: "leaves_down hp mc (Suc h) = ?m # leaves_down hp mc h" using seq 3(2) by simp
    have m: "?m < length tree" "?m \<notin> set (take k (leaves_down hp mc h))" using "2.prems"(3,5) by (auto simp: l k)
    have len1: "Len tree1 x = (if x = ?m then bl else Len tree x)" for x
      using m(1) "2.prems"(4) by (auto simp: tree1_def Len_update)
    have fc1: "fc (tree1 ! x) = fc (tree ! x)" for x using m(1) by (simp add: tree1_def fc_update_dl)
    have lt: "length tree1 = length tree" by (simp add: tree1_def)
    have step: "recompute_len bl mc hp (Suc h) n tree opt = recompute_len bl mc hp h k tree1 opt1"
      using 3 by (simp add: Let_def tree1_def opt1_def k)
    have pre: "k \<le> length (leaves_down hp mc h)" "h \<le> length hp" "set (take k (leaves_down hp mc h)) \<subseteq> {..<length tree1}" "bl < 65536"
      "distinct (take k (leaves_down hp mc h))"
      using "2.prems" by (simp_all add: l k lt)
    have "\<exists>h' tree' opt'. recompute_len bl mc hp h k tree1 opt1 = (h', tree', opt') \<and> h' \<le> h \<and>
        leaves_down hp mc h' = drop k (leaves_down hp mc h) \<and> length tree' = length tree1 \<and> (\<forall>x. fc (tree' ! x) = fc (tree1 ! x)) \<and>
        (\<forall>x. Len tree' x = (if x \<in> set (take k (leaves_down hp mc h)) then bl else Len tree1 x))"
    proof (cases "Len tree ?m \<noteq> bl")
      case True
      then have e: "tree1 = tree[?m := (tree ! ?m)\<lparr>dl := of_nat bl\<rparr>]" "opt1 = opt + (of_nat bl - ucast (dl (tree ! ?m))) * ucast (fc (tree ! ?m))"
        by (simp_all add: tree1_def opt1_def)
      from "2.IH"(2) [OF 3(1) refl _ True] 3 pre show ?thesis unfolding e by (simp add: k)
    next
      case False
      then have e: "tree1 = tree" "opt1 = opt"
        by (simp_all add: tree1_def opt1_def)
      from "2.IH"(3) [OF 3(1) refl _ False] 3 pre show ?thesis unfolding e by (simp add: k)
    qed
    then obtain h' tree' opt' where r: "recompute_len bl mc hp h k tree1 opt1 = (h', tree', opt')" "h' \<le> h"
        "leaves_down hp mc h' = drop k (leaves_down hp mc h)" "length tree' = length tree1" "\<forall>x. fc (tree' ! x) = fc (tree1 ! x)"
        "\<forall>x. Len tree' x = (if x \<in> set (take k (leaves_down hp mc h)) then bl else Len tree1 x)" by (elim exE conjE)
    show ?thesis unfolding step r(1) l using r(2-6) fc1 len1 lt by (simp add: k)
  qed (simp add: 2)
qed

lemma recompute_lens_spec:
  assumes "sum_list (map (ucnt blc) bs) \<le> length (leaves_down hp mc h)" "h \<le> length hp" "\<forall>b \<in> set bs. b < 65536" "distinct bs"
    "A = set (take (sum_list (map (ucnt blc) bs)) (leaves_down hp mc h))" "A \<subseteq> {..<length tree}"
    "distinct (take (sum_list (map (ucnt blc) bs)) (leaves_down hp mc h))"
  shows "\<exists>h' tree' opt'. recompute_lens bs mc hp blc (h, tree, opt) = (h', tree', opt') \<and> length tree' = length tree \<and>
    (\<forall>k. fc (tree' ! k) = fc (tree ! k)) \<and> (\<forall>k. k \<notin> A \<longrightarrow> Len tree' k = Len tree k) \<and>
    (\<forall>b. card {k \<in> A. Len tree' k = b} = (if b \<in> set bs then ucnt blc b else 0))"
  using assms
proof (induction bs arbitrary: h tree opt A)
  case (Cons b bs)
  let ?seq = "leaves_down hp mc h" and ?n = "ucnt blc b" and ?N = "sum_list (map (ucnt blc) bs)"
  define B where "B = set (take ?n ?seq)"
  define C where "C = set (take ?N (drop ?n ?seq))"
  have sp: "take (sum_list (map (ucnt blc) (b # bs))) ?seq = take ?n ?seq @ take ?N (drop ?n ?seq)"
    by (simp add: take_add)
  have A: "A = B \<union> C" "B \<inter> C = {}" and dist: "distinct (take ?n ?seq)" "distinct (take ?N (drop ?n ?seq))"
    using Cons.prems(5,7) unfolding sp by (auto simp: B_def C_def)
  have cB: "card B = ?n" unfolding B_def distinct_card [OF dist(1)] using Cons.prems(1) by simp
  have "?n \<le> length ?seq" "set (take ?n ?seq) \<subseteq> {..<length tree}" "b < 65536"
    using Cons.prems(1,3,6) A(1) by (auto simp: B_def)
  from recompute_len_spec [OF this(1) Cons.prems(2) this(2,3) dist(1), of opt] obtain h1 tree1 opt1 where
    r: "recompute_len b mc hp h ?n tree opt = (h1, tree1, opt1)" "h1 \<le> h" "leaves_down hp mc h1 = drop ?n ?seq" "length tree1 = length tree"
      "\<forall>k. fc (tree1 ! k) = fc (tree ! k)" "\<forall>k. Len tree1 k = (if k \<in> B then b else Len tree k)"
    unfolding B_def by (elim exE conjE)
  have "?N \<le> length (leaves_down hp mc h1)" "h1 \<le> length hp" "\<forall>b \<in> set bs. b < 65536" "distinct bs"
      "C = set (take ?N (leaves_down hp mc h1))" "C \<subseteq> {..<length tree1}" "distinct (take ?N (leaves_down hp mc h1))"
    using Cons.prems r A dist by (auto simp: C_def)
  from Cons.IH [OF this, of opt1] obtain h' tree' opt' where
    r': "recompute_lens bs mc hp blc (h1, tree1, opt1) = (h', tree', opt')" "length tree' = length tree1"
      "\<forall>k. fc (tree' ! k) = fc (tree1 ! k)" "\<forall>k. k \<notin> C \<longrightarrow> Len tree' k = Len tree1 k"
      "\<forall>b. card {k \<in> C. Len tree' k = b} = (if b \<in> set bs then ucnt blc b else 0)" by (elim exE conjE)
  have lB: "Len tree' k = b" if "k \<in> B" for k using that A(2) r(6) r'(4) by auto
  have "card {k \<in> A. Len tree' k = c} = (if c \<in> set (b # bs) then ucnt blc c else 0)" for c
  proof -
    have "{k \<in> A. Len tree' k = c} = (if c = b then B else {}) \<union> {k \<in> C. Len tree' k = c}"
      using A(1) lB by auto
    moreover have "card (\<dots>) = (if c = b then card B else 0) + card {k \<in> C. Len tree' k = c}"
      using A(2) by (subst card_Un_disjoint) (auto simp: B_def C_def)
    ultimately show ?thesis using r'(5) cB Cons.prems(4) by auto
  qed
  moreover have "recompute_lens (b # bs) mc hp blc (h, tree, opt) = (h', tree', opt')"
    using r(1) r'(1) by (simp add: ucnt_def)
  ultimately show ?case using r r' A(1) by auto
qed simp

end
