(* ===== verification/Trees_Gen.thy ===== *)
theory Trees_Gen
  imports Trees_Lengths
begin

text \<open>
  \<open>gen_bitlen\<close> and \<open>build_tree\<close>: the lengths form a complete code of the symbols in use and
  the codes are the canonical ones.
\<close>

section \<open>\<open>gen_bitlen\<close>\<close>

lemma map_nth_drop: "map ((!) xs) [a..<length xs] = drop a xs"
  by (rule nth_equalityI) auto

text \<open>The tree that the pass goes through: leaves \<open>Lv\<close>, inner nodes \<open>I\<close>, the nodes \<open>ns\<close> below the root.\<close>

definition bit_tree :: "nat set \<Rightarrow> nat set \<Rightarrow> nat \<Rightarrow> nat list \<Rightarrow> ct_data list \<Rightarrow> bool" where
  "bit_tree Lv I root ns tree \<longleftrightarrow> finite I \<and> root \<in> I \<and> Lv \<inter> I = {} \<and> set ns = Lv \<union> (I - {root}) \<and> distinct ns \<and>
     parents_first (Len tree) ns \<and> (\<forall>n \<in> set ns. Len tree n \<in> I) \<and> (\<forall>p \<in> I. card {n \<in> set ns. Len tree n = p} = 2) \<and>
     root < length tree \<and> set ns \<subseteq> {..<length tree}"

definition lengths_ok :: "nat set \<Rightarrow> nat \<Rightarrow> ct_data list \<Rightarrow> ush list \<Rightarrow> bool" where
  "lengths_ok Lv M tree blc \<longleftrightarrow> (\<forall>n \<in> Lv. 1 \<le> Len tree n \<and> Len tree n \<le> M) \<and> length blc = 16 \<and>
     (\<forall>b < 16. blc ! b = of_nat (card {n \<in> Lv. Len tree n = b})) \<and> kraft M (\<lambda>b. card {n \<in> Lv. Len tree n = b}) = 2 ^ M"

lemma leaves_down_take:
  assumes "hp = xs @ root # ns" "mc < root" "distinct ns" "\<forall>n \<in> set ns. n \<le> mc \<longleftrightarrow> n \<in> Lv" "Lv \<subseteq> set ns"
  shows "card Lv \<le> length (leaves_down hp mc (length hp))" "set (take (card Lv) (leaves_down hp mc (length hp))) = Lv"
    "distinct (take (card Lv) (leaves_down hp mc (length hp)))"
proof -
  let ?f = "filter (\<lambda>m. m \<le> mc) (rev ns)"
  have f: "set ?f = Lv" "distinct ?f" using assms by auto
  then have c: "card Lv = length ?f" by (metis distinct_card)
  have "leaves_down hp mc (length hp) = ?f @ filter (\<lambda>m. m \<le> mc) (rev xs)"
    using assms(1,2) by (simp add: leaves_down_def)
  with f c show "card Lv \<le> length (leaves_down hp mc (length hp))" "set (take (card Lv) (leaves_down hp mc (length hp))) = Lv"
    "distinct (take (card Lv) (leaves_down hp mc (length hp)))" by simp_all
qed

lemma ncodes_sum_list: "sum_list (map c (rev [1..<M + 1])) = ncodes M c"
proof -
  have "sum_list (map c (rev [1..<M + 1])) = sum c (set (rev [1..<M + 1]))" by (rule sum_list_distinct_conv_sum_set) simp
  also have "set (rev [1..<M + 1]) = {1..M}" by auto
  finally show ?thesis by (simp add: ncodes_def)
qed

lemma card_outside_range:
  assumes "finite A" "\<forall>b. card {k \<in> A. f k = b} = (if b \<in> S then g b else 0)" "n \<in> A"
  shows "f n \<in> S"
proof (rule ccontr)
  assume "f n \<notin> S"
  then have "card {k \<in> A. f k = f n} = 0" using assms(2) by simp
  then have "{k \<in> A. f k = f n} = {}" using assms(1) by simp
  with assms(3) show False by blast
qed

lemma gen_bitlen_spec:
  assumes t: "bit_tree Lv I root ns tree" and fin: "finished s = root # ns" "length (heap s) = HEAP_SIZE"
    and desc: "M = max_length desc" "0 < M" "M < 16" and mc: "\<forall>n \<in> Lv. n \<le> mc" "\<forall>n \<in> I. mc < n"
    and card: "card Lv \<le> 2 ^ M" "card Lv < 60000"
  shows "\<exists>tree' s'. gen_bitlen desc mc tree s = (tree', s') \<and> hframe s' = hframe s \<and> heap s' = heap s \<and> depth s' = depth s \<and>
    length tree' = length tree \<and> (\<forall>k. fc (tree' ! k) = fc (tree ! k)) \<and> (\<forall>k. k \<notin> Lv \<union> I \<longrightarrow> Len tree' k = Len tree k) \<and> lengths_ok Lv M tree' (bl_count s')"
proof -
  have bt: "finite I" "root \<in> I" "Lv \<inter> I = {}" "set ns = Lv \<union> (I - {root})" "distinct ns" "parents_first (Len tree) ns"
      "\<forall>n \<in> set ns. Len tree n \<in> I" "\<forall>p \<in> I. card {n \<in> set ns. Len tree n = p} = 2" "root < length tree" "set ns \<subseteq> {..<length tree}"
    using t unfolding bit_tree_def by blast+
  have finL: "finite Lv" using bt(4) by (metis finite_Un List.finite_set)
  have hm: "heap_max s < HEAP_SIZE"
    using fin by (cases "heap_max s < HEAP_SIZE") (simp_all add: finished_def)
  have root: "heap s ! heap_max s = root" "drop (heap_max s + 1) (heap s) = ns"
    using fin hm Cons_nth_drop_Suc [of "heap_max s" "heap s"] by (simp_all add: finished_def)
  have heap: "heap s = take (heap_max s) (heap s) @ root # ns"
    using append_take_drop_id [of "heap_max s" "heap s", symmetric] fin(1) unfolding finished_def by simp
  let ?s = "s\<lparr>bl_count := replicate (MAX_BITS + 1) 0\<rparr>"
  define tree0 where "tree0 = tree[root := (tree ! root)\<lparr>dl := 0\<rparr>]"
  have len0: "Len tree0 k = (if k = root then 0 else Len tree k)" and fc0: "fc (tree0 ! k) = fc (tree ! k)" for k
    using bt(9) Len_update [of root tree 0 k] by (simp_all add: tree0_def fc_update_dl)
  have nr: "root \<notin> set ns" using bt(2-4) by auto
  have same: "Len tree0 n = Len tree n" if "n \<in> set ns" for n using that nr len0 by auto
  have pf: "parents_first (Len tree0) ns" using bt(6) same by (subst parents_first_cong [of ns "Len tree0" "Len tree"])
  have hs: "ns = map ((!) (heap ?s)) [heap_max s + 1..<HEAP_SIZE]"
    using map_nth_drop [of "heap s" "heap_max s + 1"] root(2) fin(2) by simp
  have pre: "set ns \<subseteq> {..<length tree0}" "length (bl_count ?s) = 16" using bt(10) by (simp_all add: tree0_def MAX_BITS_def)
  obtain tree1 s1 ov where r: "bitlen_pass desc mc [heap_max s + 1..<HEAP_SIZE] tree0 ?s 0 = (tree1, s1, ov)" "same_queue ?s s1"
      "length tree1 = length tree0" "\<forall>k. fc (tree1 ! k) = fc (tree0 ! k)" "\<forall>k. k \<notin> set ns \<longrightarrow> Len tree1 k = Len tree0 k"
      "\<forall>n \<in> set ns. Len tree1 n = min (Len tree1 (Len tree0 n) + 1) M" "ov = 0 + int (card {n \<in> set ns. M \<le> Len tree1 (Len tree0 n)})"
      "length (bl_count s1) = 16" "\<forall>b < 16. bl_count s1 ! b = bl_count ?s ! b + of_nat (card {n \<in> set ns. n \<le> mc \<and> Len tree1 n = b})"
    using bitlen_pass_spec [OF hs bt(5) pre(1) pf desc(1,3) pre(2), of mc 0] by (elim exE conjE)
  have cut: "cut_tree (set ns) I root (Len tree) M (Len tree1)"
    unfolding cut_tree_def using bt finL nr r(5,6) same len0 by auto
  define E where "E = too_deep I M (Len tree1)"
  have N: "set ns - I = Lv" using bt(3,4) by auto
  have ov: "ov = 2 * int E"
  proof -
    have "{n \<in> set ns. M \<le> Len tree1 (Len tree0 n)} = {n \<in> set ns. M \<le> Len tree1 (Len tree n)}" using same by auto
    then show ?thesis using r(7) cut_tree_overflow [OF cut] by (simp add: E_def)
  qed
  have range: "1 \<le> Len tree1 n \<and> Len tree1 n \<le> M" if "n \<in> Lv" for n
    using r(6) that bt(4) desc(2) by (auto simp: Suc_le_eq)
  have K: "kraft M (\<lambda>b. card {n \<in> Lv. Len tree1 n = b}) = 2 ^ M + E"
    using cut_tree_weight [OF cut] kraft_of_set(1) [OF finL range] unfolding N E_def by simp
  have cnt: "bl_count s1 ! b = of_nat (card {n \<in> Lv. Len tree1 n = b})" if "b < 16" for b
  proof -
    have "{n \<in> set ns. n \<le> mc \<and> Len tree1 n = b} = {n \<in> Lv. Len tree1 n = b}" using bt(4) mc by auto
    moreover have "bl_count ?s ! b = 0" using that by (simp add: MAX_BITS_def nth_replicate del: replicate_Suc)
    ultimately show ?thesis using r(9) that by simp
  qed
  have out: "Len tree1 k = Len tree k" if "k \<notin> Lv \<union> I" for k using r(5) that bt(2,4) len0 by auto
  have r1: "bitlen_pass desc mc [Suc (heap_max s)..<HEAP_SIZE] (tree[root := (tree ! root)\<lparr>dl := 0\<rparr>])
      (s\<lparr>bl_count := replicate (Suc MAX_BITS) 0\<rparr>) 0 = (tree1, s1, ov)"
    using r(1) by (simp add: tree0_def del: replicate_Suc)
  show ?thesis
  proof (cases "E = 0")
    case True
    have "gen_bitlen desc mc tree s = (tree1, s1)"
      using ov True by (simp add: gen_bitlen_def Let_def root(1) r1 del: replicate_Suc)
    moreover have "lengths_ok Lv M tree1 (bl_count s1)" using range K True cnt r(8) by (simp add: lengths_ok_def)
    ultimately show ?thesis using r fc0 out by (simp add: tree0_def same_queue_def hframe_def)
  next
    case False
    have cle: "card {n \<in> Lv. Len tree1 n = b} < 60000" for b using card_mono [OF finL, of "{n \<in> Lv. Len tree1 n = b}"] card(2) by auto
    have uc: "ucnt (bl_count s1) b = card {n \<in> Lv. Len tree1 n = b}" if "b < 16" for b
      using cnt [OF that] cle [of b] by (simp add: ucnt_def unat_of_nat take_bit_nat_eq_self)
    have kc: "kraft M (ucnt (bl_count s1)) = kraft M (\<lambda>b. card {n \<in> Lv. Len tree1 n = b})"
      "ncodes M (ucnt (bl_count s1)) = ncodes M (\<lambda>b. card {n \<in> Lv. Len tree1 n = b})"
      unfolding kraft_def ncodes_def using desc(3) by (auto intro!: sum.cong simp: uc)
    have gt: "\<forall>b. M < b \<and> b < 16 \<longrightarrow> bl_count s1 ! b = 0"
    proof (intro allI impI)
      fix b assume b: "M < b \<and> b < 16"
      then have "{n \<in> Lv. Len tree1 n = b} = {}" using range by fastforce
      then have "card {n \<in> Lv. Len tree1 n = b} = 0" by (simp only: card.empty)
      with b cnt [of b] show "bl_count s1 ! b = 0" by simp
    qed
    have z: "card {n \<in> Lv. Len tree1 n = 0} = 0"
    proof -
      have "{n \<in> Lv. Len tree1 n = 0} = {}" using range by fastforce
      then show ?thesis by (simp only: card.empty)
    qed
    have ex: "excess M (card Lv) E (bl_count s1)"
      unfolding excess_def using r(8) K kc kraft_of_set(2) [OF finL range] cut_tree_deepest [OF cut desc(2)] uc [OF desc(3)] cnt [of 0] z gt
      by (simp add: N E_def)
    define blc where "blc = fix_overflow M (bl_count s1) ov"
    have ex': "excess M (card Lv) 0 blc"
      using fix_overflow_excess [OF ex _ desc(3) card] False ov by (simp add: blc_def)
    then have blc: "length blc = 16" "blc ! 0 = 0" "kraft M (ucnt blc) = 2 ^ M" "ncodes M (ucnt blc) = card Lv" by (simp_all add: excess_def)
    have hp: "heap s1 = heap s" "length (heap s1) = HEAP_SIZE" using r(2) fin(2) by (simp_all add: same_queue_def)
    have lv: "\<forall>n \<in> set ns. n \<le> mc \<longleftrightarrow> n \<in> Lv" "Lv \<subseteq> set ns" using bt(4) mc by (auto simp: not_le)
    have "mc < root" using mc(2) bt(2) by blast
    note ld = leaves_down_take [OF heap this bt(5) lv]
    let ?bs = "rev [1..<M + 1]"
    have sl: "sum_list (map (ucnt blc) ?bs) = card Lv" by (simp only: ncodes_sum_list blc(4))
    have "sum_list (map (ucnt blc) ?bs) \<le> length (leaves_down (heap s) mc HEAP_SIZE)" "HEAP_SIZE \<le> length (heap s)"
      "\<forall>b \<in> set ?bs. b < 65536" "distinct ?bs" "Lv = set (take (sum_list (map (ucnt blc) ?bs)) (leaves_down (heap s) mc HEAP_SIZE))"
      "Lv \<subseteq> {..<length tree1}" "distinct (take (sum_list (map (ucnt blc) ?bs)) (leaves_down (heap s) mc HEAP_SIZE))"
      unfolding sl using ld fin(2) desc(3) lv(2) pre(1) r(3) by auto
    from recompute_lens_spec [OF this, of "opt_len s1"] obtain h' tree' opt' where
      q: "recompute_lens ?bs mc (heap s) blc (HEAP_SIZE, tree1, opt_len s1) = (h', tree', opt')" "length tree' = length tree1"
        "\<forall>k. fc (tree' ! k) = fc (tree1 ! k)" "\<forall>k. k \<notin> Lv \<longrightarrow> Len tree' k = Len tree1 k"
        "\<forall>b. card {k \<in> Lv. Len tree' k = b} = (if b \<in> set ?bs then ucnt blc b else 0)" by (elim exE conjE)
    let ?s' = "s1\<lparr>bl_count := blc, opt_len := opt'\<rparr>"
    have eq: "gen_bitlen desc mc tree s = (tree', ?s')"
      using ov False q(1) hp(1)
      by (simp add: gen_bitlen_def Let_def root(1) r1 blc_def desc(1) del: upt_Suc replicate_Suc)
    have range': "1 \<le> Len tree' n \<and> Len tree' n \<le> M" if "n \<in> Lv" for n
      using card_outside_range [OF finL q(5) that] by auto
    have cnt': "card {k \<in> Lv. Len tree' k = b} = ucnt blc b" if "1 \<le> b" "b \<le> M" for b using q(5) that by auto
    have "blc ! b = of_nat (card {n \<in> Lv. Len tree' n = b})" if "b < 16" for b
    proof (cases "1 \<le> b \<and> b \<le> M")
      case False
      then have "blc ! b = 0" using ex' that by (cases "b = 0") (auto simp: excess_def)
      moreover have "{n \<in> Lv. Len tree' n = b} = {}" using False range' by auto
      then have "card {n \<in> Lv. Len tree' n = b} = 0" by (simp only: card.empty)
      ultimately show ?thesis by simp
    qed (simp add: cnt' ucnt_def)
    moreover have "kraft M (\<lambda>b. card {n \<in> Lv. Len tree' n = b}) = 2 ^ M"
      unfolding blc(3) [symmetric] kraft_def using cnt' by (intro sum.cong) auto
    ultimately have "lengths_ok Lv M tree' (bl_count ?s')" using range' blc(1) by (simp add: lengths_ok_def)
    moreover have "hframe ?s' = hframe s" "heap ?s' = heap s" "depth ?s' = depth s" using r(2) by (simp_all add: same_queue_def hframe_def)
    ultimately show ?thesis unfolding eq using q r fc0 out by (simp add: tree0_def)
  qed
qed

section \<open>\<open>build_tree\<close>\<close>

lemma count_list_map_upt: "count_list (map f [0..<n]) l = card {k. k < n \<and> f k = l}"
proof (induction n)
  case (Suc n)
  have "{k. k < Suc n \<and> f k = l} = (if f n = l then insert n {k. k < n \<and> f k = l} else {k. k < n \<and> f k = l})"
    by (auto simp: less_Suc_eq)
  then show ?case using Suc by simp
qed simp

text \<open>The trees are large enough for all inner nodes, and there are enough codes of the maximal length.\<close>

lemma stat_desc_bounds:
  "elems (stat_desc k) \<le> 286" "19 \<le> elems (stat_desc k)" "elems (stat_desc k) \<le> 2 ^ max_length (stat_desc k)"
  "0 < max_length (stat_desc k)" "max_length (stat_desc k) \<le> MAXBITS"
  by (cases k; simp add: L_CODES_def LITERALS_def LENGTH_CODES_def D_CODES_def BL_CODES_def MAX_BITS_def MAX_BL_BITS_def MAXBITS_def)+

lemma lengths_ok_coded:
  assumes ok: "lengths_ok Lv M tree blc" and Lv: "Lv \<subseteq> {..mc}" "\<forall>n \<le> mc. n \<notin> Lv \<longrightarrow> Len tree n = 0"
    and M: "0 < M" "M \<le> MAXBITS" and mc: "mc < length tree" "mc < 60000"
  shows "coded (gen_codes tree mc blc) (tree_lens tree mc)" "complete_code (tree_lens tree mc)" "\<forall>l \<in> set (tree_lens tree mc). l \<le> M"
proof -
  let ?lens = "tree_lens tree mc"
  have o: "\<forall>n \<in> Lv. 1 \<le> Len tree n \<and> Len tree n \<le> M" "\<forall>b < 16. blc ! b = of_nat (card {n \<in> Lv. Len tree n = b})"
      "kraft M (\<lambda>b. card {n \<in> Lv. Len tree n = b}) = 2 ^ M"
    using ok by (simp_all add: lengths_ok_def)
  show le: "\<forall>l \<in> set ?lens. l \<le> M"
  proof -
    have "Len tree n \<le> M" if "n \<le> mc" for n using o(1) Lv(2) that by (cases "n \<in> Lv") auto
    then show ?thesis by (auto simp: tree_lens_def simp del: upt_Suc)
  qed
  have cnt: "count_list ?lens l = card {n \<in> Lv. Len tree n = l}" if "1 \<le> l" for l
  proof -
    have "{k. k < mc + 1 \<and> Len tree k = l} = {n \<in> Lv. Len tree n = l}" using Lv that by (force simp: less_Suc_eq_le)
    then show ?thesis by (simp add: tree_lens_def count_list_map_upt del: upt_Suc)
  qed
  have "kraft M (count_list ?lens) = 2 ^ M" unfolding o(3) [symmetric] kraft_def by (intro sum.cong) (auto simp: cnt)
  from kraft_complete [OF this le M(2,1)] show "complete_code ?lens" .
  have lt: "\<forall>l \<in> set ?lens. l < 16" using le M(2) by (fastforce simp: MAXBITS_def)
  have "card {n \<in> Lv. Len tree n = 0} = 0"
  proof -
    have "{n \<in> Lv. Len tree n = 0} = {}" using o(1) by fastforce
    then show ?thesis by (simp only: card.empty)
  qed
  then have b0: "blc ! 0 = 0" using o(2) by simp
  have bl: "blc ! l = of_nat (count_list ?lens l)" if "1 \<le> l" "l < 16" for l using o(2) that by (simp add: cnt)
  have "length ?lens < 65536" using mc(2) by (simp add: tree_lens_def del: upt_Suc)
  from gen_codes_canonical [OF refl mc(1) lt this b0 bl] lt show "coded (gen_codes tree mc blc) ?lens" by (simp add: coded_def)
qed

lemma tree_lens_gen_codes: "tree_lens (gen_codes tree m blc) mc = tree_lens tree mc"
  by (simp add: tree_lens_def gen_codes_def Len_def assign_codes_dl)

lemma Len_gen_codes: "Len (gen_codes tree m blc) k = Len tree k"
  by (simp add: gen_codes_def Len_def assign_codes_dl)

definition builds :: "trees_state \<Rightarrow> tree_kind \<Rightarrow> ct_data list \<Rightarrow> nat \<Rightarrow> bool" where
  "builds s k tree mc \<longleftrightarrow> length tree = length (dyn_tree k s) \<and> mc < elems (stat_desc k) \<and> coded tree (tree_lens tree mc) \<and>
     complete_code (tree_lens tree mc) \<and> (\<forall>l \<in> set (tree_lens tree mc). l \<le> max_length (stat_desc k)) \<and>
     (\<forall>n \<in> used (dyn_tree k s) (elems (stat_desc k)). n \<le> mc \<and> tree_lens tree mc ! n \<noteq> 0) \<and>
     (\<forall>n. mc < n \<and> n < elems (stat_desc k) \<longrightarrow> Len tree n = 0)"

lemma build_tree_spec:
  assumes heap: "length (heap s) = HEAP_SIZE" and len: "2 * elems (stat_desc k) \<le> length (dyn_tree k s)"
  shows "\<exists>tree mc s'. build_tree s k = set_dyn_tree k tree mc s' \<and> hframe s' = hframe s \<and> length (heap s') = HEAP_SIZE \<and>
    length (depth s') = length (depth s) \<and> builds s k tree mc"
proof -
  define desc where "desc = stat_desc k"
  define E where "E = elems desc"
  define M where "M = max_length desc"
  note b = stat_desc_bounds [of k, folded desc_def E_def M_def]
  have E: "E < HEAP_SIZE" "3 \<le> E" "E < 60000" using b(1,2) by (simp_all add: HEAP_SIZE_def L_CODES_def LITERALS_def LENGTH_CODES_def)
  let ?t = "dyn_tree k s"
  have lt: "2 * E \<le> length ?t" "E \<le> length ?t" using len by (simp_all add: E_def desc_def)
  let ?s0 = "s\<lparr>heap_len := 0, heap_max := HEAP_SIZE\<rparr>"
  have "length (heap ?s0) = HEAP_SIZE" "heap_len ?s0 = 0" using heap by simp_all
  from init_heap_queued [OF this lt(2) E(1)] obtain t1 mc1 s1 where r1: "init_heap [0..<E] ?t (- 1) ?s0 = (t1, mc1, s1)"
      "queued E t1 mc1 s1" "keeps ?s0 s1" "length t1 = length ?t" "\<forall>k. fc (t1 ! k) = fc (?t ! k)" by (elim exE conjE)
  have "E \<le> length t1" using r1(4) lt(2) by simp
  from force_codes_queued [OF r1(2) E(2) this E(1), of "static_tree desc"] obtain t2 mc2 s2 where
    r2: "force_codes (static_tree desc) t1 mc1 s1 = (t2, mc2, s2)" "queued E t2 mc2 s2" "keeps s1 s2" "2 \<le> heap_len s2"
      "length t2 = length t1" "used t1 E \<subseteq> used t2 E" by (elim exE conjE)
  have hl: "heap_len s2 \<le> E" "length (heap s2) = HEAP_SIZE" using r2(2) by (simp_all add: queued_def)
  then have "heap_len s2 < length (heap s2)" "\<forall>n \<in> set (rev [1..<heap_len s2 div 2 + 1]). 1 \<le> n \<and> n \<le> heap_len s2" using E(1) by auto
  from pqdown_fold [OF this, of t2] obtain s3 where
    r3: "heapify t2 s2 = s3" "keeps s2 s3" "heap_len s3 = heap_len s2" "mset (live s3) = mset (live s2)"
    unfolding heapify_def by blast
  have hm: "heap_max s2 = HEAP_SIZE" using r1(3) r2(3) by (simp add: keeps_def)
  define Lv where "Lv = used t2 E"
  note m = queued_merged [OF r2(2) r3(2-4) hm r2(4) E(1), folded Lv_def]
  have Lv: "finite Lv" "Lv \<subseteq> {..<E}" by (auto simp: Lv_def used_def)
  have "2 * card Lv < HEAP_SIZE" "E + card Lv \<le> length t2"
    using m(3) b(1) r1(4) r2(5) lt(1) by (simp_all add: HEAP_SIZE_def L_CODES_def LITERALS_def LENGTH_CODES_def)
  obtain t4 s4 where
    r4: "merge_loop t2 E s3 = (t4, s4)" "merged Lv E t4 (E + card Lv - 1) s4" "hframe s4 = hframe s3" "length t4 = length t2"
      "heap_len s4 = 1" "bl_count s4 = bl_count s3" "length (depth s4) = length (depth s3)" "\<forall>k < E. fc (t4 ! k) = fc (t2 ! k)"
      "\<forall>k < E. k \<notin> Lv \<longrightarrow> Len t4 k = Len t2 k"
    by (rule merge_loop_merged [OF m(1) Lv \<open>2 * card Lv < HEAP_SIZE\<close> \<open>E + card Lv \<le> length t2\<close> E(3)])
  define root where "root = E + card Lv - 2"
  define I where "I = {E..<E + card Lv - 1}"
  note mr = merged_root [OF r4(2,5) Lv m(2), folded root_def]
  let ?s5 = "s4\<lparr>heap := (heap s4)[heap_max s4 - 1 := root], heap_max := heap_max s4 - 1\<rparr>"
  have mg: "length (heap s4) = HEAP_SIZE" "heap_max s4 + 2 * (card Lv - 1) = HEAP_SIZE" "parents_first (Len t4) (finished s4)"
      "\<forall>n \<in> set (finished s4). E \<le> Len t4 n \<and> Len t4 n < E + card Lv - 1"
      "\<forall>p \<in> I. card {n \<in> set (finished s4). Len t4 n = p} = 2"
    using r4(2) m(2) unfolding merged_def I_def by simp_all
  have hmpos: "1 \<le> heap_max s4" "heap_max s4 \<le> HEAP_SIZE"
    using mg(2) \<open>2 * card Lv < HEAP_SIZE\<close> by linarith+
  have fin: "finished ?s5 = root # finished s4" "length (heap ?s5) = HEAP_SIZE"
    using mg(1) hmpos by (simp_all add: finished_def Cons_nth_drop_Suc [symmetric] del: Cons_nth_drop_Suc)
  have "I - {root} = {E..<root}" "root \<in> I" using m(2) by (auto simp: I_def root_def)
  moreover have "Lv \<inter> I = {}" using Lv(2) by (auto simp: I_def)
  moreover have "root < length t4" "I \<subseteq> {..<length t4}" using \<open>E + card Lv \<le> length t2\<close> r4(4) m(2) by (auto simp: root_def I_def)
  moreover have "Lv \<subseteq> {..<length t4}" using Lv(2) lt(2) r1(4) r2(5) r4(4) by auto
  ultimately have bt: "bit_tree Lv I root (finished s4) t4"
    unfolding bit_tree_def mr(3) using mg(3-5) mr(3,4) by (auto simp: I_def root_def)
  have q2: "\<forall>n \<in> Lv. int n \<le> mc2" "mc2 < int E" "\<forall>n < E. n \<notin> Lv \<longrightarrow> Len t2 n = 0"
    using r2(2) unfolding queued_def Lv_def by metis+
  define mc where "mc = nat mc2"
  have mc: "\<forall>n \<in> Lv. n \<le> mc" "mc < E" "\<forall>n \<in> I. mc < n" using q2(1,2) E(2) by (auto simp: mc_def I_def nat_le_iff)
  have cards: "card Lv \<le> 2 ^ M" "card Lv < 60000" using m(3) b(3) E(3) by simp_all
  from gen_bitlen_spec [OF bt fin M_def b(4) _ mc(1,3) cards] b(5) obtain t6 s6 where
    r6: "gen_bitlen desc mc t4 ?s5 = (t6, s6)" "hframe s6 = hframe ?s5" "heap s6 = heap ?s5" "depth s6 = depth ?s5"
      "length t6 = length t4" "\<forall>k. k \<notin> Lv \<union> I \<longrightarrow> Len t6 k = Len t4 k" "lengths_ok Lv M t6 (bl_count s6)"
    by (auto simp: MAXBITS_def)
  have eq: "build_tree s k = set_dyn_tree k (gen_codes t6 mc (bl_count s6)) mc s6"
    using r1(1) r2(1) r3(1) r4(1) r6(1) mr(2)
    by (simp add: build_tree_def Let_def E_def desc_def mc_def)
  have zero: "\<forall>n < E. n \<notin> Lv \<longrightarrow> Len t6 n = 0" using r6(6) r4(9) q2(3) by (auto simp: I_def)
  then have "Lv \<subseteq> {..mc}" "\<forall>n \<le> mc. n \<notin> Lv \<longrightarrow> Len t6 n = 0" using mc by auto
  moreover have "mc < length t6" "mc < 60000" using mc(2) E(3) lt(2) r1(4) r2(5) r4(4) r6(5) by simp_all
  ultimately have code: "coded (gen_codes t6 mc (bl_count s6)) (tree_lens t6 mc)" "complete_code (tree_lens t6 mc)"
      "\<forall>l \<in> set (tree_lens t6 mc). l \<le> M"
    using lengths_ok_coded [OF r6(7) _ _ b(4,5)] by blast+
  have nz: "n \<le> mc \<and> tree_lens t6 mc ! n \<noteq> 0" if "n \<in> used ?t E" for n
  proof -
    have "n \<in> Lv" using that r1(5) r2(6) by (auto simp: Lv_def used_def)
    then have "n \<le> mc" "1 \<le> Len t6 n" using mc(1) r6(7) by (simp_all add: lengths_ok_def)
    then show ?thesis by (simp add: tree_lens_def less_Suc_eq_le del: upt_Suc)
  qed
  have "\<forall>n. mc < n \<and> n < E \<longrightarrow> Len t6 n = 0" using zero mc(1) by (meson leD)
  then have "builds s k (gen_codes t6 mc (bl_count s6)) mc"
    unfolding builds_def tree_lens_gen_codes Len_gen_codes using code nz mc(2) r1(4) r2(5) r4(4) r6(5)
    by (auto simp: E_def M_def desc_def)
  moreover have "hframe s6 = hframe s" "length (heap s6) = HEAP_SIZE" "length (depth s6) = length (depth s)"
    using r1(3) r2(3) r3(2) r4(3,7) r6(2-4) mg(1) by (simp_all add: keeps_def hframe_def)
  ultimately show ?thesis using eq by blast
qed

fun max_code_of :: "tree_kind \<Rightarrow> trees_state \<Rightarrow> nat" where
  "max_code_of LTree s = l_max_code s"
| "max_code_of DTree s = d_max_code s"
| "max_code_of BLTree s = bl_max_code s"

lemma set_dyn_tree_simps: "dyn_tree k (set_dyn_tree k t m s) = t" "max_code_of k (set_dyn_tree k t m s) = m"
  by (cases k; simp)+

text \<open>
  (C3) \<open>build_tree\<close>: whatever the frequencies are, and also when the lengths had to be cut, the
  code lengths form a complete prefix code with no length above the limit of the tree, every
  symbol that occurs has a code, and the codes are the canonical ones, stored bit reversed.
\<close>

theorem build_tree_complete:
  assumes "length (heap s) = HEAP_SIZE" "2 * elems (stat_desc k) \<le> length (dyn_tree k s)"
  shows "let s' = build_tree s k; tree = dyn_tree k s'; mc = max_code_of k s'; lens = tree_lens tree mc in
    mc < elems (stat_desc k) \<and> complete_code lens \<and> (\<forall>l \<in> set lens. l \<le> max_length (stat_desc k)) \<and> tree_canonical tree lens \<and>
    (\<forall>n < elems (stat_desc k). fc (dyn_tree k s ! n) \<noteq> 0 \<longrightarrow> n \<le> mc \<and> Len tree n \<noteq> 0)"
proof -
  obtain tree mc s' where b: "build_tree s k = set_dyn_tree k tree mc s'" "builds s k tree mc"
    using build_tree_spec [OF assms] by blast
  have "n \<le> mc \<and> Len tree n \<noteq> 0" if "n < elems (stat_desc k)" "fc (dyn_tree k s ! n) \<noteq> 0" for n
  proof -
    have "n \<le> mc" "tree_lens tree mc ! n \<noteq> 0" using b(2) that by (auto simp: builds_def used_def)
    then show ?thesis by (simp add: tree_lens_def less_Suc_eq_le del: upt_Suc)
  qed
  with b show ?thesis by (simp add: Let_def set_dyn_tree_simps builds_def coded_def)
qed

theorem build_tree_complete_witness:
  "complete_code (let s' = build_tree \<lparr>pending_buf = [], bi_buf = 0, bi_valid = 0,
     dyn_ltree = [], dyn_dtree = [], bl_tree = replicate 39 \<lparr>fc = 5, dl = 0\<rparr>, l_max_code = 0, d_max_code = 0, bl_max_code = 0,
     bl_count = [], heap = replicate HEAP_SIZE 0, heap_len = 0, heap_max = 0, depth = replicate HEAP_SIZE 0,
     sym_buf = [], sym_next = 0, sym_end = 0, opt_len = 0, static_len = 0, matches = 0, comp_level = 6, strategy = 0, data_type = 2\<rparr> BLTree
   in tree_lens (bl_tree s') (bl_max_code s'))"
  using build_tree_complete [of "\<lparr>pending_buf = [], bi_buf = 0, bi_valid = 0,
     dyn_ltree = [], dyn_dtree = [], bl_tree = replicate 39 \<lparr>fc = 5, dl = 0\<rparr>, l_max_code = 0, d_max_code = 0, bl_max_code = 0,
     bl_count = [], heap = replicate HEAP_SIZE 0, heap_len = 0, heap_max = 0, depth = replicate HEAP_SIZE 0,
     sym_buf = [], sym_next = 0, sym_end = 0, opt_len = 0, static_len = 0, matches = 0, comp_level = 6, strategy = 0, data_type = 2\<rparr>" BLTree]
  by (simp add: Let_def BL_CODES_def del: replicate_Suc)

end
