(* ===== verification/Trees_Send.thy ===== *)
theory Trees_Send
  imports Trees_Gen
begin

text \<open>
  The code lengths in the header of a dynamic block. \<open>scan_tree\<close> and \<open>send_tree\<close> split the
  lengths into the same runs; the first counts the symbols of the runs, the second writes
  them. The header that \<open>send_all_trees\<close> writes is the one of the format.
\<close>

section \<open>Runs\<close>

text \<open>An instruction: a symbol of the bit length code, the number of extra bits and their value.\<close>

type_synonym len_instr = "nat \<times> nat \<times> nat"

definition run_instrs :: "int \<Rightarrow> nat \<Rightarrow> nat \<Rightarrow> nat \<Rightarrow> len_instr list" where
  "run_instrs prevlen curlen cnt min_count =
     (if cnt < min_count then replicate cnt (curlen, 0, 0)
      else if curlen \<noteq> 0
      then if int curlen \<noteq> prevlen then [(curlen, 0, 0), (REP_3_6, 2, cnt - 1 - 3)] else [(REP_3_6, 2, cnt - 3)]
      else if cnt \<le> 10 then [(REPZ_3_10, 3, cnt - 3)] else [(REPZ_11_138, 7, cnt - 11)])"

fun runs :: "ct_data list \<Rightarrow> nat list \<Rightarrow> int \<Rightarrow> nat \<Rightarrow> nat \<Rightarrow> nat \<Rightarrow> nat \<Rightarrow> len_instr list" where
  "runs tree [] prevlen nextlen cnt max_count min_count = []"
| "runs tree (n # ns) prevlen nextlen cnt max_count min_count =
     (let curlen = nextlen; nextlen = Len tree (n + 1); cnt = cnt + 1 in
      if cnt < max_count \<and> curlen = nextlen then runs tree ns prevlen nextlen cnt max_count min_count
      else let (maxc, minc) = run_limits curlen nextlen
        in run_instrs prevlen curlen cnt min_count @ runs tree ns (int curlen) nextlen 0 maxc minc)"

definition tree_runs :: "ct_data list \<Rightarrow> nat \<Rightarrow> len_instr list" where
  "tree_runs tree max_code = (let (maxc, minc) = first_limits (Len tree 0) in runs tree [0..<max_code + 1] (- 1) (Len tree 0) 0 maxc minc)"

definition bump :: "ct_data list \<Rightarrow> len_instr \<Rightarrow> ct_data list" where
  "bump blt i = bump_freq (fst i) 1 blt"

fun send_instr :: "trees_state \<Rightarrow> len_instr \<Rightarrow> trees_state" where
  "send_instr s (c, k, x) = (if k = 0 then send_code s c (bl_tree s) else send_bits (send_code s c (bl_tree s)) x k)"

lemma bump_replicate: "foldl bump blt (replicate k (c, 0, 0)) = bump_freq c k blt"
proof (induction k arbitrary: blt)
  case (Suc k)
  have "bump_freq c k (bump_freq c 1 blt) = bump_freq c (Suc k) blt"
    by (cases "c < length blt") (simp_all add: bump_freq_def ac_simps not_less list_update_beyond)
  with Suc show ?case by (simp add: bump_def)
qed (cases "c < length blt"; simp add: bump_freq_def not_less list_update_beyond)

lemma scan_loop_runs: "scan_loop tree ns prevlen nextlen cnt max_count min_count blt =
    foldl bump blt (runs tree ns prevlen nextlen cnt max_count min_count)"
proof (induction tree ns prevlen nextlen cnt max_count min_count arbitrary: blt rule: runs.induct)
  case (2 tree n ns prevlen nextlen cnt max_count min_count)
  have "(if cnt + 1 < min_count then bump_freq nextlen (cnt + 1) b
         else if nextlen \<noteq> 0 then bump_freq REP_3_6 1 (if int nextlen \<noteq> prevlen then bump_freq nextlen 1 b else b)
         else if cnt + 1 \<le> 10 then bump_freq REPZ_3_10 1 b else bump_freq REPZ_11_138 1 b) =
      foldl bump b (run_instrs prevlen nextlen (cnt + 1) min_count)" for b
    unfolding run_instrs_def by (simp add: bump_replicate bump_def del: replicate_Suc)
  with 2 show ?case by (auto simp: Let_def split: prod.split simp del: One_nat_def)
qed simp

lemma send_codes_replicate: "bl_tree s = blt \<Longrightarrow> send_codes s c k = foldl send_instr s (replicate k (c, 0, 0))"
  by (induction k arbitrary: s) (auto simp: send_code_def send_bits_def Let_def put_short_def put_byte_def)

lemma send_loop_runs: "send_loop tree ns prevlen nextlen cnt max_count min_count s =
    foldl send_instr s (runs tree ns prevlen nextlen cnt max_count min_count)"
proof (induction tree ns prevlen nextlen cnt max_count min_count arbitrary: s rule: runs.induct)
  case (2 tree n ns prevlen nextlen cnt max_count min_count)
  have bl: "bl_tree (send_code s c t) = bl_tree s" for s c t
    by (simp add: send_code_def send_bits_def Let_def put_short_def put_byte_def)
  have "(if cnt + 1 < min_count then send_codes s nextlen (cnt + 1)
         else if nextlen \<noteq> 0
         then let (s, cnt) = (if int nextlen \<noteq> prevlen then (send_code s nextlen (bl_tree s), cnt + 1 - 1) else (s, cnt + 1))
              in send_bits (send_code s REP_3_6 (bl_tree s)) (cnt - 3) 2
         else if cnt + 1 \<le> 10 then send_bits (send_code s REPZ_3_10 (bl_tree s)) (cnt + 1 - 3) 3
         else send_bits (send_code s REPZ_11_138 (bl_tree s)) (cnt + 1 - 11) 7) =
      foldl send_instr s (run_instrs prevlen nextlen (cnt + 1) min_count)" for s
    unfolding run_instrs_def by (simp add: send_codes_replicate [OF refl] bl del: replicate_Suc send_codes.simps)
  with 2 show ?case by (auto simp: Let_def split: prod.split simp del: One_nat_def)
qed simp

lemma bump_freq_other: "fc (bump_freq c k t ! i) = fc (t ! i) + (if i = c \<and> c < length t then of_nat k else 0)"
  by (cases "c < length t") (auto simp: bump_freq_def nth_list_update not_less list_update_beyond)

lemma bump_freq_Len: "Len (bump_freq c k t) i = Len t i" "length (bump_freq c k t) = length t"
  by (cases "c < length t"; auto simp: bump_freq_def Len_def nth_list_update not_less list_update_beyond)+

lemma fold_bump_fc:
  "fc (foldl bump blt is ! c) = fc (blt ! c) + (if c < length blt then of_nat (count_list (map fst is) c) else 0)"
  "length (foldl bump blt is) = length blt" "Len (foldl bump blt is) c = Len blt c"
  by (induction "is" arbitrary: blt)
    (auto simp: bump_def bump_freq_other bump_freq_Len)

section \<open>The runs encode the lengths\<close>

fun instr_bits :: "nat list \<Rightarrow> len_instr \<Rightarrow> bitstring" where
  "instr_bits cl (c, k, x) = canon_bits cl c @ nat_bits k x"

definition instrs_bits :: "nat list \<Rightarrow> len_instr list \<Rightarrow> bitstring" where
  "instrs_bits cl is = concat (map (instr_bits cl) is)"

lemma instrs_bits_simps [simp]:
  "instrs_bits cl [] = []" "instrs_bits cl (i # is) = instr_bits cl i @ instrs_bits cl is"
  "instrs_bits cl (is @ js) = instrs_bits cl is @ instrs_bits cl js"
  by (simp_all add: instrs_bits_def)

definition run_bounds :: "int \<Rightarrow> nat \<Rightarrow> nat \<times> nat" where
  "run_bounds prevlen nextlen = (if nextlen = 0 then (138, 3) else if int nextlen = prevlen then (6, 3) else (7, 4))"

lemma run_bounds_eq: "run_limits curlen nextlen = run_bounds (int curlen) nextlen" "first_limits nextlen = run_bounds (- 1) nextlen"
  by (auto simp: run_limits_def run_bounds_def first_limits_def)

definition coded_instrs :: "nat list \<Rightarrow> len_instr list \<Rightarrow> bool" where
  "coded_instrs cl is \<longleftrightarrow> (\<forall>i \<in> set is. cl ! fst i \<noteq> 0)"

lemma coded_instrs_simps [simp]:
  "coded_instrs cl []" "coded_instrs cl (i # is) \<longleftrightarrow> cl ! fst i \<noteq> 0 \<and> coded_instrs cl is"
  "coded_instrs cl (is @ js) \<longleftrightarrow> coded_instrs cl is \<and> coded_instrs cl js"
  by (auto simp: coded_instrs_def)

lemma replicate_lens_code:
  "v < 16 \<Longrightarrow> coded_instrs cl (replicate k (v, 0, 0)) \<Longrightarrow> lens_code cl (acc @ replicate k v) bs res \<Longrightarrow>
    lens_code cl acc (instrs_bits cl (replicate k (v, 0, 0)) @ bs) res"
proof (induction k arbitrary: acc)
  case (Suc k)
  then have "lens_code cl (acc @ [v]) (instrs_bits cl (replicate k (v, 0, 0)) @ bs) res" by (intro Suc.IH) simp_all
  with Suc.prems lens_len [of v cl acc] show ?case by simp
qed simp

lemma run_lens_code:
  assumes "(maxc, minc) = run_bounds prevlen curlen" "1 \<le> cnt" "cnt \<le> maxc" "curlen < 16"
    and prev: "prevlen = - 1 \<or> acc \<noteq> [] \<and> prevlen = int (last acc)"
    and nz: "coded_instrs cl (run_instrs prevlen curlen cnt minc)"
    and rest: "lens_code cl (acc @ replicate cnt curlen) bs res"
  shows "lens_code cl acc (instrs_bits cl (run_instrs prevlen curlen cnt minc) @ bs) res"
proof -
  note defs = run_instrs_def run_bounds_def REP_3_6_def REPZ_3_10_def REPZ_11_138_def
  have rep: "lens_code cl acc' (canon_bits cl 16 @ nat_bits 2 x @ bs) res"
    if "acc' \<noteq> []" "last acc' = curlen" "cl ! 16 \<noteq> 0" "x < 4" "acc' @ replicate (3 + x) curlen = acc @ replicate cnt curlen" for acc' x
    using lens_rep [of 16 2 3 acc' curlen cl x bs res] that rest by simp
  consider (lit) "cnt < minc" | (zero) "minc \<le> cnt" "curlen = 0" | (new) "minc \<le> cnt" "curlen \<noteq> 0" "int curlen \<noteq> prevlen"
    | (old) "minc \<le> cnt" "curlen \<noteq> 0" "int curlen = prevlen" by linarith
  then show ?thesis
  proof cases
    case lit
    then show ?thesis using replicate_lens_code [OF assms(4) _ rest] nz by (simp add: run_instrs_def)
  next
    case zero
    then have m: "maxc = 138" "minc = 3" using assms(1) by (simp_all add: run_bounds_def)
    show ?thesis
    proof (cases "cnt \<le> 10")
      case True
      have c: "3 + (cnt - 3) = cnt" "cnt - 3 < 2 ^ 3" using zero(1) m True by simp_all
      have "run_instrs prevlen curlen cnt minc = [(17, 3, cnt - 3)]" using zero True m by (simp add: defs)
      then show ?thesis using lens_rep [of 17 3 3 acc 0 cl "cnt - 3" bs res] c rest nz zero(2) by (simp add: run_instrs_def)
    next
      case False
      have c: "11 + (cnt - 11) = cnt" "cnt - 11 < 2 ^ 7" using False assms(3) m by simp_all
      have "run_instrs prevlen curlen cnt minc = [(18, 7, cnt - 11)]" using zero False m by (simp add: defs)
      then show ?thesis using lens_rep [of 18 7 11 acc 0 cl "cnt - 11" bs res] c rest nz zero(2) by (simp add: run_instrs_def)
    qed
  next
    case new
    then have m: "maxc = 7" "minc = 4" using assms(1) by (simp_all add: run_bounds_def)
    have r: "run_instrs prevlen curlen cnt minc = [(curlen, 0, 0), (16, 2, cnt - 4)]" using new m by (simp add: defs)
    have "replicate cnt curlen = curlen # replicate (3 + (cnt - 4)) curlen"
      using new(1) m by (cases cnt) (simp_all flip: replicate_Suc)
    then have "lens_code cl (acc @ [curlen]) (canon_bits cl 16 @ nat_bits 2 (cnt - 4) @ bs) res"
      using nz r assms(3) m by (intro rep) simp_all
    then show ?thesis using lens_len [OF assms(4)] nz unfolding r by simp
  next
    case old
    then have m: "maxc = 6" "minc = 3" using assms(1) by (simp_all add: run_bounds_def)
    have r: "run_instrs prevlen curlen cnt minc = [(16, 2, cnt - 3)]" using old m by (simp add: defs)
    have "3 + (cnt - 3) = cnt" using old m by simp
    then show ?thesis using nz r assms(3) m prev old(3) rep [of acc "cnt - 3"] by auto
  qed
qed

lemma runs_lens_code:
  assumes "n \<le> m" "(maxc, minc) = run_bounds prevlen (Len tree n)" "cnt < maxc" "n = m \<longrightarrow> cnt = 0"
    and "\<forall>k. n \<le> k \<and> k < m \<longrightarrow> Len tree k < 16" "16 \<le> Len tree m"
    and "prevlen = - 1 \<or> acc \<noteq> [] \<and> prevlen = int (last acc)"
    and "coded_instrs cl (runs tree [n..<m] prevlen (Len tree n) cnt maxc minc)"
    and "lens_code cl (acc @ replicate cnt (Len tree n) @ map (Len tree) [n..<m]) bs res"
  shows "lens_code cl acc (instrs_bits cl (runs tree [n..<m] prevlen (Len tree n) cnt maxc minc) @ bs) res"
  using assms
proof (induction "m - n" arbitrary: n prevlen cnt maxc minc acc)
  case (Suc d)
  then have n: "[n..<m] = n # [Suc n..<m]" "n < m" "d = m - Suc n" by (simp_all add: upt_conv_Cons)
  let ?cur = "Len tree n" and ?next = "Len tree (Suc n)"
  have cur: "?cur < 16" using Suc.prems(5) n(2) by simp
  show ?case
  proof (cases "cnt + 1 < maxc \<and> ?cur = ?next")
    case True
    have eq: "runs tree [n..<m] prevlen ?cur cnt maxc minc = runs tree [Suc n..<m] prevlen ?next (cnt + 1) maxc minc"
      unfolding n(1) using True by (simp add: Let_def)
    have "Suc n \<noteq> m" using True cur Suc.prems(6) by auto
    moreover have "acc @ replicate (cnt + 1) ?next @ map (Len tree) [Suc n..<m] = acc @ replicate cnt ?cur @ map (Len tree) [n..<m]"
      using True unfolding n(1) by (simp add: replicate_app_Cons_same)
    ultimately show ?thesis using Suc.hyps(1) [of "Suc n" maxc minc prevlen "cnt + 1" acc] Suc.prems True n unfolding eq by simp
  next
    case False
    obtain maxc' minc' where l: "run_limits ?cur ?next = (maxc', minc')" by fastforce
    have eq: "runs tree [n..<m] prevlen ?cur cnt maxc minc =
        run_instrs prevlen ?cur (cnt + 1) minc @ runs tree [Suc n..<m] (int ?cur) ?next 0 maxc' minc'"
      unfolding n(1) using False l by (auto simp: Let_def)
    have l': "(maxc', minc') = run_bounds (int ?cur) ?next" "0 < maxc'"
      using l by (auto simp: run_bounds_eq run_bounds_def split: if_splits)
    have nz: "coded_instrs cl (run_instrs prevlen ?cur (cnt + 1) minc)"
      "coded_instrs cl (runs tree [Suc n..<m] (int ?cur) ?next 0 maxc' minc')"
      using Suc.prems(8) unfolding eq by simp_all
    let ?acc = "acc @ replicate (cnt + 1) ?cur"
    have "?acc @ replicate 0 ?next @ map (Len tree) [Suc n..<m] = acc @ replicate cnt ?cur @ map (Len tree) [n..<m]"
      unfolding n(1) by (simp add: replicate_app_Cons_same)
    then have r: "lens_code cl ?acc (instrs_bits cl (runs tree [Suc n..<m] (int ?cur) ?next 0 maxc' minc') @ bs) res"
      using Suc.hyps(1) [of "Suc n" maxc' minc' "int ?cur" 0 ?acc] Suc.prems l' nz(2) n by simp
    have "1 \<le> cnt + 1" "cnt + 1 \<le> maxc" using Suc.prems(3) by simp_all
    from run_lens_code [OF Suc.prems(2) this cur Suc.prems(7) nz(1) r] show ?thesis unfolding eq by simp
  qed
qed simp

lemma Len_set_guard: "max_code + 1 < length tree \<Longrightarrow> Len (set_guard max_code tree) k = (if k = max_code + 1 then 0xffff else Len tree k)"
  by (auto simp: set_guard_def Len_def nth_list_update)

lemma tree_lens_set_guard [simp]: "tree_lens (set_guard mc tree) mc = tree_lens tree mc"
proof (cases "mc + 1 < length tree")
  case True
  then show ?thesis by (simp add: tree_lens_def Len_set_guard del: upt_Suc)
qed (simp add: set_guard_def list_update_beyond)

text \<open>The runs of a tree with the guard behind its last code encode its lengths.\<close>

lemma tree_runs_code:
  assumes "max_code + 1 < length tree" "\<forall>l \<in> set (tree_lens tree max_code). l < 16" "coded_instrs cl (tree_runs (set_guard max_code tree) max_code)"
    and "lens_code cl (acc @ tree_lens tree max_code) bs res"
  shows "lens_code cl acc (instrs_bits cl (tree_runs (set_guard max_code tree) max_code) @ bs) res"
proof -
  let ?t = "set_guard max_code tree" and ?m = "max_code + 1"
  obtain maxc minc where l: "first_limits (Len ?t 0) = (maxc, minc)" by fastforce
  have "Len ?t k < 16" if "k < ?m" for k
    using that assms(1,2) by (auto simp: Len_set_guard tree_lens_def simp del: upt_Suc)
  moreover have "16 \<le> Len ?t ?m" using assms(1) by (simp add: Len_set_guard)
  moreover have "map (Len ?t) [0..<?m] = tree_lens tree max_code" by (metis tree_lens_def tree_lens_set_guard)
  moreover have "0 < maxc" using l by (auto simp: first_limits_def split: if_splits)
  ultimately show ?thesis
    using runs_lens_code [of 0 ?m maxc minc "- 1" ?t 0 acc cl bs res] assms(3,4) l
    by (simp add: tree_runs_def run_bounds_eq)
qed

text \<open>A code length that is not zero is written as itself the first time.\<close>

lemma runs_nonzero:
  assumes "n \<le> k" "k < m" "Len tree k \<noteq> 0" "int (Len tree k) \<noteq> prevlen" "Len tree m \<noteq> Len tree k" "\<forall>j. n \<le> j \<and> j < m \<longrightarrow> Len tree j < 16"
  shows "\<exists>i \<in> set (runs tree [n..<m] prevlen (Len tree n) cnt maxc minc). fst i \<in> {1..15}"
  using assms
proof (induction "m - n" arbitrary: n prevlen cnt maxc minc k)
  case (Suc d)
  then have n: "[n..<m] = n # [Suc n..<m]" "n < m" "d = m - Suc n" by (simp_all add: upt_conv_Cons)
  let ?cur = "Len tree n" and ?next = "Len tree (Suc n)"
  have cur: "?cur < 16" using Suc.prems(6) n(2) by simp
  show ?case
  proof (cases "cnt + 1 < maxc \<and> ?cur = ?next")
    case True
    then have eq: "runs tree [n..<m] prevlen ?cur cnt maxc minc = runs tree [Suc n..<m] prevlen ?next (cnt + 1) maxc minc"
      unfolding n(1) by (simp add: Let_def)
    let ?k = "if k = n then Suc n else k"
    have "Len tree ?k = Len tree k" using True by auto
    moreover have "Suc n \<le> ?k" using Suc.prems(1) by auto
    moreover have "?k < m" 
    proof (cases "k = n")
      case k: True
      then have "Suc n \<noteq> m" using Suc.prems(5) True by auto
      then show ?thesis using n(2) k by simp
    qed (use Suc.prems(2) in simp)
    ultimately show ?thesis unfolding eq using Suc.hyps(1) [of "Suc n" ?k prevlen "cnt + 1" maxc minc] Suc.prems n(3) by auto
  next
    case False
    obtain maxc' minc' where l: "run_limits ?cur ?next = (maxc', minc')" by fastforce
    have eq: "runs tree [n..<m] prevlen ?cur cnt maxc minc =
        run_instrs prevlen ?cur (cnt + 1) minc @ runs tree [Suc n..<m] (int ?cur) ?next 0 maxc' minc'"
      unfolding n(1) using False l by (auto simp: Let_def)
    show ?thesis
    proof (cases "?cur \<noteq> 0 \<and> int ?cur \<noteq> prevlen")
      case True
      then have i: "(?cur, 0, 0) \<in> set (run_instrs prevlen ?cur (cnt + 1) minc)" by (auto simp: run_instrs_def)
      have "fst (?cur, 0 :: nat, 0 :: nat) \<in> {1..15}" using True cur by simp
      with i show ?thesis unfolding eq set_append by blast
    next
      case False
      then have "k \<noteq> n" "int (Len tree k) \<noteq> int ?cur" using Suc.prems by auto
      then show ?thesis unfolding eq
        using Suc.hyps(1) [of "Suc n" k "int ?cur" 0 maxc' minc'] Suc.prems n by auto
    qed
  qed
qed simp

section \<open>Writing the runs\<close>

text \<open>The operands of an instruction are in range.\<close>

fun instr_ok :: "len_instr \<Rightarrow> bool" where
  "instr_ok (c, k, x) \<longleftrightarrow> c < 19 \<and> k \<le> 7 \<and> x < 2 ^ k"

lemma run_instrs_ok:
  assumes "(maxc, minc) = run_bounds prevlen curlen" "cnt \<le> maxc" "curlen < 16" "i \<in> set (run_instrs prevlen curlen cnt minc)"
  shows "instr_ok i"
  using assms by (auto simp: run_instrs_def run_bounds_def REP_3_6_def REPZ_3_10_def REPZ_11_138_def split: if_splits)

lemma runs_ok:
  assumes "(maxc, minc) = run_bounds prevlen nextlen" "cnt < maxc" "nextlen < 16 \<or> ns = []" "\<forall>n \<in> set (tl ns). Len tree n < 16"
    "ns = [n..<m]" "i \<in> set (runs tree ns prevlen nextlen cnt maxc minc)"
  shows "instr_ok i"
  using assms
proof (induction tree ns prevlen nextlen cnt maxc minc arbitrary: n rule: runs.induct)
  case (2 tree n' ns prevlen nextlen cnt maxc minc)
  have n: "n' = n" "ns = [Suc n..<m]" using "2.prems"(5) [symmetric] by (auto simp: upt_eq_Cons_conv)
  let ?next = "Len tree (n' + 1)"
  have nx: "?next < 16 \<or> ns = []" "\<forall>k \<in> set (tl ns). Len tree k < 16"
    using "2.prems"(4) n by (cases "Suc n < m"; simp add: upt_conv_Cons)+
  show ?case
  proof (cases "cnt + 1 < maxc \<and> nextlen = ?next")
    case True
    then show ?thesis using "2.IH"(1) [OF refl refl refl True _ _ nx n(2)] "2.prems"(1,6) by (simp add: Let_def)
  next
    case False
    obtain maxc' minc' where l: "run_limits nextlen ?next = (maxc', minc')" by fastforce
    then have l': "(maxc', minc') = run_bounds (int nextlen) ?next" "0 < maxc'"
      by (auto simp: run_bounds_eq run_bounds_def split: if_splits)
    have "i \<in> set (run_instrs prevlen nextlen (cnt + 1) minc) \<or> i \<in> set (runs tree ns (int nextlen) ?next 0 maxc' minc')"
      using "2.prems"(6) False l by (auto simp: Let_def split: if_splits)
    then show ?thesis
    proof
      assume "i \<in> set (run_instrs prevlen nextlen (cnt + 1) minc)"
      then show ?thesis using run_instrs_ok "2.prems"(1-3) by (metis Suc_eq_plus1 Suc_leI list.distinct(1))
    next
      assume "i \<in> set (runs tree ns (int nextlen) ?next 0 maxc' minc')"
      then show ?thesis using "2.IH"(2) [OF refl refl refl False l [symmetric] refl l' nx n(2)] by simp
    qed
  qed
qed simp

lemma runs_length: "length (runs tree ns prevlen nextlen cnt maxc minc) \<le> 2 * (cnt + length ns)"
proof (induction tree ns prevlen nextlen cnt maxc minc rule: runs.induct)
  case (2 tree n ns prevlen nextlen cnt maxc minc)
  have r: "length (run_instrs prevlen nextlen (cnt + 1) minc) \<le> 2 * (cnt + 1)" by (simp add: run_instrs_def)
  obtain maxc' minc' where l: "run_limits nextlen (Len tree (n + 1)) = (maxc', minc')" by fastforce
  show ?case
  proof (cases "cnt + 1 < maxc \<and> nextlen = Len tree (n + 1)")
    case True
    then show ?thesis using "2.IH"(1) [OF refl refl refl True] by (simp add: Let_def)
  next
    case False
    have eq: "runs tree (n # ns) prevlen nextlen cnt maxc minc =
        run_instrs prevlen nextlen (cnt + 1) minc @ runs tree ns (int nextlen) (Len tree (n + 1)) 0 maxc' minc'"
      using False l by (auto simp: Let_def)
    show ?thesis unfolding eq using r "2.IH"(2) [OF refl refl refl False l [symmetric] refl] by simp
  qed
qed simp

lemma tree_runs_ok:
  assumes "max_code + 1 < length tree" "\<forall>l \<in> set (tree_lens tree max_code). l < 16"
  shows "\<forall>i \<in> set (tree_runs (set_guard max_code tree) max_code). instr_ok i"
    "length (tree_runs (set_guard max_code tree) max_code) \<le> 2 * (max_code + 1)"
proof -
  let ?t = "set_guard max_code tree"
  obtain maxc minc where l: "first_limits (Len ?t 0) = (maxc, minc)" by fastforce
  have t: "tree_runs ?t max_code = runs ?t [0..<max_code + 1] (- 1) (Len ?t 0) 0 maxc minc" by (simp add: tree_runs_def l del: upt_Suc)
  have len: "Len ?t k < 16" if "k < max_code + 1" for k
    using that assms by (auto simp: Len_set_guard tree_lens_def simp del: upt_Suc)
  have "[0..<max_code + 1] = 0 # [1..<max_code + 1]" by (simp add: upt_conv_Cons del: upt_Suc)
  then have tl: "\<forall>n \<in> set (tl [0..<max_code + 1]). Len ?t n < 16" using len by auto
  have "(maxc, minc) = run_bounds (- 1) (Len ?t 0)" "0 < maxc" using l by (auto simp: run_bounds_eq run_bounds_def split: if_splits)
  from runs_ok [OF this _ tl refl] len [of 0] show "\<forall>i \<in> set (tree_runs ?t max_code). instr_ok i" unfolding t by auto
  show "length (tree_runs ?t max_code) \<le> 2 * (max_code + 1)" unfolding t using runs_length [of ?t "[0..<max_code + 1]" "- 1" "Len ?t 0" 0 maxc minc] by (simp del: upt_Suc)
qed

lemma send_instrs_written:
  assumes "bi_wf s" "coded (bl_tree s) cl" "length cl = 19" "coded_instrs cl is" "\<forall>i \<in> set is. instr_ok i"
  shows "writes s (foldl send_instr s is) (instrs_bits cl is)"
  using assms
proof (induction "is" arbitrary: s)
  case (Cons i "is")
  obtain c k x where i: "i = (c, k, x)" by (cases i)
  have c: "c < length cl" "cl ! c \<noteq> 0" "k \<le> 16" "x < 2 ^ k" using Cons.prems(3-5) by (auto simp: i)
  let ?s1 = "send_code s c (bl_tree s)"
  have w1: "writes s ?s1 (canon_bits cl c)" by (rule writes_send_code [OF Cons.prems(1,2) c(1,2)])
  have "writes s (send_instr s i) (instr_bits cl i)"
    using writes_trans [OF w1 send_extra [OF writes_wf [OF w1] c(4,3)]] by (auto simp: i)
  moreover from this have "writes (send_instr s i) (foldl send_instr (send_instr s i) is) (instrs_bits cl is)"
    using Cons writes_wf writes_fields(3) by (intro Cons.IH) auto
  ultimately show ?case using writes_trans by fastforce
qed (simp add: writes_refl)

lemma send_tree_runs: "send_tree tree mc s = foldl send_instr s (tree_runs tree mc)"
  by (auto simp: send_tree_def tree_runs_def send_loop_runs Let_def split: prod.split)

lemma scan_tree_runs: "scan_tree tree mc blt = foldl bump blt (tree_runs (set_guard mc tree) mc)"
proof -
  have "Len (set_guard mc tree) 0 = Len tree 0"
    by (cases "mc + 1 < length tree") (simp add: Len_set_guard, simp add: set_guard_def list_update_beyond)
  then show ?thesis by (auto simp: scan_tree_def tree_runs_def scan_loop_runs Let_def split: prod.split)
qed

end
