(* ===== verification/Trees_Flush.thy ===== *)
theory Trees_Flush
  imports Trees_Send
begin

text \<open>
  The header of a dynamic block, and \<open>tr_flush_block\<close>: whichever encoding it chooses, what it
  writes is a block that stands for the symbols tallied since the last one.
\<close>

section \<open>Unused codes at the end\<close>

lemma first_code_cong: "(\<And>l. 1 \<le> l \<Longrightarrow> c l = c' l) \<Longrightarrow> first_code c n = first_code c' n"
  by (induction n) auto

lemma pad_zeros:
  assumes "coded tree lens" "length lens + j \<le> length tree" "\<And>k. length lens \<le> k \<Longrightarrow> k < length lens + j \<Longrightarrow> Len tree k = 0"
  shows "coded tree (lens @ replicate j 0)"
proof -
  let ?l = "lens @ replicate j 0"
  have c: "count_list ?l l = count_list lens l" if "1 \<le> l" for l using that by simp
  have f: "first_code (count_list ?l) n = first_code (count_list lens) n" for n using c by (rule first_code_cong)
  have "canon_code ?l k = canon_code lens k" if "k < length lens" for k
    using that by (simp add: canon_code_def f rank_def nth_append)
  then show ?thesis using assms by (auto simp: coded_def tree_canonical_def nth_append)
qed

lemma pad_zeros_complete: "complete_code lens \<Longrightarrow> complete_code (lens @ replicate j 0)"
proof -
  assume a: "complete_code lens"
  have c: "count_list (lens @ replicate j 0) l = count_list lens l" if "1 \<le> l" for l using that by simp
  have "first_code (count_list (lens @ replicate j 0)) n = first_code (count_list lens) n" for n using c by (rule first_code_cong)
  with a c show ?thesis by (simp add: complete_code_def fits_def codes_left_def MAXBITS_def)
qed

section \<open>The bit length tree\<close>

definition bl_lens :: "trees_state \<Rightarrow> nat list" where
  "bl_lens s = map (Len (bl_tree s)) [0..<19]"

lemma builds_bl:
  assumes "builds s BLTree tree mc" "38 \<le> length (bl_tree s)" "cl = map (Len tree) [0..<19]"
  shows "coded tree cl" "complete_code cl" "\<forall>l \<in> set cl. l < 8" "length cl = 19" "\<And>c. c \<in> used (bl_tree s) 19 \<Longrightarrow> cl ! c \<noteq> 0"
proof -
  have b: "length tree = length (bl_tree s)" "mc < 19" "coded tree (tree_lens tree mc)" "complete_code (tree_lens tree mc)"
      "\<forall>l \<in> set (tree_lens tree mc). l \<le> 7" "\<forall>n \<in> used (bl_tree s) 19. n \<le> mc \<and> tree_lens tree mc ! n \<noteq> 0"
      "\<forall>n. mc < n \<and> n < 19 \<longrightarrow> Len tree n = 0"
    using assms(1) by (simp_all add: builds_def BL_CODES_def MAX_BL_BITS_def)
  have cl: "cl = tree_lens tree mc @ replicate (18 - mc) 0"
    by (rule nth_equalityI) (use b(2,7) in \<open>auto simp: assms(3) tree_lens_def nth_append not_less less_Suc_eq_le simp del: upt_Suc upt_rec_numeral\<close>)
  have l: "length (tree_lens tree mc) = mc + 1" by (simp add: tree_lens_def)
  show "coded tree cl" unfolding cl using b l assms(2) by (intro pad_zeros) auto
  show "complete_code cl" unfolding cl by (rule pad_zeros_complete) (rule b(4))
  show "\<forall>l \<in> set cl. l < 8" unfolding cl using b(5) by fastforce
  show "length cl = 19" by (simp add: assms(3))
  show "cl ! c \<noteq> 0" if "c \<in> used (bl_tree s) 19" for c
    using b(6) that l unfolding cl by (auto simp: nth_append)
qed

lemma last_blindex_spec:
  assumes "m < 19" "3 \<le> k" "k \<le> m" "Len blt (bl_order ! k) \<noteq> 0"
  shows "k \<le> last_blindex blt m \<and> last_blindex blt m \<le> m \<and>
    (\<forall>i. last_blindex blt m < i \<and> i \<le> m \<longrightarrow> Len blt (bl_order ! i) = 0)"
  using assms
proof (induction m)
  case (Suc m)
  show ?case
  proof (cases "Suc m < 3 \<or> Len blt (bl_order ! Suc m) \<noteq> 0")
    case True
    then show ?thesis using Suc.prems by auto
  next
    case False
    then have "k \<noteq> Suc m" using Suc.prems by auto
    then show ?thesis using Suc False by (auto simp: le_Suc_eq)
  qed
qed simp

lemma bl_order_eq: "bl_order = order"
  by (simp add: bl_order_def order_def)

lemma literal_length_rank: "c \<in> {1..15} \<Longrightarrow> \<exists>k. 3 \<le> k \<and> k \<le> 18 \<and> bl_order ! k = c"
proof -
  assume c: "c \<in> {1..15}"
  have "list_all (\<lambda>c. list_ex (\<lambda>k. bl_order ! k = c) [3..<19]) [1..<16]" by code_simp
  then have "\<forall>c. 1 \<le> c \<and> c < 16 \<longrightarrow> (\<exists>k. 3 \<le> k \<and> k < 19 \<and> bl_order ! k = c)"
    unfolding list_all_iff list_ex_iff set_upt by (metis atLeastLessThan_iff)
  from this [rule_format, of c] c obtain k where "3 \<le> k" "k < 19" "bl_order ! k = c" by auto
  then show ?thesis by (intro exI [of _ k]) simp
qed

section \<open>The header\<close>

text \<open>A tree \<open>t\<close> with its guard, the lengths \<open>lens\<close> of its codes, and the runs that \<open>send_tree\<close> writes.\<close>

definition guarded :: "ct_data list \<Rightarrow> nat \<Rightarrow> ct_data list \<Rightarrow> nat list \<Rightarrow> bool" where
  "guarded t mc t0 lens \<longleftrightarrow> t = set_guard mc t0 \<and> mc + 1 < length t0 \<and> lens = tree_lens t0 mc \<and> coded t0 lens \<and> complete_code lens"

lemma guardedD:
  assumes "guarded t mc t0 lens"
  shows "length lens = mc + 1" "coded t lens" "acceptable lens" "\<forall>l \<in> set (tree_lens t0 mc). l < 16"
    "\<forall>i \<in> set (tree_runs t mc). instr_ok i" "length (tree_runs t mc) \<le> 2 * (mc + 1)"
proof -
  have g: "t = set_guard mc t0" "mc + 1 < length t0" "lens = tree_lens t0 mc" "coded t0 lens" "complete_code lens"
    using assms unfolding guarded_def by blast+
  show l: "length lens = mc + 1" by (simp add: g(3) tree_lens_def)
  show c: "\<forall>l \<in> set (tree_lens t0 mc). l < 16" using g(3,4) by (simp add: coded_def)
  have "Len t k = Len t0 k \<and> fc (t ! k) = fc (t0 ! k)" if "k < mc + 1" for k
    using that g(2) by (simp add: g(1) Len_set_guard) (simp add: set_guard_def)
  then show "coded t lens" using g(2,4) l by (simp add: coded_def tree_canonical_def) (simp add: g(1) set_guard_def)
  show "acceptable lens" using g(5) by (simp add: acceptable_def)
  show "\<forall>i \<in> set (tree_runs t mc). instr_ok i" "length (tree_runs t mc) \<le> 2 * (mc + 1)"
    unfolding g(1) by (rule tree_runs_ok [OF g(2) c])+
qed

lemma guarded_lens_code:
  assumes "guarded t mc t0 lens" "coded_instrs cl (tree_runs t mc)" "lens_code cl (acc @ lens) bs res"
  shows "lens_code cl acc (instrs_bits cl (tree_runs t mc) @ bs) res"
  using assms guardedD(4) [OF assms(1)] tree_runs_code [of mc t0 cl acc bs res] by (simp add: guarded_def)

definition header_ready :: "trees_state \<Rightarrow> ct_data list \<Rightarrow> ct_data list \<Rightarrow> nat list \<Rightarrow> nat list \<Rightarrow> nat \<Rightarrow> bool" where
  "header_ready s lt dt ll dd m \<longleftrightarrow>
     guarded (dyn_ltree s) (l_max_code s) lt ll \<and> 256 \<le> l_max_code s \<and> l_max_code s < L_CODES \<and> ll ! 256 \<noteq> 0 \<and>
     guarded (dyn_dtree s) (d_max_code s) dt dd \<and> d_max_code s < D_CODES \<and>
     coded (bl_tree s) (bl_lens s) \<and> complete_code (bl_lens s) \<and> (\<forall>l \<in> set (bl_lens s). l < 8) \<and>
     coded_instrs (bl_lens s) (tree_runs (dyn_ltree s) (l_max_code s) @ tree_runs (dyn_dtree s) (d_max_code s)) \<and>
     3 \<le> m \<and> m \<le> 18 \<and> (\<forall>i. m < i \<and> i < 19 \<longrightarrow> bl_lens s ! (order ! i) = 0)"

lemma bl_lens_writes: "writes s s' bs \<Longrightarrow> bl_lens s' = bl_lens s"
  using writes_fields(3) [of s s' bs] by (simp add: bl_lens_def)

lemma order_lt: "i < 19 \<Longrightarrow> order ! i < 19"
proof -
  assume "i < 19"
  moreover have "list_all (\<lambda>i. order ! i < 19) [0..<19]" by code_simp
  ultimately show ?thesis by (simp add: list_all_iff del: upt_rec_numeral)
qed

lemma send_lens_written:
  assumes "bi_wf s" "\<forall>l \<in> set (bl_lens s). l < 8" "\<forall>r \<in> set rs. r < 19"
  shows "writes s (foldl (\<lambda>s rank. send_bits s (Len (bl_tree s) (bl_order ! rank)) 3) s rs)
    (concat (map (\<lambda>i. nat_bits 3 (bl_lens s ! (order ! i))) rs))"
  using assms
proof (induction rs arbitrary: s)
  case (Cons r rs)
  have r: "order ! r < 19" using Cons.prems(3) by (simp add: order_lt)
  then have l: "bl_lens s ! (order ! r) = Len (bl_tree s) (order ! r)" "bl_lens s ! (order ! r) < 2 ^ 3"
    using Cons.prems(2) nth_mem [of "order ! r" "bl_lens s"] by (simp_all add: bl_lens_def del: upt_rec_numeral)
  let ?s1 = "send_bits s (Len (bl_tree s) (order ! r)) 3"
  have w1: "writes s ?s1 (nat_bits 3 (bl_lens s ! (order ! r)))"
    using writes_send_bits [of s 3 "Len (bl_tree s) (order ! r)"] l Cons.prems(1) by simp
  have "writes ?s1 (foldl (\<lambda>s rank. send_bits s (Len (bl_tree s) (bl_order ! rank)) 3) ?s1 rs)
    (concat (map (\<lambda>i. nat_bits 3 (bl_lens s ! (order ! i))) rs))"
    using Cons.IH [of ?s1] Cons.prems bl_lens_writes [OF w1] writes_wf [OF w1] by simp
  from writes_trans [OF w1 this] show ?case by (simp add: bl_order_eq)
qed (simp add: writes_refl)

lemma send_all_trees_written:
  assumes "bi_wf s" "header_ready s lt dt ll dd m"
  shows "\<exists>hs. dyn_header hs ll dd \<and> writes s (send_all_trees s (l_max_code s + 1) (d_max_code s + 1) (m + 1)) hs"
proof -
  let ?cl = "bl_lens s"
  have h: "guarded (dyn_ltree s) (l_max_code s) lt ll" "256 \<le> l_max_code s" "l_max_code s < L_CODES" "ll ! 256 \<noteq> 0"
      "guarded (dyn_dtree s) (d_max_code s) dt dd" "d_max_code s < D_CODES" "coded (bl_tree s) ?cl" "complete_code ?cl" "\<forall>l \<in> set ?cl. l < 8"
      "coded_instrs ?cl (tree_runs (dyn_ltree s) (l_max_code s))" "coded_instrs ?cl (tree_runs (dyn_dtree s) (d_max_code s))"
      "3 \<le> m" "m \<le> 18" "\<forall>i. m < i \<and> i < 19 \<longrightarrow> ?cl ! (order ! i) = 0"
    using assms(2) by (simp_all add: header_ready_def)
  note gl = guardedD [OF h(1)] and gd = guardedD [OF h(5)]
  have len: "length ll = l_max_code s + 1" "length dd = d_max_code s + 1" "length ?cl = 19"
    using gl(1) gd(1) by (simp_all add: bl_lens_def del: upt_rec_numeral)
  have bnd: "l_max_code s < 286" "d_max_code s < 30" using h(3,6) by (simp_all add: L_CODES_def LITERALS_def LENGTH_CODES_def D_CODES_def)
  define s1 where "s1 = send_bits s (l_max_code s + 1 - 257) 5"
  define s2 where "s2 = send_bits s1 (d_max_code s + 1 - 1) 5"
  define s3 where "s3 = send_bits s2 (m + 1 - 4) 4"
  define s4 where "s4 = foldl (\<lambda>s rank. send_bits s (Len (bl_tree s) (bl_order ! rank)) 3) s3 [0..<m + 1]"
  define s5 where "s5 = send_tree (dyn_ltree s4) (l_max_code s + 1 - 1) s4"
  define s6 where "s6 = send_tree (dyn_dtree s5) (d_max_code s + 1 - 1) s5"
  have w1: "writes s s1 (nat_bits 5 (length ll - 257))" unfolding s1_def len(1) using bnd assms(1) by (intro writes_send_bits) simp_all
  have w2: "writes s1 s2 (nat_bits 5 (length dd - 1))" unfolding s2_def len(2) using bnd by (intro writes_send_bits writes_wf [OF w1]) simp_all
  have w3: "writes s2 s3 (nat_bits 4 (m + 1 - 4))" unfolding s3_def using h(13) by (intro writes_send_bits writes_wf [OF w2]) simp_all
  note w13 = writes_trans [OF w1 writes_trans [OF w2 w3]]
  have w4: "writes s3 s4 (concat (map (\<lambda>i. nat_bits 3 (?cl ! (order ! i))) [0..<m + 1]))"
    using send_lens_written [OF writes_wf [OF w3], of "[0..<m + 1]"] h(9,13) bl_lens_writes [OF w13] unfolding s4_def by simp
  note w14 = writes_trans [OF w13 w4]
  have w5: "writes s4 s5 (instrs_bits ?cl (tree_runs (dyn_ltree s) (l_max_code s)))"
    unfolding s5_def send_tree_runs using writes_fields [OF w14] writes_wf [OF w14] h(7,10) len(3) gl(5)
    by (simp add: send_instrs_written)
  note w15 = writes_trans [OF w14 w5]
  have w6: "writes s5 s6 (instrs_bits ?cl (tree_runs (dyn_dtree s) (d_max_code s)))"
    unfolding s6_def send_tree_runs using writes_fields [OF w15] writes_wf [OF w15] h(7,11) len(3) gd(5)
    by (simp add: send_instrs_written)
  have "lens_code ?cl ([] @ ll) (instrs_bits ?cl (tree_runs (dyn_dtree s) (d_max_code s)) @ []) (([] @ ll) @ dd)"
    by (rule guarded_lens_code [OF h(5,11) lens_end])
  from guarded_lens_code [OF h(1,10) this]
  have lc: "lens_code ?cl [] (instrs_bits ?cl (tree_runs (dyn_ltree s) (l_max_code s)) @ instrs_bits ?cl (tree_runs (dyn_dtree s) (d_max_code s))) (ll @ dd)"
    by simp
  have "dyn_header (nat_bits 5 (length ll - 257) @ nat_bits 5 (length dd - 1) @ nat_bits 4 (m + 1 - 4) @
      concat (map (\<lambda>i. nat_bits 3 (?cl ! (order ! i))) [0..<m + 1]) @
      instrs_bits ?cl (tree_runs (dyn_ltree s) (l_max_code s)) @ instrs_bits ?cl (tree_runs (dyn_dtree s) (d_max_code s))) ll dd"
    by (rule dyn_header.intros) (use h gl(3) gd(3) len bnd lc in \<open>auto simp: MAXLCODES_def MAXDCODES_def simp del: upt_Suc\<close>)
  moreover have "send_all_trees s (l_max_code s + 1) (d_max_code s + 1) (m + 1) = s6"
    by (simp only: send_all_trees_def Let_def s1_def s2_def s3_def s4_def s5_def s6_def)
  ultimately show ?thesis using writes_trans [OF w15 w6] by (intro exI conjI) (assumption, simp del: upt_Suc)
qed

section \<open>Building all trees\<close>

text \<open>The sizes of the arrays that \<open>deflate.h\<close> declares.\<close>

definition sizes_ok :: "trees_state \<Rightarrow> bool" where
  "sizes_ok s \<longleftrightarrow> length (dyn_ltree s) = HEAP_SIZE \<and> length (dyn_dtree s) = 2 * D_CODES + 1 \<and>
     length (bl_tree s) = 2 * BL_CODES + 1 \<and> length (heap s) = HEAP_SIZE"

text \<open>What building the trees leaves alone.\<close>

definition same_io :: "trees_state \<Rightarrow> trees_state \<Rightarrow> bool" where
  "same_io s s' \<longleftrightarrow> pending_buf s' = pending_buf s \<and> bi_buf s' = bi_buf s \<and> bi_valid s' = bi_valid s \<and> sym_buf s' = sym_buf s \<and>
     sym_next s' = sym_next s \<and> sym_end s' = sym_end s \<and> comp_level s' = comp_level s \<and> strategy s' = strategy s"

lemma same_io_refl [simp]: "same_io s s"
  by (simp add: same_io_def)

lemma same_io_trans: "same_io s s1 \<Longrightarrow> same_io s1 s2 \<Longrightarrow> same_io s s2"
  by (simp add: same_io_def)

lemma same_io_bits: "same_io s s' \<Longrightarrow> bits_written s' = bits_written s \<and> bi_wf s' = bi_wf s"
  by (simp add: same_io_def bits_written_def bi_wf_def)

lemma hframe_eqD:
  assumes "hframe s' = hframe s"
  shows "same_io s s' \<and> dyn_ltree s' = dyn_ltree s \<and> dyn_dtree s' = dyn_dtree s \<and> bl_tree s' = bl_tree s \<and>
    l_max_code s' = l_max_code s \<and> d_max_code s' = d_max_code s"
  using assms by (cases s; cases s'; simp add: hframe_def same_io_def)

lemmas code_sizes = L_CODES_def LITERALS_def LENGTH_CODES_def D_CODES_def BL_CODES_def HEAP_SIZE_def

lemma build_ltree:
  assumes "sizes_ok s"
  shows "let s' = build_tree s LTree in builds s LTree (dyn_ltree s') (l_max_code s') \<and> sizes_ok s' \<and> same_io s s' \<and>
    dyn_dtree s' = dyn_dtree s \<and> bl_tree s' = bl_tree s"
  using build_tree_spec [of s LTree] assms
  by (auto simp: sizes_ok_def code_sizes same_io_def Let_def builds_def dest!: hframe_eqD)

lemma build_dtree:
  assumes "sizes_ok s"
  shows "let s' = build_tree s DTree in builds s DTree (dyn_dtree s') (d_max_code s') \<and> sizes_ok s' \<and> same_io s s' \<and>
    dyn_ltree s' = dyn_ltree s \<and> bl_tree s' = bl_tree s \<and> l_max_code s' = l_max_code s"
  using build_tree_spec [of s DTree] assms
  by (auto simp: sizes_ok_def code_sizes same_io_def Let_def builds_def dest!: hframe_eqD)

lemma build_bltree:
  assumes "sizes_ok s"
  shows "let s' = build_tree s BLTree in (\<exists>mc. builds s BLTree (bl_tree s') mc) \<and> sizes_ok s' \<and> same_io s s' \<and>
    dyn_ltree s' = dyn_ltree s \<and> dyn_dtree s' = dyn_dtree s \<and> l_max_code s' = l_max_code s \<and> d_max_code s' = d_max_code s"
  using build_tree_spec [of s BLTree] assms
  by (auto simp: sizes_ok_def code_sizes same_io_def Let_def builds_def dest!: hframe_eqD)

text \<open>Before a block is written: the counts of the symbols are not zero, those of the bit lengths are.\<close>

definition counted :: "trees_state \<Rightarrow> bool" where
  "counted s \<longleftrightarrow> fc (dyn_ltree s ! END_BLOCK) \<noteq> 0 \<and> (\<forall>c < BL_CODES. fc (bl_tree s ! c) = 0)"

lemma builds_guarded:
  assumes "builds s k t mc" "mc + 1 < length t"
  shows "guarded (set_guard mc t) mc t (tree_lens t mc)"
  using assms by (simp add: builds_def guarded_def)

lemma nth_tree_lens: "k \<le> mc \<Longrightarrow> tree_lens t mc ! k = Len t k"
  by (simp add: tree_lens_def del: upt_Suc)

lemma of_nat_ush_nonzero: "n \<noteq> 0 \<Longrightarrow> n < 65536 \<Longrightarrow> (of_nat n :: ush) \<noteq> 0"
proof -
  assume "n \<noteq> 0" "n < 65536"
  then have "unat (of_nat n :: ush) \<noteq> 0" by (simp add: unat_of_nat take_bit_nat_eq_self)
  then show ?thesis by auto
qed

lemma tree_runs_nonzero:
  assumes "max_code + 1 < length tree" "\<forall>l \<in> set (tree_lens tree max_code). l < 16" "k \<le> max_code" "Len tree k \<noteq> 0"
  shows "\<exists>i \<in> set (tree_runs (set_guard max_code tree) max_code). fst i \<in> {1..15}"
proof -
  let ?t = "set_guard max_code tree"
  obtain maxc minc where l: "first_limits (Len ?t 0) = (maxc, minc)" by fastforce
  have len: "Len tree j < 16" if "j \<le> max_code" for j
    using that assms(2) by (auto simp: tree_lens_def simp del: upt_Suc)
  have lk: "Len tree k \<noteq> 65535" using len [OF assms(3)] by linarith
  have "Len ?t k \<noteq> 0" "Len ?t (max_code + 1) \<noteq> Len ?t k" "\<forall>j. 0 \<le> j \<and> j < max_code + 1 \<longrightarrow> Len ?t j < 16"
    using assms len lk by (auto simp: Len_set_guard)
  from runs_nonzero [OF _ _ this(1) _ this(2,3), of "- 1" 0 maxc minc] assms(3) show ?thesis
    by (simp add: tree_runs_def l del: upt_Suc)
qed

lemma build_bl_tree_ready:
  assumes sz: "sizes_ok s" and lt: "builds s0 LTree (dyn_ltree s) (l_max_code s)" "256 \<in> used (dyn_ltree s0) L_CODES"
    and dt: "builds s1 DTree (dyn_dtree s) (d_max_code s)" and zero: "\<forall>c < BL_CODES. fc (bl_tree s ! c) = 0"
  shows "\<exists>m s'. build_bl_tree s = (m, s') \<and> same_io s s' \<and> sizes_ok s' \<and>
    header_ready s' (dyn_ltree s) (dyn_dtree s) (tree_lens (dyn_ltree s) (l_max_code s)) (tree_lens (dyn_dtree s) (d_max_code s)) m"
proof -
  let ?lt = "dyn_ltree s" and ?dt = "dyn_dtree s" and ?lm = "l_max_code s" and ?dm = "d_max_code s"
  let ?ll = "tree_lens ?lt ?lm" and ?dd = "tree_lens ?dt ?dm"
  have lb: "?lm < 286" "256 \<le> ?lm" "?ll ! 256 \<noteq> 0" "?dm < 30"
    using lt dt by (auto simp: builds_def code_sizes)
  have sz': "length ?lt = 573" "length ?dt = 61" "length (bl_tree s) = 39" using sz by (simp_all add: sizes_ok_def code_sizes)
  have gl: "guarded (set_guard ?lm ?lt) ?lm ?lt ?ll" using lt(1) lb sz' by (intro builds_guarded) simp_all
  have gd: "guarded (set_guard ?dm ?dt) ?dm ?dt ?dd" using dt lb sz' by (intro builds_guarded) simp_all
  let ?is = "tree_runs (set_guard ?lm ?lt) ?lm @ tree_runs (set_guard ?dm ?dt) ?dm"
  have ok: "\<forall>i \<in> set ?is. instr_ok i" "length ?is \<le> 632" using guardedD(5,6) [OF gl] guardedD(5,6) [OF gd] lb by auto
  let ?blt = "foldl bump (bl_tree s) ?is"
  define s2 where "s2 = s\<lparr>dyn_ltree := set_guard ?lm ?lt, bl_tree := ?blt, dyn_dtree := set_guard ?dm ?dt\<rparr>"
  have s2: "sizes_ok s2" "same_io s s2" using sz
    by (simp_all add: s2_def sizes_ok_def same_io_def fold_bump_fc set_guard_def)
  define s3 where "s3 = build_tree s2 BLTree"
  obtain mc where b: "builds s2 BLTree (bl_tree s3) mc" "sizes_ok s3" "same_io s2 s3" "dyn_ltree s3 = set_guard ?lm ?lt"
      "dyn_dtree s3 = set_guard ?dm ?dt" "l_max_code s3 = ?lm" "d_max_code s3 = ?dm"
    using build_bltree [OF s2(1), folded s3_def] by (auto simp: Let_def s2_def)
  define m where "m = last_blindex (bl_tree s3) (BL_CODES - 1)"
  define s4 where "s4 = s3\<lparr>opt_len := opt_len s3 + (3 * (of_nat m + 1) + 5 + 5 + 4)\<rparr>"
  have s4: "dyn_ltree s4 = dyn_ltree s3" "dyn_dtree s4 = dyn_dtree s3" "l_max_code s4 = l_max_code s3" "d_max_code s4 = d_max_code s3"
    "bl_tree s4 = bl_tree s3" "same_io s3 s4" "sizes_ok s4" using b(2) by (simp_all add: s4_def same_io_def sizes_ok_def)
  have eq: "build_bl_tree s = (m, s4)"
    by (simp add: build_bl_tree_def Let_def scan_tree_runs m_def s4_def s3_def s2_def)
  have bl: "bl_lens s4 = map (Len (bl_tree s3)) [0..<19]" by (simp add: bl_lens_def s4(5) del: upt_rec_numeral)
  note cl = builds_bl [OF b(1) _ bl]
  have l2: "38 \<le> length (bl_tree s2)" using s2(1) by (simp add: sizes_ok_def code_sizes)
  have nz: "bl_lens s4 ! fst i \<noteq> 0" if "i \<in> set ?is" for i
  proof -
    have i: "fst i < 19" using bspec [OF ok(1) that] by (cases i) simp
    have "count_list (map fst ?is) (fst i) \<noteq> 0" using that unfolding count_list_0_iff set_map by blast
    moreover have "count_list (map fst ?is) (fst i) \<le> length ?is" using count_le_length [of "map fst ?is" "fst i"] by simp
    then have "count_list (map fst ?is) (fst i) < 65536" using ok(2) by linarith
    ultimately have "(of_nat (count_list (map fst ?is) (fst i)) :: ush) \<noteq> 0"
      by (rule of_nat_ush_nonzero)
    then have "fc (?blt ! fst i) \<noteq> 0" using zero i sz' by (simp add: fold_bump_fc BL_CODES_def)
    then have "fst i \<in> used (bl_tree s2) 19" using i by (simp add: used_def s2_def)
    then show ?thesis by (rule cl(5) [OF l2])
  qed
  have "\<exists>i \<in> set (tree_runs (set_guard ?lm ?lt) ?lm). fst i \<in> {1..15}"
    using tree_runs_nonzero [of ?lm ?lt 256] guardedD(4) [OF gl] lb sz'(1) by (simp add: nth_tree_lens)
  then obtain i where i: "i \<in> set ?is" "fst i \<in> {1..15}" by auto
  obtain k where k: "3 \<le> k" "k \<le> 18" "bl_order ! k = fst i" using literal_length_rank [OF i(2)] by blast
  have nth: "bl_lens s4 ! c = Len (bl_tree s3) c" if "c < 19" for c using that unfolding bl by (simp del: upt_rec_numeral)
  have "Len (bl_tree s3) (bl_order ! k) \<noteq> 0" using nz [OF i(1)] i(2) by (simp add: k(3) nth)
  from last_blindex_spec [of "BL_CODES - 1", OF _ k(1) _ this] k(1,2)
  have m: "3 \<le> m" "m \<le> 18" "\<forall>j. m < j \<and> j \<le> 18 \<longrightarrow> Len (bl_tree s3) (bl_order ! j) = 0"
    by (simp_all add: m_def BL_CODES_def)
  have "header_ready s4 ?lt ?dt ?ll ?dd m"
    unfolding header_ready_def
    unfolding s4 using gl gd lb b(4-7) cl(1-3) [OF l2] nz m by (auto simp: coded_instrs_def code_sizes bl_order_eq nth order_lt)
  moreover have "same_io s s4" "sizes_ok s4" using same_io_trans [OF same_io_trans [OF s2(2) b(3)] s4(6)] s4(7) by simp_all
  ultimately show ?thesis using eq by blast
qed

section \<open>Choosing the encoding\<close>

fun wf_token :: "token \<Rightarrow> bool" where
  "wf_token (Literal b) \<longleftrightarrow> True"
| "wf_token (Match len dist) \<longleftrightarrow> 3 \<le> len \<and> len \<le> 258 \<and> 1 \<le> dist \<and> dist \<le> 32768"

fun lsym :: "token \<Rightarrow> nat" where
  "lsym (Literal b) = unat b"
| "lsym (Match len dist) = 257 + length_code ! (len - 3)"

fun dsyms :: "token \<Rightarrow> nat list" where
  "dsyms (Literal b) = []"
| "dsyms (Match len dist) = [d_code (dist - 1)]"

lemma sym_bounds:
  assumes "wf_token t"
  shows "lsym t < 286" "c \<in> set (dsyms t) \<Longrightarrow> c < 30"
proof -
  show "lsym t < 286"
  proof (cases t)
    case (Literal b)
    then show ?thesis using unat_byte_bound [of b] by simp
  next
    case (Match len dist)
    then show ?thesis using assms length_code_inverse(1) [of "len - 3", OF _ refl] by auto
  qed
  show "c < 30" if "c \<in> set (dsyms t)"
    using that assms d_code_inverse(1) [of "case t of Match len dist \<Rightarrow> dist - 1 | _ \<Rightarrow> 0", OF _ refl] by (cases t) auto
qed

lemma codable_iff_syms:
  "wf_token t \<Longrightarrow> codable ll dd t \<longleftrightarrow> lsym t < length ll \<and> ll ! lsym t \<noteq> 0 \<and> (\<forall>c \<in> set (dsyms t). c < length dd \<and> dd ! c \<noteq> 0)"
  by (cases t) auto

lemma codable_fixed: "wf_token t \<Longrightarrow> codable fixed_lengths (replicate MAXDCODES 5) t"
  using sym_bounds [of t] fixed_lengths_nth by (auto simp: codable_iff_syms MAXDCODES_def nth_replicate)

text \<open>Every symbol of the tokens has been counted.\<close>

definition syms_used :: "trees_state \<Rightarrow> token list \<Rightarrow> bool" where
  "syms_used s ts \<longleftrightarrow> (\<forall>t \<in> set ts. wf_token t \<and> lsym t \<in> used (dyn_ltree s) L_CODES \<and> set (dsyms t) \<subseteq> used (dyn_dtree s) D_CODES)"

lemma builds_codes:
  assumes "builds s k t mc" "c \<in> used (dyn_tree k s) (elems (stat_desc k))"
  shows "c < length (tree_lens t mc)" "tree_lens t mc ! c \<noteq> 0"
  using assms by (auto simp: builds_def tree_lens_def simp del: upt_Suc)

lemma block_lens_ready:
  assumes sz: "sizes_ok s" and cnt: "counted s" and lev: "0 < comp_level s" and use: "syms_used s ts"
  shows "\<exists>opt st m s' lt dt ll dd. block_lens s n = ((opt, st, m), s') \<and> same_io s s' \<and> sizes_ok s' \<and> header_ready s' lt dt ll dd m \<and>
    (\<forall>t \<in> set ts. codable ll dd t)"
proof -
  define s0 where "s0 = (if data_type s = Z_UNKNOWN then s\<lparr>data_type := detect_data_type s\<rparr> else s)"
  have s0: "sizes_ok s0" "same_io s s0" "dyn_ltree s0 = dyn_ltree s" "dyn_dtree s0 = dyn_dtree s" "bl_tree s0 = bl_tree s"
    using sz by (simp_all add: s0_def sizes_ok_def same_io_def)
  define s1 where "s1 = build_tree s0 LTree"
  define s2 where "s2 = build_tree s1 DTree"
  have b1: "builds s0 LTree (dyn_ltree s1) (l_max_code s1)" "sizes_ok s1" "same_io s0 s1" "dyn_dtree s1 = dyn_dtree s0" "bl_tree s1 = bl_tree s0"
    using build_ltree [OF s0(1), folded s1_def] by (simp_all add: Let_def)
  have b2: "builds s1 DTree (dyn_dtree s2) (d_max_code s2)" "sizes_ok s2" "same_io s1 s2" "dyn_ltree s2 = dyn_ltree s1" "bl_tree s2 = bl_tree s1"
      "l_max_code s2 = l_max_code s1"
    using build_dtree [OF b1(2), folded s2_def] by (simp_all add: Let_def)
  have "256 \<in> used (dyn_ltree s0) L_CODES" using cnt by (simp add: used_def counted_def s0(3) END_BLOCK_def code_sizes)
  moreover have "\<forall>c < BL_CODES. fc (bl_tree s2 ! c) = 0" using cnt by (simp add: b2(5) b1(5) s0(5) counted_def)
  ultimately obtain m s3 where r: "build_bl_tree s2 = (m, s3)" "same_io s2 s3" "sizes_ok s3"
      "header_ready s3 (dyn_ltree s2) (dyn_dtree s2) (tree_lens (dyn_ltree s2) (l_max_code s2)) (tree_lens (dyn_dtree s2) (d_max_code s2)) m"
    using build_bl_tree_ready [OF b2(2), of s0 s1] b1(1) b2(1,4,6) by auto
  have "codable (tree_lens (dyn_ltree s2) (l_max_code s2)) (tree_lens (dyn_dtree s2) (d_max_code s2)) t" if "t \<in> set ts" for t
  proof -
    have t: "wf_token t" "lsym t \<in> used (dyn_ltree s) L_CODES" "set (dsyms t) \<subseteq> used (dyn_dtree s) D_CODES"
      using use that by (auto simp: syms_used_def)
    then show ?thesis
      using builds_codes [OF b1(1), of "lsym t"] builds_codes [OF b2(1)] b2(4,6) b1(4) s0(3,4)
      by (auto simp: codable_iff_syms)
  qed
  moreover have "same_io s s3" using s0(2) b1(3) b2(3) r(2) same_io_trans by metis
  moreover have "\<exists>opt st. block_lens s n = ((opt, st, m), s3)"
    using lev r(1) by (simp add: block_lens_def Let_def s2_def s1_def s0_def del: split_paired_Ex)
  ultimately show ?thesis using r(3,4) by blast
qed

section \<open>\<open>tr_flush_block\<close>\<close>

lemma header_readyD:
  assumes "header_ready s lt dt ll dd m"
  shows "coded (dyn_ltree s) ll" "coded (dyn_dtree s) dd" "256 < length ll" "ll ! 256 \<noteq> 0"
  using assms guardedD(1,2) [of "dyn_ltree s" "l_max_code s" lt ll] guardedD(1,2) [of "dyn_dtree s" "d_max_code s" dt dd]
  by (auto simp: header_ready_def)

lemma dynamic_flush:
  assumes wf: "bi_wf s" and h: "header_ready s lt dt ll dd m" and toks: "sym_next s = 3 * n" "sym_tokens (sym_buf s) n = ts" "lz_expand out ts = Some out'"
    and c: "\<forall>t \<in> set ts. codable ll dd t"
  shows "\<exists>blk. block_bits fin (bits_written s) blk out out' \<and>
    writes s (let s = send_bits s (2 * DYN_TREES + of_bool fin) 3;
                  s = send_all_trees s (l_max_code s + 1) (d_max_code s + 1) (m + 1)
              in compress_block s (dyn_ltree s) (dyn_dtree s)) blk"
proof -
  let ?s1 = "send_bits s (2 * DYN_TREES + of_bool fin) 3"
  have w1: "writes s ?s1 (nat_bits 3 (2 * DYN_TREES + of_bool fin))"
    using wf by (intro writes_send_bits) (simp_all add: DYN_TREES_def)
  have "header_ready ?s1 lt dt ll dd m"
    using h writes_fields [OF w1] bl_lens_writes [OF w1] by (simp add: header_ready_def)
  from send_all_trees_written [OF writes_wf [OF w1] this] obtain hs where
    hs: "dyn_header hs ll dd" "writes ?s1 (send_all_trees ?s1 (l_max_code ?s1 + 1) (d_max_code ?s1 + 1) (m + 1)) hs" by blast
  let ?s2 = "send_all_trees ?s1 (l_max_code ?s1 + 1) (d_max_code ?s1 + 1) (m + 1)"
  note w2 = writes_trans [OF w1 hs(2)]
  note f = writes_fields [OF w2]
  obtain cs where cs: "tokens_code ll dd ts cs" "writes ?s2 (compress_block ?s2 (dyn_ltree ?s2) (dyn_dtree ?s2)) cs"
    using compress_block_written [of "dyn_ltree ?s2" ll "dyn_dtree ?s2" dd ?s2 n] header_readyD [OF h] writes_wf [OF w2] toks(1,2) c
    unfolding f by auto
  from writes_trans [OF w2 cs(2)] dynamic_block_bits [OF hs(1) cs(1) toks(3), of fin "bits_written s"]
  show ?thesis unfolding Let_def append_assoc by blast
qed

text \<open>The data that a block stands for, and the input it may be stored from.\<close>

definition input_ok :: "byte list option \<Rightarrow> nat \<Rightarrow> byte list \<Rightarrow> byte list \<Rightarrow> bool" where
  "input_ok buf slen out out' \<longleftrightarrow> (case buf of None \<Rightarrow> True
     | Some b \<Rightarrow> slen \<le> length b \<and> slen < 65536 \<and> out' = out @ take slen b)"

definition fresh_block :: "trees_state \<Rightarrow> bool" where
  "fresh_block s \<longleftrightarrow> sym_next s = 0 \<and> (\<forall>c < L_CODES. fc (dyn_ltree s ! c) = of_bool (c = END_BLOCK)) \<and>
     (\<forall>c < D_CODES. fc (dyn_dtree s ! c) = 0) \<and> (\<forall>c < BL_CODES. fc (bl_tree s ! c) = 0)"

lemma nth_clear_freq: "n \<le> length t \<Longrightarrow> c < length t \<Longrightarrow> clear_freq n t ! c = (if c < n then (t ! c)\<lparr>fc := 0\<rparr> else t ! c)"
  by (auto simp: clear_freq_def nth_append min_def)

lemma init_block_start:
  assumes "sizes_ok s"
  shows "fresh_block (init_block s)" "sizes_ok (init_block s)" "bits_written (init_block s) = bits_written s"
    "bi_wf (init_block s) = bi_wf s" "pending_buf (init_block s) = pending_buf s" "sym_buf (init_block s) = sym_buf s"
    "sym_end (init_block s) = sym_end s"
  using assms
  by (auto simp: init_block_def Let_def fresh_block_def sizes_ok_def nth_clear_freq nth_list_update code_sizes END_BLOCK_def
      bits_written_def bi_wf_def) (auto simp: clear_freq_def)

definition flushed :: "trees_state \<Rightarrow> trees_state \<Rightarrow> bool \<Rightarrow> byte list \<Rightarrow> byte list \<Rightarrow> bool" where
  "flushed s s' fin out out' \<longleftrightarrow> bi_wf s' \<and> sizes_ok s' \<and> fresh_block s' \<and> sym_buf s' = sym_buf s \<and> sym_end s' = sym_end s \<and>
     comp_level s' = comp_level s \<and> strategy s' = strategy s \<and> (fin \<longrightarrow> bi_valid s' = 0) \<and>
     (\<exists>blk. block_bits fin (bits_written s) blk out out' \<and>
       (if fin then bytes_bits (pending_buf s') = bits_written s @ blk @ replicate (pad_len (bits_written s @ blk)) False
        else bits_written s' = bits_written s @ blk))"

lemma tframe_more:
  assumes "tframe s' = tframe s"
  shows "sizes_ok s' = sizes_ok s" "sym_end s' = sym_end s" "comp_level s' = comp_level s" "strategy s' = strategy s"
  using assms by (cases s; cases s'; simp add: tframe_def sizes_ok_def)+

lemma flush_finish:
  assumes sz: "sizes_ok s1" and io: "same_io s s1" and blk: "block_bits fin (bits_written s1) blk out out'" "writes s1 s2 blk"
  shows "flushed s (if fin then bi_windup (init_block s2) else init_block s2) fin out out'"
proof -
  have w: "bi_wf s2" "bits_written s2 = bits_written s1 @ blk" "tframe s2 = tframe s1" using blk(2) by (simp_all add: writes_def)
  have e: "sizes_ok s2" "sym_end s2 = sym_end s" "sym_buf s2 = sym_buf s" "bits_written s1 = bits_written s"
    "comp_level s2 = comp_level s" "strategy s2 = strategy s"
    using tframe_more [OF w(3)] writes_fields [OF blk(2)] sz io same_io_bits [OF io] by (simp_all add: same_io_def)
  let ?s = "init_block s2"
  have ib: "comp_level ?s = comp_level s2" "strategy ?s = strategy s2" by (simp_all add: init_block_def Let_def)
  have bw: "bi_valid (bi_windup t) = 0" for t by (simp add: bi_windup_def put_short_def put_byte_def Let_def)
  note i = init_block_start [OF e(1)]
  show ?thesis
  proof (cases fin)
    case True
    have t: "tframe (bi_windup ?s) = tframe ?s" by (rule tframe_bi_windup)
    have "sym_next (bi_windup ?s) = sym_next ?s" "sym_buf (bi_windup ?s) = sym_buf ?s" "dyn_ltree (bi_windup ?s) = dyn_ltree ?s"
      "dyn_dtree (bi_windup ?s) = dyn_dtree ?s" "bl_tree (bi_windup ?s) = bl_tree ?s" using tframe_eqD [OF t] by simp_all
    then show ?thesis
      using True bi_windup_written(1) [of ?s] i w(1,2) e blk(1) tframe_more [OF t] bi_windup_wf(1) [of ?s] ib bw
      by (auto simp: flushed_def fresh_block_def)
  next
    case False
    then show ?thesis using i ib w(1,2) e blk(1) by (auto simp: flushed_def)
  qed
qed

theorem tr_flush_block_flushed:
  assumes wf: "bi_wf s" "sizes_ok s" "counted s" and toks: "sym_next s = 3 * n" "sym_tokens (sym_buf s) n = ts" "syms_used s ts"
    and out: "lz_expand out ts = Some out'" "input_ok buf slen out out'"
  shows "flushed s (tr_flush_block s buf slen fin) fin out out'"
proof -
  obtain opt st m s1 where bl: "block_lens s slen = ((opt, st, m), s1)" "same_io s s1" "sizes_ok s1"
      "0 < comp_level s \<Longrightarrow> \<exists>lt dt ll dd. header_ready s1 lt dt ll dd m \<and> (\<forall>t \<in> set ts. codable ll dd t)"
      "comp_level s \<le> 0 \<Longrightarrow> opt = st"
  proof (cases "0 < comp_level s")
    case True
    from block_lens_ready [OF wf(2,3) this toks(3), of slen] True that show thesis by force
  next
    case False
    then have "block_lens s slen = ((of_nat slen + 5, of_nat slen + 5, 0), s)"
      by (simp add: block_lens_def)
    then show thesis using that wf(2) False by simp
  qed
  have s1: "bi_wf s1" "bits_written s1 = bits_written s" "sym_next s1 = 3 * n" "sym_tokens (sym_buf s1) n = ts"
    using wf(1) toks same_io_bits [OF bl(2)] bl(2) by (simp_all add: same_io_def)
  have tw: "\<forall>t \<in> set ts. wf_token t" using toks(3) by (simp add: syms_used_def)
  let ?s2 = "if of_nat slen + 4 \<le> opt \<and> buf \<noteq> None then tr_stored_block s1 (take slen (the buf)) fin
    else if st = opt then compress_block (send_bits s1 (2 * STATIC_TREES + of_bool fin) 3) static_ltree static_dtree
    else let s = send_bits s1 (2 * DYN_TREES + of_bool fin) 3;
             s = send_all_trees s (l_max_code s + 1) (d_max_code s + 1) (m + 1)
         in compress_block s (dyn_ltree s) (dyn_dtree s)"
  have eq: "tr_flush_block s buf slen fin = (if fin then bi_windup (init_block ?s2) else init_block ?s2)"
    by (simp add: tr_flush_block_def bl(1) Let_def)
  have "\<exists>blk. block_bits fin (bits_written s1) blk out out' \<and> writes s1 ?s2 blk"
  proof -
    consider (st) "of_nat slen + 4 \<le> opt \<and> buf \<noteq> None" | (fixed) "\<not> (of_nat slen + 4 \<le> opt \<and> buf \<noteq> None)" "st = opt"
      | (dyn) "\<not> (of_nat slen + 4 \<le> opt \<and> buf \<noteq> None)" "st \<noteq> opt" by blast
    then show ?thesis
    proof cases
      case st
      then obtain b where b: "buf = Some b" by auto
      then have i: "length (take slen b) < 65536" "out' = out @ take slen b" using out(2) by (auto simp: input_ok_def)
      show ?thesis using tr_stored_block_bits [OF s1(1) i(1), of fin out] st unfolding i(2) b by auto
    next
      case fixed
      have "\<exists>blk. block_bits fin (bits_written s1) blk out out' \<and>
          writes s1 (compress_block (send_bits s1 (2 * STATIC_TREES + of_bool fin) 3) static_ltree static_dtree) blk"
        using s1(1,3) out(1) tw codable_fixed by (intro static_block_bits) (auto simp: s1(4))
      then show ?thesis unfolding if_not_P [OF fixed(1)] if_P [OF fixed(2)] .
    next
      case dyn
      then obtain lt dt ll dd where h: "header_ready s1 lt dt ll dd m" "\<forall>t \<in> set ts. codable ll dd t"
        using bl(4,5) by (metis not_less)
      from dynamic_flush [OF s1(1) h(1) s1(3,4) out(1) h(2), of fin] show ?thesis
        unfolding if_not_P [OF dyn(1)] if_not_P [OF dyn(2)] .
    qed
  qed
  then show ?thesis unfolding eq using flush_finish [OF bl(3,2)] by blast
qed

end
