(* ===== verification/Trees_Session.thy ===== *)
theory Trees_Session
  imports Trees_Flush
begin

text \<open>
  The block writer as the compressor drives it: a sequence of calls that tally symbols, end
  blocks and store data. At every point the output is a sequence of DEFLATE blocks that stands
  for the data so far, and after the last block \<open>puff\<close> reads it back.
\<close>

section \<open>Sequences of calls\<close>

text \<open>
  \<open>writer gone s out ts\<close>: \<open>s\<close> can be reached by calls that ended blocks for the data \<open>out\<close> and
  then tallied \<open>ts\<close>, while the bytes \<open>gone\<close> were taken from the front of the pending output. A
  symbol is tallied only while the last tally did not report a full buffer, and a block is
  flushed with the input that its symbols stand for. The parameters may change at any time.
\<close>

inductive writer :: "byte list \<Rightarrow> trees_state \<Rightarrow> byte list \<Rightarrow> token list \<Rightarrow> bool" where
  start: "sizes_ok s \<Longrightarrow> pending_buf s = [] \<Longrightarrow> sym_end s \<le> length (sym_buf s) \<Longrightarrow> 3 dvd sym_end s \<Longrightarrow> sym_end s \<le> 3 * 32767 \<Longrightarrow>
    writer [] (tr_init s) [] []"
| literal: "writer gone s out ts \<Longrightarrow> sym_next s < sym_end s \<Longrightarrow> writer gone (snd (tr_tally_lit s c)) out (ts @ [Literal c])"
| match: "writer gone s out ts \<Longrightarrow> sym_next s < sym_end s \<Longrightarrow> 1 \<le> unat dist \<Longrightarrow> unat dist \<le> 32768 \<Longrightarrow>
    writer gone (snd (tr_tally_dist s dist lc)) out (ts @ [Match (unat lc + 3) (unat dist)])"
| flush: "writer gone s out ts \<Longrightarrow> lz_expand out ts = Some out' \<Longrightarrow> input_ok buf slen out out' \<Longrightarrow>
    writer gone (tr_flush_block s buf slen False) out' []"
| store: "writer gone s out ts \<Longrightarrow> length data < 65536 \<Longrightarrow> writer gone (tr_stored_block s data False) (out @ data) ts"
| align: "writer gone s out ts \<Longrightarrow> writer gone (tr_align s) out ts"
| flush_bits: "writer gone s out ts \<Longrightarrow> writer gone (tr_flush_bits s) out ts"
| drain: "writer gone s out ts \<Longrightarrow> writer (gone @ take n (pending_buf s)) (s\<lparr>pending_buf := drop n (pending_buf s)\<rparr>) out ts"
| params: "writer gone s out ts \<Longrightarrow> writer gone (s\<lparr>matches := m, comp_level := lev, strategy := strat, data_type := d\<rparr>) out ts"

text \<open>The counts that the tallies keep in the trees.\<close>

definition tallied :: "trees_state \<Rightarrow> token list \<Rightarrow> bool" where
  "tallied s ts \<longleftrightarrow> sym_next s = 3 * length ts \<and> sym_tokens (sym_buf s) (length ts) = ts \<and> (\<forall>t \<in> set ts. wf_token t) \<and>
     (\<forall>c < L_CODES. fc (dyn_ltree s ! c) = of_nat (count_list (map lsym ts) c + of_bool (c = END_BLOCK))) \<and>
     (\<forall>c < D_CODES. fc (dyn_dtree s ! c) = of_nat (count_list (concat (map dsyms ts)) c)) \<and>
     (\<forall>c < BL_CODES. fc (bl_tree s ! c) = 0)"

definition session :: "byte list \<Rightarrow> trees_state \<Rightarrow> byte list \<Rightarrow> token list \<Rightarrow> bool" where
  "session gone s out ts \<longleftrightarrow> emitted (bytes_bits gone @ bits_written s) out \<and> bi_wf s \<and> sizes_ok s \<and> tallied s ts \<and>
     sym_next s \<le> sym_end s \<and> sym_end s \<le> length (sym_buf s) \<and> 3 dvd sym_end s \<and> sym_end s \<le> 3 * 32767"

lemma length_dsyms: "length (concat (map dsyms ts)) \<le> length ts"
proof (induction ts)
  case (Cons t ts)
  then show ?case by (cases t) auto
qed simp

lemma tallied_counts:
  assumes "tallied s ts" "length ts \<le> 32767"
  shows "counted s" "syms_used s ts"
proof -
  have l: "count_list (map lsym ts) c \<le> 32767" for c using count_le_length [of "map lsym ts" c] assms(2) by simp
  have d: "count_list (concat (map dsyms ts)) c \<le> 32767" for c
    using count_le_length [of "concat (map dsyms ts)" c] length_dsyms [of ts] assms(2) by simp
  show "counted s" using assms(1) l [of END_BLOCK] of_nat_ush_nonzero [of "count_list (map lsym ts) END_BLOCK + 1"]
    by (auto simp: tallied_def counted_def code_sizes END_BLOCK_def add.commute)
  have "lsym t \<in> used (dyn_ltree s) L_CODES \<and> set (dsyms t) \<subseteq> used (dyn_dtree s) D_CODES" if t: "t \<in> set ts" for t
  proof -
    have wf: "wf_token t" using assms(1) t by (simp add: tallied_def)
    have "count_list (map lsym ts) (lsym t) \<noteq> 0" using t by (simp add: count_list_0_iff)
    then have "(of_nat (count_list (map lsym ts) (lsym t) + of_bool (lsym t = END_BLOCK)) :: ush) \<noteq> 0"
      using l [of "lsym t"] by (intro of_nat_ush_nonzero) (auto simp: of_bool_def)
    moreover have "(of_nat (count_list (concat (map dsyms ts)) c) :: ush) \<noteq> 0" if "c \<in> set (dsyms t)" for c
      using t that d [of c] by (intro of_nat_ush_nonzero) (auto simp: count_list_0_iff)
    ultimately show ?thesis using assms(1) sym_bounds [OF wf] by (auto simp: tallied_def used_def code_sizes)
  qed
  then show "syms_used s ts" using assms(1) by (auto simp: syms_used_def tallied_def)
qed

lemma fresh_block_tallied: "fresh_block s \<Longrightarrow> tallied s []"
  by (simp add: fresh_block_def tallied_def sym_tokens_def)

section \<open>Tallying\<close>

lemma sym_tokens_store:
  assumes "3 * n + 2 < length buf"
  shows "sym_tokens (buf[3 * n := a, 3 * n + 1 := b, 3 * n + 2 := c]) (Suc n) =
    sym_tokens buf n @ [sym_token (unat a + 256 * unat b) (unat c)]"
proof -
  have "sym_entry (buf[3 * n := a, 3 * n + 1 := b, 3 * n + 2 := c]) (3 * i) = sym_entry buf (3 * i)" if "i < n" for i
    using that by (simp add: sym_entry_def sym_dist_def)
  then show ?thesis using assms by (simp add: sym_tokens_def sym_entry_def sym_dist_def)
qed

lemma tally_tallied:
  assumes t: "tallied s ts" and sz: "sizes_ok s" and room: "3 * length ts + 2 < length (sym_buf s)" and tok: "wf_token tok"
    "tok = sym_token (unat a + 256 * unat b) (unat c)"
    and s': "sym_buf s' = (sym_buf s)[sym_next s := a, sym_next s + 1 := b, sym_next s + 2 := c]" "sym_next s' = sym_next s + 3"
      "dyn_ltree s' = bump_freq (lsym tok) 1 (dyn_ltree s)"
      "dyn_dtree s' = foldl (\<lambda>t c. bump_freq c 1 t) (dyn_dtree s) (dsyms tok)" "bl_tree s' = bl_tree s"
  shows "tallied s' (ts @ [tok])"
proof -
  have i: "sym_next s = 3 * length ts" "sym_tokens (sym_buf s) (length ts) = ts" using t by (simp_all add: tallied_def)
  have "sym_tokens (sym_buf s') (length (ts @ [tok])) = ts @ [tok]"
    using sym_tokens_store [OF room, of a b c] i tok(2) by (simp add: s'(1))
  moreover have "fc (dyn_ltree s' ! k) = fc (dyn_ltree s ! k) + of_bool (k = lsym tok)" if "k < L_CODES" for k
    using sym_bounds(1) [OF tok(1)] sz by (auto simp: s'(3) bump_freq_other sizes_ok_def code_sizes)
  moreover have "fc (dyn_dtree s' ! k) = fc (dyn_dtree s ! k) + of_nat (count_list (dsyms tok) k)" if "k < D_CODES" for k
    using sym_bounds(2) [OF tok(1)] sz by (cases tok) (auto simp: s'(4) bump_freq_other sizes_ok_def code_sizes)
  ultimately show ?thesis using t tok(1) i(1) by (auto simp: tallied_def s'(2,5))
qed

lemma session_room:
  assumes "session gone s out ts" "sym_next s < sym_end s"
  shows "3 * length ts + 2 < length (sym_buf s)" "sym_next s + 3 \<le> sym_end s"
proof -
  have s: "sym_next s = 3 * length ts" "sym_end s \<le> length (sym_buf s)" "3 dvd sym_end s"
    using assms(1) by (simp_all add: session_def tallied_def)
  then obtain k where "sym_end s = 3 * k" by (elim dvdE)
  with s assms(2) show "3 * length ts + 2 < length (sym_buf s)" "sym_next s + 3 \<le> sym_end s" by simp_all
qed

lemma bump_sizes: "length (bump_freq c k t) = length t"
  by (rule bump_freq_Len)

lemma session_literal:
  assumes s: "session gone s out ts" and room: "sym_next s < sym_end s"
  shows "session gone (snd (tr_tally_lit s c)) out (ts @ [Literal c])"
proof -
  let ?s = "snd (tr_tally_lit s c)"
  note r = session_room [OF assms]
  have "tallied ?s (ts @ [Literal c])"
    by (rule tally_tallied [where a = 0 and b = 0 and c = c])
      (use s r in \<open>simp_all add: session_def tr_tally_lit_def Let_def store_sym_def sym_token_def\<close>)
  with s r show ?thesis
    by (simp add: session_def tr_tally_lit_def Let_def store_sym_def bits_written_def bi_wf_def sizes_ok_def bump_sizes)
qed

lemma dist_bytes: "unat (ucast (d :: ush) :: byte) + 256 * unat (ucast (drop_bit 8 d) :: byte) = unat d"
proof -
  have "unat (ucast d :: byte) = unat d mod 256" by (simp add: unsigned_ucast_eq take_bit_eq_mod)
  moreover have "unat (ucast (drop_bit 8 d) :: byte) = unat d div 256"
  proof -
    have "unat d div 256 < 256" using unsigned_less [of d, where 'a = nat] by simp
    moreover have "unat (drop_bit 8 d) = unat d div 256" using unat_drop_bit_eq [of 8 d] by (simp add: drop_bit_eq_div)
    ultimately show ?thesis by (simp only: unsigned_ucast_eq take_bit_eq_mod) simp
  qed
  ultimately show ?thesis by simp
qed

lemma session_match:
  assumes s: "session gone s out ts" and room: "sym_next s < sym_end s" and d: "1 \<le> unat dist" "unat dist \<le> 32768"
  shows "session gone (snd (tr_tally_dist s dist lc)) out (ts @ [Match (unat lc + 3) (unat dist)])"
proof -
  let ?s = "snd (tr_tally_dist s dist lc)" and ?t = "Match (unat lc + 3) (unat dist)"
  note r = session_room [OF s room]
  have "1 \<le> dist" using d(1) by (simp add: word_le_nat_alt)
  then have d1: "unat (dist - 1) = unat dist - 1" by (simp add: unat_sub)
  have "tallied ?s (ts @ [?t])"
  proof (rule tally_tallied [where a = "ucast dist" and b = "ucast (drop_bit 8 dist)" and c = lc])
    show "?t = sym_token (unat (ucast dist :: byte) + 256 * unat (ucast (drop_bit 8 dist) :: byte)) (unat lc)"
      using d(1) by (simp add: dist_bytes sym_token_def)
  qed (use s r d d1 unat_byte_bound [of lc] in
      \<open>simp_all add: session_def tr_tally_dist_def Let_def store_sym_def LITERALS_def add.commute\<close>)
  with s r show ?thesis
    by (simp add: session_def tr_tally_dist_def Let_def store_sym_def bits_written_def bi_wf_def sizes_ok_def bump_sizes)
qed

section \<open>Blocks\<close>

lemma session_flushed:
  assumes s: "session gone s out ts" and out: "lz_expand out ts = Some out'" "input_ok buf slen out out'"
  shows "flushed s (tr_flush_block s buf slen fin) fin out out'"
proof -
  have i: "bi_wf s" "sizes_ok s" "tallied s ts" "length ts \<le> 32767" using s by (auto simp: session_def tallied_def)
  show ?thesis
    using tr_flush_block_flushed [OF i(1,2) tallied_counts(1) [OF i(3,4)] _ _ tallied_counts(2) [OF i(3,4)] out, of "length ts"] i(3)
    by (simp add: tallied_def)
qed

text \<open>Whole bytes before a block do not matter.\<close>

lemma block_bits_bytes: "block_bits fin (bytes_bits p @ bs) blk out out' \<longleftrightarrow> block_bits fin bs blk out out'"
proof -
  have "8 dvd length ((bytes_bits p @ bs) @ blk @ tail) \<longleftrightarrow> 8 dvd length (bs @ blk @ tail)" for tail
    using dvd_add_right_iff [of 8 "8 * length p" "length (bs @ blk @ tail)"] by simp
  then show ?thesis by (simp only: block_bits_def)
qed

lemma emitted_after:
  "emitted (bytes_bits gone @ bs) out \<Longrightarrow> block_bits False bs blk out out' \<Longrightarrow> emitted (bytes_bits gone @ bs @ blk) out'"
  using emitted_block [of "bytes_bits gone @ bs" out blk out'] by (simp add: block_bits_bytes)

lemma session_writes:
  assumes s: "session gone s out ts" and w: "writes s s' blk" "emitted (bytes_bits gone @ bits_written s @ blk) out'"
  shows "session gone s' out' ts"
proof -
  have t: "tframe s' = tframe s" using w(1) by (simp add: writes_def)
  then have "bl_tree s' = bl_tree s" "dyn_ltree s' = dyn_ltree s" "dyn_dtree s' = dyn_dtree s" "sym_buf s' = sym_buf s" "sym_next s' = sym_next s"
    by (rule tframe_eqD)+
  then show ?thesis using s w tframe_more [OF t] by (simp add: session_def writes_def tallied_def)
qed

lemma session_block:
  assumes s: "session gone s out ts" and blk: "\<exists>blk. block_bits False (bits_written s) blk out out' \<and> writes s s' blk"
  shows "session gone s' out' ts"
proof -
  obtain blk where b: "block_bits False (bits_written s) blk out out'" "writes s s' blk" using blk by (elim exE conjE)
  have "emitted (bytes_bits gone @ bits_written s) out" using s by (simp add: session_def)
  from session_writes [OF s b(2) emitted_after [OF this b(1)]] show ?thesis .
qed

lemma session_drain:
  assumes "session gone s out ts"
  shows "session (gone @ take n (pending_buf s)) (s\<lparr>pending_buf := drop n (pending_buf s)\<rparr>) out ts"
proof -
  have "bytes_bits (take n (pending_buf s)) @ bytes_bits (drop n (pending_buf s)) = bytes_bits (pending_buf s)"
    by (metis append_take_drop_id bytes_bits_append)
  then have "bytes_bits (gone @ take n (pending_buf s)) @ bits_written (s\<lparr>pending_buf := drop n (pending_buf s)\<rparr>) =
      bytes_bits gone @ bits_written s"
    by (simp add: bits_written_def)
  then show ?thesis using assms by (simp add: session_def bi_wf_def sizes_ok_def tallied_def)
qed

lemma writer_session: "writer gone s out ts \<Longrightarrow> session gone s out ts"
proof (induction rule: writer.induct)
  case (start s)
  let ?s = "s\<lparr>bi_buf := 0, bi_valid := 0\<rparr>"
  have "sizes_ok ?s" using start by (simp add: sizes_ok_def)
  note i = init_block_start [OF this]
  have "bits_written ?s = []" "bi_wf ?s" using start by (simp_all add: bits_written_def bi_wf_def)
  with i start show ?case
    by (simp add: tr_init_def session_def emitted_Nil fresh_block_tallied) (simp add: fresh_block_def)
next
  case (flush gone s out ts out' buf slen)
  note f = session_flushed [OF flush.IH flush.hyps(2,3), of False]
  obtain blk where blk: "block_bits False (bits_written s) blk out out'"
      "bits_written (tr_flush_block s buf slen False) = bits_written s @ blk"
    using f by (auto simp: flushed_def)
  have "emitted (bytes_bits gone @ bits_written s) out" using flush.IH by (simp add: session_def)
  from emitted_after [OF this blk(1)] f flush.IH show ?case
    by (auto simp: session_def flushed_def blk(2) fresh_block_tallied) (simp add: fresh_block_def)
next
  case (store gone s out ts data)
  have "\<exists>blk. block_bits False (bits_written s) blk out (out @ data) \<and> writes s (tr_stored_block s data False) blk"
    using tr_stored_block_bits [of s data False out] store by (auto simp: session_def)
  with store.IH show ?case by (rule session_block)
next
  case (align gone s out ts)
  have "\<exists>blk. block_bits False (bits_written s) blk out out \<and> writes s (tr_align s) blk"
    using tr_align_bits [of s out] align by (auto simp: session_def)
  with align.IH show ?case by (rule session_block)
next
  case (flush_bits gone s out ts)
  then have "writes s (tr_flush_bits s) []" "emitted (bytes_bits gone @ bits_written s @ []) out"
    using writes_bi_flush [of s] by (simp_all add: session_def tr_flush_bits_def)
  with flush_bits.IH show ?case by (rule session_writes)
next
  case (params gone s out ts m lev strat d)
  then show ?case by (simp add: session_def bits_written_def bi_wf_def sizes_ok_def tallied_def)
qed (simp_all add: session_literal session_match session_drain)

text \<open>The last block, however it is written, completes a stream of the format.\<close>

lemma session_complete:
  assumes s: "session gone s out ts" and b: "block_bits True (bits_written s) blk out out'"
    "bytes_bits bytes = bits_written s @ blk @ pad"
  shows "stream_code (bytes_bits (gone @ bytes)) [] pad out'"
proof -
  have "8 dvd length (bytes_bits gone @ bits_written s @ blk @ pad)" unfolding b(2) [symmetric] by simp
  moreover have "block_bits True (bytes_bits gone @ bits_written s) blk out out'" using b(1) by (simp add: block_bits_bytes)
  moreover have "emitted (bytes_bits gone @ bits_written s) out" using s by (simp add: session_def)
  ultimately show ?thesis using emitted_final [of "bytes_bits gone @ bits_written s" out blk out' pad] by (simp add: b(2))
qed

lemma writer_last_block:
  assumes "writer gone s out ts" "lz_expand out ts = Some out'" "input_ok buf slen out out'"
  shows "\<exists>pad. stream_code (bytes_bits (gone @ pending_buf (tr_flush_block s buf slen True))) [] pad out'"
proof -
  note s = writer_session [OF assms(1)]
  obtain blk where b: "block_bits True (bits_written s) blk out out'"
      "bytes_bits (pending_buf (tr_flush_block s buf slen True)) = bits_written s @ blk @ replicate (pad_len (bits_written s @ blk)) False"
    using session_flushed [OF s assms(2,3), of True] by (auto simp: flushed_def)
  from session_complete [OF s this] show ?thesis by blast
qed

lemma writer_last_stored:
  assumes "writer gone s out ts" "length data < 65536"
  shows "\<exists>pad. stream_code (bytes_bits (gone @ pending_buf (tr_stored_block s data True))) [] pad (out @ data)"
proof -
  note s = writer_session [OF assms(1)]
  have "bi_valid (tr_stored_block s data True) = 0"
    by (simp add: tr_stored_block_def Let_def put_short_def put_byte_def bi_windup_def)
  then have "bytes_bits (pending_buf (tr_stored_block s data True)) = bits_written (tr_stored_block s data True)"
    by (simp add: bits_written_def)
  moreover obtain blk where "block_bits True (bits_written s) blk out (out @ data)" "writes s (tr_stored_block s data True) blk"
    using tr_stored_block_bits [of s data True out] assms(2) s by (auto simp: session_def)
  ultimately show ?thesis using session_complete [OF s, of blk "out @ data" "pending_buf (tr_stored_block s data True)" "[]"]
    by (auto simp: writes_def)
qed

section \<open>Properties\<close>

text \<open>A state as \<open>deflateInit2_\<close> allocates it, for a buffer of \<open>lit_bufsize\<close> symbols.\<close>

definition fresh_state :: "nat \<Rightarrow> int \<Rightarrow> int \<Rightarrow> trees_state" where
  "fresh_state lit_bufsize lev strat = \<lparr>pending_buf = [], bi_buf = 0, bi_valid = 0,
     dyn_ltree = replicate HEAP_SIZE \<lparr>fc = 0, dl = 0\<rparr>, dyn_dtree = replicate (2 * D_CODES + 1) \<lparr>fc = 0, dl = 0\<rparr>,
     bl_tree = replicate (2 * BL_CODES + 1) \<lparr>fc = 0, dl = 0\<rparr>, l_max_code = 0, d_max_code = 0, bl_max_code = 0,
     bl_count = replicate (MAX_BITS + 1) 0, heap = replicate HEAP_SIZE 0, heap_len = 0, heap_max = 0, depth = replicate HEAP_SIZE 0,
     sym_buf = replicate (3 * lit_bufsize) 0, sym_next = 0, sym_end = 3 * (lit_bufsize - 1), opt_len = 0, static_len = 0, matches = 0,
     comp_level = lev, strategy = strat, data_type = Z_UNKNOWN\<rparr>"

lemma fresh_sizes: "sizes_ok (fresh_state n lev strat)"
  by (simp add: sizes_ok_def fresh_state_def)

lemma fresh_writer: "n \<le> 32768 \<Longrightarrow> writer [] (tr_init (fresh_state n lev strat)) [] []"
  by (rule writer.start [OF fresh_sizes]) (simp_all add: fresh_state_def)





lemma unat_of_nat_ush: "n < 65536 \<Longrightarrow> unat (of_nat n :: ush) = n"
  by (simp add: unat_of_nat take_bit_nat_eq_self)



end
