(* ===== verification/Deflate_Output.thy ===== *)
theory Deflate_Output
  imports Deflate_Window Trees_Session
begin

text \<open>
  The output side of \<open>deflate.c\<close>: what has been delivered, together with what is pending, is
  the output of the block writer, and the blocks written and the symbols tallied stand for
  the input up to the current position.
\<close>

section \<open>Delivering\<close>

text \<open>Bytes may be put: nothing is pending.\<close>

definition io_clear :: "dstate \<Rightarrow> bool" where
  "io_clear s \<longleftrightarrow> pending s = 0 \<and> pending_out s = 0"

text \<open>Otherwise no output space is left and less than a byte of bits is buffered.\<close>

definition io_ok :: "dstate \<Rightarrow> bool" where
  "io_ok s \<longleftrightarrow> (pending_out s = 0 \<or> bi_valid (tr s) < 8) \<and> (pending s = 0 \<longrightarrow> pending_out s = 0)"

definition oframe :: "dstate \<Rightarrow> dstate" where
  "oframe s = s\<lparr>tr := fresh_state 0 0 0, next_out := [], avail_out := 0, total_out := 0, pending_out := 0\<rparr>"

lemma oframeD:
  assumes "oframe s' = oframe s"
  shows "next_in s' = next_in s" "total_in s' = total_in s" "adler s' = adler s" "status s' = status s" "wrap s' = wrap s"
    "gzhead s' = gzhead s" "gzindex s' = gzindex s" "last_flush s' = last_flush s" "w_bits s' = w_bits s" "mem_level s' = mem_level s"
    "window s' = window s" "prev s' = prev s" "head s' = head s" "ins_h s' = ins_h s" "block_start s' = block_start s"
    "match_length s' = match_length s" "prev_match s' = prev_match s" "match_available s' = match_available s"
    "strstart s' = strstart s" "match_start s' = match_start s" "lookahead s' = lookahead s" "prev_length s' = prev_length s"
    "max_chain_length s' = max_chain_length s" "max_lazy_match s' = max_lazy_match s" "good_match s' = good_match s"
    "nice_match s' = nice_match s" "insert_cnt s' = insert_cnt s" "high_water s' = high_water s"
  using assms by (cases s; cases s'; simp add: oframe_def)+

text \<open>\<open>gone\<close> has been delivered after \<open>hdr\<close>, and is the beginning of the output of the block writer.\<close>

definition out_inv :: "byte list \<Rightarrow> dstate \<Rightarrow> byte list \<Rightarrow> token list \<Rightarrow> bool" where
  "out_inv hdr s out ts \<longleftrightarrow> (\<exists>gone. next_out s = hdr @ gone \<and> writer gone (tr s) out ts)"

definition tparams :: "trees_state \<Rightarrow> int \<times> int \<times> nat" where
  "tparams t = (comp_level t, strategy t, sym_end t)"

lemma bi_flush_idle: "bi_valid t < 8 \<Longrightarrow> bi_flush t = t"
  by (simp add: bi_flush_def)

lemma bi_flush_valid: "bi_valid t \<le> 16 \<Longrightarrow> bi_valid (bi_flush t) < 8"
  by (auto simp: bi_flush_def put_short_def put_byte_def)

lemma tparams_bi_flush: "tparams (bi_flush t) = tparams t" "sym_next (bi_flush t) = sym_next t"
  using tframe_more [OF tframe_bi_flush [of t]] tframe_eqD [OF tframe_bi_flush [of t]] by (simp_all add: tparams_def)

lemma flush_pending_moves:
  assumes "io_ok s"
  shows "\<exists>s'. flush_pending s = Some s' \<and> oframe s' = oframe s \<and>
    (let t = bi_flush (tr s); n = min (length (pending_buf t)) (avail_out s) in
      tr s' = t\<lparr>pending_buf := drop n (pending_buf t)\<rparr> \<and> next_out s' = next_out s @ take n (pending_buf t) \<and> avail_out s' = avail_out s - n \<and>
      (pending s' = 0 \<longrightarrow> pending_out s' = 0) \<and> (n = 0 \<longrightarrow> pending_out s' = pending_out s))"
proof -
  let ?s = "s\<lparr>tr := bi_flush (tr s)\<rparr>"
  have f: "flush_bits s = Some ?s"
    using assms by (auto simp: flush_bits_def on_trees_def io_ok_def bi_flush_idle tr_flush_bits_def)
  have z: "pending ?s = 0 \<Longrightarrow> pending_out s = 0"
    using assms by (auto simp: io_ok_def pending_def bi_flush_def put_short_def put_byte_def split: if_splits)
  show ?thesis
  proof (cases "min (pending ?s) (avail_out s) = 0")
    case True
    then have "flush_pending s = Some ?s" by (simp add: flush_pending_def f)
    then show ?thesis using True z by (auto simp: oframe_def Let_def pending_def min_def split: if_splits)
  next
    case False
    then show ?thesis by (simp add: flush_pending_def f Let_def oframe_def pending_def)
  qed
qed

lemma writer_bi_valid: "writer gone t out ts \<Longrightarrow> bi_valid t \<le> 16"
  using writer_session [of gone t out ts] by (simp add: session_def bi_wf_def Buf_size_def)

text \<open>After delivering, \<open>s'\<close> can put bytes if there is room left.\<close>

definition delivered :: "dstate \<Rightarrow> dstate \<Rightarrow> bool" where
  "delivered s s' \<longleftrightarrow> oframe s' = oframe s \<and> io_ok s' \<and> (avail_out s' \<noteq> 0 \<longrightarrow> io_clear s') \<and> tparams (tr s') = tparams (tr s) \<and>
     avail_out s' \<le> avail_out s"

lemma flush_pending_delivers:
  assumes "io_ok s" "bi_valid (tr s) \<le> 16"
  shows "\<exists>s' n. flush_pending s = Some s' \<and> delivered s s' \<and> bi_valid (tr s') < 8 \<and> sym_next (tr s') = sym_next (tr s) \<and>
    tr s' = (bi_flush (tr s))\<lparr>pending_buf := drop n (pending_buf (bi_flush (tr s)))\<rparr> \<and>
    next_out s' = next_out s @ take n (pending_buf (bi_flush (tr s)))"
proof -
  let ?t = "bi_flush (tr s)"
  let ?n = "min (length (pending_buf ?t)) (avail_out s)"
  obtain s' where s': "flush_pending s = Some s'" "oframe s' = oframe s" "tr s' = ?t\<lparr>pending_buf := drop ?n (pending_buf ?t)\<rparr>"
      "next_out s' = next_out s @ take ?n (pending_buf ?t)" "avail_out s' = avail_out s - ?n"
      "pending s' = 0 \<longrightarrow> pending_out s' = 0" "?n = 0 \<longrightarrow> pending_out s' = pending_out s"
    using flush_pending_moves [OF assms(1)] by (auto simp: Let_def)
  have v: "bi_valid (tr s') < 8" using bi_flush_valid [OF assms(2)] by (simp add: s'(3))
  have "pending s' = 0" if "avail_out s' \<noteq> 0" using that s'(5) by (simp add: pending_def s'(3) min_def split: if_splits)
  moreover have "tparams (tr s') = tparams (tr s)" "sym_next (tr s') = sym_next (tr s)"
    using tparams_bi_flush [of "tr s"] by (simp_all add: s'(3) tparams_def)
  ultimately have "delivered s s'" "sym_next (tr s') = sym_next (tr s)"
    using s' v by (auto simp: delivered_def io_ok_def io_clear_def)
  with s'(1,3,4) v show ?thesis by blast
qed

lemma out_inv_drain:
  assumes "out_inv hdr s out ts" "tr s' = (bi_flush (tr s))\<lparr>pending_buf := drop n (pending_buf (bi_flush (tr s)))\<rparr>"
    "next_out s' = next_out s @ take n (pending_buf (bi_flush (tr s)))"
  shows "out_inv hdr s' out ts"
proof -
  obtain gone where g: "next_out s = hdr @ gone" "writer gone (tr s) out ts" using assms(1) by (auto simp: out_inv_def)
  have "writer gone (bi_flush (tr s)) out ts" using writer.flush_bits [OF g(2)] by (simp add: tr_flush_bits_def)
  from writer.drain [OF this, of n] show ?thesis
    unfolding out_inv_def assms(2,3) g(1) by (intro exI [of _ "gone @ take n (pending_buf (bi_flush (tr s)))"]) simp
qed

lemma flush_pending_inv:
  assumes "io_ok s" "out_inv hdr s out ts"
  shows "\<exists>s'. flush_pending s = Some s' \<and> delivered s s' \<and> out_inv hdr s' out ts \<and> sym_next (tr s') = sym_next (tr s)"
proof -
  have "bi_valid (tr s) \<le> 16" using assms(2) writer_bi_valid by (auto simp: out_inv_def)
  from flush_pending_delivers [OF assms(1) this] out_inv_drain [OF assms(2)] show ?thesis by blast
qed

text \<open>After the last block nothing but whole bytes are left.\<close>

definition done_inv :: "byte list \<Rightarrow> dstate \<Rightarrow> byte list \<Rightarrow> bool" where
  "done_inv hdr s data \<longleftrightarrow> bi_valid (tr s) = 0 \<and>
     (\<exists>raw pad. next_out s @ pending_buf (tr s) = hdr @ raw \<and> stream_code (bytes_bits raw) [] pad data)"

lemma flush_pending_done:
  assumes "io_ok s" "done_inv hdr s data"
  shows "\<exists>s'. flush_pending s = Some s' \<and> delivered s s' \<and> done_inv hdr s' data"
proof -
  have v: "bi_valid (tr s) = 0" using assms(2) by (simp add: done_inv_def)
  then have "bi_flush (tr s) = tr s" by (simp add: bi_flush_idle)
  with flush_pending_delivers [OF assms(1)] v obtain s' n where s': "flush_pending s = Some s'" "delivered s s'"
      "tr s' = (tr s)\<lparr>pending_buf := drop n (pending_buf (tr s))\<rparr>" "next_out s' = next_out s @ take n (pending_buf (tr s))"
    by auto
  then have "next_out s' @ pending_buf (tr s') = next_out s @ pending_buf (tr s)" "bi_valid (tr s') = 0" using v by simp_all
  with s'(1,2) assms(2) show ?thesis by (auto simp: done_inv_def)
qed

section \<open>Blocks\<close>

text \<open>
  The blocks written and the symbols tallied stand for the input up to \<open>pend\<close> bytes before
  the current position; \<open>block_start\<close> is the position of the current block.
\<close>

definition covers :: "dstate \<Rightarrow> byte list \<Rightarrow> nat \<Rightarrow> byte list \<Rightarrow> token list \<Rightarrow> bool" where
  "covers s inp pend out ts \<longleftrightarrow> pend + lookahead s \<le> length inp \<and> lz_expand out ts = Some (take (length inp - lookahead s - pend) inp) \<and>
     int (length out) + int (strstart s) = int (length inp) - int (lookahead s) + block_start s"

lemma covers_out:
  assumes "covers s inp pend out ts"
  shows "out = take (length out) inp" "length out + pend + lookahead s \<le> length inp"
proof -
  have e: "lz_expand out ts = Some (take (length inp - lookahead s - pend) inp)" using assms by (simp add: covers_def)
  from lz_expand_prefix [OF this] obtain ys where ys: "take (length inp - lookahead s - pend) inp = out @ ys" by blast
  have "length out \<le> length (take (length inp - lookahead s - pend) inp)" using lz_expand_length [OF e] .
  moreover have "pend + lookahead s \<le> length inp" using assms by (simp add: covers_def)
  ultimately show l: "length out + pend + lookahead s \<le> length inp" by simp
  have "out = take (length out) (out @ ys)" by simp
  also have "\<dots> = take (length out) inp" unfolding ys [symmetric] using l by (simp add: min_absorb1)
  finally show "out = take (length out) inp" .
qed

lemma block_input_ok:
  assumes c: "covers s inp 0 out ts" and h: "holds s inp" and len: "length (window s) = window_size s"
    and small: "0 \<le> block_start s \<Longrightarrow> int (strstart s) - block_start s < 65536"
  shows "input_ok (if block_start s \<ge> 0 then Some (drop (nat (block_start s)) (window s)) else None)
    (nat (int (strstart s) - block_start s)) out (take (length inp - lookahead s) inp)"
proof (cases "block_start s \<ge> 0")
  case True
  let ?bs = "nat (block_start s)" and ?n = "strstart s + lookahead s"
  let ?slen = "strstart s - ?bs"
  note o = covers_out [OF c]
  have hn: "?n \<le> window_size s" "?n \<le> length inp" "take ?n (window s) = drop (length inp - ?n) inp" using h by (simp_all add: holds_def)
  have pos: "length out + strstart s + lookahead s = length inp + ?bs"
  proof -
    have "int (length out) + int (strstart s) = int (length inp) - int (lookahead s) + block_start s" using c by (simp add: covers_def)
    then show ?thesis using True by linarith
  qed
  then have le: "?bs \<le> strstart s" using o(2) by linarith
  have slen: "nat (int (strstart s) - block_start s) = ?slen" using True le by linarith
  have "take ?slen (drop ?bs (window s)) = take ?slen (drop ?bs (take ?n (window s)))"
    using le by (simp add: drop_take min_def)
  also have "\<dots> = take ?slen (drop (length out) inp)"
  proof -
    have "?bs + (length inp - ?n) = length out" using pos hn(2) by linarith
    then show ?thesis unfolding hn(3) by (simp add: drop_drop)
  qed
  also have "\<dots> = drop (length out) (take (length inp - lookahead s) inp)"
  proof -
    have "length inp - lookahead s - length out = ?slen" using pos le by linarith
    then show ?thesis by (simp add: drop_take)
  qed
  finally have t: "take ?slen (drop ?bs (window s)) = drop (length out) (take (length inp - lookahead s) inp)" .
  have "take (length out) (take (length inp - lookahead s) inp) = out" using o by (simp add: min_absorb1)
  then have "take (length inp - lookahead s) inp = out @ take ?slen (drop ?bs (window s))"
    unfolding t by (metis append_take_drop_id)
  moreover have "?slen < 65536" using small [OF True] True le by linarith
  moreover have "?slen \<le> length (drop ?bs (window s))" using hn(1) len by simp
  ultimately show ?thesis using True slen by (simp add: input_ok_def)
qed (simp add: input_ok_def)

text \<open>The states before and after the end of a block.\<close>

definition block_ended :: "dstate \<Rightarrow> dstate \<Rightarrow> bool" where
  "block_ended s s' \<longleftrightarrow> delivered (s\<lparr>block_start := int (strstart s)\<rparr>) s'"

lemma FLUSH_BLOCK_ONLY_eq:
  assumes "pending_out s = 0" "covers s inp 0 out ts"
  shows "FLUSH_BLOCK_ONLY s l = flush_pending (s\<lparr>tr := tr_flush_block (tr s)
    (if block_start s \<ge> 0 then Some (drop (nat (block_start s)) (window s)) else None) (nat (int (strstart s) - block_start s)) l,
    block_start := int (strstart s)\<rparr>)"
  using assms by (simp add: FLUSH_BLOCK_ONLY_def on_trees_def)

lemma tr_flush_block_params:
  assumes "writer gone t out ts" "lz_expand out ts = Some out'" "input_ok buf slen out out'"
  shows "tparams (tr_flush_block t buf slen l) = tparams t" "sym_next (tr_flush_block t buf slen l) = 0"
    "l \<Longrightarrow> bi_valid (tr_flush_block t buf slen l) = 0"
  using session_flushed [OF writer_session [OF assms(1)] assms(2,3), of l] by (simp_all add: flushed_def tparams_def fresh_block_def)

text \<open>Fewer than 64K bytes of the window are in the block, so that it can be stored.\<close>

definition small_block :: "dstate \<Rightarrow> bool" where
  "small_block s \<longleftrightarrow> (0 \<le> block_start s \<longrightarrow> int (strstart s) - block_start s < 65536)"

lemma delivered_tr: "delivered (s\<lparr>tr := t\<rparr>) s' \<Longrightarrow> tparams t = tparams (tr s) \<Longrightarrow> delivered s s'"
  by (simp add: delivered_def oframe_def)

lemma FLUSH_BLOCK_ONLY_inv:
  assumes io: "io_clear s" and o: "out_inv hdr s out ts" and c: "covers s inp 0 out ts" and h: "holds s inp"
    and len: "length (window s) = window_size s" and small: "small_block s"
  shows "\<exists>s'. FLUSH_BLOCK_ONLY s False = Some s' \<and> block_ended s s' \<and> out_inv hdr s' (take (length inp - lookahead s) inp) [] \<and> sym_next (tr s') = 0"
    "\<exists>s'. FLUSH_BLOCK_ONLY s True = Some s' \<and> block_ended s s' \<and> done_inv hdr s' (take (length inp - lookahead s) inp)"
proof -
  let ?buf = "if block_start s \<ge> 0 then Some (drop (nat (block_start s)) (window s)) else None"
  let ?slen = "nat (int (strstart s) - block_start s)" and ?out = "take (length inp - lookahead s) inp"
  let ?s = "\<lambda>l. s\<lparr>tr := tr_flush_block (tr s) ?buf ?slen l, block_start := int (strstart s)\<rparr>"
  have po: "pending_out s = 0" using io by (simp add: io_clear_def)
  obtain gone where g: "next_out s = hdr @ gone" "writer gone (tr s) out ts" using o by (auto simp: out_inv_def)
  have i: "input_ok ?buf ?slen out ?out" using block_input_ok [OF c h len] small by (simp add: small_block_def)
  have e: "lz_expand out ts = Some ?out" using c by (simp add: covers_def)
  note p = tr_flush_block_params [OF g(2) e i]
  have ok: "io_ok (?s l)" for l using po by (simp add: io_ok_def)
  have d: "delivered (?s l) s' \<Longrightarrow> block_ended s s'" for l s'
    using p(1) by (simp add: block_ended_def delivered_def oframe_def)
  have "out_inv hdr (?s False) ?out []"
    using g(1) writer.flush [OF g(2) e i] by (auto simp: out_inv_def)
  from flush_pending_inv [OF ok this] d p(2) [of False]
  show "\<exists>s'. FLUSH_BLOCK_ONLY s False = Some s' \<and> block_ended s s' \<and> out_inv hdr s' ?out [] \<and> sym_next (tr s') = 0"
    unfolding FLUSH_BLOCK_ONLY_eq [OF po c] by auto
  obtain pad where "stream_code (bytes_bits (gone @ pending_buf (tr_flush_block (tr s) ?buf ?slen True))) [] pad ?out"
    using writer_last_block [OF g(2) e i] by blast
  then have "done_inv hdr (?s True) ?out" using p(3) [of True] g(1)
    by (auto simp: done_inv_def intro!: exI [of _ "gone @ pending_buf (tr_flush_block (tr s) ?buf ?slen True)"])
  from flush_pending_done [OF ok this] d
  show "\<exists>s'. FLUSH_BLOCK_ONLY s True = Some s' \<and> block_ended s s' \<and> done_inv hdr s' ?out"
    unfolding FLUSH_BLOCK_ONLY_eq [OF po c] by auto
qed

section \<open>Symbols\<close>

lemma lz_expand_append: "lz_expand out (ts @ us) = Option.bind (lz_expand out ts) (\<lambda>o1. lz_expand o1 us)"
  by (induction out ts rule: lz_expand.induct) auto

lemma lz_copy_prefix_eq:
  assumes "p + len \<le> length inp" "1 \<le> d" "d \<le> p" "\<And>i. i < len \<Longrightarrow> inp ! (p + i) = inp ! (p + i - d)"
  shows "lz_copy (take p inp) len d = take (p + len) inp"
  using assms
proof (induction len arbitrary: p)
  case (Suc len)
  have "take p inp ! (length (take p inp) - d) = inp ! p" using Suc.prems(1-3) Suc.prems(4) [of 0] by (simp add: min_absorb1)
  then have "lz_copy (take p inp) (Suc len) d = lz_copy (take (Suc p) inp) len d"
    using Suc.prems(1) by (simp add: take_Suc_conv_app_nth min_absorb1)
  also have "\<dots> = take (Suc p + len) inp"
  proof (rule Suc.IH)
    show "inp ! (Suc p + i) = inp ! (Suc p + i - d)" if "i < len" for i using Suc.prems(4) [of "Suc i"] that by simp
  qed (use Suc.prems in auto)
  finally show ?case by simp
qed simp

lemma expand_literal:
  "lz_expand out ts = Some (take p inp) \<Longrightarrow> p < length inp \<Longrightarrow> lz_expand out (ts @ [Literal (inp ! p)]) = Some (take (p + 1) inp)"
  by (simp add: lz_expand_append take_Suc_conv_app_nth)

lemma expand_match:
  "lz_expand out ts = Some (take p inp) \<Longrightarrow> p + len \<le> length inp \<Longrightarrow> 1 \<le> d \<Longrightarrow> d \<le> p \<Longrightarrow>
    (\<And>i. i < len \<Longrightarrow> inp ! (p + i) = inp ! (p + i - d)) \<Longrightarrow> lz_expand out (ts @ [Match len d]) = Some (take (p + len) inp)"
  by (simp add: lz_expand_append lz_copy_prefix_eq min_absorb1)

text \<open>A tally changes only the block writer, and reports whether its symbol buffer is full.\<close>

definition tallies :: "dstate \<Rightarrow> dstate \<Rightarrow> bool \<Rightarrow> bool" where
  "tallies s s' b \<longleftrightarrow> s' = s\<lparr>tr := tr s'\<rparr> \<and> b = (sym_next (tr s') = sym_end (tr s')) \<and> sym_next (tr s') \<le> sym_end (tr s') \<and>
     tparams (tr s') = tparams (tr s) \<and> pending_buf (tr s') = pending_buf (tr s) \<and> 0 < sym_next (tr s')"

lemma tally_room:
  assumes "out_inv hdr s out ts" "sym_next (tr s) < sym_end (tr s)"
  shows "sym_next (tr s) + 3 \<le> sym_end (tr s)"
proof -
  obtain gone where "writer gone (tr s) out ts" using assms(1) by (auto simp: out_inv_def)
  from session_room(2) [OF writer_session [OF this] assms(2)] show ?thesis .
qed

lemma tally_lit_inv:
  assumes o: "out_inv hdr s out ts" "sym_next (tr s) < sym_end (tr s)" and t: "tally_lit s c = (b, s')"
  shows "tallies s s' b \<and> out_inv hdr s' out (ts @ [Literal c])"
proof -
  obtain gone where g: "next_out s = hdr @ gone" "writer gone (tr s) out ts" using o(1) by (auto simp: out_inv_def)
  have s': "s' = s\<lparr>tr := snd (tr_tally_lit (tr s) c)\<rparr>" "b = fst (tr_tally_lit (tr s) c)"
    using t by (auto simp: tally_lit_def split: prod.splits)
  have "tallies s s' b" using tally_room [OF o]
    by (simp add: tallies_def s' tr_tally_lit_def store_sym_def Let_def tparams_def)
  moreover have "out_inv hdr s' out (ts @ [Literal c])" using g writer.literal [OF g(2) o(2)] by (auto simp: out_inv_def s')
  ultimately show ?thesis by simp
qed

lemma tally_dist_inv:
  assumes o: "out_inv hdr s out ts" "sym_next (tr s) < sym_end (tr s)" and t: "tally_dist s d len = (b, s')"
    and d: "1 \<le> unat d" "unat d \<le> 32768" and len: "len \<le> 255"
  shows "tallies s s' b \<and> out_inv hdr s' out (ts @ [Match (len + 3) (unat d)])"
proof -
  obtain gone where g: "next_out s = hdr @ gone" "writer gone (tr s) out ts" using o(1) by (auto simp: out_inv_def)
  have s': "s' = s\<lparr>tr := snd (tr_tally_dist (tr s) (ucast d) (of_nat len))\<rparr>" "b = fst (tr_tally_dist (tr s) (ucast d) (of_nat len))"
    using t by (auto simp: tally_dist_def split: prod.splits)
  have ud: "unat (ucast d :: ush) = unat d" using d(2) by (simp add: unsigned_ucast_eq take_bit_nat_eq_self)
  have ul: "unat (of_nat len :: byte) = len" using len by (simp add: unat_of_nat take_bit_nat_eq_self)
  have "tallies s s' b" using tally_room [OF o]
    by (simp add: tallies_def s' tr_tally_dist_def store_sym_def Let_def tparams_def)
  moreover have "out_inv hdr s' out (ts @ [Match (len + 3) (unat d)])"
    using g writer.match [OF g(2) o(2), of "ucast d" "of_nat len"] d ud ul by (auto simp: out_inv_def s')
  ultimately show ?thesis by simp
qed

end
