(* ===== verification/Deflate_Greedy.thy ===== *)
theory Deflate_Greedy
  imports Deflate_Output
begin

text \<open>
  The compression functions without lazy evaluation, \<open>deflate_fast\<close>, \<open>deflate_rle\<close> and
  \<open>deflate_huff\<close>: the loop is the same, and is verified once for any way to code the string at
  the current position.
\<close>

section \<open>The contract of a compression function\<close>

definition rest_inv :: "byte list \<Rightarrow> dstate \<Rightarrow> byte list \<Rightarrow> nat \<Rightarrow> byte list \<Rightarrow> token list \<Rightarrow> bool" where
  "rest_inv hdr s inp pend out ts \<longleftrightarrow> win_inv s inp \<and> out_inv hdr s out ts \<and> covers s inp pend out ts \<and> sym_next (tr s) < sym_end (tr s)"

text \<open>The fields that a compression function does not change.\<close>

definition cparams where
  "cparams s = (status s, wrap s, gzhead s, gzindex s, last_flush s, w_bits s, mem_level s,
     max_chain_length s, max_lazy_match s, good_match s, nice_match s, tparams (tr s))"

text \<open>
  Called with the input \<open>inp\<close> read so far, the function returns \<open>r\<close>. \<open>R\<close> is the invariant at
  which it can be called again. Only a lack of output space or of input ends it early; at the
  end of a block everything read is in the blocks, and after the last block the output is
  complete.
\<close>

text \<open>How the function can end.\<close>

definition outcome :: "byte list \<Rightarrow> (dstate \<Rightarrow> byte list \<Rightarrow> byte list \<Rightarrow> token list \<Rightarrow> bool) \<Rightarrow> int \<Rightarrow> byte list \<Rightarrow> block_state \<Rightarrow> dstate \<Rightarrow> bool" where
  "outcome hdr R flush inp r s' \<longleftrightarrow> (case r of
        need_more \<Rightarrow> (\<exists>out ts. R s' inp out ts) \<and> (avail_out s' = 0 \<or> flush = Z_NO_FLUSH \<and> next_in s' = [])
      | Deflate.block_done \<Rightarrow> R s' inp inp [] \<and> flush \<noteq> Z_NO_FLUSH \<and> flush \<noteq> Z_FINISH \<and> next_in s' = [] \<and> lookahead s' = 0 \<and>
          io_clear s'
      | _ \<Rightarrow> done_inv hdr s' inp \<and> flush = Z_FINISH \<and> next_in s' = [] \<and> lookahead s' = 0 \<and>
          (r = finish_done \<longleftrightarrow> avail_out s' \<noteq> 0))"

definition comp_post :: "byte list \<Rightarrow> (dstate \<Rightarrow> byte list \<Rightarrow> byte list \<Rightarrow> token list \<Rightarrow> bool) \<Rightarrow> int \<Rightarrow> dstate \<Rightarrow> byte list \<Rightarrow>
    block_state \<Rightarrow> dstate \<Rightarrow> bool" where
  "comp_post hdr R flush s inp r s' \<longleftrightarrow> (\<exists>new. reads s s' new \<and> cparams s' = cparams s \<and> avail_out s' \<le> avail_out s \<and> io_ok s' \<and>
     (avail_out s' \<noteq> 0 \<longrightarrow> io_clear s') \<and> wf_sizes s' \<and> outcome hdr R flush (inp @ new) r s')"

lemma comp_post_trans:
  assumes "reads s s1 new" "cparams s1 = cparams s" "avail_out s1 \<le> avail_out s" "comp_post hdr R flush s1 (inp @ new) r s'"
  shows "comp_post hdr R flush s inp r s'"
  using assms(4) reads_trans [OF assms(1)] assms(2,3) unfolding comp_post_def append_assoc by (metis le_trans)

section \<open>Windows that agree\<close>

lemma win_inv_cong:
  assumes "w_bits s' = w_bits s" "mem_level s' = mem_level s" "window s' = window s" "prev s' = prev s" "head s' = head s"
    "strstart s' = strstart s" "lookahead s' = lookahead s" "insert_cnt s' = insert_cnt s"
  shows "win_inv s' inp = win_inv s inp" "ins_h s' = ins_h s \<Longrightarrow> ready s' = ready s"
proof -
  have e: "w_size s' = w_size s" "window_size s' = window_size s" "hash_size s' = hash_size s" "UPDATE_HASH s' h c = UPDATE_HASH s h c" for h c
    using assms by (simp_all add: w_size_def window_size_def hash_size_def hash_bits_def UPDATE_HASH_def hash_shift_def hash_mask_def)
  have k: "key s' k = key s k" for k using e assms by (simp add: key_def key3_def)
  have "chains s' C = chains s C" for C by (rule chains_frame) (use assms k in simp_all)
  then have "hash_inv s' = hash_inv s" using assms by (simp add: hash_inv_def)
  moreover have "wf_sizes s' = wf_sizes s" "holds s' inp = holds s inp" using assms e by (simp_all add: wf_sizes_def holds_def)
  ultimately show "win_inv s' inp = win_inv s inp" by (simp add: win_inv_def)
  show "ready s' = ready s" if "ins_h s' = ins_h s" using assms e that by (simp add: ready_def primed_def)
qed

lemma block_ended_win:
  assumes "block_ended s s'"
  shows "win_inv s' inp = win_inv s inp" "ready s' = ready s" "reads s s' []" "cparams s' = cparams s" "avail_out s' \<le> avail_out s"
    "io_ok s'" "avail_out s' \<noteq> 0 \<Longrightarrow> io_clear s'" "block_start s' = int (strstart s')" "strstart s' = strstart s" "lookahead s' = lookahead s"
    "match_available s' = match_available s" "match_length s' = match_length s" "prev_length s' = prev_length s" "match_start s' = match_start s"
    "prev_match s' = prev_match s" "next_in s' = next_in s"
proof -
  have o: "oframe s' = oframe (s\<lparr>block_start := int (strstart s)\<rparr>)" using assms by (simp add: block_ended_def delivered_def)
  note f = oframeD [OF o]
  show "win_inv s' inp = win_inv s inp" "ready s' = ready s" by (rule win_inv_cong; use f in simp)+
  show "reads s s' []" using f by (simp add: reads_def)
  show "cparams s' = cparams s" using f assms by (simp add: cparams_def block_ended_def delivered_def)
qed (use assms oframeD [of s' "s\<lparr>block_start := int (strstart s)\<rparr>"] in \<open>auto simp: block_ended_def delivered_def\<close>)

lemma block_ended_post:
  assumes "block_ended s s'" "win_inv s inp" "outcome hdr R flush inp r s'"
  shows "comp_post hdr R flush s inp r s'"
proof -
  note b = block_ended_win [OF assms(1)]
  have "win_inv s' inp" using b(1) [of inp] assms(2) by simp
  then have "wf_sizes s'" by (simp add: win_inv_def)
  then show ?thesis unfolding comp_post_def using b(3-7) assms(3) by (intro exI [of _ "[]"]) simp
qed

lemma FLUSH_BLOCK_ONLY_rest:
  assumes i: "win_inv s inp" "out_inv hdr s out ts" "covers s inp 0 out ts" "small_block s" "io_clear s" "0 < sym_end (tr s)"
  shows "\<exists>s'. FLUSH_BLOCK_ONLY s False = Some s' \<and> block_ended s s' \<and> rest_inv hdr s' inp 0 (take (length inp - lookahead s) inp) []"
proof -
  have h: "holds s inp" "length (window s) = window_size s" using i(1) by (simp_all add: win_inv_def wf_sizes_def)
  obtain s' where s': "FLUSH_BLOCK_ONLY s False = Some s'" "block_ended s s'" "out_inv hdr s' (take (length inp - lookahead s) inp) []"
      "sym_next (tr s') = 0"
    using FLUSH_BLOCK_ONLY_inv(1) [OF i(5,2,3) h i(4)] by (elim exE conjE)
  note b = block_ended_win [OF s'(2)]
  have "tparams (tr s') = tparams (tr s)" using b(4) by (simp add: cparams_def)
  then have "sym_next (tr s') < sym_end (tr s')" using s'(4) i(6) by (simp add: tparams_def)
  moreover have "covers s' inp 0 (take (length inp - lookahead s) inp) []" using i(3) b(8,10) by (simp add: covers_def)
  ultimately show ?thesis using s' b(1) i(1) by (auto simp: rest_inv_def)
qed

text \<open>The end of the input: all of it is in the window and stepped.\<close>

lemma end_input_post:
  assumes w: "win_inv s inp" "out_inv hdr s out ts" "covers s inp 0 out ts" "0 < sym_end (tr s)"
    and i: "small_block s" "io_clear s" "lookahead s = 0" "next_in s = []" "flush \<noteq> Z_NO_FLUSH"
    and R: "sym_next (tr s) = 0 \<Longrightarrow> R s inp out ts" "\<And>s'. block_ended s s' \<Longrightarrow> rest_inv hdr s' inp 0 inp [] \<Longrightarrow> R s' inp inp []"
  shows "\<exists>r s'. end_input flush s = Some (r, s') \<and> comp_post hdr R flush s inp r s'"
proof -
  have h: "holds s inp" "length (window s) = window_size s" "wf_sizes s" using w(1) by (simp_all add: win_inv_def wf_sizes_def)
  have all: "take (length inp - lookahead s) inp = inp" using i(3) by simp
  have io: "io_ok s" using i(2) by (simp add: io_clear_def io_ok_def)
  consider "flush = Z_FINISH" | "flush \<noteq> Z_FINISH" "sym_next (tr s) \<noteq> 0" | "flush \<noteq> Z_FINISH" "sym_next (tr s) = 0" by blast
  then show ?thesis
  proof cases
    case 1
    obtain s' where s': "FLUSH_BLOCK_ONLY s True = Some s'" "block_ended s s'" "done_inv hdr s' inp"
      using FLUSH_BLOCK_ONLY_inv(2) [OF i(2) w(2,3) h(1,2) i(1)] unfolding all by (elim exE conjE)
    note b = block_ended_win [OF s'(2)]
    have "outcome hdr R flush inp (if avail_out s' = 0 then finish_started else finish_done) s'"
      unfolding outcome_def using b(10,16) s'(3) 1 i(3,4) by simp
    from block_ended_post [OF s'(2) w(1) this] show ?thesis using s'(1) 1 by (simp add: end_input_def FLUSH_BLOCK_def)
  next
    case 2
    from FLUSH_BLOCK_ONLY_rest [OF w(1-3) i(1,2)] w(4) obtain s' where s': "FLUSH_BLOCK_ONLY s False = Some s'" "block_ended s s'"
      "rest_inv hdr s' inp 0 inp []" unfolding all by auto
    note b = block_ended_win [OF s'(2)]
    have "R s' inp inp []" using R(2) [OF s'(2,3)] .
    then have "outcome hdr R flush inp (if avail_out s' = 0 then need_more else Deflate.block_done) s'"
      unfolding outcome_def using b(7,10,16) 2(1) i(3,4,5) by auto
    from block_ended_post [OF s'(2) w(1) this] show ?thesis using s'(1) 2 by (simp add: end_input_def FLUSH_BLOCK_def)
  next
    case 3
    obtain gone where "writer gone (tr s) out ts" using w(2) by (auto simp: out_inv_def)
    from writer_session [OF this] have ts: "ts = []" using 3(2) by (simp add: session_def tallied_def)
    have "out = inp" using w(3) unfolding covers_def all ts by (simp add: i(3))
    then have "R s inp inp []" using R(1) [OF 3(2)] ts by simp
    then have "outcome hdr R flush inp Deflate.block_done s" unfolding outcome_def using i 3 by simp
    then have "comp_post hdr R flush s inp Deflate.block_done s"
      unfolding comp_post_def using h(3) io i(2) by (intro exI [of _ "[]"]) (simp add: reads_refl)
    then show ?thesis using 3 by (simp add: end_input_def)
  qed
qed

section \<open>The top of the loops\<close>

lemma covers_keeps:
  assumes "covers s inp pend out ts" "wkeeps s s'" "lookahead s' = lookahead s + length new"
  shows "covers s' (inp @ new) pend out ts"
proof -
  have "int (strstart s') - block_start s' = int (strstart s) - block_start s" using assms(2) by (simp add: wkeeps_def)
  then show ?thesis using assms(1,3) by (simp add: covers_def)
qed

lemma look_ahead_inv:
  assumes i: "rest_inv hdr s inp pend out ts" and need: "1 \<le> need" "need \<le> MIN_LOOKAHEAD"
  shows "\<exists>go s' new. look_ahead need flush s = Some (go, s') \<and> rest_inv hdr s' (inp @ new) pend out ts \<and> reads s s' new \<and> wkeeps s s' \<and>
    lookahead s' = lookahead s + length new \<and> (ready s \<longrightarrow> ready s') \<and> (need \<le> lookahead s' \<or> strstart s' + MIN_LOOKAHEAD < window_size s') \<and>
    (go = None \<longrightarrow> flush = Z_NO_FLUSH \<and> next_in s' = []) \<and>
    (go = Some False \<longrightarrow> flush \<noteq> Z_NO_FLUSH \<and> next_in s' = [] \<and> lookahead s' = 0) \<and> (go = Some True \<longrightarrow> lookahead s' \<noteq> 0)"
proof (cases "lookahead s < need")
  case False
  then show ?thesis using i need by (intro exI [of _ "Some True"] exI [of _ s] exI [of _ "[]"]) (simp add: look_ahead_def reads_refl wkeeps_refl)
next
  case True
  have w: "win_inv s inp" "out_inv hdr s out ts" "covers s inp pend out ts" "sym_next (tr s) < sym_end (tr s)"
    using i by (simp_all add: rest_inv_def)
  have "lookahead s < MIN_LOOKAHEAD" using True need(2) by simp
  from fill_window_inv [OF w(1) this] obtain s' new where f: "fill_window s = Some s'" "win_inv s' (inp @ new)" "reads s s' new" "wkeeps s s'"
    "lookahead s' = lookahead s + length new" "ready s \<longrightarrow> ready s'" "strstart s' + MIN_LOOKAHEAD < window_size s'"
    "lookahead s' < MIN_LOOKAHEAD \<longrightarrow> next_in s' = []"
    by (elim exE conjE)
  let ?go = "if lookahead s' < need \<and> flush = Z_NO_FLUSH then None else Some (lookahead s' \<noteq> 0)"
  have "look_ahead need flush s = Some (?go, s')" using True f(1) by (simp add: look_ahead_def)
  moreover have "out_inv hdr s' out ts" using w(2) wkeepsD(1,2) [OF f(4)] by (simp add: out_inv_def)
  moreover have "covers s' (inp @ new) pend out ts" by (rule covers_keeps [OF w(3) f(4,5)])
  ultimately show ?thesis using f(2-8) need wkeepsD(1) [OF f(4)] w(4)
    by (intro exI [of _ ?go] exI [of _ s'] exI [of _ new]) (simp add: rest_inv_def)
qed

section \<open>A loop around one way to code a string\<close>

text \<open>What coding a string leaves alone.\<close>

definition stepped :: "dstate \<Rightarrow> dstate \<Rightarrow> bool" where
  "stepped s s' \<longleftrightarrow> reads s s' [] \<and> cparams s' = cparams s \<and> avail_out s' = avail_out s \<and> pending_out s' = pending_out s \<and>
     pending_buf (tr s') = pending_buf (tr s)"

lemma stepped_io: "stepped s s' \<Longrightarrow> io_clear s' = io_clear s"
  by (simp add: stepped_def io_clear_def pending_def)

lemma wkeeps_stepped: "wkeeps s s' \<Longrightarrow> cparams s' = cparams s \<and> avail_out s' = avail_out s \<and> io_clear s' = io_clear s"
  by (simp add: cparams_def io_clear_def pending_def wkeepsD)

definition symbols :: "dstate \<Rightarrow> bool \<Rightarrow> bool" where
  "symbols s b \<longleftrightarrow> b = (sym_next (tr s) = sym_end (tr s)) \<and> sym_next (tr s) \<le> sym_end (tr s) \<and> 0 < sym_next (tr s)"

text \<open>The result of coding the string at the current position.\<close>

definition pass_post :: "byte list \<Rightarrow> (dstate \<Rightarrow> token list \<Rightarrow> bool) \<Rightarrow> dstate \<Rightarrow> byte list \<Rightarrow> byte list \<Rightarrow> bool \<Rightarrow> dstate \<Rightarrow> bool" where
  "pass_post hdr mode s inp out b s' \<longleftrightarrow> (\<exists>ts. win_inv s' inp \<and> out_inv hdr s' out ts \<and> covers s' inp 0 out ts \<and> mode s' ts) \<and>
     small_block s' \<and> stepped s s' \<and> symbols s' b \<and> input_left s' < input_left s"

definition loop_inv :: "(dstate \<Rightarrow> token list \<Rightarrow> bool) \<Rightarrow> byte list \<Rightarrow> dstate \<Rightarrow> byte list \<Rightarrow> byte list \<Rightarrow> token list \<Rightarrow> bool" where
  "loop_inv mode hdr s inp out ts \<longleftrightarrow> rest_inv hdr s inp 0 out ts \<and> mode s ts"

lemma small_block_room:
  assumes "wf_sizes s" "strstart s < window_size s"
  shows "small_block s"
  using w_size_bounds(3) [OF assms(1)] assms(2) by (auto simp: small_block_def)

lemma win_inv_at_end:
  assumes "win_inv s inp" "lookahead s = 0" "n \<le> strstart s" "n \<le> 2"
  shows "win_inv (s\<lparr>insert_cnt := n\<rparr>) inp"
proof -
  obtain C where C: "chains s C" "\<forall>h \<in> C. h + 3 \<le> strstart s" using assms(1,2) by (auto simp: win_inv_def hash_inv_def)
  have "hash_inv (s\<lparr>insert_cnt := n\<rparr>)" by (rule hash_invI [of _ C]) (use C assms(3,4) in fastforce)+
  then show ?thesis using assms(1) by (simp add: win_inv_def holds_def window_size_def w_size_def)
qed

locale greedy =
  fixes need :: nat and pass :: "dstate \<Rightarrow> bool \<times> dstate" and ins :: "dstate \<Rightarrow> nat"
    and loop :: "int \<Rightarrow> dstate \<Rightarrow> (block_state \<times> dstate) option" and mode :: "dstate \<Rightarrow> token list \<Rightarrow> bool"
  assumes need: "1 \<le> need" "need \<le> MIN_LOOKAHEAD"
    and loop_eq: "loop flush s = do {
        (go, s) \<leftarrow> look_ahead need flush s;
        case go of None \<Rightarrow> Some (need_more, s)
        | Some False \<Rightarrow> end_input flush (s\<lparr>insert_cnt := ins s\<rparr>)
        | Some True \<Rightarrow>
            let (bflush, s) = pass s in
            if bflush
            then do {
              (full, s) \<leftarrow> FLUSH_BLOCK s False;
              if full then Some (need_more, s) else loop flush s
            }
            else loop flush s
      }"
    and ins: "ins s \<le> strstart s" "ins s \<le> 2"
    and mode_end: "mode s ts \<Longrightarrow> lookahead s = 0 \<Longrightarrow> mode (s\<lparr>insert_cnt := ins s\<rparr>) ts"
    and mode_fill: "mode s ts \<Longrightarrow> wkeeps s s' \<Longrightarrow> (ready s \<Longrightarrow> ready s') \<Longrightarrow> mode s' ts"
    and mode_flush: "mode s ts \<Longrightarrow> block_ended s s' \<Longrightarrow> mode s' []"
    and pass_inv: "loop_inv mode hdr s inp out ts \<Longrightarrow> lookahead s \<noteq> 0 \<Longrightarrow> need \<le> lookahead s \<or> strstart s + MIN_LOOKAHEAD < window_size s \<Longrightarrow>
        pass s = (b, s') \<Longrightarrow> pass_post hdr mode s inp out b s'"
begin

lemma end_post:
  assumes i: "loop_inv mode hdr s inp out ts" "io_clear s" "lookahead s = 0" "next_in s = []" "flush \<noteq> Z_NO_FLUSH"
    "strstart s + MIN_LOOKAHEAD < window_size s"
  shows "\<exists>r s'. end_input flush (s\<lparr>insert_cnt := ins s\<rparr>) = Some (r, s') \<and> comp_post hdr (loop_inv mode hdr) flush s inp r s'"
proof -
  let ?s = "s\<lparr>insert_cnt := ins s\<rparr>"
  have w: "win_inv s inp" "out_inv hdr s out ts" "covers s inp 0 out ts" "sym_next (tr s) < sym_end (tr s)" "mode s ts"
    using i(1) by (simp_all add: rest_inv_def loop_inv_def)
  have "win_inv ?s inp" using win_inv_at_end [OF w(1) i(3) ins] .
  then have r: "rest_inv hdr ?s inp 0 out ts" using w(2-4) by (simp add: rest_inv_def out_inv_def covers_def)
  then have r': "win_inv ?s inp" "out_inv hdr ?s out ts" "covers ?s inp 0 out ts" "0 < sym_end (tr ?s)" by (simp_all add: rest_inv_def)
  note m = mode_end [OF w(5) i(3)]
  have "wf_sizes s" using w(1) by (simp add: win_inv_def)
  then have "small_block ?s" using small_block_room [of s] i(6) by (simp add: small_block_def)
  then have "\<exists>r s'. end_input flush ?s = Some (r, s') \<and> comp_post hdr (loop_inv mode hdr) flush ?s inp r s'"
    by (rule end_input_post [OF r']) (use i(2-5) r m mode_flush [OF m] in \<open>simp_all add: io_clear_def pending_def loop_inv_def\<close>)
  then obtain r s' where "end_input flush ?s = Some (r, s')" "comp_post hdr (loop_inv mode hdr) flush ?s inp r s'" by (elim exE conjE)
  moreover have "comp_post hdr (loop_inv mode hdr) flush s inp r s'"
  proof (rule comp_post_trans)
    show "reads s ?s []" "cparams ?s = cparams s" "avail_out ?s \<le> avail_out s" by (simp_all add: reads_def cparams_def)
    show "comp_post hdr (loop_inv mode hdr) flush ?s (inp @ []) r s'" using calculation(2) by simp
  qed
  ultimately show ?thesis by blast
qed

lemma loop_post:
  assumes "loop_inv mode hdr s inp out ts" "io_clear s"
  shows "\<exists>r s'. loop flush s = Some (r, s') \<and> comp_post hdr (loop_inv mode hdr) flush s inp r s'"
  using assms
proof (induction "input_left s" arbitrary: s inp out ts rule: less_induct)
  case less
  have i: "rest_inv hdr s inp 0 out ts" "mode s ts" using less.prems(1) by (simp_all add: loop_inv_def)
  obtain go s1 new where l: "look_ahead need flush s = Some (go, s1)" "rest_inv hdr s1 (inp @ new) 0 out ts" "reads s s1 new" "wkeeps s s1"
      "ready s \<longrightarrow> ready s1" "need \<le> lookahead s1 \<or> strstart s1 + MIN_LOOKAHEAD < window_size s1"
    and none: "go = None \<longrightarrow> flush = Z_NO_FLUSH \<and> next_in s1 = []"
    and brk: "go = Some False \<longrightarrow> flush \<noteq> Z_NO_FLUSH \<and> next_in s1 = [] \<and> lookahead s1 = 0" and more: "go = Some True \<longrightarrow> lookahead s1 \<noteq> 0"
    using look_ahead_inv [OF i(1) need, of flush] by (elim exE conjE)
  note k = wkeeps_stepped [OF l(4)]
  have li: "loop_inv mode hdr s1 (inp @ new) out ts" using l(2) mode_fill [OF i(2) l(4)] l(5) by (simp add: loop_inv_def)
  have io: "io_clear s1" using k less.prems(2) by simp
  have "\<exists>r s'. loop flush s = Some (r, s') \<and> comp_post hdr (loop_inv mode hdr) flush s1 (inp @ new) r s'"
  proof (cases go)
    case None
    have "wf_sizes s1" using l(2) by (simp add: rest_inv_def win_inv_def)
    moreover have "outcome hdr (loop_inv mode hdr) flush (inp @ new) need_more s1" using li none None by (auto simp: outcome_def)
    ultimately have "comp_post hdr (loop_inv mode hdr) flush s1 (inp @ new) need_more s1"
      unfolding comp_post_def using io by (intro exI [of _ "[]"]) (simp add: reads_refl io_clear_def io_ok_def)
    then show ?thesis using l(1) None by (subst loop_eq) simp
  next
    case (Some c)
    show ?thesis
    proof (cases c)
      case False
      have "loop flush s = end_input flush (s1\<lparr>insert_cnt := ins s1\<rparr>)" using l(1) Some False by (subst loop_eq) simp
      with end_post [OF li io] brk Some False l(6) need show ?thesis by simp
    next
      case True
      then have la: "lookahead s1 \<noteq> 0" using more Some by simp
      obtain b s2 where p: "pass s1 = (b, s2)" by force
      note post = pass_inv [OF li la l(6) p]
      then obtain ts2 where w: "win_inv s2 (inp @ new)" "out_inv hdr s2 out ts2" "covers s2 (inp @ new) 0 out ts2" "mode s2 ts2"
        by (auto simp: pass_post_def)
      have st: "small_block s2" "stepped s1 s2" "symbols s2 b" using post by (simp_all add: pass_post_def)
      have "input_left s1 = input_left s" using look_ahead_input [OF l(1)] by simp
      then have less2: "input_left s2 < input_left s" using post by (simp add: pass_post_def)
      have io2: "io_clear s2" using stepped_io [OF st(2)] io by simp
      have stp: "reads s1 s2 []" "cparams s2 = cparams s1" "avail_out s2 \<le> avail_out s1" using st(2) by (simp_all add: stepped_def)
      show ?thesis
      proof (cases b)
        case False
        have "loop_inv mode hdr s2 (inp @ new) out ts2" using w st(3) False by (simp add: loop_inv_def rest_inv_def symbols_def)
        from less.hyps [OF less2 this io2] obtain r s' where
          r: "loop flush s2 = Some (r, s')" "comp_post hdr (loop_inv mode hdr) flush s2 (inp @ new) r s'" by (elim exE conjE)
        have "loop flush s = loop flush s2" using l(1) Some \<open>c\<close> p False by (subst loop_eq) simp
        moreover have "comp_post hdr (loop_inv mode hdr) flush s1 (inp @ new) r s'"
          by (rule comp_post_trans [OF stp]) (use r(2) in simp)
        ultimately show ?thesis using r(1) by simp
      next
        case True
        then have full: "0 < sym_end (tr s2)" using st(3) by (simp add: symbols_def)
        obtain s3 where f: "FLUSH_BLOCK_ONLY s2 False = Some s3" "block_ended s2 s3"
            "rest_inv hdr s3 (inp @ new) 0 (take (length (inp @ new) - lookahead s2) (inp @ new)) []"
          using FLUSH_BLOCK_ONLY_rest [OF w(1-3) st(1) io2 full] by (elim exE conjE)
        note be = block_ended_win [OF f(2)]
        have li3: "loop_inv mode hdr s3 (inp @ new) (take (length (inp @ new) - lookahead s2) (inp @ new)) []"
          using f(3) mode_flush [OF w(4) f(2)] by (simp add: loop_inv_def)
        have e: "loop flush s = (if avail_out s3 = 0 then Some (need_more, s3) else loop flush s3)"
          using l(1) Some \<open>c\<close> p True f(1) by (subst loop_eq) (simp add: FLUSH_BLOCK_def)
        have "\<exists>r s'. loop flush s = Some (r, s') \<and> comp_post hdr (loop_inv mode hdr) flush s3 (inp @ new) r s'"
        proof (cases "avail_out s3 = 0")
          case True
          have "wf_sizes s3" using f(3) by (simp add: rest_inv_def win_inv_def)
          moreover have "outcome hdr (loop_inv mode hdr) flush (inp @ new) need_more s3" using li3 True by (auto simp: outcome_def)
          ultimately have "comp_post hdr (loop_inv mode hdr) flush s3 (inp @ new) need_more s3"
            unfolding comp_post_def using be(6) True by (intro exI [of _ "[]"]) (simp add: reads_refl)
          then show ?thesis using e True by simp
        next
          case False
          have "input_left s3 < input_left s" using less2 be(10,16) by (simp add: input_left_def)
          from less.hyps [OF this li3 be(7) [OF False]] show ?thesis using e False by simp
        qed
        then obtain r s' where r: "loop flush s = Some (r, s')" "comp_post hdr (loop_inv mode hdr) flush s3 (inp @ new) r s'" by (elim exE conjE)
        have "comp_post hdr (loop_inv mode hdr) flush s2 (inp @ new) r s'"
          by (rule comp_post_trans [OF be(3-5)]) (use r(2) in simp)
        then have "comp_post hdr (loop_inv mode hdr) flush s1 (inp @ new) r s'"
          by (intro comp_post_trans [OF stp]) simp
        then show ?thesis using r(1) by (intro exI conjI)
      qed
    qed
  qed
  then obtain r s' where r: "loop flush s = Some (r, s')" "comp_post hdr (loop_inv mode hdr) flush s1 (inp @ new) r s'" by (elim exE conjE)
  have "comp_post hdr (loop_inv mode hdr) flush s inp r s'" using comp_post_trans [OF l(3) _ _ r(2)] k by simp
  with r(1) show ?case by (intro exI conjI)
qed

end

end
