(* ===== verification/Deflate_Fast.thy ===== *)
theory Deflate_Fast
  imports Deflate_Greedy
begin

text \<open>
  What \<open>deflate_fast\<close> and \<open>deflate_slow\<close> have in common, the insertion of the current string
  and the search for a match, and the three functions without lazy evaluation as instances of
  the loop of \<open>Deflate_Greedy\<close>.
\<close>

section \<open>Frames\<close>

definition tables :: "dstate \<Rightarrow> nat \<times> nat \<times> byte list \<times> ush list \<times> ush list \<times> nat" where
  "tables s = (w_bits s, mem_level s, window s, prev s, head s, ins_h s)"

lemma tables_cong:
  assumes "tables s' = tables s"
  shows "chains s' C = chains s C" "primed s' k = primed s k" "wf_sizes s' = wf_sizes s" "key s' k = key s k"
    "window_size s' = window_size s" "w_size s' = w_size s" "MAX_DIST s' = MAX_DIST s" "window s' = window s"
proof -
  have e: "w_bits s' = w_bits s" "mem_level s' = mem_level s" "window s' = window s" "prev s' = prev s" "head s' = head s" "ins_h s' = ins_h s"
    using assms by (simp_all add: tables_def)
  then have up: "UPDATE_HASH s' h c = UPDATE_HASH s h c" for h c
    by (simp add: UPDATE_HASH_def hash_shift_def hash_mask_def hash_size_def hash_bits_def)
  have k: "key s' k = key s k" for k using e up by (simp add: key_def key3_def)
  show "chains s' C = chains s C" by (rule chains_frame) (use e k in simp_all)
  show "primed s' k = primed s k" "key s' k = key s k" using e up k by (simp_all add: primed_def)
  show "wf_sizes s' = wf_sizes s" "window_size s' = window_size s" "w_size s' = w_size s" "MAX_DIST s' = MAX_DIST s" "window s' = window s"
    using e by (simp_all add: wf_sizes_def window_size_def w_size_def hash_size_def hash_bits_def MAX_DIST_def)
qed

lemma UPDATE_HASH_first: "wf_sizes s \<Longrightarrow> UPDATE_HASH s 0 c = unat c"
proof (rule bit_eqI)
  fix i
  assume "wf_sizes s"
  then have "bit c i \<Longrightarrow> i < hash_bits s" using bit_imp_le_length [of c i] by (simp add: hash_bits_def wf_sizes_def)
  then show "bit (UPDATE_HASH s 0 c) i = bit (unat c) i" by (auto simp: bit_UPDATE_HASH bit_simps)
qed

lemma key_cong: "mem_level s' = mem_level s \<Longrightarrow> window s' = window s \<Longrightarrow> key s' k = key s k"
  by (simp add: key_def key3_def UPDATE_HASH_def hash_shift_def hash_mask_def hash_size_def hash_bits_def)

section \<open>The current string\<close>

text \<open>The string at \<open>strstart\<close> has been inserted, if it is long enough.\<close>

definition inserted :: "dstate \<Rightarrow> nat set \<Rightarrow> bool" where
  "inserted s C \<longleftrightarrow> chains s C \<and> insert_cnt s \<le> strstart s \<and> (\<forall>h \<in> C. h + 3 \<le> strstart s + lookahead s) \<and>
     (if 3 \<le> lookahead s then insert_cnt s = 0 \<and> primed s (strstart s + 1) \<and> (\<forall>h \<in> C. h \<le> strstart s)
      else \<forall>h \<in> C. h + insert_cnt s < strstart s)"

lemma insert_current_inv:
  assumes w: "win_inv s inp" "ready s" and i: "insert_current s = (h, s')"
  shows "\<exists>C. inserted s' C \<and> (h \<noteq> 0 \<longrightarrow> 3 \<le> lookahead s \<and> h \<in> C \<and> h < strstart s \<and> key s' h = key s' (strstart s))"
    "wf_sizes s'" "holds s' inp" "s' = s\<lparr>prev := prev s', head := head s', ins_h := ins_h s'\<rparr>"
proof -
  have sz: "wf_sizes s" "holds s inp" using w(1) by (simp_all add: win_inv_def)
  obtain C where C: "chains s C" "\<forall>h \<in> C. h + 3 \<le> strstart s + lookahead s \<and> h + insert_cnt s < strstart s" "insert_cnt s \<le> strstart s"
    using w(1) by (auto simp: win_inv_def hash_inv_def)
  have "(\<exists>C. inserted s' C \<and> (h \<noteq> 0 \<longrightarrow> 3 \<le> lookahead s \<and> h \<in> C \<and> h < strstart s \<and> key s' h = key s' (strstart s))) \<and>
      wf_sizes s' \<and> s' = s\<lparr>prev := prev s', head := head s', ins_h := ins_h s'\<rparr>"
  proof (cases "3 \<le> lookahead s")
    case False
    then have "s' = s" "h = 0" using i by (auto simp: insert_current_def MIN_MATCH_def)
    moreover have "inserted s C" using C False by (simp add: inserted_def)
    ultimately show ?thesis using sz(1) by auto
  next
    case True
    then have r: "insert_cnt s = 0" "primed s (strstart s)" "INSERT_STRING s (strstart s) = (h, s')"
      using w(2) i by (auto simp: ready_def insert_current_def MIN_MATCH_def)
    have bound: "\<forall>h \<in> C. h < strstart s" using C(2) r(1) by simp
    have room: "strstart s < window_size s" using sz(2) True by (simp add: holds_def)
    note fr = INSERT_STRING_frame [OF r(3)]
    obtain C' where C': "chains s' C'" "\<forall>h \<in> C'. h \<in> C \<or> h = strstart s" "C' = (if strstart s = 0 then C else insert (strstart s) C)"
      using chains_insert(1) [OF C(1) sz(1) r(2) bound room r(3)] by (auto split: if_splits)
    note one = insert_one(2-4) [OF C(1) sz(1) r(2) bound room r(3)]
    have eqs: "strstart s' = strstart s" "lookahead s' = lookahead s" "insert_cnt s' = insert_cnt s" by (subst fr, simp)+
    have "mem_level s' = mem_level s" "window s' = window s" by (subst fr, simp)+
    then have "key s' k = key s k" for k by (rule key_cong)
    then have "h \<noteq> 0 \<longrightarrow> h \<in> C' \<and> h < strstart s \<and> key s' h = key s' (strstart s)" using one(3) bound C'(3) by auto
    moreover have "h \<le> strstart s \<and> h + 3 \<le> strstart s + lookahead s" if "h \<in> C'" for h
      using C'(2) that C(2) bound True by (fastforce intro: less_imp_le)
    then have "inserted s' C'" using True C'(1) one(2) r(1) by (simp add: inserted_def eqs)
    ultimately show ?thesis using one(1) fr True by blast
  qed
  note res = this
  show "\<exists>C. inserted s' C \<and> (h \<noteq> 0 \<longrightarrow> 3 \<le> lookahead s \<and> h \<in> C \<and> h < strstart s \<and> key s' h = key s' (strstart s))"
    "wf_sizes s'" using res by blast+
  have fr: "s' = s\<lparr>prev := prev s', head := head s', ins_h := ins_h s'\<rparr>" using res by blast
  show "holds s' inp" using sz(2) by (subst fr) (simp add: holds_def window_size_def w_size_def)
  show "s' = s\<lparr>prev := prev s', head := head s', ins_h := ins_h s'\<rparr>" by (rule fr)
qed

lemma inserted_cong:
  assumes "tables s' = tables s" "insert_cnt s' = insert_cnt s" "strstart s' = strstart s" "lookahead s' = lookahead s"
  shows "inserted s' C = inserted s C"
  using tables_cong [OF assms(1)] assms(2-4) by (simp add: inserted_def)

text \<open>A match for the string at input position \<open>p\<close>.\<close>

definition match_ok :: "byte list \<Rightarrow> nat \<Rightarrow> nat \<Rightarrow> nat \<Rightarrow> bool" where
  "match_ok inp p len d \<longleftrightarrow> p + len \<le> length inp \<and> 1 \<le> d \<and> d \<le> p \<and> d \<le> 32768 \<and> 3 \<le> len \<and> len \<le> 258 \<and> (\<forall>i < len. inp ! (p + i) = inp ! (p + i - d))"

lemma same_match_ok:
  assumes s: "same (window s) m (strstart s) len" "m < strstart s" "strstart s \<le> m + 32768" "3 \<le> len" "len \<le> 258"
    and h: "holds s inp" and len: "len \<le> lookahead s"
  shows "match_ok inp (length inp - lookahead s) len (strstart s - m)"
proof -
  let ?p = "length inp - lookahead s" and ?n = "strstart s + lookahead s"
  have hn: "?n \<le> length inp" using h by (simp add: holds_def)
  have "inp ! (?p + i) = inp ! (?p + i - (strstart s - m))" if "i < len" for i
  proof -
    have "window s ! (strstart s + i) = inp ! (length inp - ?n + (strstart s + i))" "window s ! (m + i) = inp ! (length inp - ?n + (m + i))"
      using holds_nth [OF h] that len s(2) by simp_all
    moreover have "length inp - ?n + (strstart s + i) = ?p + i" "length inp - ?n + (m + i) = ?p + i - (strstart s - m)"
      using hn s(2) by simp_all
    moreover have "window s ! (m + i) = window s ! (strstart s + i)" using s(1) that by (simp add: same_def)
    ultimately show ?thesis by (simp only:)
  qed
  moreover have "?p + len \<le> length inp" "1 \<le> strstart s - m" "strstart s - m \<le> ?p" "strstart s - m \<le> 32768"
    using s(2,3) hn len by linarith+
  ultimately show ?thesis using s(4,5) unfolding match_ok_def by blast
qed

lemma good_match_ok:
  assumes g: "good_at s m len" and h: "holds s inp" and len: "len \<le> lookahead s" and sz: "wf_sizes s"
  shows "match_ok inp (length inp - lookahead s) len (strstart s - m)"
proof (rule same_match_ok [OF _ _ _ _ _ h len])
  have "MAX_DIST s \<le> 32768" using w_size_bounds(2) [OF sz] by (simp add: MAX_DIST_def)
  then show "strstart s \<le> m + 32768" using g by (simp add: good_at_def)
qed (use g in \<open>simp_all add: good_at_def\<close>)

text \<open>The search: a result that is longer than \<open>prev_length\<close> is a match, and \<open>match_start\<close> its distance.\<close>

lemma search_inv:
  assumes i: "inserted s C" "wf_sizes s" "holds s inp" and h: "h \<in> C" "h < strstart s" "key s h = key s (strstart s)" "3 \<le> lookahead s"
    and far: "strstart s - h \<le> MAX_DIST s" and r: "longest_match s h = (len, s')"
  shows "\<exists>ms. s' = s\<lparr>match_start := ms\<rparr> \<and> len \<le> lookahead s \<and>
    (prev_length s < len \<and> 3 \<le> len \<longrightarrow> match_ok inp (length inp - lookahead s) len (unat (of_nat (strstart s) - ms)))"
proof -
  have c: "chains s C" "\<forall>h \<in> C. h \<le> strstart s" using i(1) h(4) by (simp_all add: inserted_def)
  have "candidate s C h" using h far by (simp add: candidate_def)
  from longest_match_good [OF c(1) i(2) c(2) this r] obtain ms where
    ms: "s' = s\<lparr>match_start := ms\<rparr>" "len \<le> lookahead s" "prev_length s < len \<and> 3 \<le> len \<longrightarrow> (\<exists>m. ms = of_nat m \<and> good_at s m len)"
    by (elim exE conjE)
  have "match_ok inp (length inp - lookahead s) len (unat (of_nat (strstart s) - ms))" if l: "prev_length s < len" "3 \<le> len"
  proof -
    obtain m where m: "ms = of_nat m" "good_at s m len" using ms(3) l by blast
    have lt: "m < strstart s" "strstart s \<le> 65536" using m(2) i(3) w_size_bounds(3) [OF i(2)] by (simp_all add: good_at_def holds_def)
    have u: "unat (of_nat k :: uint) = k" if "k \<le> 65536" for k using that by (simp add: unat_of_nat take_bit_nat_eq_self)
    have "of_nat (strstart s) - ms = of_nat (strstart s - m)" using lt by (simp add: m(1) of_nat_diff)
    moreover have "unat (of_nat (strstart s - m) :: uint) = strstart s - m" by (rule u) (use lt in simp)
    ultimately have "unat (of_nat (strstart s) - ms) = strstart s - m" by (simp only:)
    then show ?thesis using good_match_ok [OF m(2) i(3) ms(2) i(2)] by simp
  qed
  with ms(1,2) show ?thesis by blast
qed

section \<open>Moving on\<close>

lemma moved_win:
  assumes "chains s C" "wf_sizes s" "holds s inp" "insert_cnt s \<le> strstart s"
    "\<forall>h \<in> C. h + insert_cnt s < strstart s \<and> h + 3 \<le> strstart s + lookahead s"
    "3 \<le> lookahead s \<Longrightarrow> insert_cnt s = 0 \<and> primed s (strstart s)"
  shows "win_inv s inp" "ready s"
proof -
  have "hash_inv s" by (rule hash_invI [OF assms(1,4)]) (use assms(5) in blast)
  then show "win_inv s inp" using assms(2,3) by (simp add: win_inv_def)
  show "ready s" using assms(6) by (simp add: ready_def)
qed

lemma holds_moved: "holds s inp \<Longrightarrow> strstart s' + lookahead s' = strstart s + lookahead s \<Longrightarrow> tables s' = tables s \<Longrightarrow> holds s' inp"
  using tables_cong [of s' s] by (simp add: holds_def)

lemma moved_one:
  assumes i: "inserted s C" "wf_sizes s" "holds s inp" "lookahead s \<noteq> 0"
    and s': "tables s' = tables s" "insert_cnt s' = insert_cnt s" "strstart s' = strstart s + 1" "lookahead s' = lookahead s - 1"
  shows "win_inv s' inp" "ready s'"
proof -
  note tc = tables_cong [OF s'(1)]
  have c: "chains s' C" "wf_sizes s'" using i tc by (simp_all add: inserted_def)
  have h: "holds s' inp" by (rule holds_moved [OF i(3) _ s'(1)]) (use s' i(4) in simp)
  have b: "\<forall>h \<in> C. h + insert_cnt s' < strstart s' \<and> h + 3 \<le> strstart s' + lookahead s'"
    using i(1,4) by (auto simp: inserted_def s' split: if_splits)
  have p: "3 \<le> lookahead s' \<Longrightarrow> insert_cnt s' = 0 \<and> primed s' (strstart s')"
    using i(1) tc s' by (auto simp: inserted_def split: if_splits)
  have n: "insert_cnt s' \<le> strstart s'" using i(1) s' by (simp add: inserted_def)
  show "win_inv s' inp" "ready s'" using moved_win [OF c h n b p] by blast+
qed

text \<open>What inserting the strings of a match leaves alone.\<close>

definition sframe :: "dstate \<Rightarrow> dstate" where
  "sframe s = s\<lparr>prev := [], head := [], ins_h := 0, match_length := 0, strstart := 0, prev_length := 0\<rparr>"

lemma sframeD:
  assumes "sframe s' = sframe s"
  shows "tr s' = tr s" "next_in s' = next_in s" "total_in s' = total_in s" "next_out s' = next_out s" "avail_out s' = avail_out s"
    "adler s' = adler s" "status s' = status s" "pending_out s' = pending_out s" "wrap s' = wrap s" "gzhead s' = gzhead s"
    "gzindex s' = gzindex s" "last_flush s' = last_flush s" "w_bits s' = w_bits s" "mem_level s' = mem_level s" "window s' = window s"
    "block_start s' = block_start s" "match_available s' = match_available s" "lookahead s' = lookahead s"
    "max_chain_length s' = max_chain_length s" "max_lazy_match s' = max_lazy_match s" "good_match s' = good_match s"
    "nice_match s' = nice_match s" "insert_cnt s' = insert_cnt s" "window_size s' = window_size s" "match_start s' = match_start s" "prev_match s' = prev_match s"
proof -
  have "sframe s' = sframe s \<Longrightarrow> w_bits s' = w_bits s" by (cases s; cases s'; simp add: sframe_def)
  then show "window_size s' = window_size s" using assms by (simp add: window_size_def w_size_def)
qed (use assms in \<open>cases s; cases s'; simp add: sframe_def\<close>)+

lemma sframe_stepped:
  assumes "sframe s' = sframe s"
  shows "stepped s s'"
  by (simp add: stepped_def reads_def cparams_def sframeD [OF assms])

lemma insert_current_frame:
  assumes "insert_current s = (h, s')"
  shows "sframe s' = sframe s" "strstart s' = strstart s" "match_length s' = match_length s" "prev_length s' = prev_length s"
  using assms by (auto simp: insert_current_def INSERT_STRING_def Let_def sframe_def split: if_splits)

text \<open>The strings of a match, from the one after the current.\<close>

lemma insert_next:
  assumes "chains s C" "wf_sizes s" "primed s (strstart s + 1)" "\<forall>h \<in> C. h \<le> strstart s" "strstart s + 1 < window_size s"
    and s1: "s1 = s\<lparr>strstart := strstart s + 1\<rparr>" "INSERT_STRING s1 (strstart s + 1) = (m, s')"
  shows "(\<exists>C'. chains s' C' \<and> (\<forall>h \<in> C'. h \<in> C \<or> h = strstart s + 1)) \<and> wf_sizes s' \<and> primed s' (strstart s + 2) \<and>
    sframe s' = sframe s \<and> strstart s' = strstart s + 1 \<and> prev_length s' = prev_length s \<and> match_length s' = match_length s"
proof -
  have "tables s1 = tables s" by (simp add: s1 tables_def)
  note tc = tables_cong [OF this]
  have b: "\<forall>h \<in> C. h < strstart s + 1" using assms(4) by (simp add: le_imp_less_Suc)
  have c1: "chains s1 C" and w1: "wf_sizes s1" and p1: "primed s1 (strstart s + 1)" and r1: "strstart s + 1 < window_size s1"
    using assms(1-3,5) tc by simp_all
  note one = insert_one [OF c1 w1 p1 b r1 s1(2)]
  have fr: "s' = s1\<lparr>prev := prev s', head := head s', ins_h := ins_h s'\<rparr>" using INSERT_STRING_frame [OF s1(2)] by simp
  have "sframe s' = sframe s" by (subst fr) (simp add: s1(1) sframe_def)
  moreover have "strstart s' = strstart s + 1" "prev_length s' = prev_length s" "match_length s' = match_length s"
    by (subst fr, simp add: s1(1))+
  ultimately show ?thesis using one(1-3) by (simp add: add.assoc)
qed

lemma insert_run_inv:
  "chains s C \<Longrightarrow> wf_sizes s \<Longrightarrow> primed s (strstart s + 1) \<Longrightarrow> \<forall>h \<in> C. h \<le> strstart s \<Longrightarrow> strstart s + n < window_size s \<Longrightarrow>
    s' = insert_run n s \<Longrightarrow>
    (\<exists>C'. chains s' C' \<and> (\<forall>h \<in> C'. h \<in> C \<or> h \<le> strstart s + n)) \<and> wf_sizes s' \<and> primed s' (strstart s + n + 1) \<and>
    sframe s' = sframe s \<and> strstart s' = strstart s + n \<and> prev_length s' = prev_length s \<and> (n \<noteq> 0 \<longrightarrow> match_length s' = 0)"
proof (induction n s arbitrary: C s' rule: insert_run.induct)
  case (1 s)
  then show ?case by auto
next
  case (2 n s)
  let ?s1 = "s\<lparr>strstart := strstart s + 1\<rparr>"
  obtain m s2 where ins: "INSERT_STRING ?s1 (strstart s + 1) = (m, s2)" by force
  have "strstart s + 1 < window_size s" using 2(6) by simp
  from insert_next [OF 2(2-5) this refl ins] obtain C1 where C1: "chains s2 C1" "\<forall>h \<in> C1. h \<in> C \<or> h = strstart s + 1" "wf_sizes s2"
    "primed s2 (strstart s + 2)" and st: "sframe s2 = sframe s" "strstart s2 = strstart s + 1" "prev_length s2 = prev_length s"
    by (elim exE conjE)
  let ?s = "s2\<lparr>match_length := n\<rparr>"
  have "tables ?s = tables s2" by (simp add: tables_def)
  note tc = tables_cong [OF this]
  have run: "s' = insert_run n ?s" using ins 2(7) by (simp add: Let_def)
  have b: "\<forall>h \<in> C1. h \<le> strstart ?s" using C1(2) 2(5) by (fastforce simp: st)
  have pre: "chains ?s C1" "wf_sizes ?s" "primed ?s (strstart ?s + 1)" "strstart ?s + n < window_size ?s"
    using C1(1,3,4) tc st(2) sframeD(24) [OF st(1)] 2(6) by simp_all
  have ih: "(\<exists>C'. chains s' C' \<and> (\<forall>h \<in> C'. h \<in> C1 \<or> h \<le> strstart ?s + n)) \<and> wf_sizes s' \<and> primed s' (strstart ?s + n + 1) \<and>
      sframe s' = sframe ?s \<and> strstart s' = strstart ?s + n \<and> prev_length s' = prev_length ?s \<and> (n \<noteq> 0 \<longrightarrow> match_length s' = 0)"
    by (rule 2(1) [OF refl _ pre(1-3) b pre(4) run]) (use ins in simp)
  then obtain C' where C': "chains s' C'" "\<forall>h \<in> C'. h \<in> C1 \<or> h \<le> strstart ?s + n" by (elim exE conjE)
  have "\<forall>h \<in> C'. h \<in> C \<or> h \<le> strstart s + Suc n" using C'(2) C1(2) by (fastforce simp: st)
  moreover have "sframe ?s = sframe s2" by (simp add: sframe_def)
  moreover have "match_length s' = 0" using ih run by (cases n) auto
  ultimately show ?case using ih C'(1) st by (intro conjI exI [of _ C']) simp_all
qed

lemma skip_match_inv:
  assumes i: "inserted s C" "wf_sizes s" "holds s inp" "3 \<le> lookahead s" and n: "n = match_length s" "3 \<le> n" "n \<le> lookahead s"
      "strstart s + n < window_size s"
    and s0: "s0 = s\<lparr>lookahead := lookahead s - n\<rparr>" and s': "s' = skip_match s0"
  shows "win_inv s' inp \<and> ready s' \<and> sframe s' = sframe s0 \<and> strstart s' = strstart s + n \<and> match_length s' = 0 \<and> prev_length s' = prev_length s"
proof -
  have tb: "tables s0 = tables s" by (simp add: s0 tables_def)
  note tc = tables_cong [OF tb]
  have c: "chains s C" "primed s (strstart s + 1)" "\<forall>h \<in> C. h \<le> strstart s \<and> h + 3 \<le> strstart s + lookahead s" "insert_cnt s = 0"
    using i(1,4) by (simp_all add: inserted_def)
  show ?thesis
  proof (cases "match_length s0 \<le> max_lazy_match s0 \<and> lookahead s0 \<ge> MIN_MATCH")
    case True
    define s1 where "s1 = insert_run (n - 1) s0"
    have e1: "s' = s1\<lparr>strstart := strstart s1 + 1\<rparr>" using True n(1) by (simp add: s' skip_match_def s1_def s0 Let_def)
    have pre: "chains s0 C" "wf_sizes s0" "primed s0 (strstart s0 + 1)" "\<forall>h \<in> C. h \<le> strstart s0" "strstart s0 + (n - 1) < window_size s0"
      using c i(2) tc n(4) by (simp_all add: s0)
    note ir = insert_run_inv [OF pre s1_def]
    then obtain C' where C': "chains s1 C'" "\<forall>h \<in> C'. h \<in> C \<or> h \<le> strstart s0 + (n - 1)" by (elim conjE exE)
    have tb1: "tables s' = tables s1" using e1 by (simp add: tables_def)
    note tc1 = tables_cong [OF tb1]
    have fr: "sframe s1 = sframe s0" "strstart s1 = strstart s + (n - 1)" "match_length s1 = 0" "prev_length s1 = prev_length s"
      using ir n(2) by (simp_all add: s0)
    note f = sframeD [OF fr(1)]
    have st: "strstart s' = strstart s + n" "lookahead s' = lookahead s - n" "insert_cnt s' = 0"
      using e1 fr f n(2) c(4) by (simp_all add: s0)
    have "window s' = window s" "window_size s' = window_size s" using tc1 f tc by simp_all
    then have h: "holds s' inp" using i(3) st n(3) by (simp add: holds_def)
    have b: "\<forall>h \<in> C'. h + insert_cnt s' < strstart s' \<and> h + 3 \<le> strstart s' + lookahead s'"
    proof
      fix h assume "h \<in> C'"
      then have "h \<in> C \<or> h \<le> strstart s + (n - 1)" using C'(2) by (simp add: s0)
      then show "h + insert_cnt s' < strstart s' \<and> h + 3 \<le> strstart s' + lookahead s'"
      proof
        assume "h \<in> C"
        then have "h \<le> strstart s" "h + 3 \<le> strstart s + lookahead s" using c(3) by auto
        then show ?thesis using st n by linarith
      next
        assume "h \<le> strstart s + (n - 1)"
        moreover have "3 \<le> lookahead s - n" using True by (simp add: s0 MIN_MATCH_def)
        ultimately show ?thesis using st n by linarith
      qed
    qed
    have "chains s' C'" "wf_sizes s'" "primed s' (strstart s')" using C'(1) ir tc1 st(1) n(2) by (simp_all add: s0)
    from moved_win [OF this(1,2) h _ b] this(3) st(3) have "win_inv s' inp" "ready s'" by simp_all
    moreover have "sframe s' = sframe s1" using e1 by (simp add: sframe_def)
    ultimately show ?thesis using fr st(1) e1 by simp
  next
    case False
    let ?k = "strstart s + n"
    have "UPDATE_HASH (s0\<lparr>strstart := a, match_length := b\<rparr>) x y = UPDATE_HASH s0 x y" for a b x y
      by (simp add: UPDATE_HASH_def hash_shift_def hash_mask_def hash_size_def hash_bits_def)
    then have e: "s' = s0\<lparr>ins_h := UPDATE_HASH s0 (unat (window s0 ! ?k)) (window s0 ! (?k + 1)), match_length := 0, strstart := ?k\<rparr>"
      using False n(1) by (auto simp: s' skip_match_def s0 Let_def)
    have up: "UPDATE_HASH s' x y = UPDATE_HASH s0 x y" for x y
      by (simp add: e UPDATE_HASH_def hash_shift_def hash_mask_def hash_size_def hash_bits_def)
    have sz: "wf_sizes s0" using i(2) tc by simp
    then have pr: "primed s' ?k" unfolding primed_def by (intro exI [of _ 0]) (simp add: up UPDATE_HASH_first, simp add: e)
    have "key s' k = key s k" for k by (rule key_cong) (simp_all add: e s0)
    then have ch: "chains s' C" using c(1) by (subst chains_frame) (simp_all add: e s0)
    have wf: "wf_sizes s'" using i(2) by (simp add: e s0 wf_sizes_def window_size_def w_size_def hash_size_def hash_bits_def)
    have h: "holds s' inp" using i(3) n(3) by (simp add: e s0 holds_def window_size_def w_size_def)
    have st: "strstart s' = strstart s + n" "lookahead s' = lookahead s - n" "insert_cnt s' = 0" using c(4) by (simp_all add: e s0)
    have b: "\<forall>h \<in> C. h + insert_cnt s' < strstart s' \<and> h + 3 \<le> strstart s' + lookahead s'"
      using c(3) n(2,3) by (auto simp: st)
    from moved_win [OF ch wf h _ b] pr st have "win_inv s' inp" "ready s'" by simp_all
    moreover have "sframe s' = sframe s0" by (simp add: e sframe_def)
    ultimately show ?thesis using st(1) by (simp add: e s0)
  qed
qed

section \<open>Symbols for the input\<close>

lemma emit_literal:
  assumes o: "out_inv hdr s out ts" "sym_next (tr s) < sym_end (tr s)" and e: "lz_expand out ts = Some (take p inp)" "p < length inp"
    and t: "tally_lit s (inp ! p) = (b, s')"
  shows "tallies s s' b \<and> out_inv hdr s' out (ts @ [Literal (inp ! p)]) \<and> lz_expand out (ts @ [Literal (inp ! p)]) = Some (take (p + 1) inp)"
  using tally_lit_inv [OF o t] expand_literal [OF e] by simp

lemma emit_match:
  assumes o: "out_inv hdr s out ts" "sym_next (tr s) < sym_end (tr s)" and e: "lz_expand out ts = Some (take p inp)"
    and m: "match_ok inp p len (unat d)" and t: "tally_dist s d (len - 3) = (b, s')"
  shows "tallies s s' b \<and> out_inv hdr s' out (ts @ [Match len (unat d)]) \<and> lz_expand out (ts @ [Match len (unat d)]) = Some (take (p + len) inp)"
proof -
  have m': "p + len \<le> length inp" "1 \<le> unat d" "unat d \<le> p" "unat d \<le> 32768" "3 \<le> len" "len \<le> 258"
    "\<And>i. i < len \<Longrightarrow> inp ! (p + i) = inp ! (p + i - unat d)" using m by (auto simp: match_ok_def)
  have "len - 3 \<le> 255" using m'(6) by simp
  from tally_dist_inv [OF o t m'(2,4) this] expand_match [OF e m'(1,2,3,7)] m'(5) show ?thesis by simp
qed

lemma tallies_stepped:
  assumes "tallies s s' b"
  shows "stepped s s'" "symbols s' b"
proof -
  have e: "s' = s\<lparr>tr := tr s'\<rparr>" using assms by (simp add: tallies_def)
  have "reads s s' []" by (subst e) (simp add: reads_def)
  moreover have "tparams (tr s') = tparams (tr s)" using assms by (simp add: tallies_def)
  then have "cparams (s\<lparr>tr := tr s'\<rparr>) = cparams s" by (simp add: cparams_def)
  then have "cparams s' = cparams s" by (simp only: e [symmetric])
  moreover have "avail_out s' = avail_out s" "pending_out s' = pending_out s" by (subst e, simp)+
  ultimately show "stepped s s'" using assms by (simp add: stepped_def tallies_def)
  show "symbols s' b" using assms by (simp add: symbols_def tallies_def)
qed

lemma tallies_frame:
  assumes "tallies s s' b"
  shows "tables s' = tables s" "insert_cnt s' = insert_cnt s" "strstart s' = strstart s" "lookahead s' = lookahead s"
    "match_length s' = match_length s" "prev_length s' = prev_length s" "match_available s' = match_available s"
    "block_start s' = block_start s" "window_size s' = window_size s" "next_in s' = next_in s" "match_start s' = match_start s"
    "prev_match s' = prev_match s" "window s' = window s"
proof -
  have e: "s' = s\<lparr>tr := tr s'\<rparr>" using assms by (simp add: tallies_def)
  show "tables s' = tables s" "insert_cnt s' = insert_cnt s" "strstart s' = strstart s" "lookahead s' = lookahead s"
    "match_length s' = match_length s" "prev_length s' = prev_length s" "match_available s' = match_available s"
    "block_start s' = block_start s" "window_size s' = window_size s" "next_in s' = next_in s" "match_start s' = match_start s"
    "prev_match s' = prev_match s" "window s' = window s"
    by (subst e, simp add: tables_def window_size_def w_size_def)+
qed

lemma stepped_trans: "stepped s s1 \<Longrightarrow> stepped s1 s2 \<Longrightarrow> stepped s s2"
  using reads_trans [of s s1 "[]" s2 "[]"] by (simp add: stepped_def)

lemma covers_moved:
  assumes "covers s inp pend out ts" "strstart s' + lookahead s' = strstart s + lookahead s" "block_start s' = block_start s"
    "pend' + lookahead s' \<le> length inp" "lz_expand out ts' = Some (take (length inp - lookahead s' - pend') inp)"
  shows "covers s' inp pend' out ts'"
proof -
  have "int (strstart s') + int (lookahead s') = int (strstart s) + int (lookahead s)" using assms(2) by linarith
  moreover have "int (length out) + int (strstart s) = int (length inp) - int (lookahead s) + block_start s"
    using assms(1) by (simp add: covers_def)
  ultimately show ?thesis using assms(3-5) by (simp add: covers_def)
qed

section \<open>Fast compression\<close>

definition fast_mode :: "dstate \<Rightarrow> token list \<Rightarrow> bool" where
  "fast_mode s ts \<longleftrightarrow> ready s \<and> match_length s < 3 \<and> prev_length s \<le> 2 \<and> \<not> match_available s"

text \<open>Room for the longest match before the end of the window.\<close>

lemma window_room:
  assumes "holds s inp" "need \<le> lookahead s \<or> strstart s + MIN_LOOKAHEAD < window_size s" "n < need" "n < MIN_LOOKAHEAD"
  shows "strstart s + n < window_size s"
  using assms by (auto simp: holds_def)

text \<open>The state after the search for the string at \<open>strstart\<close>.\<close>

lemma fast_search:
  assumes i: "inserted s C" "wf_sizes s" "holds s inp" and l: "match_length s < 3" "prev_length s \<le> 2"
    and h: "h \<noteq> 0 \<longrightarrow> 3 \<le> lookahead s \<and> h \<in> C \<and> h < strstart s \<and> key s h = key s (strstart s)"
    and s': "s' = (if h \<noteq> 0 \<and> strstart s - h \<le> MAX_DIST s then let (len, s) = longest_match s h in s\<lparr>match_length := len\<rparr> else s)"
  shows "\<exists>n ms. s' = s\<lparr>match_length := n, match_start := ms\<rparr> \<and>
    (3 \<le> n \<longrightarrow> 3 \<le> lookahead s \<and> n \<le> lookahead s \<and> match_ok inp (length inp - lookahead s) n (unat (of_nat (strstart s) - ms)))"
proof (cases "h \<noteq> 0 \<and> strstart s - h \<le> MAX_DIST s")
  case True
  obtain len s1 where r: "longest_match s h = (len, s1)" by force
  from search_inv [OF i _ _ _ _ _ r] h True obtain ms where
    "s1 = s\<lparr>match_start := ms\<rparr>" "len \<le> lookahead s"
    "prev_length s < len \<and> 3 \<le> len \<longrightarrow> match_ok inp (length inp - lookahead s) len (unat (of_nat (strstart s) - ms))"
    by auto
  then show ?thesis using True r l h by (intro exI [of _ len] exI [of _ ms]) (simp add: s')
next
  case False
  then have "s' = s" by (auto simp: s')
  then show ?thesis using l by (intro exI [of _ "match_length s"] exI [of _ "match_start s"]) simp
qed

lemma fast_pass_inv:
  assumes i: "loop_inv fast_mode hdr s inp out ts" "lookahead s \<noteq> 0" "MIN_LOOKAHEAD \<le> lookahead s \<or> strstart s + MIN_LOOKAHEAD < window_size s"
    and p: "fast_pass s = (b, s')"
  shows "pass_post hdr fast_mode s inp out b s'"
proof -
  have w: "win_inv s inp" "out_inv hdr s out ts" "covers s inp 0 out ts" "sym_next (tr s) < sym_end (tr s)"
    and m: "ready s" "match_length s < 3" "prev_length s \<le> 2" "\<not> match_available s"
    using i(1) by (simp_all add: loop_inv_def rest_inv_def fast_mode_def)
  let ?p = "length inp - lookahead s"
  have ex: "lz_expand out ts = Some (take ?p inp)" "lookahead s \<le> length inp" using w(3) by (simp_all add: covers_def)
  obtain h s1 where ic: "insert_current s = (h, s1)" by force
  note ici = insert_current_inv [OF w(1) m(1) ic]
  obtain C where C: "inserted s1 C" "h \<noteq> 0 \<longrightarrow> 3 \<le> lookahead s \<and> h \<in> C \<and> h < strstart s \<and> key s1 h = key s1 (strstart s)"
    using ici(1) by (elim exE conjE)
  note icf = insert_current_frame [OF ic]
  note f1 = icf(2-4) sframeD [OF icf(1)]
  define s2 where "s2 = (if h \<noteq> 0 \<and> strstart s1 - h \<le> MAX_DIST s1 then let (len, s) = longest_match s1 h in s\<lparr>match_length := len\<rparr> else s1)"
  have "\<exists>n ms. s2 = s1\<lparr>match_length := n, match_start := ms\<rparr> \<and> (3 \<le> n \<longrightarrow> 3 \<le> lookahead s1 \<and> n \<le> lookahead s1 \<and>
      match_ok inp (length inp - lookahead s1) n (unat (of_nat (strstart s1) - ms)))"
    by (rule fast_search [OF C(1) ici(2,3) _ _ _ s2_def]) (use m C(2) f1 in simp_all)
  then obtain n ms where s2: "s2 = s1\<lparr>match_length := n, match_start := ms\<rparr>"
    and n: "3 \<le> n \<longrightarrow> 3 \<le> lookahead s \<and> n \<le> lookahead s \<and> match_ok inp ?p n (unat (of_nat (strstart s) - ms))"
    using f1 by (elim exE conjE) simp
  have fp: "fast_pass s = (if n \<ge> MIN_MATCH
         then let (bflush, s) = tally_dist s2 (of_nat (strstart s2) - match_start s2) (n - MIN_MATCH);
                  s = s\<lparr>lookahead := lookahead s - match_length s\<rparr>
              in (bflush, skip_match s)
         else let (bflush, s) = tally_lit s2 (window s2 ! strstart s2)
              in (bflush, s\<lparr>lookahead := lookahead s - 1, strstart := strstart s + 1\<rparr>))"
    unfolding fast_pass_def ic prod.case Let_def s2_def [symmetric, unfolded Let_def] by (simp add: s2)
  have "stepped s1 s2" unfolding s2 by (simp add: stepped_def reads_def cparams_def)
  with sframe_stepped [OF icf(1)] have st2: "stepped s s2" by (rule stepped_trans)
  have tb2: "tables s2 = tables s1" by (simp add: s2 tables_def)
  have i2: "inserted s2 C" "wf_sizes s2" "holds s2 inp"
    using inserted_cong [OF tb2] C(1) tables_cong [OF tb2] ici(2) holds_moved [OF ici(3) _ tb2] by (simp_all add: s2)
  have f2: "strstart s2 = strstart s" "lookahead s2 = lookahead s" "tr s2 = tr s" "block_start s2 = block_start s" "match_length s2 = n"
    "window_size s2 = window_size s" "prev_length s2 \<le> 2" "\<not> match_available s2" "next_in s2 = next_in s"
    using f1 m by (simp_all add: s2 window_size_def w_size_def)
  have o2: "out_inv hdr s2 out ts" using w(2) f1 by (simp add: out_inv_def s2)
  have left: "input_left s' < input_left s" using fast_pass_input [OF p i(2)] .
  have room: "strstart s + k < window_size s" if "k \<le> 258" for k
    by (rule window_room [of s inp MIN_LOOKAHEAD]) (use w(1) i(3) that in \<open>simp_all add: win_inv_def MIN_LOOKAHEAD_def MAX_MATCH_def MIN_MATCH_def\<close>)
  show ?thesis
  proof (cases "3 \<le> n")
    case True
    then have mo: "3 \<le> lookahead s" "n \<le> lookahead s" "match_ok inp ?p n (unat (of_nat (strstart s2) - match_start s2))" "n \<le> 258"
      using n f2(1) s2 by (simp_all add: match_ok_def)
    obtain bf s3 where t: "tally_dist s2 (of_nat (strstart s2) - match_start s2) (n - 3) = (bf, s3)" by force
    obtain ts' where e: "tallies s2 s3 bf" "out_inv hdr s3 out ts'" "lz_expand out ts' = Some (take (?p + n) inp)"
      using emit_match [OF o2 _ ex(1) mo(3) t] w(4) f2(3) by auto
    note f3 = tallies_frame [OF e(1)]
    let ?s4 = "s3\<lparr>lookahead := lookahead s3 - n\<rparr>"
    have res: "b = bf" "s' = skip_match ?s4" using p True t f3(5) f2(5) by (simp_all add: fp MIN_MATCH_def)
    have i3: "inserted s3 C" "wf_sizes s3" "holds s3 inp"
      using inserted_cong [OF f3(1-4)] i2 tables_cong [OF f3(1)] holds_moved [OF i2(3) _ f3(1)] f3(3,4) by simp_all
    have "win_inv s' inp \<and> ready s' \<and> sframe s' = sframe ?s4 \<and> strstart s' = strstart s3 + n \<and> match_length s' = 0 \<and> prev_length s' = prev_length s3"
      by (rule skip_match_inv [OF i3 _ _ True _ _ refl res(2)]) (use mo f2 f3 room in simp_all)
    then have sk: "win_inv s' inp" "ready s'" "sframe s' = sframe ?s4" "strstart s' = strstart s + n" "match_length s' = 0" "prev_length s' \<le> 2"
      using f2 f3 by simp_all
    note f4 = sframeD [OF sk(3)]
    have "fast_mode s' ts'" using sk f4 f3 f2 by (simp add: fast_mode_def)
    moreover have "out_inv hdr s' out ts'" using e(2) f4 by (simp add: out_inv_def)
    moreover have "covers s' inp 0 out ts'"
      by (rule covers_moved [OF w(3)]) (use sk(4) f4 f3 f2 mo(2) ex(2) e(3) in simp_all)
    moreover have "stepped s s'"
    proof -
      have "stepped s3 ?s4" by (simp add: stepped_def reads_def cparams_def)
      from stepped_trans [OF stepped_trans [OF st2 tallies_stepped(1) [OF e(1)]] stepped_trans [OF this sframe_stepped [OF sk(3)]]] show ?thesis .
    qed
    moreover have "symbols s' b" using tallies_stepped(2) [OF e(1)] f4(1) res(1) by (simp add: symbols_def)
    moreover have "window_size s' = window_size s" using f4(24) f3(9) f2(6) by (simp add: window_size_def w_size_def)
    then have "small_block s'" using sk(1,4) room [OF mo(4)] by (intro small_block_room) (simp_all add: win_inv_def)
    ultimately show ?thesis using sk(1) left unfolding pass_post_def by blast
  next
    case False
    obtain bf s3 where t: "tally_lit s2 (window s2 ! strstart s2) = (bf, s3)" by force
    have lt: "?p < length inp" using i(2) ex(2) by simp
    have "window s2 ! strstart s2 = inp ! ?p"
      using holds_nth [OF i2(3), of "strstart s2"] f2(1,2) i(2) i2(3) by (simp add: holds_def)
    then have t': "tally_lit s2 (inp ! ?p) = (bf, s3)" using t by simp
    obtain ts' where e: "tallies s2 s3 bf" "out_inv hdr s3 out ts'" "lz_expand out ts' = Some (take (?p + 1) inp)"
      using emit_literal [OF o2 _ ex(1) lt t'] w(4) f2(3) by auto
    note f3 = tallies_frame [OF e(1)]
    have res: "b = bf" "s' = s3\<lparr>lookahead := lookahead s3 - 1, strstart := strstart s3 + 1\<rparr>" using p False t by (simp_all add: fp MIN_MATCH_def)
    have tb: "tables s' = tables s2" using f3(1) by (simp add: res tables_def)
    have "win_inv s' inp" "ready s'" by (rule moved_one [OF i2 _ tb]; use res f3 f2 i(2) in simp)+
    moreover have "fast_mode s' ts'" using calculation(2) res f3 f2 False by (simp add: fast_mode_def)
    moreover have "out_inv hdr s' out ts'" using e(2) by (simp add: out_inv_def res)
    moreover have "covers s' inp 0 out ts'"
    proof (rule covers_moved [OF w(3)])
      have "length inp - lookahead s' - 0 = ?p + 1" using res f3 f2 i(2) ex(2) by simp
      then show "lz_expand out ts' = Some (take (length inp - lookahead s' - 0) inp)" using e(3) by (simp only:)
    qed (use res f3 f2 i(2) ex(2) in simp_all)
    moreover have "stepped s s'"
    proof -
      have "stepped s3 s'" by (simp add: res stepped_def reads_def cparams_def)
      from stepped_trans [OF stepped_trans [OF st2 tallies_stepped(1) [OF e(1)]] this] show ?thesis .
    qed
    moreover have "symbols s' b" using tallies_stepped(2) [OF e(1)] by (simp add: symbols_def res)
    moreover have "small_block s'" using calculation(1) room [of 1] res f3 f2 tables_cong [OF tb]
      by (intro small_block_room) (simp_all add: win_inv_def)
    ultimately show ?thesis using left unfolding pass_post_def by blast
  qed
qed

text \<open>The modes do not depend on where the window is, nor on what has been written.\<close>

lemma ready_end: "lookahead s = 0 \<Longrightarrow> ready (s\<lparr>insert_cnt := k\<rparr>)"
  by (simp add: ready_def)

interpretation fast: greedy MIN_LOOKAHEAD fast_pass "\<lambda>s. min (strstart s) (MIN_MATCH - 1)" deflate_fast fast_mode
proof
  show "deflate_fast flush s = do {
        (go, s) \<leftarrow> look_ahead MIN_LOOKAHEAD flush s;
        case go of None \<Rightarrow> Some (need_more, s)
        | Some False \<Rightarrow> end_input flush (s\<lparr>insert_cnt := min (strstart s) (MIN_MATCH - 1)\<rparr>)
        | Some True \<Rightarrow>
            let (bflush, s) = fast_pass s in
            if bflush
            then do {
              (full, s) \<leftarrow> FLUSH_BLOCK s False;
              if full then Some (need_more, s) else deflate_fast flush s
            }
            else deflate_fast flush s
      }" for flush s
    unfolding end_matches_def [symmetric] by (rule deflate_fast.simps)
  show "fast_mode s' ts" if "fast_mode s ts" "wkeeps s s'" "ready s \<Longrightarrow> ready s'" for s ts s'
    using that by (simp add: fast_mode_def wkeepsD)
  show "fast_mode s' []" if "fast_mode s ts" "block_ended s s'" for s ts s'
    using that(1) block_ended_win [OF that(2)] by (simp add: fast_mode_def)
qed (simp_all add: MIN_LOOKAHEAD_def MAX_MATCH_def MIN_MATCH_def fast_mode_def ready_end fast_pass_inv [unfolded MIN_LOOKAHEAD_def MAX_MATCH_def MIN_MATCH_def])

end
