(* ===== verification/Deflate_Runs.thy ===== *)
theory Deflate_Runs
  imports Deflate_Fast
begin

text \<open>
  \<open>deflate_rle\<close>, whose only matches are runs of one byte, and \<open>deflate_huff\<close>, which codes
  literals only, as instances of the loop of \<open>Deflate_Greedy\<close>. They insert no strings.
\<close>

lemma moved_any:
  assumes w: "win_inv s inp" and n: "n \<le> lookahead s"
    and s': "tables s' = tables s" "insert_cnt s' = insert_cnt s" "strstart s' = strstart s + n" "lookahead s' = lookahead s - n"
  shows "win_inv s' inp"
proof -
  note tc = tables_cong [OF s'(1)]
  obtain C where C: "chains s C" "\<forall>h \<in> C. h + 3 \<le> strstart s + lookahead s \<and> h + insert_cnt s < strstart s" "insert_cnt s \<le> strstart s"
    using w by (auto simp: win_inv_def hash_inv_def)
  have "hash_inv s'" by (rule hash_invI [of _ C]) (use C tc s' n in \<open>auto simp: trans_less_add1\<close>)
  moreover have "holds s' inp" by (rule holds_moved [OF _ _ s'(1)]) (use w s' n in \<open>simp_all add: win_inv_def\<close>)
  ultimately show ?thesis using w tc by (simp add: win_inv_def)
qed

text \<open>The mode between the calls, for a function that can be followed by any other one.\<close>

definition plain_mode :: "dstate \<Rightarrow> bool" where
  "plain_mode s \<longleftrightarrow> match_length s < 3 \<and> prev_length s \<le> 2 \<and> \<not> match_available s"

text \<open>Coding the next \<open>n\<close> bytes by one symbol, without inserting them.\<close>

lemma coded_pass:
  assumes w: "win_inv s inp" "covers s inp 0 out ts" and n: "n \<le> lookahead s" "n \<noteq> 0" "strstart s + n < window_size s \<or> small_block s'"
    and s1: "s1 = s\<lparr>match_length := k\<rparr>" and t: "tallies s1 s2 b" "out_inv hdr s2 out ts'" "lz_expand out ts' = Some (take (length inp - lookahead s + n) inp)"
    and s': "s' = s2\<lparr>match_length := k', strstart := strstart s + n, lookahead := lookahead s - n\<rparr>" and m: "mode s' ts'"
  shows "pass_post hdr mode s inp out b s'"
proof -
  note f = tallies_frame [OF t(1)]
  have tb: "tables s' = tables s" using f(1) by (simp add: s' s1 tables_def)
  have win: "win_inv s' inp" by (rule moved_any [OF w(1) n(1) tb]) (use f in \<open>simp_all add: s' s1\<close>)
  have st: "stepped s1 s2" "symbols s2 b" using tallies_stepped [OF t(1)] .
  have "stepped s s1" "stepped s2 s'" by (simp_all add: s1 s' stepped_def reads_def cparams_def)
  then have "stepped s s'" using st(1) stepped_trans by blast
  moreover have "symbols s' b" using st(2) by (simp add: s' symbols_def)
  moreover have "out_inv hdr s' out ts'" using t(2) by (simp add: s' out_inv_def)
  moreover have "covers s' inp 0 out ts'"
  proof (rule covers_moved [OF w(2)])
    have le: "lookahead s \<le> length inp" using w(2) by (simp add: covers_def)
    show "0 + lookahead s' \<le> length inp" using le by (simp add: s')
    have "length inp - lookahead s' - 0 = length inp - lookahead s + n" using le n(1) by (simp add: s')
    then show "lz_expand out ts' = Some (take (length inp - lookahead s' - 0) inp)" using t(3) by (simp only:)
  qed (use f n(1) in \<open>simp_all add: s' s1\<close>)
  moreover have "small_block s'"
    using n(3) small_block_room [of s'] win tables_cong(5) [OF tb] by (auto simp: win_inv_def s')
  moreover have "input_left s' < input_left s" using f n(1,2) by (simp add: s' s1 input_left_def)
  ultimately show ?thesis using win m unfolding pass_post_def by blast
qed

section \<open>Runs\<close>

lemma run_steps_same: "run_steps w p n scan = (eq, scan') \<Longrightarrow> scan < i \<Longrightarrow> i < scan' \<or> eq \<and> i = scan' \<Longrightarrow> w ! i = p"
proof (induction w p n scan rule: run_steps.induct)
  case (2 w p n scan)
  then show ?case by (cases "i = scan + 1") (auto split: if_splits)
qed auto

lemma run_loop_same: "scan < i \<Longrightarrow> i < run_loop w p strend scan \<Longrightarrow> w ! i = p"
proof (induction w p strend scan rule: run_loop.induct)
  case (1 w p strend scan)
  obtain eq scan' where r: "run_steps w p 8 scan = (eq, scan')" by force
  show ?case
  proof (cases "eq \<and> scan' < strend")
    case True
    then have l: "run_loop w p strend scan = run_loop w p strend scan'" using r by (simp add: run_loop.simps)
    show ?thesis
    proof (cases "i \<le> scan'")
      case True
      then show ?thesis using run_steps_same [OF r] 1(2) \<open>eq \<and> scan' < strend\<close> by (metis le_neq_implies_less)
    qed (use 1 r True l in auto)
  next
    case False
    then have "run_loop w p strend scan = scan'" using r by (auto simp: run_loop.simps)
    then show ?thesis using run_steps_same [OF r] 1 by simp
  qed
qed

lemma run_loop_bounds: "8 dvd strend - scan \<Longrightarrow> scan < strend \<Longrightarrow> scan < run_loop w p strend scan \<and> run_loop w p strend scan \<le> strend"
proof (induction w p strend scan rule: run_loop.induct)
  case (1 w p strend scan)
  obtain eq scan' where r: "run_steps w p 8 scan = (eq, scan')" by force
  note sc = run_steps_scan [OF r]
  have lt: "scan < scan'" using r by (auto simp: eval_nat_numeral split: if_splits dest: run_steps_scan)
  have d: "scan + 8 \<le> strend" using dvd_imp_le [OF 1(2)] 1(3) by simp
  show ?case
  proof (cases "eq \<and> scan' < strend")
    case True
    have "strend - scan' = strend - scan - 8" using True sc by simp
    then have "8 dvd strend - scan'" using 1(2) by (simp only: dvd_diff_nat dvd_refl)
    then have "scan' < run_loop w p strend scan' \<and> run_loop w p strend scan' \<le> strend" using 1(1) r True by auto
    then show ?thesis using True r lt by (simp add: run_loop.simps [of w p strend scan])
  next
    case False
    then have "run_loop w p strend scan = scan'" using r by (auto simp: run_loop.simps)
    then show ?thesis using lt sc d by auto
  qed
qed

lemma run_length_match:
  assumes "holds s inp" "3 \<le> run_length s"
  shows "match_ok inp (length inp - lookahead s) (run_length s) 1" "run_length s \<le> lookahead s"
proof -
  let ?w = "window s" and ?p = "window s ! (strstart s - 1)"
  let ?r = "run_loop ?w ?p (strstart s + MAX_MATCH) (strstart s + 2)"
  have c: "3 \<le> lookahead s" "0 < strstart s" "?p = ?w ! strstart s" "?p = ?w ! (strstart s + 1)" "?p = ?w ! (strstart s + 2)"
    and n: "run_length s = min (MAX_MATCH - (strstart s + MAX_MATCH - ?r)) (lookahead s)"
    using assms(2) by (auto simp: run_length_def MIN_MATCH_def Let_def split: if_splits)
  have b: "strstart s + 2 < ?r" "?r \<le> strstart s + MAX_MATCH"
    using run_loop_bounds [of "strstart s + MAX_MATCH" "strstart s + 2" ?w ?p] by (auto simp: MAX_MATCH_def)
  then have le: "run_length s \<le> ?r - strstart s" "run_length s \<le> 258" using n by (auto simp: MAX_MATCH_def)
  have run: "?w ! (strstart s + i) = ?p" if "i < run_length s" for i
  proof -
    consider "i = 0" | "i = 1" | "i = 2" | "2 < i" by linarith
    then show ?thesis
    proof cases
      case 4
      then show ?thesis using that le(1) by (intro run_loop_same [where strend = "strstart s + MAX_MATCH" and scan = "strstart s + 2"]) auto
    qed (use c in auto)
  qed
  have "?w ! (strstart s - 1 + i) = ?w ! (strstart s + i)" if i: "i < run_length s" for i
  proof (cases i)
    case (Suc j)
    then have "?w ! (strstart s - 1 + i) = ?w ! (strstart s + j)" using c(2) by simp
    then show ?thesis using run [of j] run [OF i] Suc i by simp
  qed (use run [OF i] in simp)
  then have "same ?w (strstart s - 1) (strstart s) (run_length s)" by (simp add: same_def)
  from same_match_ok [OF this _ _ assms(2) le(2) assms(1)] c n
  show "match_ok inp (length inp - lookahead s) (run_length s) 1" "run_length s \<le> lookahead s" by simp_all
qed

definition rle_mode :: "dstate \<Rightarrow> token list \<Rightarrow> bool" where
  "rle_mode s ts \<longleftrightarrow> plain_mode s"

lemma rle_pass_inv:
  assumes i: "loop_inv rle_mode hdr s inp out ts" "lookahead s \<noteq> 0" "MAX_MATCH + 1 \<le> lookahead s \<or> strstart s + MIN_LOOKAHEAD < window_size s"
    and p: "rle_pass s = (b, s')"
  shows "pass_post hdr rle_mode s inp out b s'"
proof -
  have w: "win_inv s inp" "out_inv hdr s out ts" "covers s inp 0 out ts" "sym_next (tr s) < sym_end (tr s)" and m: "plain_mode s"
    using i(1) by (simp_all add: loop_inv_def rest_inv_def rle_mode_def)
  have h: "holds s inp" using w(1) by (simp add: win_inv_def)
  let ?s = "s\<lparr>match_length := run_length s\<rparr>" and ?p = "length inp - lookahead s"
  have o: "out_inv hdr ?s out ts" "sym_next (tr ?s) < sym_end (tr ?s)" using w(2,4) by (simp_all add: out_inv_def)
  have ex: "lz_expand out ts = Some (take ?p inp)" "lookahead s \<le> length inp" using w(3) by (simp_all add: covers_def)
  have room: "strstart s + k < window_size s" if "k \<le> 258" for k
    by (rule window_room [OF h i(3)]) (use that in \<open>simp_all add: MIN_LOOKAHEAD_def MAX_MATCH_def MIN_MATCH_def\<close>)
  show ?thesis
  proof (cases "3 \<le> run_length s")
    case True
    note r = run_length_match [OF h True]
    have "match_ok inp ?p (run_length s) (unat (1 :: uint))" using r(1) by simp
    moreover obtain bf s2 where t: "tally_dist ?s 1 (run_length s - 3) = (bf, s2)" by force
    ultimately have e: "tallies ?s s2 bf \<and> out_inv hdr s2 out (ts @ [Match (run_length s) (unat (1 :: uint))]) \<and>
        lz_expand out (ts @ [Match (run_length s) (unat (1 :: uint))]) = Some (take (?p + run_length s) inp)"
      using emit_match [OF o ex(1)] by blast
    then have f: "match_length s2 = run_length s" "strstart s2 = strstart s" "lookahead s2 = lookahead s" "prev_length s2 = prev_length s" "match_available s2 = match_available s"
      using tallies_frame [of ?s s2 bf] by simp_all
    have s': "s' = s2\<lparr>match_length := 0, strstart := strstart s + run_length s, lookahead := lookahead s - run_length s\<rparr>" "b = bf"
      using p t True f by (auto simp: rle_pass_def MIN_MATCH_def Let_def)
    have "rle_mode s' (ts @ [Match (run_length s) (unat (1 :: uint))])" using m f by (simp add: rle_mode_def plain_mode_def s')
    moreover have "strstart s + run_length s < window_size s" using room r(1) by (simp add: match_ok_def)
    ultimately show ?thesis using e r(2) True unfolding s'(2) by (intro coded_pass [OF w(1,3) r(2) _ _ refl _ _ _ s'(1), where k = "run_length s"]) simp_all
  next
    case False
    have lt: "?p < length inp" using i(2) ex(2) by simp
    have c: "window s ! strstart s = inp ! ?p" using holds_nth [OF h, of "strstart s"] i(2) h by (simp add: holds_def)
    obtain bf s2 where t: "tally_lit ?s (inp ! ?p) = (bf, s2)" by force
    from emit_literal [OF o ex(1) lt this] have e: "tallies ?s s2 bf \<and> out_inv hdr s2 out (ts @ [Literal (inp ! ?p)]) \<and>
        lz_expand out (ts @ [Literal (inp ! ?p)]) = Some (take (?p + 1) inp)" .
    then have f: "match_length s2 = run_length s" "strstart s2 = strstart s" "lookahead s2 = lookahead s" "prev_length s2 = prev_length s" "match_available s2 = match_available s"
      using tallies_frame [of ?s s2 bf] by simp_all
    have s': "s' = s2\<lparr>match_length := run_length s, strstart := strstart s + 1, lookahead := lookahead s - 1\<rparr>" "b = bf"
      using p t False f c by (auto simp: rle_pass_def MIN_MATCH_def Let_def)
    have "rle_mode s' (ts @ [Literal (inp ! ?p)])" using m f False by (simp add: rle_mode_def plain_mode_def s')
    then show ?thesis using e i(2) room [of 1] unfolding s'(2) by (intro coded_pass [OF w(1,3) _ _ _ refl _ _ _ s'(1), where k = "run_length s"]) simp_all
  qed
qed

interpretation rle: greedy "MAX_MATCH + 1" rle_pass "\<lambda>s. 0" deflate_rle rle_mode
proof
  show "deflate_rle flush s = do {
        (go, s) \<leftarrow> look_ahead (MAX_MATCH + 1) flush s;
        case go of None \<Rightarrow> Some (need_more, s)
        | Some False \<Rightarrow> end_input flush (s\<lparr>insert_cnt := 0\<rparr>)
        | Some True \<Rightarrow>
            let (bflush, s) = rle_pass s in
            if bflush
            then do {
              (full, s) \<leftarrow> FLUSH_BLOCK s False;
              if full then Some (need_more, s) else deflate_rle flush s
            }
            else deflate_rle flush s
      }" for flush s
    unfolding end_runs_def [symmetric] by (rule deflate_rle.simps)
  show "rle_mode s' ts" if "rle_mode s ts" "wkeeps s s'" "ready s \<Longrightarrow> ready s'" for s ts s'
    using that by (simp add: rle_mode_def plain_mode_def wkeepsD)
  show "rle_mode s' []" if "rle_mode s ts" "block_ended s s'" for s ts s'
    using that(1) block_ended_win [OF that(2)] by (simp add: rle_mode_def plain_mode_def)
qed (simp_all add: MIN_LOOKAHEAD_def MAX_MATCH_def MIN_MATCH_def rle_mode_def plain_mode_def rle_pass_inv [unfolded MIN_LOOKAHEAD_def MAX_MATCH_def MIN_MATCH_def])

section \<open>Literals only\<close>

definition is_literal :: "token \<Rightarrow> bool" where
  "is_literal t \<longleftrightarrow> (case t of Literal c \<Rightarrow> True | Match n d \<Rightarrow> False)"

definition huff_mode :: "dstate \<Rightarrow> token list \<Rightarrow> bool" where
  "huff_mode s ts \<longleftrightarrow> plain_mode s \<and> list_all is_literal ts"

lemma lz_expand_literals: "list_all is_literal ts \<Longrightarrow> lz_expand out ts = Some out' \<Longrightarrow> length out' = length out + length ts"
  by (induction out ts rule: lz_expand.induct) (auto simp: is_literal_def)

text \<open>A block of literals is no longer than the symbol buffer.\<close>

lemma literal_block:
  assumes "covers s inp 0 out ts" "out_inv hdr s out ts" "list_all is_literal ts"
  shows "small_block s"
proof -
  have c: "lz_expand out ts = Some (take (length inp - lookahead s) inp)" "lookahead s \<le> length inp"
    "int (length out) + int (strstart s) = int (length inp) - int (lookahead s) + block_start s"
    using assms(1) by (simp_all add: covers_def)
  obtain gone where "writer gone (tr s) out ts" using assms(2) by (auto simp: out_inv_def)
  from writer_session [OF this] have "length ts \<le> 32767" by (auto simp: session_def tallied_def)
  moreover have "length inp = lookahead s + length out + length ts" using lz_expand_literals [OF assms(3) c(1)] c(2) by simp
  ultimately show ?thesis using c(3) unfolding small_block_def by linarith
qed

lemma huff_pass_inv:
  assumes i: "loop_inv huff_mode hdr s inp out ts" "lookahead s \<noteq> 0" and p: "huff_pass s = (b, s')"
  shows "pass_post hdr huff_mode s inp out b s'"
proof -
  have w: "win_inv s inp" "out_inv hdr s out ts" "covers s inp 0 out ts" "sym_next (tr s) < sym_end (tr s)" and m: "plain_mode s" "list_all is_literal ts"
    using i(1) by (simp_all add: loop_inv_def rest_inv_def huff_mode_def)
  have h: "holds s inp" using w(1) by (simp add: win_inv_def)
  let ?s = "s\<lparr>match_length := 0\<rparr>" and ?p = "length inp - lookahead s" and ?ts = "ts @ [Literal (inp ! (length inp - lookahead s))]"
  have o: "out_inv hdr ?s out ts" "sym_next (tr ?s) < sym_end (tr ?s)" using w(2,4) by (simp_all add: out_inv_def)
  have ex: "lz_expand out ts = Some (take ?p inp)" "lookahead s \<le> length inp" using w(3) by (simp_all add: covers_def)
  have lt: "?p < length inp" using i(2) ex(2) by simp
  have c: "window s ! strstart s = inp ! ?p" using holds_nth [OF h, of "strstart s"] i(2) h by (simp add: holds_def)
  obtain bf s2 where t: "tally_lit ?s (inp ! ?p) = (bf, s2)" by force
  from emit_literal [OF o ex(1) lt this] have e: "tallies ?s s2 bf \<and> out_inv hdr s2 out ?ts \<and> lz_expand out ?ts = Some (take (?p + 1) inp)" .
  then have f: "match_length s2 = 0" "strstart s2 = strstart s" "lookahead s2 = lookahead s" "prev_length s2 = prev_length s"
      "match_available s2 = match_available s" "block_start s2 = block_start s"
    using tallies_frame [of ?s s2 bf] by simp_all
  have s': "s' = s2\<lparr>match_length := 0, strstart := strstart s + 1, lookahead := lookahead s - 1\<rparr>" "b = bf"
    using p t f c by (auto simp: huff_pass_def Let_def)
  have l: "list_all is_literal ?ts" using m(2) by (simp add: is_literal_def)
  have "covers s' inp 0 out ?ts"
  proof (rule covers_moved [OF w(3)])
    have "length inp - lookahead s' - 0 = ?p + 1" using s' f i(2) ex(2) by simp
    then show "lz_expand out ?ts = Some (take (length inp - lookahead s' - 0) inp)" using e by (simp only:)
  qed (use s' f i(2) ex(2) in simp_all)
  moreover have "out_inv hdr s' out ?ts" using e by (simp add: s' out_inv_def)
  ultimately have "small_block s'" using l by (rule literal_block)
  moreover have "huff_mode s' ?ts" using m f l by (simp add: huff_mode_def plain_mode_def s')
  ultimately show ?thesis using e i(2) unfolding s'(2) by (intro coded_pass [OF w(1,3) _ _ _ refl _ _ _ s'(1), where k = 0]) simp_all
qed

interpretation huff: greedy 1 huff_pass "\<lambda>s. 0" deflate_huff huff_mode
proof
  show "deflate_huff flush s = do {
        (go, s) \<leftarrow> look_ahead 1 flush s;
        case go of None \<Rightarrow> Some (need_more, s)
        | Some False \<Rightarrow> end_input flush (s\<lparr>insert_cnt := 0\<rparr>)
        | Some True \<Rightarrow>
            let (bflush, s) = huff_pass s in
            if bflush
            then do {
              (full, s) \<leftarrow> FLUSH_BLOCK s False;
              if full then Some (need_more, s) else deflate_huff flush s
            }
            else deflate_huff flush s
      }" for flush s
    unfolding end_runs_def [symmetric] by (rule deflate_huff.simps)
  show "huff_mode s' ts" if "huff_mode s ts" "wkeeps s s'" "ready s \<Longrightarrow> ready s'" for s ts s'
    using that by (simp add: huff_mode_def plain_mode_def wkeepsD)
  show "huff_mode s' []" if "huff_mode s ts" "block_ended s s'" for s ts s'
    using that(1) block_ended_win [OF that(2)] by (simp add: huff_mode_def plain_mode_def)
qed (simp_all add: MIN_LOOKAHEAD_def MAX_MATCH_def MIN_MATCH_def huff_mode_def plain_mode_def huff_pass_inv)

end
