(* ===== verification/Deflate_Slow.thy ===== *)
theory Deflate_Slow
  imports Deflate_Runs
begin

text \<open>
  \<open>deflate_slow\<close>: the match found for the string before is kept until the current string has
  been searched, so between two passes one byte of the input may be pending, with a match
  that starts at it.
\<close>

section \<open>The pending byte\<close>

definition lazy_ok :: "dstate \<Rightarrow> byte list \<Rightarrow> bool" where
  "lazy_ok s inp \<longleftrightarrow> (match_available s \<longrightarrow> strstart s \<noteq> 0) \<and> (3 \<le> prev_length s \<longrightarrow> prev_length s < match_length s) \<and>
     (3 \<le> match_length s \<longrightarrow> match_available s \<and>
        match_ok inp (length inp - lookahead s - 1) (match_length s) (unat (of_nat (strstart s) - match_start s - 1)))"

definition slow_inv :: "byte list \<Rightarrow> dstate \<Rightarrow> byte list \<Rightarrow> byte list \<Rightarrow> token list \<Rightarrow> bool" where
  "slow_inv hdr s inp out ts \<longleftrightarrow> rest_inv hdr s inp (of_bool (match_available s)) out ts \<and> ready s \<and> lazy_ok s inp"

lemma match_ok_append: "match_ok inp p len d \<Longrightarrow> match_ok (inp @ new) p len d"
  by (auto simp: match_ok_def nth_append)

lemma lazy_ok_fill:
  assumes "lazy_ok s inp" "wkeeps s s'" "lookahead s' = lookahead s + length new"
  shows "lazy_ok s' (inp @ new)"
proof -
  note k = wkeepsD [OF assms(2)]
  have d: "of_nat (strstart s') - match_start s' = of_nat (strstart s) - match_start s" "strstart s \<noteq> 0 \<longrightarrow> strstart s' \<noteq> 0"
    using assms(2) by (simp_all add: wkeeps_def)
  have p: "length (inp @ new) - lookahead s' - 1 = length inp - lookahead s - 1" using assms(3) by simp
  show ?thesis using assms(1) d match_ok_append unfolding lazy_ok_def p k by auto
qed

text \<open>Nothing is pending that is longer than the input.\<close>

lemma lazy_ok_end:
  assumes "lazy_ok s inp" "lookahead s = 0"
  shows "match_length s < 3" "prev_length s < 3"
proof -
  show l: "match_length s < 3"
  proof (rule ccontr)
    assume "\<not> match_length s < 3"
    then have "match_ok inp (length inp - 1) (match_length s) (unat (of_nat (strstart s) - match_start s - 1))" "3 \<le> match_length s"
      using assms by (simp_all add: lazy_ok_def)
    then show False by (auto simp: match_ok_def)
  qed
  then show "prev_length s < 3" using assms(1) by (auto simp: lazy_ok_def)
qed

section \<open>The search\<close>

text \<open>The state after \<open>lazy_match\<close>.\<close>

definition searched :: "dstate \<Rightarrow> byte list \<Rightarrow> dstate \<Rightarrow> bool" where
  "searched s inp s' \<longleftrightarrow> (\<exists>C. inserted s' C) \<and> wf_sizes s' \<and> holds s' inp \<and> stepped s s' \<and> tr s' = tr s \<and> next_out s' = next_out s \<and>
     strstart s' = strstart s \<and> lookahead s' = lookahead s \<and> block_start s' = block_start s \<and> next_in s' = next_in s \<and>
     window_size s' = window_size s \<and> match_available s' = match_available s \<and> prev_length s' = match_length s \<and> prev_match s' = match_start s \<and>
     (3 \<le> match_length s' \<and> prev_length s' < match_length s' \<longrightarrow>
        match_ok inp (length inp - lookahead s) (match_length s') (unat (of_nat (strstart s) - match_start s')))"

lemma lazy_match_inv:
  assumes i: "inserted s C" "wf_sizes s" "holds s inp"
    and h: "h \<noteq> 0 \<longrightarrow> 3 \<le> lookahead s \<and> h \<in> C \<and> h < strstart s \<and> key s h = key s (strstart s)"
  shows "\<exists>n ms. lazy_match h s = s\<lparr>match_length := n, prev_match := match_start s, match_start := ms, prev_length := match_length s\<rparr> \<and>
    (3 \<le> n \<and> match_length s < n \<longrightarrow> match_ok inp (length inp - lookahead s) n (unat (of_nat (strstart s) - ms)))"
proof -
  let ?s = "s\<lparr>prev_match := match_start s, match_length := MIN_MATCH - 1, prev_length := match_length s\<rparr>"
  have tb: "tables ?s = tables s" by (simp add: tables_def)
  note tc = tables_cong [OF tb]
  show ?thesis
  proof (cases "h \<noteq> 0 \<and> match_length s < max_lazy_match s \<and> strstart s - h \<le> MAX_DIST s")
    case False
    then have "lazy_match h s = ?s" using tc(7) by (auto simp: lazy_match_def Let_def)
    then show ?thesis by (intro exI [of _ 2] exI [of _ "match_start s"]) (simp add: MIN_MATCH_def)
  next
    case True
    have i': "inserted ?s C" "wf_sizes ?s" "holds ?s inp"
      using inserted_cong [OF tb] i tc(3) holds_moved [OF i(3) _ tb] by simp_all
    obtain len s1 where r: "longest_match ?s h = (len, s1)" by force
    have "\<exists>ms. s1 = ?s\<lparr>match_start := ms\<rparr> \<and> len \<le> lookahead ?s \<and>
      (prev_length ?s < len \<and> 3 \<le> len \<longrightarrow> match_ok inp (length inp - lookahead ?s) len (unat (of_nat (strstart ?s) - ms)))"
      by (rule search_inv [OF i' _ _ _ _ _ r]) (use h True tc in simp_all)
    then obtain ms where ms: "s1 = ?s\<lparr>match_start := ms\<rparr>"
      "match_length s < len \<and> 3 \<le> len \<longrightarrow> match_ok inp (length inp - lookahead s) len (unat (of_nat (strstart s) - ms))"
      by (elim exE conjE) simp
    let ?n = "if len \<le> 5 \<and> (strategy (tr s) = Z_FILTERED \<or> len = MIN_MATCH \<and> of_nat (strstart s) - ms > TOO_FAR) then MIN_MATCH - 1 else len"
    have "lazy_match h s = s\<lparr>match_length := ?n, prev_match := match_start s, match_start := ms, prev_length := match_length s\<rparr>"
      using True r tc(7) by (simp add: lazy_match_def Let_def ms(1))
    moreover have "3 \<le> ?n \<and> match_length s < ?n \<longrightarrow> match_ok inp (length inp - lookahead s) ?n (unat (of_nat (strstart s) - ms))"
      using ms(2) by (simp add: MIN_MATCH_def)
    ultimately show ?thesis by (intro exI conjI)
  qed
qed

lemma search_current:
  assumes w: "win_inv s inp" "ready s" and ic: "insert_current s = (h, s1)"
  shows "searched s inp (lazy_match h s1)"
proof -
  note ici = insert_current_inv [OF w ic] and icf = insert_current_frame [OF ic]
  note f1 = icf(2-4) sframeD [OF icf(1)]
  obtain C where C: "inserted s1 C" "h \<noteq> 0 \<longrightarrow> 3 \<le> lookahead s \<and> h \<in> C \<and> h < strstart s \<and> key s1 h = key s1 (strstart s)"
    using ici(1) by (elim exE conjE)
  have "\<exists>n ms. lazy_match h s1 = s1\<lparr>match_length := n, prev_match := match_start s1, match_start := ms, prev_length := match_length s1\<rparr> \<and>
    (3 \<le> n \<and> match_length s1 < n \<longrightarrow> match_ok inp (length inp - lookahead s1) n (unat (of_nat (strstart s1) - ms)))"
    by (rule lazy_match_inv [OF C(1) ici(2,3)]) (use C(2) f1 in simp)
  then obtain n ms where s2: "lazy_match h s1 = s1\<lparr>match_length := n, prev_match := match_start s1, match_start := ms, prev_length := match_length s1\<rparr>"
    "3 \<le> n \<and> match_length s < n \<longrightarrow> match_ok inp (length inp - lookahead s) n (unat (of_nat (strstart s) - ms))"
    using f1 by (elim exE conjE) simp
  let ?s2 = "lazy_match h s1"
  have tb: "tables ?s2 = tables s1" by (simp add: s2 tables_def)
  note tc = tables_cong [OF tb]
  have "inserted ?s2 C" using inserted_cong [OF tb] C(1) by (simp add: s2(1))
  moreover have "holds ?s2 inp" by (rule holds_moved [OF ici(3) _ tb]) (simp add: s2(1))
  moreover have "stepped s ?s2"
  proof -
    have "stepped s1 ?s2" by (simp add: s2(1) stepped_def reads_def cparams_def)
    with sframe_stepped [OF icf(1)] show ?thesis by (rule stepped_trans)
  qed
  moreover have "wf_sizes ?s2" "window_size ?s2 = window_size s" using tc ici(2) f1 by simp_all
  ultimately show ?thesis using f1 s2 unfolding searched_def by auto
qed

section \<open>Coding the match of the string before\<close>

lemma insert_upto_inv:
  "chains s C \<Longrightarrow> wf_sizes s \<Longrightarrow> (strstart s \<le> mx \<longrightarrow> primed s (strstart s + 1)) \<Longrightarrow> \<forall>h \<in> C. h \<le> strstart s \<and> h \<le> mx \<Longrightarrow>
    mx < window_size s \<Longrightarrow> s' = insert_upto mx n s \<Longrightarrow>
    (\<exists>C'. chains s' C' \<and> (\<forall>h \<in> C'. h \<in> C \<or> strstart s < h \<and> h \<le> strstart s + n \<and> h \<le> mx)) \<and> wf_sizes s' \<and> (strstart s + n \<le> mx \<longrightarrow> primed s' (strstart s + n + 1)) \<and>
    sframe s' = sframe s \<and> strstart s' = strstart s + n \<and> match_length s' = match_length s \<and> (n \<noteq> 0 \<longrightarrow> prev_length s' = 0)"
proof (induction mx n s arbitrary: C s' rule: insert_upto.induct)
  case (1 mx s)
  then show ?case by auto
next
  case (2 mx n s)
  let ?s1 = "s\<lparr>strstart := strstart s + 1\<rparr>"
  define s2 where "s2 = (if strstart s + 1 \<le> mx then snd (INSERT_STRING ?s1 (strstart s + 1)) else ?s1)"
  have "(\<exists>C1. chains s2 C1 \<and> (\<forall>h \<in> C1. h \<in> C \<or> h = strstart s + 1 \<and> h \<le> mx)) \<and> wf_sizes s2 \<and> (strstart s + 1 \<le> mx \<longrightarrow> primed s2 (strstart s + 2)) \<and>
      sframe s2 = sframe s \<and> strstart s2 = strstart s + 1 \<and> match_length s2 = match_length s"
  proof (cases "strstart s + 1 \<le> mx")
    case True
    obtain m s3 where ins: "INSERT_STRING ?s1 (strstart s + 1) = (m, s3)" by force
    have "s2 = s3" using True ins by (simp add: s2_def)
    have pr: "primed s (strstart s + 1)" and b: "\<forall>h \<in> C. h \<le> strstart s" and r: "strstart s + 1 < window_size s" using 2(4,5,6) True by simp_all
    from insert_next [OF 2(2,3) pr b r refl ins] obtain C1 where C1: "chains s3 C1" "\<forall>h \<in> C1. h \<in> C \<or> h = strstart s + 1" "wf_sizes s3"
      "primed s3 (strstart s + 2)" "sframe s3 = sframe s" "strstart s3 = strstart s + 1" "match_length s3 = match_length s"
      by (elim exE conjE)
    have "\<forall>h \<in> C1. h \<in> C \<or> h = strstart s + 1 \<and> h \<le> mx" using C1(2) True by blast
    then show ?thesis using C1 \<open>s2 = s3\<close> by auto
  next
    case False
    then have s2: "s2 = ?s1" by (simp add: s2_def)
    have tb: "tables s2 = tables s" by (simp add: s2 tables_def)
    have "chains s2 C" "wf_sizes s2" using tables_cong [OF tb] 2(2,3) by simp_all
    moreover have "sframe s2 = sframe s" by (simp add: s2 sframe_def)
    ultimately show ?thesis using False by (auto simp: s2)
  qed
  then obtain C1 where C1: "chains s2 C1" "\<forall>h \<in> C1. h \<in> C \<or> h = strstart s + 1 \<and> h \<le> mx" "wf_sizes s2" "strstart s + 1 \<le> mx \<longrightarrow> primed s2 (strstart s + 2)"
    and st: "sframe s2 = sframe s" "strstart s2 = strstart s + 1" "match_length s2 = match_length s"
    by (elim exE conjE)
  let ?s = "s2\<lparr>prev_length := n\<rparr>"
  have "tables ?s = tables s2" by (simp add: tables_def)
  note tc = tables_cong [OF this]
  have run: "s' = insert_upto mx n ?s" using 2(7) by (simp add: Let_def s2_def)
  have "\<forall>h \<in> C1. h \<le> strstart s + 1 \<and> h \<le> mx" using C1(2) 2(5) by fastforce
  then have pre: "chains ?s C1" "wf_sizes ?s" "strstart ?s \<le> mx \<longrightarrow> primed ?s (strstart ?s + 1)" "\<forall>h \<in> C1. h \<le> strstart ?s \<and> h \<le> mx" "mx < window_size ?s"
    using C1 tc st(2) sframeD(24) [OF st(1)] 2(6) by simp_all
  have ih: "(\<exists>C'. chains s' C' \<and> (\<forall>h \<in> C'. h \<in> C1 \<or> strstart ?s < h \<and> h \<le> strstart ?s + n \<and> h \<le> mx)) \<and> wf_sizes s' \<and>
      (strstart ?s + n \<le> mx \<longrightarrow> primed s' (strstart ?s + n + 1)) \<and>
      sframe s' = sframe ?s \<and> strstart s' = strstart ?s + n \<and> match_length s' = match_length ?s \<and> (n \<noteq> 0 \<longrightarrow> prev_length s' = 0)"
    by (rule 2(1) [OF refl _ pre run]) (simp add: s2_def)
  then obtain C' where C': "chains s' C'" "\<forall>h \<in> C'. h \<in> C1 \<or> strstart ?s < h \<and> h \<le> strstart ?s + n \<and> h \<le> mx" by (elim exE conjE)
  have "\<forall>h \<in> C'. h \<in> C \<or> strstart s < h \<and> h \<le> strstart s + Suc n \<and> h \<le> mx" using C'(2) C1(2) st(2) by fastforce
  moreover have "sframe ?s = sframe s2" by (simp add: sframe_def)
  moreover have "prev_length s' = 0" using ih run by (cases n) auto
  ultimately show ?case using st ih C'(1) by auto
qed

lemma slow_match_inv:
  assumes se: "searched s inp s1" and i: "rest_inv hdr s inp 1 out ts" "lazy_ok s inp" "lookahead s \<noteq> 0"
    "MIN_LOOKAHEAD \<le> lookahead s \<or> strstart s + MIN_LOOKAHEAD < window_size s"
    and l: "3 \<le> prev_length s1" and m: "slow_match s1 = (b, s')"
  shows "pass_post hdr (\<lambda>s ts. ready s \<and> lazy_ok s inp \<and> \<not> match_available s) s inp out b s'"
proof -
  have w: "out_inv hdr s out ts" "covers s inp 1 out ts" "sym_next (tr s) < sym_end (tr s)" using i(1) by (simp_all add: rest_inv_def)
  obtain C where C: "inserted s1 C" using se by (auto simp: searched_def)
  have s1: "wf_sizes s1" "holds s1 inp" "stepped s s1" "tr s1 = tr s" "next_out s1 = next_out s" "strstart s1 = strstart s" "lookahead s1 = lookahead s"
    "block_start s1 = block_start s" "next_in s1 = next_in s" "window_size s1 = window_size s" "match_available s1 = match_available s"
    "prev_length s1 = match_length s" "prev_match s1 = match_start s" using se by (simp_all add: searched_def)
  let ?L = "prev_length s1" and ?p = "length inp - lookahead s - 1" and ?d = "of_nat (strstart s1) - 1 - prev_match s1 :: uint"
  have ex: "lz_expand out ts = Some (take ?p inp)" "1 + lookahead s \<le> length inp" using w(2) by (simp_all add: covers_def)
  have dd: "?d = of_nat (strstart s) - match_start s - 1" by (simp add: s1)
  have mo: "match_ok inp ?p ?L (unat ?d)" "match_available s" "strstart s \<noteq> 0" unfolding dd using i(2) l s1(12) by (simp_all add: lazy_ok_def)
  have len: "?L \<le> lookahead s + 1" "?L \<le> 258" using mo(1) ex(2) by (auto simp: match_ok_def)
  have o1: "out_inv hdr s1 out ts" using w(1) s1 by (simp add: out_inv_def)
  obtain bf s2 where t: "tally_dist s1 ?d (?L - 3) = (bf, s2)" by force
  obtain ts' where e: "tallies s1 s2 bf" "out_inv hdr s2 out ts'" "lz_expand out ts' = Some (take (?p + ?L) inp)"
    using emit_match [OF o1 _ ex(1) mo(1) t] w(3) s1(4) by auto
  note f2 = tallies_frame [OF e(1)]
  let ?mx = "strstart s1 + lookahead s1 - 3"
  define s3 where "s3 = s2\<lparr>lookahead := lookahead s2 - (?L - 1)\<rparr>"
  define s4 where "s4 = insert_upto ?mx (?L - 2) s3"
  have res: "b = bf" "s' = s4\<lparr>match_length := 2, match_available := False, strstart := strstart s4 + 1\<rparr>"
    using m t f2(6) by (simp_all add: slow_match_def Let_def MIN_MATCH_def s4_def s3_def)
  have tb: "tables s3 = tables s1" using f2(1) by (simp add: s3_def tables_def)
  note tc = tables_cong [OF tb]
  have f3: "strstart s3 = strstart s" "lookahead s3 = lookahead s - (?L - 1)" "insert_cnt s3 = insert_cnt s1" "block_start s3 = block_start s"
      "next_in s3 = next_in s" "tr s3 = tr s2" "next_out s3 = next_out s2"
    using f2 s1 by (simp_all add: s3_def)
  have la2: "2 \<le> lookahead s" using l len(1) by simp
  have icn: "insert_cnt s1 \<le> strstart s"  "\<forall>h \<in> C. h + 3 \<le> strstart s + lookahead s" using C s1 by (simp_all add: inserted_def)
  have pre: "chains s3 C" "wf_sizes s3" "strstart s3 \<le> ?mx \<longrightarrow> primed s3 (strstart s3 + 1)" "\<forall>h \<in> C. h \<le> strstart s3 \<and> h \<le> ?mx" "?mx < window_size s3"
  proof -
    show "chains s3 C" "wf_sizes s3" using C s1 tc by (simp_all add: inserted_def)
    show "strstart s3 \<le> ?mx \<longrightarrow> primed s3 (strstart s3 + 1)"
    proof
      assume "strstart s3 \<le> ?mx"
      then have "3 \<le> lookahead s1" using f3(1) s1(6,7) la2 mo(3) by linarith
      then show "primed s3 (strstart s3 + 1)" using C tc f3(1) s1(6) by (simp add: inserted_def)
    qed
    show "\<forall>h \<in> C. h \<le> strstart s3 \<and> h \<le> ?mx"
    proof
      fix h assume "h \<in> C"
      then have "h + 3 \<le> strstart s + lookahead s" "h \<le> strstart s" using icn(2) C s1 by (auto simp: inserted_def split: if_splits)
      then show "h \<le> strstart s3 \<and> h \<le> ?mx" using f3(1) s1(6,7) by linarith
    qed
    show "?mx < window_size s3" using s1(2) tc(5) s1(7) la2 mo(3) unfolding holds_def by linarith
  qed
  note iu = insert_upto_inv [OF pre s4_def]
  then obtain C' where C': "chains s4 C'" "\<forall>h \<in> C'. h \<in> C \<or> strstart s3 < h \<and> h \<le> strstart s3 + (?L - 2) \<and> h \<le> ?mx" by (elim exE conjE)
  have f4: "sframe s4 = sframe s3" "strstart s4 = strstart s + (?L - 2)" "prev_length s4 = 0" "wf_sizes s4"
    "strstart s + (?L - 2) \<le> ?mx \<longrightarrow> primed s4 (strstart s + (?L - 2) + 1)"
    using iu l f3(1) by simp_all
  note g4 = sframeD [OF f4(1)]
  have st: "strstart s' = strstart s + (?L - 1)" "lookahead s' = lookahead s - (?L - 1)" "insert_cnt s' = insert_cnt s1" "block_start s' = block_start s"
    "next_in s' = next_in s" "prev_length s' = 0" "match_length s' = 2" "\<not> match_available s'" "tr s' = tr s2" "next_out s' = next_out s2"
    using res(2) f4 g4 f3 l by simp_all
  have tb4: "tables s' = tables s4" by (simp add: res(2) tables_def)
  note tc4 = tables_cong [OF tb4]
  have ch: "chains s' C'" "wf_sizes s'" "window s' = window s1" "window_size s' = window_size s1" using C'(1) f4(4) tc4 g4 tc by simp_all
  have h: "holds s' inp" using s1(2) ch(3,4) st len(1) by (simp add: holds_def s1)
  have "win_inv s' inp \<and> ready s'"
  proof (cases "3 \<le> lookahead s1")
    case True
    then have z: "insert_cnt s1 = 0" using C by (simp add: inserted_def)
    have b: "\<forall>h \<in> C'. h + insert_cnt s' < strstart s' \<and> h + 3 \<le> strstart s' + lookahead s'"
    proof
      fix h assume "h \<in> C'"
      then have "h \<le> strstart s + (?L - 2)" "h \<le> strstart s + lookahead s - 3" using C'(2) pre(4) f3(1) s1(6,7) by (auto dest!: bspec)
      then show "h + insert_cnt s' < strstart s' \<and> h + 3 \<le> strstart s' + lookahead s'" using st z l len(1) True s1(7) by linarith
    qed
    have "insert_cnt s' = 0 \<and> primed s' (strstart s')" if "3 \<le> lookahead s'"
    proof -
      have "strstart s + (?L - 2) \<le> ?mx" using that st(2) s1(6,7) l by linarith
      then have "primed s4 (strstart s + (?L - 2) + 1)" using f4(5) by simp
      moreover have "strstart s' = strstart s + (?L - 2) + 1" using st(1) l by linarith
      ultimately show ?thesis using tc4(2) st(3) z by simp
    qed
    from moved_win [OF ch(1,2) h _ b this] show ?thesis using st(3) z by simp
  next
    case False
    then have two: "lookahead s = 2" "?L = 3" using la2 len(1) l s1(7) by linarith+
    have b: "\<forall>h \<in> C'. h + insert_cnt s' < strstart s' \<and> h + 3 \<le> strstart s' + lookahead s'"
    proof
      fix h assume "h \<in> C'"
      then have "h \<in> C" using C'(2) f3(1) s1(6,7) two by auto
      then have "h + insert_cnt s1 < strstart s" "h + 3 \<le> strstart s + lookahead s" using C False s1(6,7) by (simp_all add: inserted_def)
      then show "h + insert_cnt s' < strstart s' \<and> h + 3 \<le> strstart s' + lookahead s'" using st two by simp
    qed
    have "insert_cnt s' \<le> strstart s'" using icn(1) st by simp
    from moved_win [OF ch(1,2) h this b] st two show ?thesis by simp
  qed
  moreover have "lazy_ok s' inp" using st by (simp add: lazy_ok_def)
  moreover have "out_inv hdr s' out ts'" using e(2) by (simp add: out_inv_def st)
  moreover have "covers s' inp 0 out ts'"
  proof -
    have "length inp - lookahead s' - 0 = ?p + ?L" using st(2) ex(2) len(1) l by linarith
    then have "lz_expand out ts' = Some (take (length inp - lookahead s' - 0) inp)" using e(3) by (simp only:)
    then show ?thesis by (intro covers_moved [OF w(2)]) (use st ex(2) len(1) l in simp_all)
  qed
  moreover have "stepped s s'"
  proof -
    have "stepped s2 s3" "stepped s4 s'" by (simp_all add: s3_def res(2) stepped_def reads_def cparams_def)
    then show ?thesis using s1(3) tallies_stepped(1) [OF e(1)] sframe_stepped [OF f4(1)] stepped_trans by blast
  qed
  moreover have "symbols s' b" using tallies_stepped(2) [OF e(1)] st(9) res(1) by (simp add: symbols_def)
  moreover have "small_block s'"
  proof (rule small_block_room [OF ch(2)])
    have "holds s inp" using i(1) by (simp add: rest_inv_def win_inv_def)
    from window_room [OF this i(4)] have "strstart s + (?L - 1) < window_size s"
      using len(2) by (simp add: MIN_LOOKAHEAD_def MAX_MATCH_def MIN_MATCH_def)
    then show "strstart s' < window_size s'" using st(1) ch(4) s1(10) by simp
  qed
  moreover have "input_left s' < input_left s" using st(2,5) l i(3) by (simp add: input_left_def)
  ultimately show ?thesis using st(8) unfolding pass_post_def by blast
qed

section \<open>Coding the byte before\<close>

text \<open>The pending byte is the one before the current position.\<close>

lemma pending_byte:
  assumes "holds s inp" "strstart s \<noteq> 0"
  shows "window s ! (strstart s - 1) = inp ! (length inp - lookahead s - 1)"
proof -
  have "window s ! (strstart s - 1) = inp ! (length inp - (strstart s + lookahead s) + (strstart s - 1))"
    by (rule holds_nth [OF assms(1)]) (use assms(2) in simp)
  moreover have "strstart s + lookahead s \<le> length inp" using assms(1) by (simp add: holds_def)
  then have "length inp - (strstart s + lookahead s) + (strstart s - 1) = length inp - lookahead s - 1" using assms(2) by linarith
  ultimately show ?thesis by (simp only:)
qed

lemma tally_pending:
  assumes o: "out_inv hdr s out ts" "sym_next (tr s) < sym_end (tr s)" and c: "covers s inp 1 out ts" and h: "holds s inp" "strstart s \<noteq> 0"
    and t: "tally_lit s (window s ! (strstart s - 1)) = (b, s')"
  shows "\<exists>ts'. tallies s s' b \<and> out_inv hdr s' out ts' \<and> covers s' inp 0 out ts'"
proof -
  let ?p = "length inp - lookahead s - 1"
  have ex: "lz_expand out ts = Some (take ?p inp)" "1 + lookahead s \<le> length inp" using c by (simp_all add: covers_def)
  then have lt: "?p < length inp" by linarith
  have t': "tally_lit s (inp ! ?p) = (b, s')" using t pending_byte [OF h] by simp
  from emit_literal [OF o ex(1) lt t'] have e: "tallies s s' b" "out_inv hdr s' out (ts @ [Literal (inp ! ?p)])"
    "lz_expand out (ts @ [Literal (inp ! ?p)]) = Some (take (?p + 1) inp)" by simp_all
  note f = tallies_frame [OF e(1)]
  have "length inp - lookahead s' - 0 = ?p + 1" using f(4) ex(2) by simp
  then have "lz_expand out (ts @ [Literal (inp ! ?p)]) = Some (take (length inp - lookahead s' - 0) inp)" using e(3) by (simp only:)
  then have "covers s' inp 0 out (ts @ [Literal (inp ! ?p)])" by (intro covers_moved [OF c]) (use f ex(2) in simp_all)
  with e(1,2) show ?thesis by blast
qed

text \<open>Moving on with the current byte pending.\<close>

lemma moved_lazy:
  assumes i: "inserted s C" "wf_sizes s" "holds s inp" "lookahead s \<noteq> 0" and o: "out_inv hdr s out ts" "covers s inp 0 out ts" "sym_next (tr s) < sym_end (tr s)"
    and l: "3 \<le> prev_length s \<longrightarrow> prev_length s < match_length s"
      "3 \<le> match_length s \<longrightarrow> match_ok inp (length inp - lookahead s) (match_length s) (unat (of_nat (strstart s) - match_start s))"
    and s': "s' = s\<lparr>match_available := True, strstart := strstart s + 1, lookahead := lookahead s - 1\<rparr>"
  shows "slow_inv hdr s' inp out ts"
proof -
  have tb: "tables s' = tables s" by (simp add: s' tables_def)
  have "win_inv s' inp" "ready s'" by (rule moved_one [OF i tb]; simp add: s')+
  moreover have le: "lookahead s \<le> length inp" using o(2) by (simp add: covers_def)
  have p: "length inp - (lookahead s - 1) - 1 = length inp - lookahead s" using i(4) le by linarith
  have "lz_expand out ts = Some (take (length inp - lookahead s) inp)" using o(2) by (simp add: covers_def)
  then have "covers s' inp 1 out ts" by (intro covers_moved [OF o(2)]) (use i(4) le p in \<open>simp_all add: s'\<close>)
  moreover have "lazy_ok s' inp" using l p by (simp add: s' lazy_ok_def)
  ultimately show ?thesis using o(1,3) by (simp add: slow_inv_def rest_inv_def s' out_inv_def)
qed

section \<open>The loop\<close>

lemma slow_inv_ended:
  assumes "lazy_ok s inp" "lookahead s = 0" "block_ended s s'" "\<not> match_available s" "rest_inv hdr s' inp 0 out ts"
  shows "slow_inv hdr s' inp out ts"
proof -
  note b = block_ended_win [OF assms(3)] and l = lazy_ok_end [OF assms(1,2)]
  have "ready s'" using b(10) assms(2) by (simp add: ready_def)
  then show ?thesis using l b(11-13) assms(4,5) by (simp add: slow_inv_def lazy_ok_def)
qed

lemma slow_end:
  assumes i: "slow_inv hdr s inp out ts" "io_clear s" "lookahead s = 0" "next_in s = []" "flush \<noteq> Z_NO_FLUSH"
    "strstart s + MIN_LOOKAHEAD < window_size s"
    and s1: "s1 = (if match_available s then (snd (tally_lit s (window s ! (strstart s - 1))))\<lparr>match_available := False\<rparr> else s)"
  shows "\<exists>r s'. end_matches flush s1 = Some (r, s') \<and> comp_post hdr (slow_inv hdr) flush s inp r s'"
proof -
  have w: "win_inv s inp" "out_inv hdr s out ts" "covers s inp (of_bool (match_available s)) out ts" "sym_next (tr s) < sym_end (tr s)"
    "lazy_ok s inp" "ready s" using i(1) by (simp_all add: rest_inv_def slow_inv_def)
  have h: "holds s inp" using w(1) by (simp add: win_inv_def)
  have "\<exists>t ts'. s1 = s\<lparr>tr := t, match_available := False\<rparr> \<and> tparams t = tparams (tr s) \<and> pending_buf t = pending_buf (tr s) \<and>
      out_inv hdr (s\<lparr>tr := t\<rparr>) out ts' \<and> covers (s\<lparr>tr := t\<rparr>) inp 0 out ts' \<and> 0 < sym_end t \<and> (sym_next t = 0 \<longrightarrow> t = tr s \<and> ts' = ts \<and> \<not> match_available s)"
  proof (cases "match_available s")
    case True
    obtain b s2 where t: "tally_lit s (window s ! (strstart s - 1)) = (b, s2)" by force
    have "strstart s \<noteq> 0" using w(5) True by (simp add: lazy_ok_def)
    from tally_pending [OF w(2,4) _ h this t] w(3) True obtain ts' where e: "tallies s s2 b" "out_inv hdr s2 out ts'" "covers s2 inp 0 out ts'" by auto
    have s2: "s2 = s\<lparr>tr := tr s2\<rparr>" "tparams (tr s2) = tparams (tr s)" "pending_buf (tr s2) = pending_buf (tr s)" "0 < sym_next (tr s2)"
      "0 < sym_end (tr s2)" using e(1) by (auto simp: tallies_def)
    have "s1 = s\<lparr>tr := tr s2, match_available := False\<rparr>" using True t by (subst s1, simp) (subst s2(1), simp)
    then show ?thesis using s2(2-5) e(2,3) s2(1) [symmetric] by (intro exI [of _ "tr s2"] exI [of _ ts']) simp
  next
    case False
    then have "s1 = s\<lparr>tr := tr s, match_available := False\<rparr>" using s1 by (cases s) simp
    then show ?thesis using w False by (intro exI [of _ "tr s"] exI [of _ ts]) simp
  qed
  then obtain t ts' where t: "s1 = s\<lparr>tr := t, match_available := False\<rparr>" "tparams t = tparams (tr s)" "pending_buf t = pending_buf (tr s)"
      "out_inv hdr (s\<lparr>tr := t\<rparr>) out ts'" "covers (s\<lparr>tr := t\<rparr>) inp 0 out ts'" "0 < sym_end t"
      "sym_next t = 0 \<longrightarrow> t = tr s \<and> ts' = ts \<and> \<not> match_available s"
    by (elim exE conjE)
  let ?n = "min (strstart s) (MIN_MATCH - 1)"
  let ?s = "s\<lparr>tr := t, match_available := False, insert_cnt := ?n\<rparr>"
  have e: "end_matches flush s1 = end_input flush ?s" by (simp add: end_matches_def t(1))
  have "win_inv (s\<lparr>insert_cnt := ?n\<rparr>) inp" using w(1) i(3) by (rule win_inv_at_end) (simp_all add: MIN_MATCH_def)
  then have wi: "win_inv ?s inp" by (subst win_inv_cong [of ?s "s\<lparr>insert_cnt := ?n\<rparr>"]) simp_all
  have lz: "lazy_ok ?s inp" using lazy_ok_end [OF w(5) i(3)] by (simp add: lazy_ok_def)
  have "\<exists>r s'. end_input flush ?s = Some (r, s') \<and> comp_post hdr (slow_inv hdr) flush ?s inp r s'"
  proof (rule end_input_post [OF wi])
    show "out_inv hdr ?s out ts'" "covers ?s inp 0 out ts'" using t(4,5) by (simp_all add: out_inv_def covers_def)
    have "wf_sizes s" using w(1) by (simp add: win_inv_def)
    from small_block_room [OF this] i(6) show "small_block ?s" by (simp add: small_block_def)
    show "io_clear ?s" using i(2) t(3) by (simp add: io_clear_def pending_def)
    show "slow_inv hdr ?s inp out ts'" if "sym_next (tr ?s) = 0"
      using that t(4-7) wi lz i(3) by (auto simp: slow_inv_def rest_inv_def ready_def out_inv_def covers_def)
    show "slow_inv hdr s' inp inp []" if "block_ended ?s s'" "rest_inv hdr s' inp 0 inp []" for s'
      using slow_inv_ended [OF lz _ that(1) _ that(2)] i(3) by simp
  qed (use i(3-5) t(6) in simp_all)
  then obtain r s' where r: "end_input flush ?s = Some (r, s')" "comp_post hdr (slow_inv hdr) flush ?s inp r s'" by (elim exE conjE)
  have "comp_post hdr (slow_inv hdr) flush s inp r s'"
  proof (rule comp_post_trans)
    show "reads s ?s []" "cparams ?s = cparams s" "avail_out ?s \<le> avail_out s" using t(2) by (simp_all add: reads_def cparams_def)
    show "comp_post hdr (slow_inv hdr) flush ?s (inp @ []) r s'" using r(2) by simp
  qed
  then show ?thesis using r(1) e by (intro exI) simp
qed

text \<open>How a pass goes on: the symbol buffer may have to be flushed.\<close>

definition goes_on :: "byte list \<Rightarrow> int \<Rightarrow> dstate \<Rightarrow> byte list \<Rightarrow> (block_state \<times> dstate) option \<Rightarrow> bool" where
  "goes_on hdr flush s inp res \<longleftrightarrow> (\<exists>r s'. res = Some (r, s') \<and> comp_post hdr (slow_inv hdr) flush s inp r s')"

lemma goes_on_trans:
  assumes "reads s s1 new" "cparams s1 = cparams s" "avail_out s1 \<le> avail_out s" "goes_on hdr flush s1 (inp @ new) res"
  shows "goes_on hdr flush s inp res"
  using assms(4) comp_post_trans [OF assms(1-3)] by (auto simp: goes_on_def)

lemma goes_on_stop:
  assumes "slow_inv hdr s inp out ts" "io_ok s" "avail_out s \<noteq> 0 \<longrightarrow> io_clear s" "avail_out s = 0 \<or> flush = Z_NO_FLUSH \<and> next_in s = []"
  shows "goes_on hdr flush s inp (Some (need_more, s))"
proof -
  have "wf_sizes s" using assms(1) by (simp add: slow_inv_def rest_inv_def win_inv_def)
  then have "comp_post hdr (slow_inv hdr) flush s inp need_more s"
    unfolding comp_post_def outcome_def using assms by (intro exI [of _ "[]"]) (auto simp: reads_refl)
  then show ?thesis by (simp add: goes_on_def)
qed

lemma goes_on_flush:
  assumes p: "pass_post hdr (\<lambda>s ts. ready s \<and> lazy_ok s inp \<and> \<not> match_available s) s inp out b s1" and io: "io_clear s1"
    and IH: "\<And>s' out ts. input_left s' < input_left s \<Longrightarrow> slow_inv hdr s' inp out ts \<Longrightarrow> io_clear s' \<Longrightarrow> goes_on hdr flush s' inp (deflate_slow flush s')"
  shows "goes_on hdr flush s1 inp (if b then do {
                (full, s) \<leftarrow> FLUSH_BLOCK s1 False;
                if full then Some (need_more, s) else deflate_slow flush s
              }
              else deflate_slow flush s1)"
proof -
  obtain ts where w: "win_inv s1 inp" "out_inv hdr s1 out ts" "covers s1 inp 0 out ts" "ready s1" "lazy_ok s1 inp" "\<not> match_available s1"
    and st: "small_block s1" "symbols s1 b" "input_left s1 < input_left s" using p by (auto simp: pass_post_def)
  show ?thesis
  proof (cases b)
    case False
    then have "slow_inv hdr s1 inp out ts" using w st(2) by (simp add: slow_inv_def rest_inv_def symbols_def)
    then show ?thesis using IH [OF st(3) _ io] False by simp
  next
    case True
    then have full: "0 < sym_end (tr s1)" using st(2) by (simp add: symbols_def)
    obtain s2 where f: "FLUSH_BLOCK_ONLY s1 False = Some s2" "block_ended s1 s2" "rest_inv hdr s2 inp 0 (take (length inp - lookahead s1) inp) []"
      using FLUSH_BLOCK_ONLY_rest [OF w(1-3) st(1) io full] by (elim exE conjE)
    note be = block_ended_win [OF f(2)]
    have "slow_inv hdr s2 inp (take (length inp - lookahead s1) inp) []"
      using f(3) w(4-6) be(2,9-14) by (simp add: slow_inv_def lazy_ok_def)
    moreover have "input_left s2 < input_left s" using st(3) be(10,16) by (simp add: input_left_def)
    ultimately have "goes_on hdr flush s2 inp (if avail_out s2 = 0 then Some (need_more, s2) else deflate_slow flush s2)"
      using goes_on_stop [OF _ be(6)] IH [OF _ _ be(7)] be(7) by auto
    then have "goes_on hdr flush s1 inp (if avail_out s2 = 0 then Some (need_more, s2) else deflate_slow flush s2)"
      by (intro goes_on_trans [OF be(3-5)]) simp
    then show ?thesis using True f(1) by (simp add: FLUSH_BLOCK_def)
  qed
qed

lemma block_ended_tables: "block_ended s s' \<Longrightarrow> tables s' = tables s \<and> window_size s' = window_size s \<and> insert_cnt s' = insert_cnt s"
  using oframeD [of s' "s\<lparr>block_start := int (strstart s)\<rparr>"]
  by (simp add: block_ended_def delivered_def tables_def window_size_def w_size_def)

text \<open>The state in which a pass codes the pending byte: the current string is inserted.\<close>

lemma goes_on_literal:
  assumes se: "searched s inp s2" and i: "rest_inv hdr s inp 1 out ts" "lookahead s \<noteq> 0" "io_clear s" "match_available s" "strstart s \<noteq> 0"
      "MIN_LOOKAHEAD \<le> lookahead s \<or> strstart s + MIN_LOOKAHEAD < window_size s"
    and l: "\<not> (3 \<le> prev_length s2 \<and> match_length s2 \<le> prev_length s2)" and t: "tally_lit s2 (window s2 ! (strstart s2 - 1)) = (b, s3)"
    and IH: "\<And>s' out ts. input_left s' < input_left s \<Longrightarrow> slow_inv hdr s' inp out ts \<Longrightarrow> io_clear s' \<Longrightarrow> goes_on hdr flush s' inp (deflate_slow flush s')"
  shows "goes_on hdr flush s inp (do {
                s \<leftarrow> (if b then FLUSH_BLOCK_ONLY s3 False else Some s3);
                let s = s\<lparr>strstart := strstart s + 1, lookahead := lookahead s - 1\<rparr>;
                if avail_out s = 0 then Some (need_more, s) else deflate_slow flush s
              })"
proof -
  have w: "out_inv hdr s out ts" "covers s inp 1 out ts" "sym_next (tr s) < sym_end (tr s)" using i(1) by (simp_all add: rest_inv_def)
  have s2: "wf_sizes s2" "holds s2 inp" "stepped s s2" "tr s2 = tr s" "next_out s2 = next_out s" "strstart s2 = strstart s" "lookahead s2 = lookahead s"
    "block_start s2 = block_start s" "next_in s2 = next_in s" "window_size s2 = window_size s" "match_available s2 = match_available s"
    "3 \<le> match_length s2 \<and> prev_length s2 < match_length s2 \<longrightarrow>
        match_ok inp (length inp - lookahead s) (match_length s2) (unat (of_nat (strstart s) - match_start s2))"
    using se by (simp_all add: searched_def)
  obtain C where C: "inserted s2 C" using se by (auto simp: searched_def)
  have o2: "out_inv hdr s2 out ts" "covers s2 inp 1 out ts" using w s2 by (simp_all add: out_inv_def covers_def)
  obtain ts3 where e: "tallies s2 s3 b" "out_inv hdr s3 out ts3" "covers s3 inp 0 out ts3"
    using tally_pending [OF o2(1) _ o2(2) s2(2) _ t] w(3) i(5) s2(4,6) by auto
  note f3 = tallies_frame [OF e(1)]
  have sy: "symbols s3 b" and st: "stepped s s3" using tallies_stepped [OF e(1)] stepped_trans [OF s2(3)] by blast+
  then have io3: "io_clear s3" using i(3) stepped_io by simp
  have stp: "reads s s3 []" "cparams s3 = cparams s" "avail_out s3 \<le> avail_out s" using st by (simp_all add: stepped_def)
  note tc3 = tables_cong [OF f3(1)]
  have i3: "wf_sizes s3" "holds s3 inp" "length (window s3) = window_size s3"
    using s2(1) tc3 holds_moved [OF s2(2) _ f3(1)] f3(3,4) by (simp_all add: wf_sizes_def)
  have small: "small_block s3"
  proof (rule small_block_room [OF i3(1)])
    have "holds s inp" using i(1) by (simp add: rest_inv_def win_inv_def)
    from window_room [OF this i(6), of 0] show "strstart s3 < window_size s3"
      using f3 s2(6,10) by (simp add: MIN_LOOKAHEAD_def MAX_MATCH_def MIN_MATCH_def)
  qed
  text \<open>After the block has been ended, if it had to be.\<close>
  have "\<exists>s4 out4 ts4. (if b then FLUSH_BLOCK_ONLY s3 False else Some s3) = Some s4 \<and> out_inv hdr s4 out4 ts4 \<and> covers s4 inp 0 out4 ts4 \<and>
      sym_next (tr s4) < sym_end (tr s4) \<and> tables s4 = tables s3 \<and> insert_cnt s4 = insert_cnt s3 \<and> strstart s4 = strstart s3 \<and> lookahead s4 = lookahead s3 \<and>
      match_available s4 = match_available s3 \<and> match_length s4 = match_length s3 \<and> prev_length s4 = prev_length s3 \<and> match_start s4 = match_start s3 \<and>
      next_in s4 = next_in s3 \<and> reads s3 s4 [] \<and> cparams s4 = cparams s3 \<and> avail_out s4 \<le> avail_out s3 \<and> io_ok s4 \<and> (avail_out s4 \<noteq> 0 \<longrightarrow> io_clear s4)"
  proof (cases b)
    case False
    then show ?thesis using e sy io3
      by (intro exI [of _ s3] exI [of _ out] exI [of _ ts3]) (simp add: symbols_def reads_refl io_clear_def io_ok_def)
  next
    case True
    have "0 < sym_end (tr s3)" using sy True by (simp add: symbols_def)
    moreover obtain s4 where f: "FLUSH_BLOCK_ONLY s3 False = Some s4" "block_ended s3 s4" "out_inv hdr s4 (take (length inp - lookahead s3) inp) []"
        "sym_next (tr s4) = 0"
      using FLUSH_BLOCK_ONLY_inv(1) [OF io3 e(2,3) i3(2,3) small] by (elim exE conjE)
    note be = block_ended_win [OF f(2)]
    have "tparams (tr s4) = tparams (tr s3)" using be(4) by (simp add: cparams_def)
    ultimately have "sym_next (tr s4) < sym_end (tr s4)" using f(4) by (simp add: tparams_def)
    moreover have "covers s4 inp 0 (take (length inp - lookahead s3) inp) []" using e(3) be(8,10) by (simp add: covers_def)
    ultimately show ?thesis using True f be(3-7,9-14,16) block_ended_tables [OF f(2)]
      by (intro exI [of _ s4] exI [of _ "take (length inp - lookahead s3) inp"] exI [of _ "[]"]) simp
  qed
  then obtain s4 out4 ts4 where s4: "(if b then FLUSH_BLOCK_ONLY s3 False else Some s3) = Some s4" "out_inv hdr s4 out4 ts4" "covers s4 inp 0 out4 ts4"
      "sym_next (tr s4) < sym_end (tr s4)"
    and tb4: "tables s4 = tables s3" and f4: "insert_cnt s4 = insert_cnt s3" "strstart s4 = strstart s3" "lookahead s4 = lookahead s3"
      "match_available s4 = match_available s3" "match_length s4 = match_length s3" "prev_length s4 = prev_length s3" "match_start s4 = match_start s3"
      "next_in s4 = next_in s3"
    and st4: "reads s3 s4 []" "cparams s4 = cparams s3" "avail_out s4 \<le> avail_out s3" and io4: "io_ok s4" "avail_out s4 \<noteq> 0 \<longrightarrow> io_clear s4"
    by (elim exE conjE)
  let ?s5 = "s4\<lparr>strstart := strstart s4 + 1, lookahead := lookahead s4 - 1\<rparr>"
  have "s4\<lparr>match_available := True\<rparr> = s4" using f4(4) f3(7) s2(11) i(4) by (cases s4) simp
  then have e5: "?s5 = s4\<lparr>match_available := True, strstart := strstart s4 + 1, lookahead := lookahead s4 - 1\<rparr>"
    by (metis (no_types))
  have tb: "tables s4 = tables s2" using tb4 f3(1) by simp
  note tc4 = tables_cong [OF tb]
  have i4: "inserted s4 C" "wf_sizes s4" "holds s4 inp" "lookahead s4 \<noteq> 0"
    using inserted_cong [OF tb] C s2 tc4 holds_moved [OF s2(2) _ tb] f3 f4 i(2) by simp_all
  have l4: "3 \<le> prev_length s4 \<longrightarrow> prev_length s4 < match_length s4"
    "3 \<le> match_length s4 \<longrightarrow> match_ok inp (length inp - lookahead s4) (match_length s4) (unat (of_nat (strstart s4) - match_start s4))"
    using l s2(6,7,12) f3 f4 by auto
  have si: "slow_inv hdr ?s5 inp out4 ts4" by (rule moved_lazy [OF i4 s4(2-4) l4 e5])
  have io5: "io_ok ?s5" "avail_out ?s5 \<noteq> 0 \<longrightarrow> io_clear ?s5" using io4 by (simp_all add: io_ok_def io_clear_def pending_def)
  have "input_left ?s5 < input_left s" using i(2) f3 f4 s2 by (simp add: input_left_def)
  then have "goes_on hdr flush ?s5 inp (if avail_out ?s5 = 0 then Some (need_more, ?s5) else deflate_slow flush ?s5)"
    using goes_on_stop [OF si io5] IH [OF _ si] io5 by auto
  moreover have "reads s ?s5 []" using reads_trans [OF stp(1) st4(1)] by (simp add: reads_def)
  moreover have "cparams ?s5 = cparams s" "avail_out ?s5 \<le> avail_out s" using stp st4 by (simp_all add: cparams_def)
  ultimately have "goes_on hdr flush s inp (if avail_out ?s5 = 0 then Some (need_more, ?s5) else deflate_slow flush ?s5)"
    by (intro goes_on_trans [of s ?s5 "[]"]) simp_all
  then show ?thesis unfolding s4(1) Let_def Option.bind.bind_lunit dstate.simps .
qed

lemma deflate_slow_post:
  "slow_inv hdr s inp out ts \<Longrightarrow> io_clear s \<Longrightarrow> goes_on hdr flush s inp (deflate_slow flush s)"
proof (induction "input_left s" arbitrary: s inp out ts rule: less_induct)
  case less
  have i: "rest_inv hdr s inp (of_bool (match_available s)) out ts" "ready s" "lazy_ok s inp" using less.prems(1) by (simp_all add: slow_inv_def)
  have need: "1 \<le> MIN_LOOKAHEAD" by (simp add: MIN_LOOKAHEAD_def)
  obtain go s1 new where l: "look_ahead MIN_LOOKAHEAD flush s = Some (go, s1)" "rest_inv hdr s1 (inp @ new) (of_bool (match_available s)) out ts"
      "reads s s1 new" "wkeeps s s1" "lookahead s1 = lookahead s + length new"
      "ready s \<longrightarrow> ready s1" "MIN_LOOKAHEAD \<le> lookahead s1 \<or> strstart s1 + MIN_LOOKAHEAD < window_size s1"
    and none: "go = None \<longrightarrow> flush = Z_NO_FLUSH \<and> next_in s1 = []"
    and brk: "go = Some False \<longrightarrow> flush \<noteq> Z_NO_FLUSH \<and> next_in s1 = [] \<and> lookahead s1 = 0" and more: "go = Some True \<longrightarrow> lookahead s1 \<noteq> 0"
    using look_ahead_inv [OF i(1) need order_refl, of flush] by (elim exE conjE)
  note k = wkeeps_stepped [OF l(4)]
  have ma: "match_available s1 = match_available s" using wkeepsD(15) [OF l(4)] .
  have si: "slow_inv hdr s1 (inp @ new) out ts" using l(2,6) i(2) lazy_ok_fill [OF i(3) l(4,5)] ma by (simp add: slow_inv_def)
  have io: "io_clear s1" using k less.prems(2) by simp
  have left: "input_left s1 = input_left s" using look_ahead_input [OF l(1)] by simp
  have IH: "goes_on hdr flush s' (inp @ new) (deflate_slow flush s')" if "input_left s' < input_left s1" "slow_inv hdr s' (inp @ new) out ts" "io_clear s'"
    for s' out ts using less.hyps that left by simp
  have "goes_on hdr flush s1 (inp @ new) (deflate_slow flush s)"
  proof (cases go)
    case None
    then have "deflate_slow flush s = Some (need_more, s1)" using l(1) by (subst deflate_slow.simps) simp
    then show ?thesis using goes_on_stop [OF si] io none None by (simp add: io_clear_def io_ok_def)
  next
    case (Some c)
    show ?thesis
    proof (cases c)
      case False
      then have e: "deflate_slow flush s = end_matches flush (if match_available s1
           then (snd (tally_lit s1 (window s1 ! (strstart s1 - 1))))\<lparr>match_available := False\<rparr> else s1)"
        using l(1) Some by (subst deflate_slow.simps) simp
      have "strstart s1 + MIN_LOOKAHEAD < window_size s1" using l(7) brk Some False by (auto simp: MIN_LOOKAHEAD_def)
      from slow_end [OF si io _ _ _ this refl] brk Some False e show ?thesis by (simp add: goes_on_def)
    next
      case True
      then have la: "lookahead s1 \<noteq> 0" using more Some by simp
      obtain h s2 where ic: "insert_current s1 = (h, s2)" by force
      let ?s3 = "lazy_match h s2"
      have wr: "win_inv s1 (inp @ new)" "ready s1" using si by (simp_all add: slow_inv_def rest_inv_def)
      note se = search_current [OF wr ic]
      have li: "lazy_ok s1 (inp @ new)" using si by (simp add: slow_inv_def)
      have s3: "match_available ?s3 = match_available s1" "prev_length ?s3 = match_length s1" using se by (simp_all add: searched_def)
      have r1: "rest_inv hdr s1 (inp @ new) 1 out ts" "strstart s1 \<noteq> 0" if "match_available s1"
        using si that by (simp_all add: slow_inv_def lazy_ok_def)
      have eq: "deflate_slow flush s = (if prev_length ?s3 \<ge> MIN_MATCH \<and> match_length ?s3 \<le> prev_length ?s3
         then let (bflush, s) = slow_match ?s3 in
              if bflush
              then do {
                (full, s) \<leftarrow> FLUSH_BLOCK s False;
                if full then Some (need_more, s) else deflate_slow flush s
              }
              else deflate_slow flush s
         else if match_available ?s3
         then let (bflush, s) = tally_lit ?s3 (window ?s3 ! (strstart ?s3 - 1)) in do {
                s \<leftarrow> (if bflush then FLUSH_BLOCK_ONLY s False else Some s);
                let s = s\<lparr>strstart := strstart s + 1, lookahead := lookahead s - 1\<rparr>;
                if avail_out s = 0 then Some (need_more, s) else deflate_slow flush s
              }
         else deflate_slow flush (?s3\<lparr>match_available := True, strstart := strstart ?s3 + 1, lookahead := lookahead ?s3 - 1\<rparr>))"
        using l(1) Some \<open>c\<close> ic by (subst deflate_slow.simps) (simp add: Let_def)
      consider "3 \<le> prev_length ?s3" "match_length ?s3 \<le> prev_length ?s3"
        | "\<not> (3 \<le> prev_length ?s3 \<and> match_length ?s3 \<le> prev_length ?s3)" "match_available ?s3"
        | "\<not> (3 \<le> prev_length ?s3 \<and> match_length ?s3 \<le> prev_length ?s3)" "\<not> match_available ?s3" by blast
      then show ?thesis
      proof cases
        case 1
        obtain b s4 where m: "slow_match ?s3 = (b, s4)" by force
        have "match_available s1" using li 1(1) s3(2) by (simp add: lazy_ok_def)
        note p = slow_match_inv [OF se r1(1) [OF this] li la l(7) 1(1) m]
        then have st: "stepped s1 s4" by (simp add: pass_post_def)
        have io4: "io_clear s4" using stepped_io [OF st] io by simp
        have stp: "reads s1 s4 []" "cparams s4 = cparams s1" "avail_out s4 \<le> avail_out s1" using st by (simp_all add: stepped_def)
        note g = goes_on_flush [OF p io4 IH]
        have "deflate_slow flush s = (if b then do {
                (full, s) \<leftarrow> FLUSH_BLOCK s4 False;
                if full then Some (need_more, s) else deflate_slow flush s
              }
              else deflate_slow flush s4)" unfolding eq m using 1 by (simp add: MIN_MATCH_def)
        then show ?thesis using g by (intro goes_on_trans [OF stp]) simp
      next
        case 2
        obtain b s4 where t: "tally_lit ?s3 (window ?s3 ! (strstart ?s3 - 1)) = (b, s4)" by force
        have ma1: "match_available s1" using 2(2) s3(1) by simp
        have "deflate_slow flush s = do {
                s \<leftarrow> (if b then FLUSH_BLOCK_ONLY s4 False else Some s4);
                let s = s\<lparr>strstart := strstart s + 1, lookahead := lookahead s - 1\<rparr>;
                if avail_out s = 0 then Some (need_more, s) else deflate_slow flush s
              }" unfolding eq t using 2 by (auto simp: MIN_MATCH_def)
        then show ?thesis using goes_on_literal [OF se r1(1) [OF ma1] la io ma1 r1(2) [OF ma1] l(7) 2(1) t IH] by simp
      next
        case 3
        let ?s4 = "?s3\<lparr>match_available := True, strstart := strstart ?s3 + 1, lookahead := lookahead ?s3 - 1\<rparr>"
        obtain C where C: "inserted ?s3 C" using se by (auto simp: searched_def)
        have f: "wf_sizes ?s3" "holds ?s3 (inp @ new)" "stepped s1 ?s3" "tr ?s3 = tr s1" "next_out ?s3 = next_out s1" "strstart ?s3 = strstart s1"
          "lookahead ?s3 = lookahead s1" "block_start ?s3 = block_start s1" "next_in ?s3 = next_in s1"
          using se by (simp_all add: searched_def)
        have f': "3 \<le> match_length ?s3 \<and> prev_length ?s3 < match_length ?s3 \<longrightarrow>
             match_ok (inp @ new) (length (inp @ new) - lookahead s1) (match_length ?s3) (unat (of_nat (strstart s1) - match_start ?s3))"
          using se unfolding searched_def by (elim conjE)
        have "\<not> match_available s1" using 3(2) s3(1) by simp
        then have o: "out_inv hdr ?s3 out ts" "covers ?s3 (inp @ new) 0 out ts" "sym_next (tr ?s3) < sym_end (tr ?s3)"
          using si f by (simp_all add: slow_inv_def rest_inv_def out_inv_def covers_def)
        have "slow_inv hdr ?s4 (inp @ new) out ts"
          by (rule moved_lazy [OF C f(1,2) _ o _ _ refl]) (use 3(1) f f' la in auto)
        moreover have "input_left ?s4 < input_left s1" using la f by (simp add: input_left_def)
        moreover have st: "stepped s1 ?s4"
        proof -
          have "stepped ?s3 ?s4" by (simp add: stepped_def reads_def cparams_def)
          with f(3) show ?thesis by (rule stepped_trans)
        qed
        ultimately have "goes_on hdr flush ?s4 (inp @ new) (deflate_slow flush ?s4)" using IH stepped_io [OF st] io by blast
        moreover have "deflate_slow flush s = deflate_slow flush ?s4" unfolding eq using 3 by (auto simp: MIN_MATCH_def)
        moreover have "reads s1 ?s4 []" "cparams ?s4 = cparams s1" "avail_out ?s4 \<le> avail_out s1" using st by (simp_all only: stepped_def)
        ultimately show ?thesis by (intro goes_on_trans [of s1 ?s4 "[]"]) simp_all
      qed
    qed
  qed
  from goes_on_trans [OF l(3) _ _ this] k show ?case by simp
qed

end
