(* ===== verification/Deflate_Stored.thy ===== *)
theory Deflate_Stored
  imports Deflate_Runs
begin

text \<open>
  \<open>deflate_stored\<close>: blocks are copied directly from the window and the input to the output when
  they fit there, and the rest is kept in the window until a block is worth to be written.
\<close>

section \<open>Stored blocks in two parts\<close>

lemma bit_of_nat_word: "bit (of_nat n :: 'a :: len word) i \<longleftrightarrow> i < LENGTH('a) \<and> bit n i"
  by (simp add: bit_simps)

lemma length_bytes:
  fixes n :: nat
  shows "ucast ((of_nat n :: ush) AND 255) = (of_nat n :: byte)" "ucast (drop_bit 8 (of_nat n :: ush)) = (of_nat (n div 256) :: byte)"
    "ucast (NOT (of_nat n :: ush) AND 255) = (NOT (of_nat n) :: byte)" "ucast (drop_bit 8 (NOT (of_nat n :: ush))) = (NOT (of_nat (n div 256)) :: byte)"
proof -
  have d: "n div 256 = drop_bit 8 n" by (simp add: drop_bit_eq_div)
  have m: "(255 :: ush) = mask 8" by (simp add: mask_eq_exp_minus_1)
  show "ucast ((of_nat n :: ush) AND 255) = (of_nat n :: byte)" "ucast (drop_bit 8 (of_nat n :: ush)) = (of_nat (n div 256) :: byte)"
    "ucast (NOT (of_nat n :: ush) AND 255) = (NOT (of_nat n) :: byte)" "ucast (drop_bit 8 (NOT (of_nat n :: ush))) = (NOT (of_nat (n div 256)) :: byte)"
    unfolding d m by (auto intro!: bit_eqI simp: bit_simps)
qed

text \<open>The header of a stored block, and the block as header and data.\<close>

definition stored_header :: "trees_state \<Rightarrow> nat \<Rightarrow> bool \<Rightarrow> trees_state" where
  "stored_header t len l = patch_stored len (tr_stored_block t [] l)"

lemma stored_header_data:
  assumes "length data = len"
  shows "tr_stored_block t data l = (stored_header t len l)\<lparr>pending_buf := pending_buf (stored_header t len l) @ data\<rparr>"
proof -
  let ?u = "bi_windup (send_bits t (2 * STORED_BLOCK + of_bool l) 3)"
  have p: "(xs @ [a, b, c, d])[length xs := a', Suc (length xs) := b', Suc (Suc (length xs)) := c', Suc (Suc (Suc (length xs))) := d'] = xs @ [a', b', c', d']"
    for xs :: "byte list" and a b c d a' b' c' d' by (simp add: list_update_append)
  show ?thesis
    unfolding stored_header_def tr_stored_block_def patch_stored_def put_short_def put_byte_def Let_def length_bytes assms
    using p [of "pending_buf ?u"] by simp
qed

lemma stored_header_length:
  assumes "bi_valid t \<le> 16"
  shows "length (pending_buf (stored_header t len l)) = length (pending_buf t) + (bi_valid t + 42) div 8"
proof -
  consider "bi_valid t \<le> 5" | "6 \<le> bi_valid t" "bi_valid t \<le> 13" | "14 \<le> bi_valid t" by linarith
  then have "length (pending_buf (bi_windup (send_bits t v 3))) + 4 = length (pending_buf t) + (bi_valid t + 42) div 8" for v
  proof cases
    case 1
    then have "(bi_valid t + 42) div 8 = 5" by (simp add: div_nat_eqI)
    then show ?thesis using 1 by (simp add: send_bits_def bi_windup_def Buf_size_def put_short_def put_byte_def Let_def)
  next
    case 2
    then have "(bi_valid t + 42) div 8 = 6" by (simp add: div_nat_eqI)
    then show ?thesis using 2 by (simp add: send_bits_def bi_windup_def Buf_size_def put_short_def put_byte_def Let_def)
  next
    case 3
    then have "(bi_valid t + 42) div 8 = 7" using assms by (simp add: div_nat_eqI)
    then show ?thesis using 3 assms by (simp add: send_bits_def bi_windup_def Buf_size_def put_short_def put_byte_def Let_def)
  qed
  note n = this
  have "length (pending_buf (stored_header t len l)) = length (pending_buf (bi_windup (send_bits t (2 * STORED_BLOCK + of_bool l) 3))) + 4"
    by (simp add: stored_header_def patch_stored_def tr_stored_block_def put_short_def put_byte_def Let_def)
  then show ?thesis unfolding n .
qed

lemma stored_block_frame:
  "bi_valid (tr_stored_block t data l) = 0" "tparams (tr_stored_block t data l) = tparams t" "sym_next (tr_stored_block t data l) = sym_next t"
  by (simp_all add: tr_stored_block_def Let_def put_short_def put_byte_def bi_windup_def send_bits_def tparams_def)

lemma stored_header_frame:
  "bi_valid (stored_header t len l) = 0" "tparams (stored_header t len l) = tparams t" "sym_next (stored_header t len l) = sym_next t"
  using stored_block_frame [of t "[]" l] by (simp_all add: stored_header_def patch_stored_def Let_def tparams_def)

text \<open>What the copying of blocks leaves alone.\<close>

definition stays :: "dstate \<Rightarrow> dstate \<Rightarrow> bool" where
  "stays s s' \<longleftrightarrow> tables s' = tables s \<and> strstart s' = strstart s \<and> lookahead s' = lookahead s \<and> cparams s' = cparams s \<and> avail_out s' \<le> avail_out s"

lemma stays_trans: "stays s s1 \<Longrightarrow> stays s1 s2 \<Longrightarrow> stays s s2"
  by (simp add: stays_def)

lemma copy_input_eq:
  assumes "s' = copy_input len s"
  shows "next_out s' = next_out s @ take len (next_in s) \<and> avail_out s' = avail_out s - len \<and> reads s s' (take len (next_in s)) \<and>
    tr s' = tr s \<and> pending_out s' = pending_out s \<and> block_start s' = block_start s \<and> stays s s'"
proof -
  obtain buf s1 where r: "read_buf s len = (buf, s1)" by force
  note rb = read_buf_reads [OF r]
  have f: "next_out s1 = next_out s" "avail_out s1 = avail_out s" "tr s1 = tr s" "pending_out s1 = pending_out s" "block_start s1 = block_start s"
    "tables s1 = tables s" "strstart s1 = strstart s" "lookahead s1 = lookahead s" "cparams s1 = cparams s"
    by (subst rb(3), simp add: tables_def cparams_def)+
  have s': "s' = s1\<lparr>next_out := next_out s1 @ buf, avail_out := avail_out s1 - len, total_out := total_out s1 + of_nat len\<rparr>"
    using assms r by (simp add: copy_input_def)
  have "reads s s' buf" using rb(1) by (simp add: s' reads_def)
  moreover have "stays s s'" using f by (simp add: s' stays_def tables_def cparams_def)
  ultimately show ?thesis using rb(2) f by (simp add: s')
qed

lemma direct_copy_eq:
  assumes "s' = direct_copy len left s"
  shows "next_out s' = next_out s @ take (min left len) (drop (nat (block_start s)) (window s)) @ take (len - left) (next_in s) \<and>
    avail_out s' = avail_out s - len \<and> reads s s' (take (len - left) (next_in s)) \<and> tr s' = tr s \<and> pending_out s' = pending_out s \<and>
    block_start s' = block_start s + int (min left len) \<and> stays s s'"
proof -
  define s1 where "s1 = (if min left len = 0 then s else copy_window (min left len) s)"
  have d: "len - min left len = len - left" by simp
  have s1: "next_out s1 = next_out s @ take (min left len) (drop (nat (block_start s)) (window s))" "avail_out s1 = avail_out s - min left len"
    "next_in s1 = next_in s" "tr s1 = tr s" "pending_out s1 = pending_out s" "block_start s1 = block_start s + int (min left len)" "stays s s1" "reads s s1 []"
    by (simp_all add: s1_def copy_window_def stays_def tables_def cparams_def reads_def)
  have s': "s' = (if len - left = 0 then s1 else copy_input (len - left) s1)"
    unfolding assms direct_copy_def Let_def d s1_def [symmetric] ..
  show ?thesis
  proof (cases "len - left = 0")
    case True
    then show ?thesis using s1 s' by (simp add: min_absorb2)
  next
    case False
    then have e: "s' = copy_input (len - left) s1" using s' by simp
    note ci = copy_input_eq [OF e]
    have "avail_out s' = avail_out s - len" using ci s1(2) False by (simp add: min_absorb1)
    moreover have "reads s s' (take (len - left) (next_in s))" using reads_trans [OF s1(8)] ci s1(3) by (metis append_Nil)
    ultimately show ?thesis using ci s1 stays_trans [OF s1(7)] by simp
  qed
qed

section \<open>A block to the output\<close>

lemma direct_block_inv:
  assumes o: "out_inv hdr s out []" and sp: "io_clear s" and room: "header_bytes s \<le> avail_out s"
    and b: "0 \<le> block_start s" "block_start s \<le> int (strstart s)" "strstart s \<le> length (window s)"
    and d: "data = take (min (window_left s) (direct_len s)) (drop (nat (block_start s)) (window s)) @ take (direct_len s - window_left s) (next_in s)"
  shows "\<exists>s'. direct_block l s = Some s' \<and> (if l then done_inv hdr s' (out @ data) else out_inv hdr s' (out @ data) []) \<and> io_clear s' \<and>
    reads s s' (take (direct_len s - window_left s) (next_in s)) \<and> block_start s' = block_start s + int (min (window_left s) (direct_len s)) \<and>
    stays s s' \<and> length data = direct_len s"
proof -
  let ?len = "direct_len s" and ?left = "window_left s"
  obtain gone where g: "next_out s = hdr @ gone" "writer gone (tr s) out []" using o by (auto simp: out_inv_def)
  have v: "bi_valid (tr s) \<le> 16" by (rule writer_bi_valid [OF g(2)])
  have pb: "pending_buf (tr s) = []" and po: "pending_out s = 0" using sp by (simp_all add: io_clear_def pending_def)
  let ?h = "stored_header (tr s) ?len l" and ?s1 = "s\<lparr>tr := stored_header (tr s) (direct_len s) l\<rparr>"
  have hl: "length (pending_buf ?h) = header_bytes s" using stored_header_length [OF v] pb by (simp add: header_bytes_def)
  have io: "io_ok ?s1" using po by (simp add: io_ok_def)
  have idle: "bi_flush ?h = ?h" by (simp add: bi_flush_idle stored_header_frame)
  obtain s2 where s2: "flush_pending ?s1 = Some s2" "oframe s2 = oframe ?s1" "tr s2 = ?h\<lparr>pending_buf := []\<rparr>"
      "next_out s2 = next_out s @ pending_buf ?h" "avail_out s2 = avail_out s - header_bytes s" "pending s2 = 0 \<longrightarrow> pending_out s2 = 0"
    using flush_pending_moves [OF io] room hl by (auto simp: Let_def idle min_absorb1)
  note f = oframeD [OF s2(2)]
  have db: "direct_block l s = Some (direct_copy ?len ?left s2)"
    using s2(1) po by (simp add: direct_block_def on_trees_def stored_header_def)
  define s3 where "s3 = direct_copy ?len ?left s2"
  note dc = direct_copy_eq [OF s3_def]
  have no: "next_out s3 = hdr @ gone @ pending_buf ?h @ data" using dc f s2(4) g(1) by (simp add: d)
  have "?left \<le> length (drop (nat (block_start s)) (window s))" using b by (simp add: window_left_def)
  moreover have "?len \<le> ?left + length (next_in s)" by (simp add: direct_len_def)
  ultimately have len: "length data = ?len" by (simp add: d)
  have "?len < 65536" by (simp add: direct_len_def MAX_STORED_def)
  then have small: "length data < 65536" using len by simp
  have blk: "pending_buf (tr_stored_block (tr s) data l) = pending_buf ?h @ data"
    "(tr_stored_block (tr s) data l)\<lparr>pending_buf := []\<rparr> = tr s3"
    using stored_header_data [OF len] dc s2(3) by simp_all
  have sp3: "io_clear s3" using dc s2(3,6) by (simp add: io_clear_def pending_def)
  have "done_inv hdr s3 (out @ data)" if l
  proof -
    obtain pad where "stream_code (bytes_bits (gone @ pending_buf (tr_stored_block (tr s) data True))) [] pad (out @ data)"
      using writer_last_stored [OF g(2) small] by blast
    moreover have "bi_valid (tr s3) = 0" "pending_buf (tr s3) = []" using dc s2(3) by (simp_all add: stored_header_frame)
    ultimately show ?thesis using no blk(1) that by (auto simp: done_inv_def intro!: exI [of _ "gone @ pending_buf ?h @ data"])
  qed
  moreover have "out_inv hdr s3 (out @ data) []" if "\<not> l"
  proof -
    have "writer (gone @ take (length (pending_buf (tr_stored_block (tr s) data False))) (pending_buf (tr_stored_block (tr s) data False)))
        ((tr_stored_block (tr s) data False)\<lparr>pending_buf := drop (length (pending_buf (tr_stored_block (tr s) data False)))
          (pending_buf (tr_stored_block (tr s) data False))\<rparr>) (out @ data) []"
      using writer.drain [OF writer.store [OF g(2) small]] by blast
    then have "writer (gone @ pending_buf ?h @ data) (tr s3) (out @ data) []" using blk that by simp
    then show ?thesis using no by (auto simp: out_inv_def)
  qed
  moreover have "reads s s3 (take (?len - ?left) (next_in s))"
  proof -
    have "reads s s2 []" using f by (simp add: reads_def)
    from reads_trans [OF this, of s3] show ?thesis using dc f by simp
  qed
  moreover have "stays s s3"
  proof -
    have "tparams (tr s2) = tparams (tr s)" using s2(3) stored_header_frame(2) [of "tr s" ?len l] by (simp add: tparams_def)
    then have "stays s s2" using f s2(5) by (simp add: stays_def tables_def cparams_def)
    then show ?thesis using stays_trans dc by blast
  qed
  ultimately show ?thesis using db sp3 dc f len unfolding s3_def [symmetric] by auto
qed

section \<open>Blocks directly to the output\<close>

text \<open>The window ends with \<open>inp\<close>; \<open>copied\<close> has been copied after it.\<close>

definition direct_inv :: "byte list \<Rightarrow> dstate \<Rightarrow> byte list \<Rightarrow> byte list \<Rightarrow> byte list \<Rightarrow> bool" where
  "direct_inv hdr s inp copied out \<longleftrightarrow> wf_sizes s \<and> holds s inp \<and> lookahead s = 0 \<and> 0 \<le> block_start s \<and> block_start s \<le> int (strstart s) \<and>
     out_inv hdr s out [] \<and> out = take (length inp - window_left s) inp @ copied \<and> (copied \<noteq> [] \<longrightarrow> window_left s = 0)"

lemma window_rest:
  assumes "holds s inp" "lookahead s = 0" "0 \<le> block_start s" "block_start s \<le> int (strstart s)" "n \<le> window_left s"
  shows "take n (drop (nat (block_start s)) (window s)) = take n (drop (length inp - window_left s) inp)"
proof -
  let ?b = "nat (block_start s)"
  have h: "take (strstart s) (window s) = drop (length inp - strstart s) inp" "strstart s \<le> length inp" using assms(1,2) by (simp_all add: holds_def)
  have l: "window_left s = strstart s - ?b" "?b \<le> strstart s" using assms(3,4) by (simp_all add: window_left_def nat_diff_distrib)
  have "take n (drop ?b (window s)) = take n (drop ?b (take (strstart s) (window s)))" using assms(5) l by (simp add: drop_take min_absorb1)
  also have "\<dots> = take n (drop (length inp - window_left s) inp)" unfolding h(1) using h(2) l by (simp add: drop_drop add.commute)
  finally show ?thesis .
qed

lemma stays_holds: "stays s s' \<Longrightarrow> holds s inp \<Longrightarrow> wf_sizes s \<Longrightarrow> holds s' inp \<and> wf_sizes s' \<and> lookahead s' = lookahead s"
  using holds_moved [of s inp s'] tables_cong(3) [of s' s] by (simp add: stays_def)

lemma direct_block_step:
  assumes i: "direct_inv hdr s inp copied out" and sp: "io_clear s" and room: "header_bytes s \<le> avail_out s"
  shows "\<exists>s' new. direct_block l s = Some s' \<and> reads s s' new \<and> stays s s' \<and> io_clear s' \<and>
    (l \<and> direct_len s = window_left s + length (next_in s) \<longrightarrow> done_inv hdr s' (inp @ copied @ new) \<and> next_in s' = []) \<and>
    (\<not> l \<longrightarrow> (\<exists>out'. direct_inv hdr s' inp (copied @ new) out'))"
proof -
  have w: "wf_sizes s" "holds s inp" "lookahead s = 0" "0 \<le> block_start s" "block_start s \<le> int (strstart s)" "out_inv hdr s out []"
    "out = take (length inp - window_left s) inp @ copied" "copied \<noteq> [] \<longrightarrow> window_left s = 0"
    using i unfolding direct_inv_def by blast+
  let ?n = "min (window_left s) (direct_len s)" and ?new = "take (direct_len s - window_left s) (next_in s)"
  let ?data = "take ?n (drop (nat (block_start s)) (window s)) @ ?new"
  have len: "strstart s \<le> length (window s)" using w(1-3) by (simp add: wf_sizes_def holds_def)
  from direct_block_inv [OF w(6) sp room w(4,5) len refl, of l] obtain s' where
    s': "direct_block l s = Some s'" "if l then done_inv hdr s' (out @ ?data) else out_inv hdr s' (out @ ?data) []" "io_clear s'"
      "reads s s' ?new" "block_start s' = block_start s + int ?n" "stays s s'"
    by (elim exE conjE)
  have st: "strstart s' = strstart s" using s'(6) by (simp add: stays_def)
  have left: "window_left s' = window_left s - ?n" using st s'(5) w(5) by (simp add: window_left_def)
  have "strstart s \<le> length inp" using w(2,3) by (simp add: holds_def)
  then have wle: "window_left s \<le> length inp" using w(4,5) unfolding window_left_def by linarith
  have out: "out @ ?data = take (length inp - window_left s') inp @ copied @ ?new"
  proof (cases "copied = []")
    case True
    have "take ?n (drop (nat (block_start s)) (window s)) = take ?n (drop (length inp - window_left s) inp)"
      using window_rest [OF w(2-5), of ?n] by simp
    moreover have "take (length inp - window_left s) inp @ take ?n (drop (length inp - window_left s) inp) = take (length inp - window_left s + ?n) inp"
      by (simp only: take_add)
    moreover have "length inp - window_left s + ?n = length inp - window_left s'" using left wle by simp
    ultimately show ?thesis using True w(7) by simp
  next
    case False
    then show ?thesis using w(7,8) left by simp
  qed
  have "done_inv hdr s' (inp @ copied @ ?new) \<and> next_in s' = []" if l: "l" "direct_len s = window_left s + length (next_in s)"
  proof -
    have "window_left s' = 0" "?new = next_in s" using left l(2) by simp_all
    then have "out @ ?data = inp @ copied @ ?new" using out by simp
    moreover have "done_inv hdr s' (out @ ?data)" using s'(2) l(1) by (simp only: if_True)
    ultimately have "done_inv hdr s' (inp @ copied @ ?new)" by (simp only:)
    moreover have "next_in s = ?new @ next_in s'" using s'(4) unfolding reads_def by (elim conjE)
    then have "length (next_in s) = length ?new + length (next_in s')" by (metis length_append)
    then have "next_in s' = []" using \<open>?new = next_in s\<close> by simp
    ultimately show ?thesis by (intro conjI)
  qed
  moreover have "direct_inv hdr s' inp (copied @ ?new) (out @ ?data)" if "\<not> l"
    unfolding direct_inv_def
  proof (intro conjI)
    note sh = stays_holds [OF s'(6) w(2,1)]
    show "wf_sizes s'" "holds s' inp" "lookahead s' = 0" using sh w(3) by simp_all
    have "int (window_left s) = int (strstart s) - block_start s" using w(5) by (simp add: window_left_def)
    then show "0 \<le> block_start s'" "block_start s' \<le> int (strstart s')" using s'(5) st w(4) by linarith+
    show "out_inv hdr s' (out @ ?data) []" using s'(2) that by (simp only: if_False)
    show "out @ ?data = take (length inp - window_left s') inp @ copied @ ?new" by (rule out)
    show "copied @ ?new \<noteq> [] \<longrightarrow> window_left s' = 0" using w(8) left by (cases "direct_len s \<le> window_left s") auto
  qed
  then have "\<not> l \<longrightarrow> (\<exists>out'. direct_inv hdr s' inp (copied @ ?new) out')" by blast
  ultimately show ?thesis using s'(1,3,4,6) by blast
qed

lemma stored_loop_inv:
  "direct_inv hdr s inp copied out \<Longrightarrow> io_clear s \<Longrightarrow>
    \<exists>r s' new. stored_loop m flush s = Some (r, s') \<and> reads s s' new \<and> stays s s' \<and> io_clear s' \<and>
      (r \<longrightarrow> done_inv hdr s' (inp @ copied @ new) \<and> flush = Z_FINISH \<and> next_in s' = []) \<and> (\<not> r \<longrightarrow> (\<exists>out'. direct_inv hdr s' inp (copied @ new) out'))"
proof (induction m flush s arbitrary: copied out rule: stored_loop.induct)
  case (1 m flush s)
  let ?last = "flush = Z_FINISH \<and> direct_len s = window_left s + length (next_in s)"
  show ?case
  proof (cases "avail_out s < header_bytes s \<or> \<not> direct_worthy m flush s")
    case True
    then have "stored_loop m flush s = Some (False, s)" by (simp add: stored_loop.simps)
    then show ?thesis using 1(2,3) by (intro exI [of _ False] exI [of _ s] exI [of _ "[]"]) (auto simp: reads_refl stays_def)
  next
    case False
    from direct_block_step [OF 1(2,3), of ?last] False obtain s1 new where
      s1: "direct_block ?last s = Some s1" "reads s s1 new" "stays s s1" "io_clear s1"
        "?last \<longrightarrow> done_inv hdr s1 (inp @ copied @ new) \<and> next_in s1 = []" "\<not> ?last \<longrightarrow> (\<exists>out'. direct_inv hdr s1 inp (copied @ new) out')"
      by auto
    show ?thesis
    proof (cases ?last)
      case True
      then have "stored_loop m flush s = Some (True, s1)" using False s1(1) by (subst stored_loop.simps) simp
      then show ?thesis using s1 True by (intro exI [of _ True] exI [of _ s1] exI [of _ new]) simp
    next
      case nl: False
      then have e: "stored_loop m flush s = stored_loop m flush s1" using False s1(1) by (auto simp: stored_loop.simps [of m flush s])
      obtain out1 where "direct_inv hdr s1 inp (copied @ new) out1" using s1(6) nl by blast
      from 1(1) [OF False refl s1(1) nl this s1(4)] obtain r s' new' where
        r: "stored_loop m flush s1 = Some (r, s')" "reads s1 s' new'" "stays s1 s'" "io_clear s'"
          "r \<longrightarrow> done_inv hdr s' (inp @ (copied @ new) @ new') \<and> flush = Z_FINISH \<and> next_in s' = []"
          "\<not> r \<longrightarrow> (\<exists>out'. direct_inv hdr s' inp ((copied @ new) @ new') out')"
        by (elim exE conjE)
      then show ?thesis using e reads_trans [OF s1(2) r(2)] stays_trans [OF s1(3) r(3)]
        by (intro exI [of _ r] exI [of _ s'] exI [of _ "new @ new'"]) simp
    qed
  qed
qed

section \<open>Keeping the window\<close>

text \<open>What keeping the last data in the window leaves alone.\<close>

definition kframe :: "dstate \<Rightarrow> dstate" where
  "kframe s = s\<lparr>tr := (tr s)\<lparr>matches := 0\<rparr>, window := [], block_start := 0, strstart := 0, insert_cnt := 0, high_water := 0\<rparr>"

lemma kframeD:
  assumes "kframe s' = kframe s"
  shows "tr s' = (tr s)\<lparr>matches := matches (tr s')\<rparr>" "next_in s' = next_in s" "total_in s' = total_in s" "next_out s' = next_out s"
    "avail_out s' = avail_out s" "adler s' = adler s" "status s' = status s" "pending_out s' = pending_out s" "wrap s' = wrap s"
    "gzhead s' = gzhead s" "gzindex s' = gzindex s" "last_flush s' = last_flush s" "w_bits s' = w_bits s" "mem_level s' = mem_level s"
    "prev s' = prev s" "head s' = head s" "lookahead s' = lookahead s" "max_chain_length s' = max_chain_length s"
    "max_lazy_match s' = max_lazy_match s" "good_match s' = good_match s" "nice_match s' = nice_match s"
proof -
  have "(tr s')\<lparr>matches := 0\<rparr> = (tr s)\<lparr>matches := 0\<rparr>" using assms by (cases s; cases s'; simp add: kframe_def)
  then show "tr s' = (tr s)\<lparr>matches := matches (tr s')\<rparr>" by (cases "tr s"; cases "tr s'"; simp)
qed (use assms in \<open>cases s; cases s'; simp add: kframe_def\<close>)+

lemma writer_matches: "writer gone t out ts \<Longrightarrow> writer gone (t\<lparr>matches := m\<rparr>) out ts"
  using writer.params [of gone t out ts, where m = m and lev = "comp_level t" and strat = "strategy t" and d = "data_type t"] by simp

lemma kframe_out:
  assumes k: "kframe s' = kframe s"
  shows "out_inv hdr s out ts \<Longrightarrow> out_inv hdr s' out ts" "done_inv hdr s out = done_inv hdr s' out" "io_clear s' = io_clear s" "cparams s' = cparams s" "reads s s' []"
proof -
  note f = kframeD [OF k]
  have t: "tparams (tr s') = tparams (tr s)" "pending_buf (tr s') = pending_buf (tr s)" "bi_valid (tr s') = bi_valid (tr s)"
    by (subst f(1), simp add: tparams_def)+
  show "out_inv hdr s out ts \<Longrightarrow> out_inv hdr s' out ts" unfolding out_inv_def f(4) using writer_matches f(1) by metis
  show "done_inv hdr s out = done_inv hdr s' out" using t f by (simp add: done_inv_def)
  show "io_clear s' = io_clear s" "cparams s' = cparams s" "reads s s' []"
    using t f by (simp_all add: io_clear_def pending_def cparams_def reads_def)
qed

text \<open>The window is well-formed and holds the end of \<open>inp\<close>.\<close>

definition kept :: "dstate \<Rightarrow> byte list \<Rightarrow> bool" where
  "kept s inp \<longleftrightarrow> wf_sizes s \<and> holds s inp \<and> lookahead s = 0"

lemma kept_cong:
  assumes "w_bits s' = w_bits s" "mem_level s' = mem_level s" "window s' = window s" "prev s' = prev s" "head s' = head s"
    "strstart s' = strstart s" "lookahead s' = lookahead s"
  shows "kept s' inp = kept s inp"
  using assms by (simp add: kept_def wf_sizes_def holds_def window_size_def w_size_def hash_size_def hash_bits_def)

lemma keptI:
  assumes "kept s inp" "kframe s' = kframe s" "length (window s') = length (window s)" "strstart s' \<le> window_size s" "strstart s' \<le> length inp'"
    "take (strstart s') (window s') = drop (length inp' - strstart s') inp'"
  shows "kept s' inp'"
  using assms kframeD [OF assms(2)] by (auto simp: kept_def wf_sizes_def holds_def window_size_def w_size_def hash_size_def hash_bits_def)

lemma keptD:
  assumes "kept s inp"
  shows "strstart s \<le> 2 * w_size s" "strstart s \<le> length inp" "take (strstart s) (window s) = drop (length inp - strstart s) inp"
    "length (window s) = 2 * w_size s" "wf_sizes s" "512 \<le> w_size s"
proof -
  have l: "lookahead s = 0" and h: "holds s inp" and w: "wf_sizes s" using assms by (simp_all add: kept_def)
  show "strstart s \<le> 2 * w_size s" "strstart s \<le> length inp" "take (strstart s) (window s) = drop (length inp - strstart s) inp"
    "length (window s) = 2 * w_size s" using h w by (simp_all add: holds_def l wf_sizes_def window_size_def)
qed (use assms w_size_bounds in \<open>simp_all add: kept_def\<close>)

lemma miss_slide_inv:
  assumes k: "kept s inp" and far: "w_size s \<le> strstart s"
  shows "kept (miss_slide s) inp \<and> kframe (miss_slide s) = kframe s \<and> strstart (miss_slide s) = strstart s - w_size s \<and>
    block_start (miss_slide s) = block_start s"
proof -
  let ?W = "w_size s"
  note h = keptD [OF k]
  have fr: "kframe (miss_slide s) = kframe s" by (simp add: miss_slide_def kframe_def)
  have w: "window (miss_slide s) = zmemcpy (window s) 0 (take (strstart s - ?W) (drop ?W (window s)))" and st: "strstart (miss_slide s) = strstart s - ?W"
    by (simp_all add: miss_slide_def)
  have "take (strstart s - ?W) (window (miss_slide s)) = take (strstart s - ?W) (drop ?W (window s))"
    using h far by (simp add: w zmemcpy_def)
  also have "\<dots> = drop ?W (take (strstart s) (window s))" by (simp add: drop_take)
  also have "\<dots> = drop (length inp - (strstart s - ?W)) inp" unfolding h(3) using h(2) far by (simp add: add.commute)
  finally have "take (strstart (miss_slide s)) (window (miss_slide s)) = drop (length inp - strstart (miss_slide s)) inp" by (simp add: st)
  then have "kept (miss_slide s) inp"
    using h far by (intro keptI [OF k fr]) (simp_all add: w st length_zmemcpy window_size_def)
  then show ?thesis using fr st by (simp add: miss_slide_def)
qed

lemma kept_append:
  assumes k: "kept s inp" and fit: "strstart s + length bs \<le> window_size s"
    and s': "kframe s' = kframe s" "window s' = zmemcpy (window s) (strstart s) bs" "strstart s' = strstart s + length bs"
  shows "kept s' (inp @ bs)"
proof (rule keptI [OF k s'(1)])
  have h: "strstart s \<le> length inp" "take (strstart s) (window s) = drop (length inp - strstart s) inp" "length (window s) = window_size s"
    using keptD [OF k] by (simp_all add: window_size_def)
  show "length (window s') = length (window s)" using fit h(3) by (simp add: s' length_zmemcpy)
  show "take (strstart s') (window s') = drop (length (inp @ bs) - strstart s') (inp @ bs)"
    using take_zmemcpy [of "strstart s" bs "window s"] fit h by (simp add: s')
  show "strstart s' \<le> length (inp @ bs)" using h(1) by (simp add: s')
qed (use fit in \<open>simp add: s'\<close>)

lemma keep_window_inv:
  assumes k: "kept s inp"
  shows "kept (keep_window bs s) (inp @ bs) \<and> kframe (keep_window bs s) = kframe s \<and>
    (bs \<noteq> [] \<longrightarrow> block_start (keep_window bs s) = int (strstart (keep_window bs s))) \<and> (bs = [] \<longrightarrow> keep_window bs s = s)"
proof (cases "bs = []")
  case True
  then show ?thesis using k by (simp add: keep_window_def)
next
  case ne: False
  let ?W = "w_size s"
  have h: "strstart s \<le> 2 * ?W" "length (window s) = 2 * ?W" "0 < ?W" using keptD [OF k] by simp_all
  show ?thesis
  proof (cases "length bs \<ge> ?W")
    case True
    let ?s = "s\<lparr>tr := (tr s)\<lparr>matches := 2\<rparr>, window := zmemcpy (window s) 0 (drop (length bs - ?W) bs), block_start := int ?W, strstart := ?W, insert_cnt := ?W\<rparr>"
    have e: "keep_window bs s = ?s" using True ne by (simp add: keep_window_def Let_def)
    have fr: "kframe ?s = kframe s" by (simp add: kframe_def)
    have "kept ?s (inp @ bs)"
      by (rule keptI [OF k fr]) (use True h in \<open>simp_all add: length_zmemcpy zmemcpy_def window_size_def\<close>)
    then show ?thesis using e fr ne by simp
  next
    case False
    define s1 where "s1 = (if window_size s - strstart s \<le> length bs then miss_slide s else s)"
    have far: "?W \<le> strstart s" if "window_size s - strstart s \<le> length bs" using that False h by (simp add: window_size_def)
    have s1: "kept s1 inp" "kframe s1 = kframe s" "w_size s1 = ?W" "strstart s1 + length bs \<le> window_size s1"
    proof -
      show k1: "kept s1 inp" "kframe s1 = kframe s" using k miss_slide_inv [OF k far] by (auto simp: s1_def)
      note f = kframeD [OF k1(2)]
      show w: "w_size s1 = ?W" using f by (simp add: w_size_def)
      have "strstart s1 = (if window_size s - strstart s \<le> length bs then strstart s - ?W else strstart s)"
        using miss_slide_inv [OF k far] by (simp add: s1_def)
      then show "strstart s1 + length bs \<le> window_size s1" using False h far w by (auto simp: window_size_def split: if_splits)
    qed
    let ?s = "s1\<lparr>window := zmemcpy (window s1) (strstart s1) bs, strstart := strstart s1 + length bs,
                       insert_cnt := insert_cnt s1 + min (length bs) (w_size s1 - insert_cnt s1)\<rparr>"
    let ?s2 = "?s\<lparr>block_start := int (strstart ?s)\<rparr>"
    have e: "keep_window bs s = ?s2" using False ne unfolding keep_window_def Let_def s1_def [symmetric] by simp
    have fr: "kframe ?s2 = kframe s1" by (simp add: kframe_def)
    have "kept ?s2 (inp @ bs)" by (rule kept_append [OF s1(1,4) fr]) simp_all
    then show ?thesis unfolding e using fr s1(2) ne by simp
  qed
qed

lemma raise_water_kept: "kframe (raise_water s) = kframe s" "kept (raise_water s) inp = kept s inp" "strstart (raise_water s) = strstart s"
    "block_start (raise_water s) = block_start s" "window (raise_water s) = window s" "next_in (raise_water s) = next_in s"
  using kept_cong [of "raise_water s" s] by (simp_all add: raise_water_def kframe_def)

section \<open>The rest of the input\<close>

definition stored_inv :: "byte list \<Rightarrow> dstate \<Rightarrow> byte list \<Rightarrow> byte list \<Rightarrow> token list \<Rightarrow> bool" where
  "stored_inv hdr s inp out ts \<longleftrightarrow> kept s inp \<and> 0 \<le> block_start s \<and> block_start s \<le> int (strstart s) \<and> out_inv hdr s out [] \<and> ts = [] \<and>
     out = take (length inp - window_left s) inp"

lemma stored_fill_inv:
  assumes i: "stored_inv hdr s inp out ts"
  shows "\<exists>new. stored_inv hdr (stored_fill s) (inp @ new) out [] \<and> reads s (stored_fill s) new \<and> cparams (stored_fill s) = cparams s \<and>
    io_clear (stored_fill s) = io_clear s \<and> avail_out (stored_fill s) = avail_out s"
proof -
  have k: "kept s inp" and b: "0 \<le> block_start s" "block_start s \<le> int (strstart s)" and o: "out_inv hdr s out []"
    "out = take (length inp - window_left s) inp" using i unfolding stored_inv_def by blast+
  let ?W = "w_size s" and ?have = "window_size s - strstart s"
  let ?slide = "length (next_in s) > ?have \<and> block_start s \<ge> int ?W"
  define s1 where "s1 = (if ?slide then miss_slide (s\<lparr>block_start := block_start s - int ?W\<rparr>) else s)"
  let ?h = "min (if ?slide then ?have + ?W else ?have) (length (next_in s1))"
  define s2 where "s2 = (if ?h = 0 then s1 else let (buf, s) = read_buf s1 ?h in
                    s\<lparr>window := zmemcpy (window s) (strstart s) buf, strstart := strstart s + ?h,
                      insert_cnt := insert_cnt s + min ?h (w_size s - insert_cnt s)\<rparr>)"
  have e: "stored_fill s = raise_water s2" unfolding stored_fill_def Let_def s1_def s2_def by (rule refl)
  note kd = keptD [OF k]
  have s1: "kept s1 inp" "kframe s1 = kframe s" "int (strstart s1) - block_start s1 = int (strstart s) - block_start s"
    "strstart s1 = (if ?slide then strstart s - ?W else strstart s)" "0 \<le> block_start s1"
  proof -
    let ?s0 = "s\<lparr>block_start := block_start s - int ?W\<rparr>"
    have "kept ?s0 inp = kept s inp" by (rule kept_cong) simp_all
    then have "kept ?s0 inp" using k by simp
    moreover have "w_size ?s0 = ?W" by (simp add: w_size_def)
    moreover have far: "?W \<le> strstart s" if ?slide using that b by linarith
    ultimately have m: "kept (miss_slide ?s0) inp \<and> kframe (miss_slide ?s0) = kframe ?s0 \<and> strstart (miss_slide ?s0) = strstart s - ?W \<and>
        block_start (miss_slide ?s0) = block_start s - int ?W" if ?slide
      using miss_slide_inv [of ?s0 inp] that by simp
    have "kframe ?s0 = kframe s" by (simp add: kframe_def)
    then show "kept s1 inp" "kframe s1 = kframe s" "int (strstart s1) - block_start s1 = int (strstart s) - block_start s"
      "strstart s1 = (if ?slide then strstart s - ?W else strstart s)" "0 \<le> block_start s1"
      using m k far b by (auto simp: s1_def)
  qed
  note f1 = kframeD [OF s1(2)]
  have ws: "window_size s1 = window_size s" "w_size s1 = ?W" using f1 by (simp_all add: window_size_def w_size_def)
  have W: "window_size s = 2 * ?W" "window_size s1 = 2 * ?W" using ws by (simp_all add: window_size_def)
  have fit: "strstart s1 + ?h \<le> window_size s1"
  proof (cases ?slide)
    case True
    have "strstart s - ?W + h \<le> 2 * ?W" if "h \<le> ?have + ?W" for h using that True b kd(1) W by linarith
    then show ?thesis using True s1(4) W(2) by simp
  next
    case False
    have "strstart s + h \<le> 2 * ?W" if "h \<le> ?have" for h using that kd(1) W by linarith
    then show ?thesis unfolding s1(4) if_not_P [OF False] W(2) using min.cobounded1 by blast
  qed
  have "\<exists>new. kept s2 (inp @ new) \<and> reads s1 s2 new \<and> cparams s2 = cparams s1 \<and> io_clear s2 = io_clear s1 \<and> avail_out s2 = avail_out s1 \<and>
      tr s2 = tr s1 \<and> next_out s2 = next_out s1 \<and> block_start s2 = block_start s1 \<and> strstart s2 = strstart s1 + length new"
  proof (cases "?h = 0")
    case True
    then have "s2 = s1" unfolding s2_def by (rule if_P)
    then show ?thesis using s1(1) by (intro exI [of _ "[]"]) (simp add: reads_refl)
  next
    case False
    obtain buf s3 where r: "read_buf s1 ?h = (buf, s3)" by force
    note rb = read_buf_reads [OF r]
    have lb: "length buf = ?h" using rb(2) f1(2) by simp
    let ?s = "s3\<lparr>window := zmemcpy (window s3) (strstart s3) buf, strstart := strstart s3 + ?h,
                      insert_cnt := insert_cnt s3 + min ?h (w_size s3 - insert_cnt s3)\<rparr>"
    have s2: "s2 = ?s" unfolding s2_def if_not_P [OF False] r Let_def prod.case by (rule refl)
    have f3: "window s3 = window s1" "strstart s3 = strstart s1" "cparams s3 = cparams s1" "io_clear s3 = io_clear s1" "avail_out s3 = avail_out s1"
      "tr s3 = tr s1" "next_out s3 = next_out s1" "block_start s3 = block_start s1" "w_bits s3 = w_bits s1" "mem_level s3 = mem_level s1"
      "lookahead s3 = lookahead s1" "prev s3 = prev s1" "head s3 = head s1"
      by (subst rb(3), simp add: cparams_def io_clear_def pending_def)+
    have "kept s3 inp = kept s1 inp" by (rule kept_cong) (use f3 in simp_all)
    then have k3: "kept s3 inp" using s1(1) by simp
    have "strstart s3 + length buf \<le> window_size s3" using fit f3 lb by (simp add: window_size_def w_size_def)
    moreover have "kframe s2 = kframe s3" "window s2 = zmemcpy (window s3) (strstart s3) buf" "strstart s2 = strstart s3 + length buf"
      by (simp_all add: s2 kframe_def lb)
    ultimately have "kept s2 (inp @ buf)" by (rule kept_append [OF k3])
    moreover have "reads s1 s2 buf" using rb(1) by (simp add: s2 reads_def)
    moreover have "cparams s2 = cparams s1" "io_clear s2 = io_clear s1" "avail_out s2 = avail_out s1" "tr s2 = tr s1" "next_out s2 = next_out s1"
      "block_start s2 = block_start s1" "strstart s2 = strstart s1 + length buf"
      using f3 lb by (simp_all add: s2 cparams_def io_clear_def pending_def)
    ultimately show ?thesis by blast
  qed
  then obtain new where s2: "kept s2 (inp @ new)" "reads s1 s2 new" "cparams s2 = cparams s1" "io_clear s2 = io_clear s1" "avail_out s2 = avail_out s1"
      "tr s2 = tr s1" "next_out s2 = next_out s1" "block_start s2 = block_start s1" "strstart s2 = strstart s1 + length new"
    by (elim exE conjE)
  note r = raise_water_kept(1) [of s2] kframe_out [OF raise_water_kept(1) [of s2]] kframeD [OF raise_water_kept(1) [of s2]]
  note k1 = kframe_out [OF s1(2)]
  have "out_inv hdr s2 out []" using k1(1) [OF o(1)] s2(6,7) by (simp add: out_inv_def)
  then have "out_inv hdr (stored_fill s) out []" unfolding e by (rule r(2))
  moreover have "out = take (length (inp @ new) - window_left (stored_fill s)) (inp @ new)"
  proof -
    have wl: "window_left (stored_fill s) = window_left s + length new"
      using s1(3,5) s2(8,9) b by (simp add: e window_left_def raise_water_kept)
    then have "length (inp @ new) - window_left (stored_fill s) = length inp - window_left s" by simp
    then show ?thesis using o(2) by simp
  qed
  moreover have "reads s (stored_fill s) new"
    using reads_trans [OF k1(5) reads_trans [OF s2(2)]] r(6) unfolding e by (metis append_Nil append_Nil2)
  ultimately show ?thesis using s2 k1 r b s1(3,5) f1
    by (intro exI [of _ new]) (simp add: stored_inv_def e raise_water_kept)
qed

section \<open>The results of all compression functions\<close>

text \<open>What \<open>outcome\<close> says, without the reasons for which \<open>deflate_stored\<close> may return.\<close>

definition result_ok :: "byte list \<Rightarrow> (dstate \<Rightarrow> byte list \<Rightarrow> byte list \<Rightarrow> token list \<Rightarrow> bool) \<Rightarrow> int \<Rightarrow> byte list \<Rightarrow> block_state \<Rightarrow> dstate \<Rightarrow> bool" where
  "result_ok hdr R flush inp r s' \<longleftrightarrow> (case r of
        need_more \<Rightarrow> (\<exists>out ts. R s' inp out ts)
      | Deflate.block_done \<Rightarrow> R s' inp inp [] \<and> flush \<noteq> Z_NO_FLUSH \<and> flush \<noteq> Z_FINISH \<and> next_in s' = [] \<and> lookahead s' = 0 \<and> io_clear s'
      | _ \<Rightarrow> done_inv hdr s' inp \<and> flush = Z_FINISH \<and> next_in s' = [] \<and> lookahead s' = 0 \<and> (r = finish_done \<longrightarrow> io_clear s'))"

definition comp_ok :: "byte list \<Rightarrow> (dstate \<Rightarrow> byte list \<Rightarrow> byte list \<Rightarrow> token list \<Rightarrow> bool) \<Rightarrow> int \<Rightarrow> dstate \<Rightarrow> byte list \<Rightarrow>
    block_state \<Rightarrow> dstate \<Rightarrow> bool" where
  "comp_ok hdr R flush s inp r s' \<longleftrightarrow> (\<exists>new. reads s s' new \<and> cparams s' = cparams s \<and> avail_out s' \<le> avail_out s \<and> io_ok s' \<and>
     (avail_out s' \<noteq> 0 \<longrightarrow> io_clear s') \<and> wf_sizes s' \<and> result_ok hdr R flush (inp @ new) r s')"

lemma comp_post_ok:
  assumes "comp_post hdr R flush s inp r s'"
  shows "comp_ok hdr R flush s inp r s'"
proof -
  obtain new where n: "reads s s' new" "cparams s' = cparams s" "avail_out s' \<le> avail_out s" "io_ok s'" "avail_out s' \<noteq> 0 \<longrightarrow> io_clear s'"
    "wf_sizes s'" "outcome hdr R flush (inp @ new) r s'" using assms unfolding comp_post_def by blast
  then have "result_ok hdr R flush (inp @ new) r s'" by (cases r) (auto simp: outcome_def result_ok_def)
  with n show ?thesis unfolding comp_ok_def by blast
qed

section \<open>A block of the window\<close>

lemma io_clear_ok: "io_clear s \<Longrightarrow> io_ok s \<and> (avail_out s \<noteq> 0 \<longrightarrow> io_clear s)"
  by (simp add: io_ok_def io_clear_def)

lemma delivered_frame:
  assumes "delivered s s'"
  shows "oframe s' = oframe s" "cparams s' = cparams s" "reads s s' []" "avail_out s' \<le> avail_out s" "io_ok s'" "avail_out s' \<noteq> 0 \<longrightarrow> io_clear s'"
    "kept s' inp = kept s inp" "strstart s' = strstart s" "block_start s' = block_start s" "next_in s' = next_in s" "lookahead s' = lookahead s"
proof -
  show o: "oframe s' = oframe s" using assms by (simp add: delivered_def)
  note f = oframeD [OF o]
  show "kept s' inp = kept s inp" by (rule kept_cong) (use f in simp_all)
  show "cparams s' = cparams s" "reads s s' []" "strstart s' = strstart s" "block_start s' = block_start s" "next_in s' = next_in s" "lookahead s' = lookahead s"
    using f assms by (simp_all add: cparams_def reads_def delivered_def)
qed (use assms in \<open>simp_all add: delivered_def\<close>)

lemma block_start_update: "block_start (s\<lparr>tr := t, block_start := b\<rparr>) = b" "strstart (s\<lparr>tr := t, block_start := b\<rparr>) = strstart s"
  by simp_all

lemma window_left_less:
  assumes "block_start s' = block_start s + int n" "strstart s' = strstart s"
  shows "window_left s' = window_left s - n"
  unfolding window_left_def assms by linarith

lemma stored_pending_inv:
  assumes i: "stored_inv hdr s inp out ts" and sp: "io_clear s"
  shows "\<exists>l s'. stored_pending flush s = Some (l, s') \<and> reads s s' [] \<and> cparams s' = cparams s \<and> avail_out s' \<le> avail_out s \<and> io_ok s' \<and>
    (avail_out s' \<noteq> 0 \<longrightarrow> io_clear s') \<and> wf_sizes s' \<and> lookahead s' = 0 \<and>
    (if l then done_inv hdr s' inp \<and> flush = Z_FINISH \<and> next_in s' = [] else (\<exists>out'. stored_inv hdr s' inp out' []))"
proof -
  have k: "kept s inp" and b: "0 \<le> block_start s" "block_start s \<le> int (strstart s)" and o: "out_inv hdr s out []"
    "out = take (length inp - window_left s) inp" using i unfolding stored_inv_def by blast+
  have kk: "wf_sizes s" "holds s inp" "lookahead s = 0" using k by (simp_all add: kept_def)
  let ?have = "min (pending_buf_size s - header_bytes s) MAX_STORED" and ?left = "window_left s"
  let ?go = "?left \<ge> min ?have (w_size s) \<or> (?left \<noteq> 0 \<or> flush = Z_FINISH) \<and> flush \<noteq> Z_NO_FLUSH \<and> next_in s = [] \<and> ?left \<le> ?have"
  let ?len = "min ?left ?have"
  let ?last = "flush = Z_FINISH \<and> next_in s = [] \<and> ?len = ?left"
  let ?data = "take ?len (drop (nat (block_start s)) (window s))"
  let ?t = "tr_stored_block (tr s) ?data ?last"
  let ?s1 = "s\<lparr>tr := ?t, block_start := block_start s + int ?len\<rparr>"
  have po: "pending_out s = 0" using sp by (simp add: io_clear_def)
  show ?thesis
  proof (cases ?go)
    case False
    then have "stored_pending flush s = Some (False, s)" unfolding stored_pending_def Let_def by (rule if_not_P)
    moreover have "stored_inv hdr s inp out []" using i unfolding stored_inv_def by blast
    ultimately show ?thesis using io_clear_ok [OF sp] kk by (intro exI [of _ False] exI [of _ s]) (auto simp: reads_refl)
  next
    case True
    have e: "stored_pending flush s = do { s \<leftarrow> flush_pending ?s1; Some (?last, s) }"
      unfolding stored_pending_def Let_def if_P [OF True] using po by (simp add: on_trees_def)
    obtain gone where g: "next_out s = hdr @ gone" "writer gone (tr s) out []" using o(1) by (auto simp: out_inv_def)
    have "length ?data < 65536" by (simp add: MAX_STORED_def min_less_iff_disj)
    note small = this
    have io: "io_ok ?s1" using po by (simp add: io_ok_def)
    have left: "int ?left = int (strstart s) - block_start s" using b(2) by (simp add: window_left_def)
    have sl: "strstart s \<le> length inp" using kk by (simp add: holds_def)
    have od: "out @ ?data = take (length inp - (?left - ?len)) inp"
    proof -
      have "?data = take ?len (drop (length inp - ?left) inp)" using window_rest [OF kk(2,3) b, of ?len] by simp
      moreover have "length inp - (?left - ?len) = (length inp - ?left) + ?len" using sl left b by linarith
      ultimately show ?thesis unfolding o(2) by (simp only: take_add)
    qed
    have tp: "tparams ?t = tparams (tr s)" by (rule stored_block_frame)
    have "kept ?s1 inp = kept s inp" by (rule kept_cong) simp_all
    then have k1: "kept ?s1 inp" using k by (simp only:)
    have st1: "strstart ?s1 = strstart s" "lookahead ?s1 = 0" "next_in ?s1 = next_in s" "avail_out ?s1 = avail_out s" using kk by simp_all
    have cp: "cparams ?s1 = cparams s" "reads s ?s1 []" using tp by (simp_all add: cparams_def reads_def)
    show ?thesis
    proof (cases ?last)
      case True
      then have "?left - ?len = 0" by linarith
      then have all: "out @ ?data = inp" using od by simp
      obtain pad where "stream_code (bytes_bits (gone @ pending_buf ?t)) [] pad (out @ ?data)"
        using writer_last_stored [OF g(2) small] True by auto
      moreover have "next_out ?s1 @ pending_buf (tr ?s1) = hdr @ gone @ pending_buf ?t" "bi_valid (tr ?s1) = 0"
        using g(1) by (simp_all add: stored_block_frame)
      ultimately have "done_inv hdr ?s1 inp" unfolding done_inv_def all by blast
      from flush_pending_done [OF io this] obtain s' where s': "flush_pending ?s1 = Some s'" "delivered ?s1 s'" "done_inv hdr s' inp"
        by (elim exE conjE)
      note d = delivered_frame [OF s'(2)]
      have "wf_sizes s'" using d(7) [of inp] k1 by (simp add: kept_def)
      moreover have "reads s s' []" using reads_trans [OF cp(2) d(3)] by simp
      moreover have "flush = Z_FINISH \<and> next_in s' = []" using True d(10) by simp
      ultimately show ?thesis using e s' d st1 cp True by (intro exI [of _ True] exI [of _ s']) simp
    next
      case False
      have "writer gone ?t (out @ ?data) []" using writer.store [OF g(2) small] unfolding eq_False [THEN iffD2, OF False] .
      then have "out_inv hdr ?s1 (out @ ?data) []" using g(1) by (simp add: out_inv_def)
      from flush_pending_inv [OF io this] obtain s' where s': "flush_pending ?s1 = Some s'" "delivered ?s1 s'" "out_inv hdr s' (out @ ?data) []"
        by (elim exE conjE)
      note d = delivered_frame [OF s'(2)]
      have k': "kept s' inp" using d(7) [of inp] k1 by simp
      have bs: "block_start s' = block_start s + int ?len" "strstart s' = strstart s" unfolding d(8,9) block_start_update by (rule refl)+
      have wl: "window_left s' = ?left - ?len" by (rule window_left_less [OF bs])
      have "stored_inv hdr s' inp (out @ ?data) []"
        unfolding stored_inv_def
      proof (intro conjI)
        show "0 \<le> block_start s'" "block_start s' \<le> int (strstart s')" using bs left b by linarith+
        show "out @ ?data = take (length inp - window_left s') inp" unfolding wl by (rule od)
      qed (use k' s'(3) in simp_all)
      moreover have "wf_sizes s'" using k' by (simp add: kept_def)
      moreover have "reads s s' []" using reads_trans [OF cp(2) d(3)] by simp
      moreover have "stored_pending flush s = Some (False, s')" unfolding e s'(1) using False by auto
      moreover have "cparams s' = cparams s" using d(2) cp(1) by (rule trans)
      moreover have "lookahead s' = 0" using d(11) st1(2) by (rule trans)
      moreover have "avail_out s' \<le> avail_out s" using d(4) unfolding st1(4) .
      ultimately show ?thesis using d(5,6)
        by (intro exI [of _ False] exI [of _ s'] conjI) (assumption | simp only: if_False, rule exI)+
    qed
  qed
qed

section \<open>The function\<close>

lemma deflate_stored_post:
  assumes i: "stored_inv hdr s inp out ts" and io: "io_clear s"
  shows "\<exists>r s'. deflate_stored flush s = Some (r, s') \<and> comp_ok hdr (stored_inv hdr) flush s inp r s'"
proof -
  have k: "kept s inp" and b: "0 \<le> block_start s" "block_start s \<le> int (strstart s)" and o: "out_inv hdr s out []"
    "out = take (length inp - window_left s) inp" using i unfolding stored_inv_def by blast+
  have di: "direct_inv hdr s inp [] out" unfolding direct_inv_def using k b o by (auto simp: kept_def)
  note sp = io
  obtain l s1 new where s1: "stored_loop (min (pending_buf_size s - 5) (w_size s)) flush s = Some (l, s1)" "reads s s1 new"
      "stays s s1" "io_clear s1" "l \<longrightarrow> done_inv hdr s1 (inp @ new) \<and> flush = Z_FINISH \<and> next_in s1 = []"
      "\<not> l \<longrightarrow> (\<exists>out'. direct_inv hdr s1 inp new out')"
    using stored_loop_inv [OF di sp, of "min (pending_buf_size s - 5) (w_size s)" flush, unfolded append_Nil] by (elim exE conjE)
  have ni: "next_in s = new @ next_in s1" using s1(2) by (simp add: reads_def)
  let ?s2 = "raise_water (keep_window new s1)"
  have e: "deflate_stored flush s = (if l then Some (finish_done, ?s2)
        else if flush \<noteq> Z_NO_FLUSH \<and> flush \<noteq> Z_FINISH \<and> next_in ?s2 = [] \<and> int (strstart ?s2) = block_start ?s2
        then Some (Deflate.block_done, ?s2)
        else do {
          (is_last, s) \<leftarrow> stored_pending flush (stored_fill ?s2);
          Some (if is_last then finish_started else need_more, s)
        })"
    using s1(1) ni by (simp add: deflate_stored_def Let_def)
  have k1: "kept s1 inp" using stays_holds [OF s1(3), of inp] k by (simp add: kept_def)
  note kw = keep_window_inv [OF k1, of new]
  have kf: "kframe ?s2 = kframe s1" and k2: "kept ?s2 (inp @ new)" using kw raise_water_kept by simp_all
  note fr = kframe_out [OF kf] and f2 = kframeD [OF kf]
  have c: "cparams ?s2 = cparams s" "avail_out ?s2 \<le> avail_out s" "io_clear ?s2" "reads s ?s2 new" "wf_sizes ?s2" "lookahead ?s2 = 0"
    using s1(3,4) fr f2 k2 reads_trans [OF s1(2) fr(5)] by (simp_all add: stays_def kept_def)
  note sio = io_clear_ok [OF c(3)]
  show ?thesis
  proof (cases l)
    case True
    then have "result_ok hdr (stored_inv hdr) flush (inp @ new) finish_done ?s2"
      using s1(5) fr(2) f2 c(3,6) by (simp add: result_ok_def)
    then have "comp_ok hdr (stored_inv hdr) flush s inp finish_done ?s2" unfolding comp_ok_def using c sio by blast
    then show ?thesis using e True by simp
  next
    case False
    then obtain out1 where d: "direct_inv hdr s1 inp new out1" using s1(6) by blast
    have d': "0 \<le> block_start s1" "block_start s1 \<le> int (strstart s1)" "out_inv hdr s1 out1 []" "out1 = take (length inp - window_left s1) inp @ new"
      "new \<noteq> [] \<longrightarrow> window_left s1 = 0" using d unfolding direct_inv_def by blast+
    have si: "stored_inv hdr ?s2 (inp @ new) out1 []"
    proof (cases "new = []")
      case True
      then have "keep_window new s1 = s1" using kw by simp
      then show ?thesis using True d' k2 fr(1) [OF d'(3)] by (simp add: stored_inv_def raise_water_kept window_left_def)
    next
      case False
      then have "block_start ?s2 = int (strstart ?s2)" using kw by (simp add: raise_water_kept)
      then show ?thesis using False d' k2 fr(1) [OF d'(3)] by (simp add: stored_inv_def window_left_def)
    qed
    show ?thesis
    proof (cases "flush \<noteq> Z_NO_FLUSH \<and> flush \<noteq> Z_FINISH \<and> next_in ?s2 = [] \<and> int (strstart ?s2) = block_start ?s2")
      case True
      then have "out1 = inp @ new" using si by (simp add: stored_inv_def window_left_def)
      then have "result_ok hdr (stored_inv hdr) flush (inp @ new) Deflate.block_done ?s2"
        using si True c(3,6) by (simp add: result_ok_def)
      then have "comp_ok hdr (stored_inv hdr) flush s inp Deflate.block_done ?s2" unfolding comp_ok_def using c sio by blast
      then show ?thesis using e True \<open>\<not> l\<close> by simp
    next
      case nb: False
      from stored_fill_inv [OF si] obtain new2 where f: "stored_inv hdr (stored_fill ?s2) ((inp @ new) @ new2) out1 []" "reads ?s2 (stored_fill ?s2) new2"
        "cparams (stored_fill ?s2) = cparams ?s2" "io_clear (stored_fill ?s2) = io_clear ?s2" "avail_out (stored_fill ?s2) = avail_out ?s2"
        by (elim exE conjE)
      obtain l2 s3 where p: "stored_pending flush (stored_fill ?s2) = Some (l2, s3)" "reads (stored_fill ?s2) s3 []" "cparams s3 = cparams (stored_fill ?s2)"
        "avail_out s3 \<le> avail_out (stored_fill ?s2)" "io_ok s3" "avail_out s3 \<noteq> 0 \<longrightarrow> io_clear s3" "wf_sizes s3" "lookahead s3 = 0"
        "if l2 then done_inv hdr s3 ((inp @ new) @ new2) \<and> flush = Z_FINISH \<and> next_in s3 = [] else (\<exists>out'. stored_inv hdr s3 ((inp @ new) @ new2) out' [])"
        using stored_pending_inv [OF f(1), of flush] c(3) f(4) by auto
      have r: "reads s s3 (new @ new2)" using reads_trans [OF c(4) reads_trans [OF f(2) p(2)]] by simp
      have "result_ok hdr (stored_inv hdr) flush (inp @ new @ new2) (if l2 then finish_started else need_more) s3"
        using p(8,9) by (cases l2) (auto simp: result_ok_def)
      then have "comp_ok hdr (stored_inv hdr) flush s inp (if l2 then finish_started else need_more) s3"
        unfolding comp_ok_def using r p c f by (intro exI [of _ "new @ new2"]) simp
      then show ?thesis using e \<open>\<not> l\<close> nb p(1) by auto
    qed
  qed
qed

end
