(* ===== verification/Deflate_Stream.thy ===== *)
theory Deflate_Stream
  imports Deflate
begin

text \<open>
  The stream interface of \<open>deflate.c\<close>: initialisation, \<open>deflate\<close> itself with the headers and
  trailers of the three formats, parameter changes and preset dictionaries. The checks of
  pointers (\<open>Z_NULL\<close>, \<open>deflateStateCheck\<close>) have no counterpart, a state is a value.
\<close>

section \<open>Initialisation\<close>

datatype compress_func = deflate_stored_func | deflate_fast_func | deflate_slow_func

record config =
  good_length :: nat
  max_lazy :: nat
  nice_length :: nat
  max_chain :: nat
  func :: compress_func

definition configuration_table :: "config list" where
  "configuration_table = [
     \<lparr>good_length = 0, max_lazy = 0, nice_length = 0, max_chain = 0, func = deflate_stored_func\<rparr>,
     \<lparr>good_length = 4, max_lazy = 4, nice_length = 8, max_chain = 4, func = deflate_fast_func\<rparr>,
     \<lparr>good_length = 4, max_lazy = 5, nice_length = 16, max_chain = 8, func = deflate_fast_func\<rparr>,
     \<lparr>good_length = 4, max_lazy = 6, nice_length = 32, max_chain = 32, func = deflate_fast_func\<rparr>,
     \<lparr>good_length = 4, max_lazy = 4, nice_length = 16, max_chain = 16, func = deflate_slow_func\<rparr>,
     \<lparr>good_length = 8, max_lazy = 16, nice_length = 32, max_chain = 32, func = deflate_slow_func\<rparr>,
     \<lparr>good_length = 8, max_lazy = 16, nice_length = 128, max_chain = 128, func = deflate_slow_func\<rparr>,
     \<lparr>good_length = 8, max_lazy = 32, nice_length = 128, max_chain = 256, func = deflate_slow_func\<rparr>,
     \<lparr>good_length = 32, max_lazy = 128, nice_length = 258, max_chain = 1024, func = deflate_slow_func\<rparr>,
     \<lparr>good_length = 32, max_lazy = 258, nice_length = 258, max_chain = 4096, func = deflate_slow_func\<rparr>]"

definition level :: "dstate \<Rightarrow> int" where "level s = comp_level (tr s)"

definition config_of :: "int \<Rightarrow> config" where "config_of lev = configuration_table ! nat lev"

definition set_config :: "int \<Rightarrow> dstate \<Rightarrow> dstate" where
  "set_config lev s =
     (let c = config_of lev in
      s\<lparr>max_chain_length := of_nat (max_chain c), max_lazy_match := max_lazy c, good_match := good_length c,
        nice_match := int (nice_length c)\<rparr>)"

definition lm_init :: "dstate \<Rightarrow> dstate" where
  "lm_init s =
     (let s = set_config (level s) (CLEAR_HASH s) in
      s\<lparr>ins_h := 0, block_start := 0, match_length := MIN_MATCH - 1, match_available := False, strstart := 0,
        lookahead := 0, prev_length := MIN_MATCH - 1, insert_cnt := 0\<rparr>)"

definition deflateResetKeep :: "dstate \<Rightarrow> dstate" where
  "deflateResetKeep s =
     (let wr = \<bar>wrap s\<bar> in
      s\<lparr>tr := tr_init ((tr s)\<lparr>pending_buf := [], data_type := Z_UNKNOWN\<rparr>), total_in := 0, next_out := [], total_out := 0,
        adler := (if wr = 2 then stream_crc 0 None else adler32 0 None),
        status := (if wr = 2 then GZIP_STATE else INIT_STATE), pending_out := 0, wrap := wr, last_flush := - 2\<rparr>)"

definition deflateReset :: "dstate \<Rightarrow> dstate" where
  "deflateReset s = lm_init (deflateResetKeep s)"

text \<open>
  The allocator answers the window bits and the memory level with a state whose arrays have
  the sizes asked for and whose contents are arbitrary, or with \<open>None\<close>.
\<close>

definition deflateInit2 ::
  "(nat \<Rightarrow> nat \<Rightarrow> dstate option) \<Rightarrow> int \<Rightarrow> int \<Rightarrow> int \<Rightarrow> int \<Rightarrow> int \<Rightarrow> int \<times> dstate option" where
  "deflateInit2 alloc lev method windowBits memLevel strat =
     (let lev = (if lev = - 1 then 6 else lev);
          wr = (if windowBits < 0 then 0 else if windowBits > 15 then 2 else 1);
          wbits = (if windowBits < 0 then - windowBits else if windowBits > 15 then windowBits - 16 else windowBits)
      in if windowBits < - 15 then (Z_STREAM_ERROR, None)
         else if memLevel < 1 \<or> memLevel > 9 \<or> method \<noteq> 8 \<or> wbits < 8 \<or> wbits > 15 \<or> lev < 0 \<or> lev > 9 \<or>
           strat < 0 \<or> strat > Z_FIXED \<or> (wbits = 8 \<and> wr \<noteq> 1) then (Z_STREAM_ERROR, None)
         else let wbits = (if wbits = 8 then 9 else nat wbits) in
           case alloc wbits (nat memLevel) of
             None \<Rightarrow> (Z_MEM_ERROR, None)
           | Some s \<Rightarrow>
               let s = s\<lparr>wrap := wr, gzhead := None, w_bits := wbits, mem_level := nat memLevel, high_water := 0\<rparr>;
                   t = (tr s)\<lparr>sym_end := (lit_bufsize s - 1) * 3, comp_level := lev, strategy := strat\<rparr>
               in (Z_OK, Some (deflateReset (s\<lparr>tr := t\<rparr>))))"

text \<open>\<open>deflateInit_\<close>: \<open>MAX_WBITS\<close>, \<open>DEF_MEM_LEVEL\<close> and \<open>Z_DEFAULT_STRATEGY\<close>.\<close>

definition deflateInit :: "(nat \<Rightarrow> nat \<Rightarrow> dstate option) \<Rightarrow> int \<Rightarrow> int \<times> dstate option" where
  "deflateInit alloc lev = deflateInit2 alloc lev 8 15 8 0"

section \<open>Headers\<close>

text \<open>
  The results are whether \<open>deflate\<close> has to return \<open>Z_OK\<close> because not all of the header fits in
  the output, and the state.
\<close>

definition stop_if_pending :: "dstate \<Rightarrow> bool \<times> dstate" where
  "stop_if_pending s = (if pending s \<noteq> 0 then (True, s\<lparr>last_flush := - 1\<rparr>) else (False, s))"

definition header_done :: "dstate \<Rightarrow> (bool \<times> dstate) option" where
  "header_done s = map_option stop_if_pending (flush_pending (s\<lparr>status := BUSY_STATE\<rparr>))"

definition level_flags :: "dstate \<Rightarrow> nat" where
  "level_flags s =
     (if strategy (tr s) \<ge> Z_HUFFMAN_ONLY \<or> level s < 2 then 0 else if level s < 6 then 1 else if level s = 6 then 2 else 3)"

definition zlib_header_word :: "dstate \<Rightarrow> nat" where
  "zlib_header_word s =
     (let header = push_bit 8 (8 + push_bit 4 (w_bits s - 8)) OR push_bit 6 (level_flags s);
          header = (if strstart s \<noteq> 0 then header OR 32 else header)
      in header + (31 - header mod 31))"

definition zlib_header :: "dstate \<Rightarrow> (bool \<times> dstate) option" where
  "zlib_header s = do {
     let dict = strstart s \<noteq> 0;
     s \<leftarrow> putShortMSB (zlib_header_word s) s;
     s \<leftarrow> (if dict then do { s \<leftarrow> putShortMSB (unat (drop_bit 16 (adler s))) s; putShortMSB (unat (adler s AND 0xffff)) s } else Some s);
     header_done (s\<lparr>adler := adler32 0 None\<rparr>)
   }"

definition gzip_level_byte :: "dstate \<Rightarrow> byte" where
  "gzip_level_byte s =
     (if level s = 9 then 2 else if strategy (tr s) \<ge> Z_HUFFMAN_ONLY \<or> level s < 2 then 4 else 0)"

definition OS_CODE :: byte where "OS_CODE = 3"

definition gzip_plain_header :: "dstate \<Rightarrow> (bool \<times> dstate) option" where
  "gzip_plain_header s = do {
     s \<leftarrow> put_bytes ([31, 139, 8, 0, 0, 0, 0, 0] @ [gzip_level_byte s, OS_CODE]) s;
     header_done s
   }"

definition gzip_flags :: "gz_header \<Rightarrow> byte" where
  "gzip_flags h = of_bool (gz_text h) + 2 * of_bool (gz_hcrc h) + 4 * of_bool (gz_extra h \<noteq> None) +
     8 * of_bool (gz_name h \<noteq> None) + 16 * of_bool (gz_comment h \<noteq> None)"

definition gzip_start :: "gz_header \<Rightarrow> dstate \<Rightarrow> dstate option" where
  "gzip_start h s = do {
     s \<leftarrow> put_bytes ([31, 139, 8, gzip_flags h] @
            map (\<lambda>i. ucast (drop_bit (8 * i) (gz_time h))) [0..<4] @ [gzip_level_byte s, of_int (gz_os h)]) s;
     s \<leftarrow> (if gz_extra h \<noteq> None then put_bytes [ucast (gz_extra_len h), ucast (drop_bit 8 (gz_extra_len h))] s else Some s);
     Some (s\<lparr>adler := (if gz_hcrc h then stream_crc (adler s) (Some (pending_buf (tr s))) else adler s),
             status := EXTRA_STATE, gzindex := 0\<rparr>)
   }"

definition HCRC_UPDATE :: "gz_header \<Rightarrow> nat \<Rightarrow> dstate \<Rightarrow> dstate" where
  "HCRC_UPDATE h beg s =
     (if gz_hcrc h \<and> pending s > beg then s\<lparr>adler := stream_crc (adler s) (Some (drop beg (pending_buf (tr s))))\<rparr> else s)"

text \<open>The copy of the extra field, in pieces of the size of the pending buffer.\<close>

definition extra_piece :: "gz_header \<Rightarrow> nat \<Rightarrow> dstate \<Rightarrow> dstate option" where
  "extra_piece h n s = put_bytes (take n (drop (gzindex s) (the (gz_extra h)))) s"

lemma flush_pending_frame:
  "flush_pending s = Some s' \<Longrightarrow> mem_level s' = mem_level s \<and> gzindex s' = gzindex s \<and> gzhead s' = gzhead s"
  by (auto simp: flush_pending_def flush_bits_def on_trees_def bind_eq_Some_conv Let_def split: if_splits)

function extra_loop :: "gz_header \<Rightarrow> nat \<Rightarrow> nat \<Rightarrow> dstate \<Rightarrow> (bool \<times> dstate) option" where
  "extra_loop h beg left s =
     (if pending s + left > pending_buf_size s
      then let copy = pending_buf_size s - pending s in do {
        s \<leftarrow> extra_piece h copy s;
        let s = HCRC_UPDATE h beg s;
        s \<leftarrow> flush_pending (s\<lparr>gzindex := gzindex s + copy\<rparr>);
        if pending s \<noteq> 0 then Some (True, s\<lparr>last_flush := - 1\<rparr>) else extra_loop h 0 (left - copy) s
      }
      else do {
        s \<leftarrow> extra_piece h left s;
        Some (False, (HCRC_UPDATE h beg s)\<lparr>gzindex := 0\<rparr>)
      })"
  by pat_completeness auto
termination
proof (relation "measure (\<lambda>(h, beg, left, s). left + (if pending s = 0 then 0 else 1))", goal_cases)
  case (2 h beg left s copy s1 s2 s3)
  then show ?case by (cases "pending s = 0") (auto simp: pending_buf_size_def lit_bufsize_def)
qed simp

declare extra_loop.simps [simp del]

definition gzip_extra :: "gz_header \<Rightarrow> dstate \<Rightarrow> (bool \<times> dstate) option" where
  "gzip_extra h s = do {
     (full, s) \<leftarrow> (if gz_extra h \<noteq> None then extra_loop h (pending s) (unat (gz_extra_len h AND 0xffff) - gzindex s) s else Some (False, s));
     Some (full, if full then s else s\<lparr>status := NAME_STATE\<rparr>)
   }"

text \<open>The file name and the comment end with a zero byte, which the lists do not contain.\<close>

function string_loop :: "gz_header \<Rightarrow> byte list \<Rightarrow> nat \<Rightarrow> dstate \<Rightarrow> (bool \<times> dstate) option" where
  "string_loop h str beg s = do {
     (full, beg, s) \<leftarrow> (if pending s = pending_buf_size s
       then do {
         s \<leftarrow> flush_pending (HCRC_UPDATE h beg s);
         Some (if pending s \<noteq> 0 then (True, beg, s\<lparr>last_flush := - 1\<rparr>) else (False, 0, s))
       }
       else Some (False, beg, s));
     if full then Some (True, s)
     else if gzindex s \<ge> length str
     then do {
       s \<leftarrow> put_bytes [0] (s\<lparr>gzindex := gzindex s + 1\<rparr>);
       Some (False, HCRC_UPDATE h beg s)
     }
     else do {
       s' \<leftarrow> put_bytes [str ! gzindex s] (s\<lparr>gzindex := gzindex s + 1\<rparr>);
       if str ! gzindex s = 0 then Some (False, HCRC_UPDATE h beg s') else string_loop h str beg s'
     }
   }"
  by pat_completeness auto
termination
  by (relation "measure (\<lambda>(h, str, beg, s). length str - gzindex s)")
    (auto simp: put_bytes_def on_trees_def HCRC_UPDATE_def bind_eq_Some_conv split: if_splits dest!: flush_pending_frame)

declare string_loop.simps [simp del]

definition gzip_name :: "gz_header \<Rightarrow> dstate \<Rightarrow> (bool \<times> dstate) option" where
  "gzip_name h s = do {
     (full, s) \<leftarrow> (case gz_name h of None \<Rightarrow> Some (False, s)
       | Some str \<Rightarrow> map_option (\<lambda>(full, s). (full, if full then s else s\<lparr>gzindex := 0\<rparr>)) (string_loop h str (pending s) s));
     Some (full, if full then s else s\<lparr>status := COMMENT_STATE\<rparr>)
   }"

definition gzip_comment :: "gz_header \<Rightarrow> dstate \<Rightarrow> (bool \<times> dstate) option" where
  "gzip_comment h s = do {
     (full, s) \<leftarrow> (case gz_comment h of None \<Rightarrow> Some (False, s) | Some str \<Rightarrow> string_loop h str (pending s) s);
     Some (full, if full then s else s\<lparr>status := HCRC_STATE\<rparr>)
   }"

definition gzip_hcrc :: "gz_header \<Rightarrow> dstate \<Rightarrow> (bool \<times> dstate) option" where
  "gzip_hcrc h s = do {
     (full, s) \<leftarrow> (if gz_hcrc h
       then do {
         (full, s) \<leftarrow> (if pending s + 2 > pending_buf_size s
           then map_option stop_if_pending (flush_pending s) else Some (False, s));
         if full then Some (True, s)
         else do {
           s \<leftarrow> put_bytes [ucast (adler s), ucast (drop_bit 8 (adler s))] s;
           Some (False, s\<lparr>adler := stream_crc 0 None\<rparr>)
         }
       }
       else Some (False, s));
     if full then Some (True, s) else header_done s
   }"

text \<open>
  The states \<open>EXTRA_STATE\<close> to \<open>HCRC_STATE\<close> read the header that the application has set; a null
  pointer there is \<open>None\<close>.
\<close>

definition gzip_rest :: "gz_header \<Rightarrow> dstate \<Rightarrow> (bool \<times> dstate) option" where
  "gzip_rest h s = do {
     (full, s) \<leftarrow> (if status s = EXTRA_STATE then gzip_extra h s else Some (False, s));
     if full then Some (True, s)
     else do {
       (full, s) \<leftarrow> (if status s = NAME_STATE then gzip_name h s else Some (False, s));
       if full then Some (True, s)
       else do {
         (full, s) \<leftarrow> (if status s = COMMENT_STATE then gzip_comment h s else Some (False, s));
         if full then Some (True, s)
         else if status s = HCRC_STATE then gzip_hcrc h s else Some (False, s)
       }
     }
   }"

definition write_header :: "dstate \<Rightarrow> (bool \<times> dstate) option" where
  "write_header s =
     (let s = (if status s = INIT_STATE \<and> wrap s = 0 then s\<lparr>status := BUSY_STATE\<rparr> else s) in
      if status s = INIT_STATE then zlib_header s
      else if status s = GZIP_STATE
      then let s = s\<lparr>adler := stream_crc 0 None\<rparr> in
           case gzhead s of None \<Rightarrow> gzip_plain_header s
           | Some h \<Rightarrow> do { s \<leftarrow> gzip_start h s; gzip_rest h s }
      else case gzhead s of None \<Rightarrow> (if status s \<in> {BUSY_STATE, FINISH_STATE} then Some (False, s) else None)
        | Some h \<Rightarrow> gzip_rest h s)"

section \<open>Compressing\<close>

definition compress_block_func :: "int \<Rightarrow> dstate \<Rightarrow> (block_state \<times> dstate) option" where
  "compress_block_func flush s =
     (if level s = 0 then deflate_stored flush s
      else if strategy (tr s) = Z_HUFFMAN_ONLY then deflate_huff flush s
      else if strategy (tr s) = Z_RLE then deflate_rle flush s
      else case func (config_of (level s)) of
        deflate_stored_func \<Rightarrow> deflate_stored flush s
      | deflate_fast_func \<Rightarrow> deflate_fast flush s
      | deflate_slow_func \<Rightarrow> deflate_slow flush s)"

text \<open>What a flush appends to the blocks.\<close>

definition flush_marker :: "int \<Rightarrow> dstate \<Rightarrow> dstate option" where
  "flush_marker flush s =
     (if flush = Z_PARTIAL_FLUSH then on_trees tr_align s
      else if flush \<noteq> Z_BLOCK
      then do {
        s \<leftarrow> on_trees (\<lambda>t. tr_stored_block t [] False) s;
        Some (if flush = Z_FULL_FLUSH
          then let s = CLEAR_HASH s in
               if lookahead s = 0 then s\<lparr>block_start := 0, strstart := 0, insert_cnt := 0\<rparr> else s
          else s)
      }
      else Some s)"

text \<open>A first result other than \<open>None\<close> is the value that \<open>deflate\<close> returns.\<close>

definition deflate_blocks :: "int \<Rightarrow> dstate \<Rightarrow> (int option \<times> dstate) option" where
  "deflate_blocks flush s =
     (if next_in s \<noteq> [] \<or> lookahead s \<noteq> 0 \<or> (flush \<noteq> Z_NO_FLUSH \<and> status s \<noteq> FINISH_STATE)
      then do {
        (bstate, s) \<leftarrow> compress_block_func flush s;
        let s = (if bstate = finish_started \<or> bstate = finish_done then s\<lparr>status := FINISH_STATE\<rparr> else s);
        if bstate = need_more \<or> bstate = finish_started
        then Some (Some Z_OK, if avail_out s = 0 then s\<lparr>last_flush := - 1\<rparr> else s)
        else if bstate = block_done
        then do {
          s \<leftarrow> flush_marker flush s;
          s \<leftarrow> flush_pending s;
          Some (if avail_out s = 0 then (Some Z_OK, s\<lparr>last_flush := - 1\<rparr>) else (None, s))
        }
        else Some (None, s)
      }
      else Some (None, s))"

definition trailer_bytes :: "dstate \<Rightarrow> byte list" where
  "trailer_bytes s =
     (if wrap s = 2
      then map (\<lambda>i. ucast (drop_bit (8 * i) (adler s))) [0..<4] @ map (\<lambda>i. ucast (drop_bit (8 * i) (total_in s))) [0..<4]
      else map (\<lambda>i. ucast (drop_bit (8 * i) (adler s))) [3, 2, 1, 0])"

definition deflate_trailer :: "int \<Rightarrow> dstate \<Rightarrow> (int \<times> dstate) option" where
  "deflate_trailer flush s =
     (if flush \<noteq> Z_FINISH then Some (Z_OK, s)
      else if wrap s \<le> 0 then Some (Z_STREAM_END, s)
      else do {
        s \<leftarrow> put_bytes (trailer_bytes s) s;
        s \<leftarrow> flush_pending s;
        let s = (if wrap s > 0 then s\<lparr>wrap := - wrap s\<rparr> else s);
        Some (if pending s \<noteq> 0 then Z_OK else Z_STREAM_END, s)
      })"

definition RANK :: "int \<Rightarrow> int" where
  "RANK f = f * 2 - (if f > 4 then 9 else 0)"

text \<open>Output that an earlier call could not deliver comes first.\<close>

definition deliver_pending :: "int \<Rightarrow> int \<Rightarrow> dstate \<Rightarrow> (int option \<times> dstate) option" where
  "deliver_pending old_flush flush s =
     (if pending s \<noteq> 0
      then do {
        s \<leftarrow> flush_pending s;
        Some (if avail_out s = 0 then (Some Z_OK, s\<lparr>last_flush := - 1\<rparr>) else (None, s))
      }
      else Some (if next_in s = [] \<and> RANK flush \<le> RANK old_flush \<and> flush \<noteq> Z_FINISH then Some Z_BUF_ERROR else None, s))"

definition deflate :: "int \<Rightarrow> dstate \<Rightarrow> (int \<times> dstate) option" where
  "deflate flush s =
     (if flush > Z_BLOCK \<or> flush < 0 then Some (Z_STREAM_ERROR, s)
      else if status s = FINISH_STATE \<and> flush \<noteq> Z_FINISH then Some (Z_STREAM_ERROR, s)
      else if avail_out s = 0 then Some (Z_BUF_ERROR, s)
      else do {
        (ret, s) \<leftarrow> deliver_pending (last_flush s) flush (s\<lparr>last_flush := flush\<rparr>);
        case ret of Some r \<Rightarrow> Some (r, s)
        | None \<Rightarrow>
            if status s = FINISH_STATE \<and> next_in s \<noteq> [] then Some (Z_BUF_ERROR, s)
            else do {
              (full, s) \<leftarrow> write_header s;
              if full then Some (Z_OK, s)
              else do {
                (ret, s) \<leftarrow> deflate_blocks flush s;
                case ret of Some r \<Rightarrow> Some (r, s) | None \<Rightarrow> deflate_trailer flush s
              }
            }
      })"

definition deflateEnd :: "dstate \<Rightarrow> int" where
  "deflateEnd s = (if status s = BUSY_STATE then Z_DATA_ERROR else Z_OK)"

section \<open>Parameters and dictionaries\<close>

definition deflateSetHeader :: "gz_header option \<Rightarrow> dstate \<Rightarrow> int \<times> dstate" where
  "deflateSetHeader h s = (if wrap s \<noteq> 2 then (Z_STREAM_ERROR, s) else (Z_OK, s\<lparr>gzhead := h\<rparr>))"

definition deflateTune :: "int \<Rightarrow> int \<Rightarrow> int \<Rightarrow> int \<Rightarrow> dstate \<Rightarrow> int \<times> dstate" where
  "deflateTune good lazy nice chain s =
     (Z_OK, s\<lparr>max_chain_length := of_int chain, max_lazy_match := unat (of_int lazy :: uint),
        good_match := unat (of_int good :: uint), nice_match := nice\<rparr>)"

text \<open>The hash tables after a time at level 0, when slides have been missed.\<close>

definition catch_up :: "dstate \<Rightarrow> dstate" where
  "catch_up s =
     (if level s = 0 \<and> matches (tr s) \<noteq> 0
      then let s = (if matches (tr s) = 1 then slide_hash s else CLEAR_HASH s) in s\<lparr>tr := (tr s)\<lparr>matches := 0\<rparr>\<rparr>
      else s)"

definition deflateParams :: "int \<Rightarrow> int \<Rightarrow> dstate \<Rightarrow> (int \<times> dstate) option" where
  "deflateParams lev strat s =
     (let lev = (if lev = - 1 then 6 else lev) in
      if lev < 0 \<or> lev > 9 \<or> strat < 0 \<or> strat > Z_FIXED then Some (Z_STREAM_ERROR, s)
      else do {
        (err, s) \<leftarrow> (if (strat \<noteq> strategy (tr s) \<or> func (config_of (level s)) \<noteq> func (config_of lev)) \<and> last_flush s \<noteq> - 2
          then do {
            (err, s) \<leftarrow> deflate Z_BLOCK s;
            Some (if err = Z_STREAM_ERROR then (err, s)
              else if next_in s \<noteq> [] \<or> int (strstart s) - block_start s + int (lookahead s) \<noteq> 0 then (Z_BUF_ERROR, s)
              else (Z_OK, s))
          }
          else Some (Z_OK, s));
        if err \<noteq> Z_OK then Some (err, s)
        else let s = (if level s \<noteq> lev
               then let s = catch_up s in set_config lev (s\<lparr>tr := (tr s)\<lparr>comp_level := lev\<rparr>\<rparr>) else s)
             in Some (Z_OK, s\<lparr>tr := (tr s)\<lparr>strategy := strat\<rparr>\<rparr>)
      })"

fun insert_dict :: "nat \<Rightarrow> nat \<Rightarrow> dstate \<Rightarrow> dstate" where
  "insert_dict str 0 s = s"
| "insert_dict str (Suc n) s = insert_dict (str + 1) n (snd (INSERT_STRING s str))"

lemma insert_dict_input [simp]: "next_in (insert_dict str n s) = next_in s" "lookahead (insert_dict str n s) = lookahead s"
  by (induction str n s rule: insert_dict.induct) simp_all

function dict_loop :: "dstate \<Rightarrow> dstate option" where
  "dict_loop s =
     (if lookahead s \<ge> MIN_MATCH
      then let str = strstart s; n = lookahead s - (MIN_MATCH - 1); s = insert_dict str n s in do {
        s \<leftarrow> fill_window (s\<lparr>strstart := str + n, lookahead := MIN_MATCH - 1\<rparr>);
        dict_loop s
      }
      else Some s)"
  by pat_completeness auto
termination
  by (relation "measure input_left") (auto simp: MIN_MATCH_def input_left_def [of "insert_dict _ _ _"] input_left_def dest!: input_left_fill_window)

declare dict_loop.simps [simp del]

definition deflateSetDictionary :: "byte list \<Rightarrow> dstate \<Rightarrow> (int \<times> dstate) option" where
  "deflateSetDictionary dictionary s =
     (let wr = wrap s in
      if wr = 2 \<or> wr = 1 \<and> status s \<noteq> INIT_STATE \<or> lookahead s \<noteq> 0 then Some (Z_STREAM_ERROR, s)
      else
        let s = (if wr = 1 then s\<lparr>adler := adler32 (adler s) (Some dictionary)\<rparr> else s);
            s = (if length dictionary \<ge> w_size s \<and> wr = 0
                 then (CLEAR_HASH s)\<lparr>block_start := 0, strstart := 0, insert_cnt := 0\<rparr> else s);
            dictionary = (if length dictionary \<ge> w_size s then drop (length dictionary - w_size s) dictionary else dictionary);
            input = next_in s
        in do {
          s \<leftarrow> fill_window (s\<lparr>next_in := dictionary, wrap := 0\<rparr>);
          s \<leftarrow> dict_loop s;
          let start = strstart s + lookahead s;
          Some (Z_OK, s\<lparr>next_in := input, wrap := wr, block_start := int start, match_length := MIN_MATCH - 1,
            match_available := False, strstart := start, lookahead := 0, prev_length := MIN_MATCH - 1, insert_cnt := lookahead s\<rparr>)
        })"

end
