(* ===== verification/Deflate_Calls.thy ===== *)
theory Deflate_Calls
  imports Deflate_Slow Deflate_Stored Deflate_Stream
begin

text \<open>
  The calls of \<open>deflate\<close>: header, blocks, flush markers and trailer, with the invariant that
  holds between the calls whatever input and output space the application gives to them.
\<close>

section \<open>The invariant of the compression functions\<close>

definition mode_inv :: "int \<Rightarrow> int \<Rightarrow> byte list \<Rightarrow> dstate \<Rightarrow> byte list \<Rightarrow> byte list \<Rightarrow> token list \<Rightarrow> bool" where
  "mode_inv lev strat =
     (if lev = 0 then stored_inv
      else if strat = Z_HUFFMAN_ONLY then loop_inv huff_mode
      else if strat = Z_RLE then loop_inv rle_mode
      else case func (config_of lev) of
        deflate_stored_func \<Rightarrow> stored_inv
      | deflate_fast_func \<Rightarrow> loop_inv fast_mode
      | deflate_slow_func \<Rightarrow> slow_inv)"

definition block_inv :: "byte list \<Rightarrow> dstate \<Rightarrow> byte list \<Rightarrow> byte list \<Rightarrow> token list \<Rightarrow> bool" where
  "block_inv hdr s = mode_inv (level s) (strategy (tr s)) hdr s"

lemma mode_inv_disj:
  "mode_inv lev strat = stored_inv \<or> mode_inv lev strat = loop_inv huff_mode \<or> mode_inv lev strat = loop_inv rle_mode \<or>
    mode_inv lev strat = loop_inv fast_mode \<or> mode_inv lev strat = slow_inv"
  by (cases "func (config_of lev)") (simp_all add: mode_inv_def)

lemma mode_inv_cases:
  obtains "mode_inv lev strat = stored_inv" | "mode_inv lev strat = loop_inv huff_mode" | "mode_inv lev strat = loop_inv rle_mode"
    | "mode_inv lev strat = loop_inv fast_mode" | "mode_inv lev strat = slow_inv"
  using mode_inv_disj [of lev strat] by blast

text \<open>It depends on these fields, and on the block writer.\<close>

definition shape where
  "shape s = (tables s, block_start s, match_length s, prev_length s, match_available s, strstart s, match_start s, lookahead s, insert_cnt s)"

lemma shapeD:
  assumes "shape s' = shape s"
  shows "win_inv s' inp = win_inv s inp" "ready s' = ready s" "covers s' inp pend out ts = covers s inp pend out ts" "kept s' inp = kept s inp"
    "lazy_ok s' inp = lazy_ok s inp" "plain_mode s' = plain_mode s" "fast_mode s' ts = fast_mode s ts" "window_left s' = window_left s"
    "block_start s' = block_start s" "strstart s' = strstart s" "lookahead s' = lookahead s" "match_available s' = match_available s"
    "wf_sizes s' = wf_sizes s"
proof -
  have e: "tables s' = tables s" "block_start s' = block_start s" "match_length s' = match_length s" "prev_length s' = prev_length s"
    "match_available s' = match_available s" "strstart s' = strstart s" "match_start s' = match_start s" "lookahead s' = lookahead s"
    "insert_cnt s' = insert_cnt s" using assms by (simp_all add: shape_def)
  then have t: "w_bits s' = w_bits s" "mem_level s' = mem_level s" "window s' = window s" "prev s' = prev s" "head s' = head s" "ins_h s' = ins_h s"
    by (simp_all add: tables_def)
  show "win_inv s' inp = win_inv s inp" and r: "ready s' = ready s" by (rule win_inv_cong; use e t in simp)+
  show "kept s' inp = kept s inp" by (rule kept_cong) (use e t in simp_all)
  show "covers s' inp pend out ts = covers s inp pend out ts" "lazy_ok s' inp = lazy_ok s inp" "plain_mode s' = plain_mode s"
    "fast_mode s' ts = fast_mode s ts" "window_left s' = window_left s"
    "block_start s' = block_start s" "strstart s' = strstart s" "lookahead s' = lookahead s" "match_available s' = match_available s"
    using e r by (simp_all add: covers_def lazy_ok_def plain_mode_def fast_mode_def window_left_def)
  show "wf_sizes s' = wf_sizes s" using tables_cong(3) [OF e(1)] .
qed

lemma mode_inv_cong:
  assumes i: "mode_inv lev strat hdr s inp out ts" and sh: "shape s' = shape s" and t: "sym_next (tr s') = sym_next (tr s)" "sym_end (tr s') = sym_end (tr s)"
    and o: "out_inv hdr s out ts \<Longrightarrow> out_inv hdr' s' out ts"
  shows "mode_inv lev strat hdr' s' inp out ts"
proof -
  note d = shapeD [OF sh]
  have "rest_inv hdr s inp p out ts \<Longrightarrow> rest_inv hdr' s' inp p out ts" for p using d t o by (simp add: rest_inv_def)
  then have "loop_inv m hdr s inp out ts \<Longrightarrow> (m s ts \<Longrightarrow> m s' ts) \<Longrightarrow> loop_inv m hdr' s' inp out ts" "slow_inv hdr s inp out ts \<Longrightarrow> slow_inv hdr' s' inp out ts"
    for m using d by (simp_all add: loop_inv_def slow_inv_def)
  moreover have "stored_inv hdr s inp out ts \<Longrightarrow> stored_inv hdr' s' inp out ts" unfolding stored_inv_def d using o by blast
  moreover have "huff_mode s ts \<Longrightarrow> huff_mode s' ts" "rle_mode s ts \<Longrightarrow> rle_mode s' ts" "fast_mode s ts \<Longrightarrow> fast_mode s' ts"
    using d by (simp_all add: huff_mode_def rle_mode_def)
  ultimately show ?thesis using i by (cases rule: mode_inv_cases [where lev = lev and strat = strat]) simp_all
qed

lemma mode_inv_out:
  assumes "mode_inv lev strat hdr s inp out ts"
  shows "out_inv hdr s out ts" "wf_sizes s"
  using assms
  by (cases rule: mode_inv_cases [where lev = lev and strat = strat]; auto simp: stored_inv_def loop_inv_def slow_inv_def rest_inv_def win_inv_def kept_def)+

lemma block_inv_cong:
  assumes "block_inv hdr s inp out ts" "shape s' = shape s" "tparams (tr s') = tparams (tr s)" "sym_next (tr s') = sym_next (tr s)"
    "out_inv hdr s out ts \<Longrightarrow> out_inv hdr' s' out ts"
  shows "block_inv hdr' s' inp out ts"
  using mode_inv_cong [of "level s" "strategy (tr s)" hdr s inp out ts s' hdr'] assms by (simp add: block_inv_def level_def tparams_def)

lemma comp_ok_block:
  assumes "comp_ok hdr R flush s inp r s'" "\<And>s' inp out ts. cparams s' = cparams s \<Longrightarrow> R s' inp out ts \<Longrightarrow> R' s' inp out ts"
  shows "comp_ok hdr R' flush s inp r s'"
proof -
  obtain new where n: "reads s s' new" "cparams s' = cparams s" "avail_out s' \<le> avail_out s" "io_ok s'" "avail_out s' \<noteq> 0 \<longrightarrow> io_clear s'"
    "wf_sizes s'" "result_ok hdr R flush (inp @ new) r s'" using assms(1) unfolding comp_ok_def by blast
  then have "result_ok hdr R' flush (inp @ new) r s'" using assms(2) [OF n(2)] by (cases r) (simp_all add: result_ok_def, blast)
  with n show ?thesis unfolding comp_ok_def by blast
qed

text \<open>Whichever function is used.\<close>

lemma compress_block:
  assumes i: "block_inv hdr s inp out ts" and io: "io_clear s"
  shows "\<exists>r s'. compress_block_func flush s = Some (r, s') \<and> comp_ok hdr (block_inv hdr) flush s inp r s'"
proof -
  let ?m = "mode_inv (level s) (strategy (tr s))"
  have "\<exists>r s'. compress_block_func flush s = Some (r, s') \<and> comp_ok hdr (?m hdr) flush s inp r s'"
  proof -
    have "compress_block_func flush s = deflate_stored flush s \<and> ?m = stored_inv \<or> compress_block_func flush s = deflate_huff flush s \<and> ?m = loop_inv huff_mode \<or>
        compress_block_func flush s = deflate_rle flush s \<and> ?m = loop_inv rle_mode \<or> compress_block_func flush s = deflate_fast flush s \<and> ?m = loop_inv fast_mode \<or>
        compress_block_func flush s = deflate_slow flush s \<and> ?m = slow_inv"
      by (cases "func (config_of (level s))") (simp_all add: compress_block_func_def mode_inv_def)
    then consider "compress_block_func flush s = deflate_stored flush s" "?m = stored_inv" | "compress_block_func flush s = deflate_huff flush s" "?m = loop_inv huff_mode"
      | "compress_block_func flush s = deflate_rle flush s" "?m = loop_inv rle_mode" | "compress_block_func flush s = deflate_fast flush s" "?m = loop_inv fast_mode"
      | "compress_block_func flush s = deflate_slow flush s" "?m = slow_inv" by blast
    then show ?thesis
    proof cases
      case 1
      then show ?thesis using deflate_stored_post [of hdr s inp out ts flush] i io by (simp add: block_inv_def)
    next
      case 2
      then show ?thesis using huff.loop_post [of hdr s inp out ts flush] i io comp_post_ok by (fastforce simp: block_inv_def)
    next
      case 3
      then show ?thesis using rle.loop_post [of hdr s inp out ts flush] i io comp_post_ok by (fastforce simp: block_inv_def)
    next
      case 4
      then show ?thesis using fast.loop_post [of hdr s inp out ts flush] i io comp_post_ok by (fastforce simp: block_inv_def)
    next
      case 5
      then show ?thesis using deflate_slow_post [of hdr s inp out ts flush] i io comp_post_ok by (fastforce simp: block_inv_def goes_on_def)
    qed
  qed
  then obtain r s' where r: "compress_block_func flush s = Some (r, s')" "comp_ok hdr (?m hdr) flush s inp r s'" by (elim exE conjE)
  have "comp_ok hdr (block_inv hdr) flush s inp r s'"
    by (rule comp_ok_block [OF r(2)]) (simp add: block_inv_def level_def cparams_def tparams_def)
  with r(1) show ?thesis by blast
qed

section \<open>Flush markers\<close>

lemma tframe_tr_align: "tframe (tr_align t) = tframe t"
  by (simp add: tr_align_def send_code_def tframe_bi_flush tframe_send_bits)

lemma slow_inv_done:
  assumes "slow_inv hdr s inp inp []" "lookahead s = 0"
  shows "\<not> match_available s"
proof
  assume "match_available s"
  then have "covers s inp 1 inp []" using assms(1) by (simp add: slow_inv_def rest_inv_def)
  then have "1 \<le> length inp" "take (length inp - 1) inp = inp" using assms(2) by (simp_all add: covers_def)
  then show False by (metis One_nat_def diff_Suc_less length_take less_eq_Suc_le min.absorb2 nat_less_le diff_le_self)
qed

definition forget :: "dstate \<Rightarrow> dstate" where
  "forget s = (CLEAR_HASH s)\<lparr>block_start := 0, strstart := 0, insert_cnt := 0\<rparr>"

lemma forget_win:
  assumes "wf_sizes s" "lookahead s = 0"
  shows "win_inv (forget s) inp" "kept (forget s) inp"
proof -
  have sz: "wf_sizes (forget s)" using assms(1) by (simp add: forget_def CLEAR_HASH_def wf_sizes_def window_size_def w_size_def hash_size_def hash_bits_def)
  have "tables (forget s) = tables (CLEAR_HASH s)" by (simp add: forget_def tables_def)
  then have "chains (forget s) {}" using chains_clear [OF assms(1)] tables_cong(1) by blast
  then have "hash_inv (forget s)" by (rule hash_invI) (simp_all add: forget_def)
  moreover have h: "holds (forget s) inp" using assms(2) by (simp add: holds_def forget_def CLEAR_HASH_def)
  ultimately show "win_inv (forget s) inp" using sz by (simp add: win_inv_def)
  show "kept (forget s) inp" using sz h assms(2) by (simp add: kept_def forget_def CLEAR_HASH_def)
qed

lemma mode_inv_forget:
  assumes i: "mode_inv lev strat hdr s inp inp []" and la: "lookahead s = 0"
  shows "mode_inv lev strat hdr (forget s) inp inp []"
proof -
  have wf: "wf_sizes s" using mode_inv_out [OF i] by simp
  note fw = forget_win [OF wf la, of inp]
  have f: "tr (forget s) = tr s" "next_out (forget s) = next_out s" "lookahead (forget s) = 0" "match_available (forget s) = match_available s"
    "match_length (forget s) = match_length s" "prev_length (forget s) = prev_length s" "block_start (forget s) = 0" "strstart (forget s) = 0"
    using la by (simp_all add: forget_def CLEAR_HASH_def)
  have c: "covers (forget s) inp 0 inp []" using f by (simp add: covers_def)
  have rd: "ready (forget s)" using f by (simp add: ready_def)
  have r: "rest_inv hdr s inp p inp [] \<Longrightarrow> rest_inv hdr (forget s) inp 0 inp []" for p using fw(1) c f by (simp add: rest_inv_def out_inv_def)
  then have "loop_inv m hdr s inp inp [] \<Longrightarrow> (m s [] \<Longrightarrow> m (forget s) []) \<Longrightarrow> loop_inv m hdr (forget s) inp inp []" for m
    unfolding loop_inv_def by blast
  moreover have "slow_inv hdr (forget s) inp inp []" if s: "slow_inv hdr s inp inp []"
  proof -
    have l: "match_length s < 3" "prev_length s < 3" "\<not> match_available s"
      using lazy_ok_end [of s inp] s la slow_inv_done [OF s la] by (simp_all add: slow_inv_def)
    then have "lazy_ok (forget s) inp" using f by (simp add: lazy_ok_def)
    moreover have "rest_inv hdr (forget s) inp 0 inp []" using s r by (auto simp: slow_inv_def)
    ultimately show ?thesis using rd l f by (simp add: slow_inv_def)
  qed
  moreover have "stored_inv hdr s inp inp [] \<Longrightarrow> stored_inv hdr (forget s) inp inp []"
    using fw(2) f by (simp add: stored_inv_def window_left_def out_inv_def)
  moreover have "huff_mode s [] \<Longrightarrow> huff_mode (forget s) []" "rle_mode s [] \<Longrightarrow> rle_mode (forget s) []" "fast_mode s [] \<Longrightarrow> fast_mode (forget s) []"
    using f rd by (simp_all add: huff_mode_def rle_mode_def plain_mode_def fast_mode_def)
  ultimately show ?thesis using i by (cases rule: mode_inv_cases [where lev = lev and strat = strat]) simp_all
qed

text \<open>What the calls between the blocks leave alone.\<close>

definition between :: "dstate \<Rightarrow> dstate \<Rightarrow> bool" where
  "between s s' \<longleftrightarrow> reads s s' [] \<and> cparams s' = cparams s \<and> lookahead s' = lookahead s \<and> avail_out s' \<le> avail_out s"

lemma between_trans: "between s s1 \<Longrightarrow> between s1 s2 \<Longrightarrow> between s s2"
  using reads_trans [of s s1 "[]" s2 "[]"] by (simp add: between_def)

lemma block_inv_tree:
  assumes "block_inv hdr s inp out []" "tparams t = tparams (tr s)" "sym_next t = sym_next (tr s)" "\<And>gone. writer gone (tr s) out [] \<Longrightarrow> writer gone t out []"
  shows "block_inv hdr (s\<lparr>tr := t\<rparr>) inp out []" "between s (s\<lparr>tr := t\<rparr>)"
proof -
  show "block_inv hdr (s\<lparr>tr := t\<rparr>) inp out []"
    by (rule block_inv_cong [OF assms(1)]) (use assms in \<open>auto simp: shape_def tables_def out_inv_def\<close>)
  show "between s (s\<lparr>tr := t\<rparr>)" using assms(2) by (simp add: between_def reads_def cparams_def)
qed

lemma flush_marker_inv:
  assumes i: "block_inv hdr s inp inp []" "lookahead s = 0" "pending_out s = 0"
  shows "\<exists>s'. flush_marker flush s = Some s' \<and> block_inv hdr s' inp inp [] \<and> between s s' \<and> pending_out s' = 0"
proof -
  consider "flush = Z_PARTIAL_FLUSH" | "flush \<noteq> Z_PARTIAL_FLUSH" "flush \<noteq> Z_BLOCK" | "flush = Z_BLOCK" by blast
  then show ?thesis
  proof cases
    case 1
    have t: "tparams (tr_align (tr s)) = tparams (tr s)" "sym_next (tr_align (tr s)) = sym_next (tr s)"
      using tframe_more [OF tframe_tr_align [of "tr s"]] tframe_eqD [OF tframe_tr_align [of "tr s"]] by (simp_all add: tparams_def)
    have "flush_marker flush s = Some (s\<lparr>tr := tr_align (tr s)\<rparr>)" using 1 i(3) by (simp add: flush_marker_def on_trees_def)
    then show ?thesis using block_inv_tree [OF i(1) t writer.align] i(3) by simp
  next
    case 2
    let ?t = "tr_stored_block (tr s) [] False"
    have w: "writer gone (tr s) inp [] \<Longrightarrow> writer gone ?t inp []" for gone using writer.store [of gone "tr s" inp "[]" "[]"] by simp
    note b = block_inv_tree [OF i(1) stored_block_frame(2,3) w]
    show ?thesis
    proof (cases "flush = Z_FULL_FLUSH")
      case True
      have e: "flush_marker flush s = Some (forget (s\<lparr>tr := ?t\<rparr>))"
        using 2 i(2,3) True by (simp add: flush_marker_def on_trees_def forget_def CLEAR_HASH_def Let_def Z_PARTIAL_FLUSH_def Z_FULL_FLUSH_def Z_BLOCK_def)
      have f: "level (forget s') = level s'" "strategy (tr (forget s')) = strategy (tr s')" for s' by (simp_all add: forget_def CLEAR_HASH_def level_def)
      have "block_inv hdr (forget (s\<lparr>tr := ?t\<rparr>)) inp inp []"
        using mode_inv_forget [of _ _ hdr "s\<lparr>tr := ?t\<rparr>" inp] b(1) i(2) unfolding block_inv_def f by simp
      moreover have "between (s\<lparr>tr := ?t\<rparr>) (forget (s\<lparr>tr := ?t\<rparr>))"
        by (simp add: between_def forget_def CLEAR_HASH_def reads_def cparams_def)
      moreover have "pending_out (forget (s\<lparr>tr := ?t\<rparr>)) = 0" using i(3) by (simp add: forget_def CLEAR_HASH_def)
      ultimately show ?thesis using e between_trans [OF b(2)] by blast
    next
      case False
      then have "flush_marker flush s = Some (s\<lparr>tr := ?t\<rparr>)" using 2 i(3) by (simp add: flush_marker_def on_trees_def)
      then show ?thesis using b i(3) by simp
    qed
  next
    case 3
    then have "flush_marker flush s = Some s" by (simp add: flush_marker_def Z_BLOCK_def Z_PARTIAL_FLUSH_def)
    then show ?thesis using i by (simp add: between_def reads_refl)
  qed
qed

lemma delivered_between: "delivered s s' \<Longrightarrow> between s s'"
  using delivered_frame [of s s'] by (simp add: between_def)

lemma deliver_block:
  assumes "block_inv hdr s inp out ts" "io_ok s"
  shows "\<exists>s'. flush_pending s = Some s' \<and> delivered s s' \<and> block_inv hdr s' inp out ts"
proof -
  have o: "out_inv hdr s out ts" using mode_inv_out(1) assms(1) unfolding block_inv_def by blast
  obtain s' where s': "flush_pending s = Some s'" "delivered s s'" "out_inv hdr s' out ts" "sym_next (tr s') = sym_next (tr s)"
    using flush_pending_inv [OF assms(2) o] by (elim exE conjE)
  note f = oframeD [OF delivered_frame(1) [OF s'(2)]]
  have "block_inv hdr s' inp out ts"
    by (rule block_inv_cong [OF assms(1)]) (use f s' in \<open>simp_all add: shape_def tables_def delivered_def\<close>)
  with s' show ?thesis by blast
qed

section \<open>Blocks\<close>

text \<open>
  The data \<open>inp\<close> has been read. Either blocks can still follow, or the last one is written.
\<close>

definition data_state :: "byte list \<Rightarrow> dstate \<Rightarrow> byte list \<Rightarrow> bool" where
  "data_state hdr s inp \<longleftrightarrow> io_ok s \<and>
     (status s = BUSY_STATE \<and> (\<exists>out ts. block_inv hdr s inp out ts) \<or>
      status s = FINISH_STATE \<and> lookahead s = 0 \<and> done_inv hdr s inp)"

lemma done_inv_cong:
  "done_inv hdr s data \<Longrightarrow> tr s' = tr s \<Longrightarrow> next_out s' = next_out s \<Longrightarrow> done_inv hdr s' data"
  by (simp add: done_inv_def)

lemma block_inv_same:
  assumes "shape s' = shape s" "tr s' = tr s" "next_out s' = next_out s"
  shows "block_inv hdr s' inp out ts = block_inv hdr s inp out ts"
proof
  assume "block_inv hdr s' inp out ts"
  then show "block_inv hdr s inp out ts" by (rule block_inv_cong) (use assms in \<open>simp_all add: out_inv_def\<close>)
next
  assume "block_inv hdr s inp out ts"
  then show "block_inv hdr s' inp out ts" by (rule block_inv_cong) (use assms in \<open>simp_all add: out_inv_def\<close>)
qed

lemma block_inv_upd: "block_inv hdr (s\<lparr>status := x\<rparr>) inp out ts = block_inv hdr s inp out ts" "block_inv hdr (s\<lparr>last_flush := y\<rparr>) inp out ts = block_inv hdr s inp out ts"
  "done_inv hdr (s\<lparr>status := x\<rparr>) inp = done_inv hdr s inp" "done_inv hdr (s\<lparr>last_flush := y\<rparr>) inp = done_inv hdr s inp"
  "io_ok (s\<lparr>status := x\<rparr>) = io_ok s" "io_ok (s\<lparr>last_flush := y\<rparr>) = io_ok s" "io_clear (s\<lparr>status := x\<rparr>) = io_clear s" "io_clear (s\<lparr>last_flush := y\<rparr>) = io_clear s"
proof -
  show "block_inv hdr (s\<lparr>status := x\<rparr>) inp out ts = block_inv hdr s inp out ts" "block_inv hdr (s\<lparr>last_flush := y\<rparr>) inp out ts = block_inv hdr s inp out ts"
    by (rule block_inv_same; simp add: shape_def tables_def)+
qed (simp_all add: done_inv_def io_ok_def io_clear_def pending_def)

text \<open>The parameters of a stream, and what a call changes besides.\<close>

definition sparams where
  "sparams s = (wrap s, gzhead s, w_bits s, mem_level s, tparams (tr s))"

lemma cparams_sparams: "cparams s' = cparams s \<Longrightarrow> sparams s' = sparams s"
  by (simp add: cparams_def sparams_def)

lemma deflate_blocks_inv:
  assumes d: "data_state hdr s inp" "io_clear s" and fin: "status s = FINISH_STATE \<longrightarrow> next_in s = []"
  shows "\<exists>ret s' new. deflate_blocks flush s = Some (ret, s') \<and> data_state hdr s' (inp @ new) \<and> reads s s' new \<and> sparams s' = sparams s \<and>
    (ret = None \<longrightarrow> io_clear s' \<and> (flush = Z_FINISH \<longrightarrow> status s' = FINISH_STATE \<and> next_in s' = []) \<and>
      (status s' = FINISH_STATE \<longrightarrow> flush = Z_FINISH \<or> status s = FINISH_STATE)) \<and> (ret \<noteq> None \<longrightarrow> ret = Some Z_OK)"
proof (cases "next_in s \<noteq> [] \<or> lookahead s \<noteq> 0 \<or> (flush \<noteq> Z_NO_FLUSH \<and> status s \<noteq> FINISH_STATE)")
  case False
  then have "deflate_blocks flush s = Some (None, s)" unfolding deflate_blocks_def by (rule if_not_P)
  then show ?thesis using d False
    by (intro exI [of _ None] exI [of _ s] exI [of _ "[]"]) (auto simp: reads_refl io_clear_def Z_FINISH_def Z_NO_FLUSH_def)
next
  case True
  then have "status s \<noteq> FINISH_STATE" using d(1) fin by (auto simp: data_state_def)
  then obtain out ts where st: "status s = BUSY_STATE" "block_inv hdr s inp out ts" using d(1) by (auto simp: data_state_def)
  obtain r s1 where r: "compress_block_func flush s = Some (r, s1)" "comp_ok hdr (block_inv hdr) flush s inp r s1"
    using compress_block [OF st(2) d(2), of flush] by (elim exE conjE)
  then obtain new where n: "reads s s1 new" "cparams s1 = cparams s" "io_ok s1" "result_ok hdr (block_inv hdr) flush (inp @ new) r s1"
    unfolding comp_ok_def by blast
  have s1: "status s1 = BUSY_STATE" using n(2) st(1) by (simp add: cparams_def)
  let ?s2 = "if r = finish_started \<or> r = finish_done then s1\<lparr>status := FINISH_STATE\<rparr> else s1"
  have e: "deflate_blocks flush s = (if r = need_more \<or> r = finish_started
        then Some (Some Z_OK, if avail_out ?s2 = 0 then ?s2\<lparr>last_flush := - 1\<rparr> else ?s2)
        else if r = Deflate.block_done
        then do {
          s \<leftarrow> flush_marker flush ?s2;
          s \<leftarrow> flush_pending s;
          Some (if avail_out s = 0 then (Some Z_OK, s\<lparr>last_flush := - 1\<rparr>) else (None, s))
        }
        else Some (None, ?s2))"
    unfolding deflate_blocks_def if_P [OF True] r(1) by (simp add: Let_def)
  have upd: "sparams (x\<lparr>last_flush := - 1\<rparr>) = sparams x" "reads s (x\<lparr>last_flush := - 1\<rparr>) new = reads s x new" for x
    by (simp_all add: sparams_def reads_def)
  show ?thesis
  proof (cases r)
    case need_more
    let ?s3 = "if avail_out s1 = 0 then s1\<lparr>last_flush := - 1\<rparr> else s1"
    obtain out' ts' where "block_inv hdr s1 (inp @ new) out' ts'" using n(4) need_more by (auto simp: result_ok_def)
    then have "block_inv hdr ?s3 (inp @ new) out' ts'" by (simp add: block_inv_upd)
    moreover have "status ?s3 = BUSY_STATE" "io_ok ?s3" using s1 n(3) by (simp_all add: block_inv_upd)
    ultimately have "data_state hdr ?s3 (inp @ new)" unfolding data_state_def by blast
    moreover have "deflate_blocks flush s = Some (Some Z_OK, ?s3)" unfolding e using need_more by simp
    moreover have "reads s ?s3 new" "sparams ?s3 = sparams s" using n(1) cparams_sparams [OF n(2)] upd by simp_all
    ultimately show ?thesis by (intro exI [of _ "Some Z_OK"] exI [of _ ?s3] exI [of _ new]) simp
  next
    case block_done
    have b: "block_inv hdr s1 (inp @ new) (inp @ new) []" "flush \<noteq> Z_FINISH" "lookahead s1 = 0" and po: "pending_out s1 = 0"
      using n(4) block_done by (simp_all add: result_ok_def io_clear_def)
    obtain s2 where s2: "flush_marker flush s1 = Some s2" "block_inv hdr s2 (inp @ new) (inp @ new) []" "between s1 s2" "pending_out s2 = 0"
      using flush_marker_inv [OF b(1,3) po, of flush] by (elim exE conjE)
    have "io_ok s2" using s2(4) by (simp add: io_ok_def)
    from deliver_block [OF s2(2) this] obtain s3 where s3: "flush_pending s2 = Some s3" "delivered s2 s3" "block_inv hdr s3 (inp @ new) (inp @ new) []"
      by (elim exE conjE)
    note bt = between_trans [OF s2(3) delivered_between [OF s3(2)]]
    let ?s4 = "if avail_out s3 = 0 then s3\<lparr>last_flush := - 1\<rparr> else s3" and ?ret = "if avail_out s3 = 0 then Some Z_OK else None"
    have "status s3 = BUSY_STATE" using bt s1 by (simp add: between_def cparams_def)
    then have "status ?s4 = BUSY_STATE" "io_ok ?s4" "block_inv hdr ?s4 (inp @ new) (inp @ new) []"
      using s3 delivered_frame(5) [OF s3(2)] by (simp_all add: block_inv_upd)
    moreover have "deflate_blocks flush s = Some (?ret, ?s4)" unfolding e using block_done s2(1) s3(1) by simp
    moreover have "reads s s3 new" using reads_trans [OF n(1)] bt by (metis append_Nil2 between_def)
    then have "reads s ?s4 new" using upd by simp
    moreover have "sparams ?s4 = sparams s" using bt cparams_sparams [OF n(2)] cparams_sparams [of s3 s1] upd by (simp add: between_def)
    moreover have "io_clear s3" if "avail_out s3 \<noteq> 0" using delivered_frame(6) [OF s3(2)] that by simp
    moreover have "data_state hdr ?s4 (inp @ new)" unfolding data_state_def using calculation(1-3) by blast
    ultimately show ?thesis using b(2) by (intro exI [of _ ?ret] exI [of _ ?s4] exI [of _ new]) simp
  next
    case finish_started
    let ?s3 = "if avail_out s1 = 0 then s1\<lparr>status := FINISH_STATE, last_flush := - 1\<rparr> else s1\<lparr>status := FINISH_STATE\<rparr>"
    have b: "done_inv hdr s1 (inp @ new)" "lookahead s1 = 0" using n(4) finish_started by (simp_all add: result_ok_def)
    have "deflate_blocks flush s = Some (Some Z_OK, ?s3)" unfolding e using finish_started by simp
    moreover have "data_state hdr ?s3 (inp @ new)" using b n(3) by (simp add: data_state_def done_inv_def io_ok_def pending_def)
    moreover have "reads s ?s3 new" "sparams ?s3 = sparams s" using n(1) cparams_sparams [OF n(2)] by (simp_all add: reads_def sparams_def)
    ultimately show ?thesis by (intro exI [of _ "Some Z_OK"] exI [of _ ?s3] exI [of _ new]) simp
  next
    case finish_done
    let ?s3 = "s1\<lparr>status := FINISH_STATE\<rparr>"
    have b: "done_inv hdr s1 (inp @ new)" "lookahead s1 = 0" "next_in s1 = []" "io_clear s1" "flush = Z_FINISH"
      using n(4) finish_done by (simp_all add: result_ok_def)
    have "deflate_blocks flush s = Some (None, ?s3)" unfolding e using finish_done by simp
    moreover have "data_state hdr ?s3 (inp @ new)" using b n(3) by (simp add: data_state_def done_inv_def io_ok_def pending_def)
    moreover have "reads s ?s3 new" "sparams ?s3 = sparams s" using n(1) cparams_sparams [OF n(2)] by (simp_all add: reads_def sparams_def)
    ultimately show ?thesis using b by (intro exI [of _ None] exI [of _ ?s3] exI [of _ new]) (simp add: block_inv_upd)
  qed
qed

end
