(* ===== verification/Runw.thy ===== *)
theory Runw
  imports Complex_Main Zlib_Prelude
begin

text \<open>
  The WebAssembly function server \<open>utilities/runw/runw_web.c\<close>. The operating system, the
  clock and the WasmEdge library are the parameter \<open>env\<close>: what each call answers, the calls
  of the request loop indexed by the pass. The state has the globals of the program, the
  descriptors it holds, and a trace of the calls with an effect outside of the process.
  Elapsed times are exact rationals where the program has doubles, and \<open>%f\<close> is a parameter.
\<close>

section \<open>Environment and state\<close>

type_synonym timespec = "int \<times> int"

record env =
  env_open :: "string \<Rightarrow> int"
  env_setns :: "int \<Rightarrow> int"
  env_configure :: bool
  env_socket :: int
  env_reuseaddr :: int
  env_nodelay :: int
  env_bind :: int
  env_listen :: int
  env_accept :: "nat \<Rightarrow> int"
  env_getsockname :: "nat \<Rightarrow> int"
  env_send :: "nat \<Rightarrow> int"
  env_vm_create :: "nat \<Rightarrow> bool"
  env_wasi :: "nat \<Rightarrow> bool"
  env_run_ok :: "nat \<Rightarrow> bool"
  env_clock :: "nat \<Rightarrow> timespec"
  env_fmt :: "rat \<Rightarrow> string"

datatype event =
    SetNs string
  | ConfigureCreate
  | ConfigureDelete
  | VMCreate nat
  | InitWASI nat string
  | RunWasm nat string
  | VMDelete nat
  | Send int string
  | Close int
  | Perror string
  | Stderr string
  | Stdout string

record runw =
  VMCxt :: "nat option"
  ConfCxt :: bool
  vm_count :: nat
  clock_count :: nat
  descriptors :: "int list"
  start_ts :: timespec
  end_ts :: timespec
  setup_start :: timespec
  setup_end :: timespec
  netns_elapsed :: rat
  webserver_elapsed :: rat
  loadwasm_elapsed :: rat
  execwasm_elapsed :: rat
  runw_setup :: rat
  execwasm_msec :: int
  runw_setup_msec :: int
  trace :: "event list"

datatype stop = Exit int runw | Undefined

definition runw_init :: runw where
  "runw_init = \<lparr>VMCxt = None, ConfCxt = False, vm_count = 0, clock_count = 0, descriptors = [],
     start_ts = (0, 0), end_ts = (0, 0), setup_start = (0, 0), setup_end = (0, 0),
     netns_elapsed = 0, webserver_elapsed = 0, loadwasm_elapsed = 0, execwasm_elapsed = 0,
     runw_setup = 0, execwasm_msec = 0, runw_setup_msec = 0, trace = []\<rparr>"

definition emit :: "event list \<Rightarrow> runw \<Rightarrow> runw" where
  "emit es s = s\<lparr>trace := trace s @ es\<rparr>"

definition PORT :: nat where "PORT = 8080"

section \<open>The C library\<close>

text \<open>\<open>(e.tv_sec - b.tv_sec) * 1e6 + (e.tv_nsec - b.tv_nsec) / 1e3\<close>\<close>

definition elapsed_usec :: "timespec \<Rightarrow> timespec \<Rightarrow> rat" where
  "elapsed_usec b e = of_int (fst e - fst b) * 1000000 + of_int (snd e - snd b) / 1000"

text \<open>\<open>(int)x\<close> truncates towards zero.\<close>

definition c_int :: "rat \<Rightarrow> int" where
  "c_int x = (if x < 0 then - \<lfloor>- x\<rfloor> else \<lfloor>x\<rfloor>)"

definition clock_gettime :: "env \<Rightarrow> runw \<Rightarrow> timespec \<times> runw" where
  "clock_gettime E s = (env_clock E (clock_count s), s\<lparr>clock_count := clock_count s + 1\<rparr>)"

definition digit_char :: "nat \<Rightarrow> char" where
  "digit_char d = char_of (48 + d)"

fun string_of_nat :: "nat \<Rightarrow> string" where
  "string_of_nat n = (if n < 10 then [digit_char n] else string_of_nat (n div 10) @ [digit_char (n mod 10)])"

declare string_of_nat.simps [simp del]

text \<open>\<open>%d\<close>\<close>

definition string_of_int :: "int \<Rightarrow> string" where
  "string_of_int i = (if i < 0 then CHR ''-'' # string_of_nat (nat (- i)) else string_of_nat (nat i))"

definition is_digit :: "char \<Rightarrow> bool" where
  "is_digit c \<longleftrightarrow> 48 \<le> (of_char c :: nat) \<and> (of_char c :: nat) \<le> 57"

definition is_space :: "char \<Rightarrow> bool" where
  "is_space c \<longleftrightarrow> (of_char c :: nat) = 32 \<or> (9 \<le> (of_char c :: nat) \<and> (of_char c :: nat) \<le> 13)"

definition digits_value :: "string \<Rightarrow> nat" where
  "digits_value ds = foldl (\<lambda>v c. 10 * v + (of_char c - 48)) 0 ds"

definition atoi :: "string \<Rightarrow> int" where
  "atoi str = (case dropWhile is_space str of
      [] \<Rightarrow> 0
    | c # cs \<Rightarrow>
        if c = CHR ''-'' then - int (digits_value (takeWhile is_digit cs))
        else if c = CHR ''+'' then int (digits_value (takeWhile is_digit cs))
        else int (digits_value (takeWhile is_digit (c # cs))))"

section \<open>\<open>WasmVMInit\<close>\<close>

text \<open>
  The globals \<open>start\<close> and \<open>end\<close> are set on the way; \<open>error (EXIT_FAILURE, \<dots>)\<close> ends
  the process, so the \<open>return -1\<close> after it is never reached.
\<close>

definition WasmVMInit :: "env \<Rightarrow> string \<Rightarrow> runw \<Rightarrow> stop + runw" where
  "WasmVMInit E dirs s =
     (let (t, s) = clock_gettime E s; s = s\<lparr>start_ts := t\<rparr>; v = vm_count s in
      if \<not> env_vm_create E v
      then let s = emit [ConfigureDelete, Perror ''could not create wasmedge vm''] (s\<lparr>VMCxt := None, ConfCxt := False\<rparr>)
           in Inl (Exit 1 s)
      else
        let s = emit [VMCreate v] (s\<lparr>VMCxt := Some v, vm_count := v + 1\<rparr>) in
        if \<not> env_wasi E v
        then let s = emit [VMDelete v, ConfigureDelete, Perror ''could not get wasmedge wasi module context'']
                       (s\<lparr>VMCxt := None, ConfCxt := False\<rparr>)
             in Inl (Exit 1 s)
        else
          let s = emit [InitWASI v dirs] s; (t, s) = clock_gettime E s;
              s = s\<lparr>end_ts := t, loadwasm_elapsed := elapsed_usec (start_ts s) t\<rparr>
          in Inr s)"

section \<open>Setup\<close>

definition netns_path :: "int \<Rightarrow> string" where
  "netns_path n = ''/var/run/netns/fe_wasm_netns'' @ string_of_int n"

text \<open>Lines up to the end of the network namespace part; \<open>exit(-1)\<close> when it cannot be joined.\<close>

definition join_netns :: "env \<Rightarrow> int \<Rightarrow> runw \<Rightarrow> stop + runw" where
  "join_netns E ns_num s =
     (let (t, s) = clock_gettime E s; s = s\<lparr>start_ts := t\<rparr>;
          net_ns = env_open E (netns_path ns_num);
          s = (if net_ns < 0 then s else s\<lparr>descriptors := net_ns # descriptors s\<rparr>) in
      if env_setns E net_ns \<noteq> 0
      then Inl (Exit (- 1) (emit [Stdout (''ERROR joining NET NS '' @ netns_path ns_num)] s))
      else
        let s = emit [SetNs (netns_path ns_num), Close net_ns] (s\<lparr>descriptors := remove1 net_ns (descriptors s)\<rparr>);
            (t, s) = clock_gettime E s
        in Inr (s\<lparr>end_ts := t, netns_elapsed := elapsed_usec (start_ts s) t\<rparr>))"

definition create_server :: "env \<Rightarrow> runw \<Rightarrow> stop + int \<times> runw" where
  "create_server E s =
     (let (t, s) = clock_gettime E s; s = s\<lparr>start_ts := t\<rparr>; sockfd = env_socket E in
      if sockfd = - 1 then Inl (Exit 1 (emit [Perror ''Unable to create socket for web server''] s))
      else let s = s\<lparr>descriptors := sockfd # descriptors s\<rparr> in
      if env_reuseaddr E < 0 then Inl (Exit 1 (emit [Perror ''setsockopt(SO_REUSEADDR) failed''] s))
      else if env_nodelay E < 0 then Inl (Exit 1 (emit [Perror ''setsockopt(SO_REUSEADDR) failed''] s))
      else if env_bind E \<noteq> 0 then Inl (Exit 1 (emit [Perror ''Unable to bind webserver to port''] s))
      else if env_listen E \<noteq> 0 then Inl (Exit 1 (emit [Perror ''Webserver unable to listen on port''] s))
      else let (t, s) = clock_gettime E s
           in Inr (sockfd, s\<lparr>end_ts := t, webserver_elapsed := elapsed_usec (start_ts s) t\<rparr>))"

text \<open>The time that the setup took, at least one millisecond.\<close>

definition finish_setup :: "env \<Rightarrow> runw \<Rightarrow> runw" where
  "finish_setup E s =
     (let (t, s) = clock_gettime E s;
          r = elapsed_usec (setup_start s) t / 1000;
          msec = c_int r
      in s\<lparr>setup_end := t, runw_setup := r, runw_setup_msec := (if msec < 1 then 1 else msec)\<rparr>)"

text \<open>
  \<open>main\<close> up to the request loop. The arguments are read without a check of \<open>argc\<close>: fewer
  than three of them are undefined behaviour.
\<close>

definition runw_setup_server :: "env \<Rightarrow> string list \<Rightarrow> stop + int \<times> runw" where
  "runw_setup_server E argv =
     (let (t, s) = clock_gettime E runw_init; s = s\<lparr>setup_start := t\<rparr> in
      if length argv < 4 then Inl Undefined
      else ebind (join_netns E (atoi (argv ! 3)) s) (\<lambda>s.
        if \<not> env_configure E then Inl (Exit 1 (emit [Perror ''could not create wasmedge configure''] s))
        else let s = emit [ConfigureCreate] (s\<lparr>ConfCxt := True\<rparr>) in
        ebind (create_server E s) (\<lambda>(sockfd, s).
        ebind (WasmVMInit E (argv ! 2) s) (\<lambda>s. Inr (sockfd, finish_setup E s)))))"

section \<open>Serving requests\<close>

definition crlf :: string where "crlf = [CHR 0x0D, CHR 0x0A]"

definition misc_stats :: "env \<Rightarrow> runw \<Rightarrow> rat \<Rightarrow> string" where
  "misc_stats E s cleanup = env_fmt E (netns_elapsed s) @ '','' @ env_fmt E (webserver_elapsed s) @ '','' @
     env_fmt E (loadwasm_elapsed s) @ '','' @ env_fmt E cleanup"

definition response_head :: string where
  "response_head = ''HTTP/1.1 200 OK'' @ crlf @ ''Server: runw'' @ crlf @ ''Content-type: text/plain'' @ crlf"

definition success_response :: "env \<Rightarrow> runw \<Rightarrow> rat \<Rightarrow> string" where
  "success_response E s cleanup = response_head @
     ''Invocation-elapsed: '' @ string_of_int (execwasm_msec s) @ crlf @
     ''runw-setup: '' @ string_of_int (runw_setup_msec s) @ crlf @
     ''Misc-stats: '' @ misc_stats E s cleanup @ crlf @ crlf @ ''Success'' @ crlf"

definition failure_response :: string where
  "failure_response = response_head @ crlf @ ''Failure'' @ crlf"

text \<open>Running the function and deleting its virtual machine; the result is \<open>wasm_cleanup\<close>.\<close>

definition exec_wasm :: "env \<Rightarrow> string \<Rightarrow> nat \<Rightarrow> runw \<Rightarrow> rat \<times> runw" where
  "exec_wasm E file v s =
     (let (t, s) = clock_gettime E s; s = emit [RunWasm v file] (s\<lparr>start_ts := t\<rparr>);
          (t, s) = clock_gettime E s;
          s = s\<lparr>end_ts := t, execwasm_elapsed := elapsed_usec (start_ts s) t / 1000\<rparr>;
          s = s\<lparr>execwasm_msec := c_int (execwasm_elapsed s)\<rparr>;
          (t, s) = clock_gettime E s; s = emit [VMDelete v] (s\<lparr>start_ts := t, VMCxt := None\<rparr>);
          (t, s) = clock_gettime E s; s = s\<lparr>end_ts := t\<rparr>
      in (elapsed_usec (start_ts s) t, s))"

text \<open>
  The answer: \<open>resp\<close> is sent with the length that \<open>snprintf\<close> returned, and the
  connection is closed whether or not \<open>send\<close> succeeds.
\<close>

definition respond :: "env \<Rightarrow> nat \<Rightarrow> int \<Rightarrow> rat \<Rightarrow> runw \<Rightarrow> runw" where
  "respond E i newsockfd wasm_cleanup s =
     (let resp = (if env_run_ok E i then success_response E s wasm_cleanup else failure_response);
          s = emit [Send newsockfd resp] s;
          s = (if env_send E i = - 1 then emit [Perror ''webserver (send)''] s else s);
          s = emit [Close newsockfd] (s\<lparr>descriptors := remove1 newsockfd (descriptors s)\<rparr>)
      in emit [Stderr (string_of_int (execwasm_msec s) @ '','' @ string_of_int (runw_setup_msec s) @ '','' @
           misc_stats E s wasm_cleanup)] s)"

text \<open>
  One pass of \<open>while(1)\<close>, number \<open>i\<close>. The two failing calls before the execution \<open>continue\<close>
  with the next pass. Running a deleted virtual machine would be undefined.
\<close>

definition serve_request :: "env \<Rightarrow> string \<Rightarrow> string \<Rightarrow> nat \<Rightarrow> runw \<Rightarrow> stop + runw" where
  "serve_request E file dirs i s =
     (let newsockfd = env_accept E i in
      if newsockfd < 0 then Inr (emit [Perror ''webserver (accept)''] s)
      else let s = s\<lparr>descriptors := newsockfd # descriptors s\<rparr> in
      if env_getsockname E i < 0 then Inr (emit [Perror ''webserver (getsockname)''] s)
      else case VMCxt s of None \<Rightarrow> Inl Undefined
      | Some v \<Rightarrow>
        let (wasm_cleanup, s) = exec_wasm E file v s
        in WasmVMInit E dirs (respond E i newsockfd wasm_cleanup s))"

text \<open>The first \<open>n\<close> passes, from pass \<open>i\<close> on.\<close>

fun serve :: "env \<Rightarrow> string \<Rightarrow> string \<Rightarrow> nat \<Rightarrow> nat \<Rightarrow> runw \<Rightarrow> stop + runw" where
  "serve E file dirs i 0 s = Inr s"
| "serve E file dirs i (Suc n) s = ebind (serve_request E file dirs i s) (serve E file dirs (i + 1) n)"

text \<open>\<open>main\<close>, observed for \<open>n\<close> passes of the loop.\<close>

definition runw_main :: "env \<Rightarrow> string list \<Rightarrow> nat \<Rightarrow> stop + runw" where
  "runw_main E argv n = ebind (runw_setup_server E argv) (\<lambda>(sockfd, s). serve E (argv ! 1) (argv ! 2) 0 n s)"

end
