(* ===== verification/Runw_Props.thy ===== *)
theory Runw_Props
  imports Runw
begin

text \<open>
  What the server guarantees to the functions it runs and to its clients: every request runs
  in a virtual machine of its own, every accepted connection that can be named is answered
  and closed, and nothing is served before the network namespace has been joined.
\<close>

section \<open>Numbers as text\<close>

lemma digit_char_props:
  assumes "d < 10"
  shows "is_digit (digit_char d)" "\<not> is_space (digit_char d)" "(of_char (digit_char d) :: nat) = 48 + d"
    "digit_char d \<noteq> CHR ''-''" "digit_char d \<noteq> CHR ''+''"
proof -
  have *: "(of_char (digit_char d) :: nat) = 48 + d" using assms by (simp add: digit_char_def)
  then show "(of_char (digit_char d) :: nat) = 48 + d" .
  from * assms show "is_digit (digit_char d)" "\<not> is_space (digit_char d)"
    by (auto simp: is_digit_def is_space_def)
  from * show "digit_char d \<noteq> CHR ''-''" "digit_char d \<noteq> CHR ''+''" by auto
qed

lemma string_of_nat_digits:
  "string_of_nat n \<noteq> [] \<and> (\<forall>c \<in> set (string_of_nat n). \<exists>d < 10. c = digit_char d) \<and> digits_value (string_of_nat n) = n"
proof (induction n rule: string_of_nat.induct)
  case (1 n)
  show ?case
  proof (cases "n < 10")
    case True
    then show ?thesis
      by (subst (1 2 3) string_of_nat.simps) (auto simp: digits_value_def digit_char_props)
  next
    case False
    note IH = "1.IH" [OF False]
    have "n mod 10 < 10" by simp
    then have "\<exists>d < 10. digit_char (n mod 10) = digit_char d" by blast
    with IH False show ?thesis
      by (subst (1 2 3) string_of_nat.simps) (auto simp: digits_value_def digit_char_props)
  qed
qed

lemma string_of_nat_Cons:
  obtains d cs where "string_of_nat n = digit_char d # cs" "d < 10"
  using string_of_nat_digits [of n] by (cases "string_of_nat n") auto

lemma takeWhile_string_of_nat: "takeWhile is_digit (string_of_nat n) = string_of_nat n"
  using string_of_nat_digits [of n] by (auto simp: takeWhile_eq_all_conv digit_char_props)


section \<open>The life of a virtual machine\<close>

text \<open>
  A monitor of the trace: machines are created one after the other, initialised, run at most
  once, and deleted before the next one is created.
\<close>

datatype vm_phase = NoVM nat | Created nat | Ready nat | Ran nat

fun vm_step :: "vm_phase \<Rightarrow> event \<Rightarrow> vm_phase option" where
  "vm_step p (VMCreate v) = (if p = NoVM v then Some (Created v) else None)"
| "vm_step p (InitWASI v d) = (if p = Created v then Some (Ready v) else None)"
| "vm_step p (RunWasm v f) = (if p = Ready v then Some (Ran v) else None)"
| "vm_step p (VMDelete v) = (if p \<in> {Created v, Ran v} then Some (NoVM (v + 1)) else None)"
| "vm_step p _ = Some p"

fun vm_steps :: "vm_phase \<Rightarrow> event list \<Rightarrow> vm_phase option" where
  "vm_steps p [] = Some p"
| "vm_steps p (e # es) = (case vm_step p e of None \<Rightarrow> None | Some q \<Rightarrow> vm_steps q es)"

lemma vm_steps_append:
  "vm_steps p (xs @ ys) = (case vm_steps p xs of None \<Rightarrow> None | Some q \<Rightarrow> vm_steps q ys)"
  by (induction p xs rule: vm_steps.induct) (auto split: option.splits)

fun_cases vm_step_Some: "vm_step p e = Some q"

text \<open>At the head of the loop a fresh machine is ready and has not run.\<close>

definition vm_ready :: "runw \<Rightarrow> bool" where
  "vm_ready s \<longleftrightarrow> ConfCxt s \<and> (\<exists>v. VMCxt s = Some v \<and> vm_count s = v + 1 \<and> vm_steps (NoVM 0) (trace s) = Some (Ready v))"

definition vm_none :: "runw \<Rightarrow> bool" where
  "vm_none s \<longleftrightarrow> VMCxt s = None \<and> vm_steps (NoVM 0) (trace s) = Some (NoVM (vm_count s))"

definition vm_gone :: "runw \<Rightarrow> bool" where
  "vm_gone s \<longleftrightarrow> VMCxt s = None \<and> \<not> ConfCxt s \<and> (\<exists>v. vm_steps (NoVM 0) (trace s) = Some (NoVM v))"

lemmas runw_defs = clock_gettime_def emit_def Let_def

lemma exec_wasm_effect:
  assumes "exec_wasm E f v s = (c, t)"
  shows "trace t = trace s @ [RunWasm v f, VMDelete v]" "VMCxt t = None" "vm_count t = vm_count s"
    "ConfCxt t = ConfCxt s" "descriptors t = descriptors s" "runw_setup_msec t = runw_setup_msec s"
  using assms by (auto simp: exec_wasm_def runw_defs)

lemma respond_effect:
  obtains ps l where "trace (respond E i fd c s) = trace s @
      [Send fd (if env_run_ok E i then success_response E s c else failure_response)] @ ps @ [Close fd, Stderr l]"
    "ps = (if env_send E i = - 1 then [Perror ''webserver (send)''] else [])"
  by (auto simp: respond_def runw_defs)

lemma respond_simps:
  "VMCxt (respond E i fd c s) = VMCxt s" "vm_count (respond E i fd c s) = vm_count s"
  "ConfCxt (respond E i fd c s) = ConfCxt s" "runw_setup_msec (respond E i fd c s) = runw_setup_msec s"
  "descriptors (respond E i fd c s) = remove1 fd (descriptors s)"
  by (auto simp: respond_def runw_defs)

lemma WasmVMInit_vm:
  assumes "vm_none s"
  shows "case WasmVMInit E dirs s of
      Inr s' \<Rightarrow> (ConfCxt s \<longrightarrow> vm_ready s')
    | Inl (Exit c s') \<Rightarrow> c = 1 \<and> vm_gone s'
    | Inl Undefined \<Rightarrow> False"
  using assms
  by (auto simp: WasmVMInit_def runw_defs vm_none_def vm_ready_def vm_gone_def vm_steps_append)

lemma WasmVMInit_frame:
  assumes "WasmVMInit E dirs s = Inr s'"
  shows "descriptors s' = descriptors s" "runw_setup_msec s' = runw_setup_msec s"
    "trace s' = trace s @ [VMCreate (vm_count s), InitWASI (vm_count s) dirs]"
  using assms by (auto simp: WasmVMInit_def runw_defs split: if_splits)

text \<open>What one pass does to the trace, in one place.\<close>

lemma serve_request_cases:
  assumes "vm_ready s"
  obtains (refused) "env_accept E i < 0" "serve_request E f d i s = Inr (emit [Perror ''webserver (accept)''] s)"
  | (unnamed) "0 \<le> env_accept E i" "env_getsockname E i < 0"
      "serve_request E f d i s = Inr (emit [Perror ''webserver (getsockname)'']
         (s\<lparr>descriptors := env_accept E i # descriptors s\<rparr>))"
  | (answered) c t r ps l where "0 \<le> env_accept E i" "0 \<le> env_getsockname E i"
      "serve_request E f d i s = WasmVMInit E d t" "vm_none t" "ConfCxt t"
      "descriptors t = descriptors s" "runw_setup_msec t = runw_setup_msec s"
      "trace t = trace s @ [RunWasm (vm_count s - 1) f, VMDelete (vm_count s - 1),
         Send (env_accept E i) (if env_run_ok E i then success_response E r c else failure_response)] @
         ps @ [Close (env_accept E i), Stderr l]"
      "set ps \<subseteq> {Perror ''webserver (send)''}"
proof -
  from assms obtain v where v: "VMCxt s = Some v" "vm_count s = v + 1"
    "vm_steps (NoVM 0) (trace s) = Some (Ready v)" "ConfCxt s" by (auto simp: vm_ready_def)
  let ?fd = "env_accept E i" and ?s = "s\<lparr>descriptors := env_accept E i # descriptors s\<rparr>"
  consider "?fd < 0" | "0 \<le> ?fd" "env_getsockname E i < 0" | "0 \<le> ?fd" "0 \<le> env_getsockname E i" by linarith
  then show thesis
  proof cases
    case 1 then show ?thesis by (intro refused) (simp_all add: serve_request_def)
  next
    case 2 then show ?thesis by (intro unnamed) (simp_all add: serve_request_def)
  next
    case 3
    obtain c r where x: "exec_wasm E f v ?s = (c, r)" by (cases "exec_wasm E f v ?s")
    obtain ps l where t: "trace (respond E i ?fd c r) = trace r @
      [Send ?fd (if env_run_ok E i then success_response E r c else failure_response)] @ ps @ [Close ?fd, Stderr l]"
      "ps = (if env_send E i = - 1 then [Perror ''webserver (send)''] else [])"
      by (rule respond_effect)
    note e = exec_wasm_effect [OF x]
    show ?thesis
    proof (rule answered [OF 3, where t = "respond E i ?fd c r"])
      show "serve_request E f d i s = WasmVMInit E d (respond E i ?fd c r)"
        using 3 v(1) x by (simp add: serve_request_def)
      show "vm_none (respond E i ?fd c r)"
        using t v e by (simp add: vm_none_def respond_simps vm_steps_append)
    qed (use t e v in \<open>auto simp: respond_simps\<close>)
  qed
qed

lemma serve_request_vm:
  assumes "vm_ready s"
  shows "case serve_request E f d i s of Inr s' \<Rightarrow> vm_ready s' \<and> runw_setup_msec s' = runw_setup_msec s
    | Inl (Exit c s') \<Rightarrow> c = 1 \<and> vm_gone s' | Inl Undefined \<Rightarrow> False"
proof (cases rule: serve_request_cases [OF assms, of E i f d])
  case (3 c t r ps l)
  with WasmVMInit_vm [OF 3(4), of E d] show ?thesis
    by (auto split: sum.splits stop.splits dest: WasmVMInit_frame)
qed (use assms in \<open>auto simp: emit_def vm_ready_def vm_steps_append\<close>)

lemma serve_vm:
  assumes "vm_ready s"
  shows "case serve E f d i n s of Inr s' \<Rightarrow> vm_ready s' \<and> runw_setup_msec s' = runw_setup_msec s
    | Inl (Exit c s') \<Rightarrow> c = 1 \<and> vm_gone s' | Inl Undefined \<Rightarrow> False"
  using assms
proof (induction n arbitrary: i s)
  case (Suc n)
  show ?case
  proof (cases "serve_request E f d i s")
    case (Inl e)
    with serve_request_vm [OF Suc.prems, of E f d i] show ?thesis by (simp split: stop.splits)
  next
    case (Inr s1)
    with serve_request_vm [OF Suc.prems, of E f d i] Suc.IH [of s1 "i + 1"] show ?thesis
      by (simp split: stop.splits sum.splits)
  qed
qed simp

section \<open>Setup\<close>

lemma join_netns_ok:
  assumes "join_netns E n s = Inr s'"
  shows "env_setns E (env_open E (netns_path n)) = 0"
    "trace s' = trace s @ [SetNs (netns_path n), Close (env_open E (netns_path n))]"
    "VMCxt s' = VMCxt s" "vm_count s' = vm_count s" "0 \<le> env_open E (netns_path n) \<Longrightarrow> descriptors s' = descriptors s"
  using assms by (auto simp: join_netns_def runw_defs split: if_splits)

lemma create_server_ok:
  assumes "create_server E s = Inr (fd, s')"
  shows "fd = env_socket E" "trace s' = trace s" "VMCxt s' = VMCxt s" "vm_count s' = vm_count s"
    "ConfCxt s' = ConfCxt s" "descriptors s' = fd # descriptors s"
  using assms by (auto simp: create_server_def runw_defs split: if_splits)

lemma setup_ok:
  assumes "runw_setup_server E argv = Inr (fd, s)"
  defines "path \<equiv> netns_path (atoi (argv ! 3))"
  shows "vm_ready s" "1 \<le> runw_setup_msec s" "4 \<le> length argv" "env_setns E (env_open E path) = 0"
    "\<exists>es. trace s = SetNs path # es \<and> (\<forall>fd r. Send fd r \<notin> set es)"
    "0 \<le> env_open E path \<Longrightarrow> descriptors s = [env_socket E]"
proof -
  let ?s = "snd (clock_gettime E runw_init)\<lparr>setup_start := fst (clock_gettime E runw_init)\<rparr>"
  from assms(1) obtain s0 s1 s2 where s: "join_netns E (atoi (argv ! 3)) ?s = Inr s0"
    "create_server E (emit [ConfigureCreate] (s0\<lparr>ConfCxt := True\<rparr>)) = Inr (fd, s1)"
    "WasmVMInit E (argv ! 2) s1 = Inr s2" "4 \<le> length argv" "s = finish_setup E s2"
    by (auto simp: runw_setup_server_def ebind_Inr_iff Let_def split: if_splits prod.splits)
  have eq: "VMCxt s = VMCxt s2" "vm_count s = vm_count s2" "ConfCxt s = ConfCxt s2" "trace s = trace s2"
      "descriptors s = descriptors s2" and msec: "1 \<le> runw_setup_msec s"
    by (simp_all add: s(5) finish_setup_def runw_defs)
  have "VMCxt s0 = None" "vm_count s0 = 0" "trace s0 = [SetNs path, Close (env_open E path)]"
    using join_netns_ok [OF s(1)] by (simp_all add: clock_gettime_def runw_init_def path_def)
  then have s1: "vm_none s1" "ConfCxt s1" "trace s1 = [SetNs path, Close (env_open E path), ConfigureCreate]"
    using create_server_ok [OF s(2)] by (simp_all add: vm_none_def emit_def)
  show "vm_ready s"
    using WasmVMInit_vm [OF s1(1), of E "argv ! 2"] s(3) s1(2) eq by (simp add: vm_ready_def)
  show "\<exists>es. trace s = SetNs path # es \<and> (\<forall>fd r. Send fd r \<notin> set es)"
    using WasmVMInit_frame [OF s(3)] s1(3) eq(4) by simp
  show "env_setns E (env_open E path) = 0" using join_netns_ok(1) [OF s(1)] by (simp add: path_def)
  show "descriptors s = [env_socket E]" if "0 \<le> env_open E path"
    using join_netns_ok(5) [OF s(1)] that create_server_ok(1,6) [OF s(2)] WasmVMInit_frame(1) [OF s(3)] eq(5)
    by (simp add: path_def emit_def clock_gettime_def runw_init_def)
  show "1 \<le> runw_setup_msec s" "4 \<le> length argv" using msec s(4) by simp_all
qed

section \<open>What clients see\<close>

definition answered :: "env \<Rightarrow> nat \<Rightarrow> bool" where
  "answered E i \<longleftrightarrow> 0 \<le> env_accept E i \<and> 0 \<le> env_getsockname E i"

definition leaked :: "env \<Rightarrow> nat \<Rightarrow> bool" where
  "leaked E i \<longleftrightarrow> 0 \<le> env_accept E i \<and> env_getsockname E i < 0"

fun sends :: "event list \<Rightarrow> (int \<times> string) list" where
  "sends [] = []"
| "sends (Send fd r # es) = (fd, r) # sends es"
| "sends (_ # es) = sends es"

lemma sends_append [simp]: "sends (xs @ ys) = sends xs @ sends ys"
  by (induction xs rule: sends.induct) auto

lemma sends_Perror: "set ps \<subseteq> {Perror m} \<Longrightarrow> sends ps = []"
  by (induction ps) auto

definition response_for :: "env \<Rightarrow> nat \<Rightarrow> int \<times> string \<Rightarrow> bool" where
  "response_for E i p \<longleftrightarrow> fst p = env_accept E i \<and>
     (if env_run_ok E i then \<exists>t c. snd p = success_response E t c else snd p = failure_response)"

lemma serve_request_clients:
  assumes "vm_ready s" "serve_request E f d i s = Inr s'"
  shows "\<exists>rs. sends (trace s') = sends (trace s) @ rs \<and> list_all2 (response_for E) (if answered E i then [i] else []) rs"
    and "descriptors s' = (if leaked E i then [env_accept E i] else []) @ descriptors s"
proof -
  have "(\<exists>rs. sends (trace s') = sends (trace s) @ rs \<and> list_all2 (response_for E) (if answered E i then [i] else []) rs) \<and>
    descriptors s' = (if leaked E i then [env_accept E i] else []) @ descriptors s"
  proof (cases rule: serve_request_cases [OF assms(1), of E i f d])
    case (3 c t r ps l)
    with assms(2) have "WasmVMInit E d t = Inr s'" by simp
    from WasmVMInit_frame [OF this] 3 show ?thesis
      by (auto simp: answered_def leaked_def response_for_def sends_Perror)
  qed (use assms(2) in \<open>auto simp: answered_def leaked_def emit_def\<close>)
  then show "\<exists>rs. sends (trace s') = sends (trace s) @ rs \<and> list_all2 (response_for E) (if answered E i then [i] else []) rs"
    "descriptors s' = (if leaked E i then [env_accept E i] else []) @ descriptors s" by simp_all
qed

lemma serve_clients:
  assumes "vm_ready s" "serve E f d i n s = Inr s'"
  shows "(\<exists>rs. sends (trace s') = sends (trace s) @ rs \<and> list_all2 (response_for E) (filter (answered E) [i..<i + n]) rs) \<and>
    descriptors s' = map (env_accept E) (rev (filter (leaked E) [i..<i + n])) @ descriptors s"
  using assms
proof (induction n arbitrary: i s)
  case (Suc n)
  then obtain s1 where s1: "serve_request E f d i s = Inr s1" "serve E f d (i + 1) n s1 = Inr s'"
    by (auto simp: ebind_Inr_iff)
  have r: "vm_ready s1" using serve_request_vm [OF Suc.prems(1), of E f d i] s1(1) by simp
  note c = serve_request_clients [OF Suc.prems(1) s1(1)]
  have upt: "[i..<i + Suc n] = i # [i + 1..<i + 1 + n]" by (simp add: upt_rec)
  obtain rs1 where rs1: "sends (trace s1) = sends (trace s) @ rs1"
    "list_all2 (response_for E) (if answered E i then [i] else []) rs1" using c(1) by blast
  obtain rs2 where rs2: "sends (trace s') = sends (trace s1) @ rs2"
    "list_all2 (response_for E) (filter (answered E) [i + 1..<i + 1 + n]) rs2"
    and d2: "descriptors s' = map (env_accept E) (rev (filter (leaked E) [i + 1..<i + 1 + n])) @ descriptors s1"
    using Suc.IH [OF r s1(2)] by blast
  have "filter (answered E) [i..<i + Suc n] = (if answered E i then [i] else []) @ filter (answered E) [i + 1..<i + 1 + n]"
    unfolding upt by simp
  then have "list_all2 (response_for E) (filter (answered E) [i..<i + Suc n]) (rs1 @ rs2)"
    using list_all2_appendI [OF rs1(2) rs2(2)] by (simp only:)
  then have "\<exists>rs. sends (trace s') = sends (trace s) @ rs \<and> list_all2 (response_for E) (filter (answered E) [i..<i + Suc n]) rs"
    using rs1(1) rs2(1) by (intro exI [of _ "rs1 @ rs2"]) simp
  moreover have "descriptors s' = map (env_accept E) (rev (filter (leaked E) [i..<i + Suc n])) @ descriptors s"
    unfolding upt d2 c(2) by simp
  ultimately show ?case by blast
qed auto

section \<open>The guarantees of the server\<close>

lemma sends_none: "\<forall>fd r. Send fd r \<notin> set es \<Longrightarrow> sends es = []"
  by (induction es rule: sends.induct) auto

lemma serve_trace:
  assumes "vm_ready s" "serve E f d i n s = Inr s'"
  shows "\<exists>es. trace s' = trace s @ es"
  using assms
proof (induction n arbitrary: i s)
  case (Suc n)
  then obtain s1 where s1: "serve_request E f d i s = Inr s1" "serve E f d (i + 1) n s1 = Inr s'"
    by (auto simp: ebind_Inr_iff)
  have r: "vm_ready s1" using serve_request_vm [OF Suc.prems(1), of E f d i] s1(1) by simp
  have "\<exists>es. trace s1 = trace s @ es"
  proof (cases rule: serve_request_cases [OF Suc.prems(1), of E i f d])
    case (3 c t r ps l)
    then have "WasmVMInit E d t = Inr s1" using s1(1) by simp
    from WasmVMInit_frame(3) [OF this] 3(8) show ?thesis by simp
  qed (use s1(1) in \<open>auto simp: emit_def\<close>)
  with Suc.IH [OF r s1(2)] show ?case by auto
qed simp

lemma join_netns_stop:
  "join_netns E n s = Inl e \<Longrightarrow> \<exists>s' m. e = Exit (- 1) s' \<and> VMCxt s' = VMCxt s \<and> trace s' = trace s @ [Stdout m]"
  by (auto simp: join_netns_def runw_defs split: if_splits)

lemma create_server_stop:
  "create_server E s = Inl e \<Longrightarrow> \<exists>s' m. e = Exit 1 s' \<and> VMCxt s' = VMCxt s \<and> trace s' = trace s @ [Perror m]"
  by (auto simp: create_server_def runw_defs split: if_splits)

lemma setup_exit:
  assumes "runw_setup_server E argv = Inl e" "4 \<le> length argv"
  shows "case e of Exit c s \<Rightarrow> c \<in> {- 1, 1} \<and> VMCxt s = None \<and> (\<exists>v. vm_steps (NoVM 0) (trace s) = Some (NoVM v))
    | Undefined \<Rightarrow> False"
proof -
  let ?s = "snd (clock_gettime E runw_init)\<lparr>setup_start := fst (clock_gettime E runw_init)\<rparr>"
  have init: "VMCxt ?s = None" "trace ?s = []" "vm_count ?s = 0" by (simp_all add: clock_gettime_def runw_init_def)
  note unf = assms(1) [unfolded runw_setup_server_def Let_def]
  consider (join) "join_netns E (atoi (argv ! 3)) ?s = Inl e"
    | (conf) s0 where "join_netns E (atoi (argv ! 3)) ?s = Inr s0" "e = Exit 1 (emit [Perror ''could not create wasmedge configure''] s0)"
    | (sock) s0 where "join_netns E (atoi (argv ! 3)) ?s = Inr s0"
        "create_server E (emit [ConfigureCreate] (s0\<lparr>ConfCxt := True\<rparr>)) = Inl e"
    | (vm) s0 fd s1 where "join_netns E (atoi (argv ! 3)) ?s = Inr s0"
        "create_server E (emit [ConfigureCreate] (s0\<lparr>ConfCxt := True\<rparr>)) = Inr (fd, s1)"
        "WasmVMInit E (argv ! 2) s1 = Inl e"
    using unf assms(2) by (auto simp: ebind_Inl_iff split: if_splits prod.splits)
  then show ?thesis
  proof cases
    case join
    with join_netns_stop [OF join] init show ?thesis by auto
  next
    case conf
    with join_netns_ok [OF conf(1)] init show ?thesis by (simp add: emit_def vm_steps_append)
  next
    case sock
    with create_server_stop [OF sock(2)] join_netns_ok [OF sock(1)] init show ?thesis
      by (auto simp: emit_def vm_steps_append)
  next
    case vm
    have "vm_none s1"
      using create_server_ok [OF vm(2)] join_netns_ok [OF vm(1)] init
      by (simp add: vm_none_def emit_def vm_steps_append)
    from WasmVMInit_vm [OF this, of E "argv ! 2"] vm(3) show ?thesis
      by (auto simp: vm_gone_def split: stop.splits)
  qed
qed

lemma runw_main_cases:
  assumes "4 \<le> length argv"
  obtains (stopped) e where "runw_setup_server E argv = Inl e" "runw_main E argv n = Inl e"
  | (serving) fd s where "runw_setup_server E argv = Inr (fd, s)" "vm_ready s"
      "runw_main E argv n = serve E (argv ! 1) (argv ! 2) 0 n s"
  by (cases "runw_setup_server E argv") (auto simp: runw_main_def dest: setup_ok(1))

lemma serve_returns:
  assumes "vm_ready s" "\<forall>v. env_vm_create E v \<and> env_wasi E v"
  shows "\<exists>s'. serve E f d i n s = Inr s'"
  using assms(1)
proof (induction n arbitrary: i s)
  case (Suc n)
  have "\<exists>s1. serve_request E f d i s = Inr s1"
    by (cases rule: serve_request_cases [OF Suc.prems, of E i f d])
      (use assms(2) in \<open>auto simp: WasmVMInit_def runw_defs\<close>)
  then obtain s1 where s1: "serve_request E f d i s = Inr s1" by blast
  then have "vm_ready s1" using serve_request_vm [OF Suc.prems, of E f d i] by simp
  with Suc.IH [of s1 "i + 1"] s1 show ?case by simp
qed simp

text \<open>The calls that the setup depends on all succeed.\<close>

definition setup_succeeds :: "env \<Rightarrow> int \<Rightarrow> bool" where
  "setup_succeeds E ns \<longleftrightarrow> env_setns E (env_open E (netns_path ns)) = 0 \<and> env_configure E \<and>
     env_socket E \<noteq> - 1 \<and> 0 \<le> env_reuseaddr E \<and> 0 \<le> env_nodelay E \<and> env_bind E = 0 \<and> env_listen E = 0 \<and>
     env_vm_create E 0 \<and> env_wasi E 0"

lemma setup_returns:
  assumes "4 \<le> length argv" "setup_succeeds E (atoi (argv ! 3))"
  shows "\<exists>fd s. runw_setup_server E argv = Inr (fd, s)"
proof -
  let ?s = "snd (clock_gettime E runw_init)\<lparr>setup_start := fst (clock_gettime E runw_init)\<rparr>"
  obtain s0 where s0: "join_netns E (atoi (argv ! 3)) ?s = Inr s0"
    using assms(2) by (auto simp: join_netns_def runw_defs setup_succeeds_def)
  obtain fd s1 where s1: "create_server E (emit [ConfigureCreate] (s0\<lparr>ConfCxt := True\<rparr>)) = Inr (fd, s1)"
    using assms(2) by (auto simp: create_server_def runw_defs setup_succeeds_def)
  have "vm_count s1 = 0"
    using join_netns_ok [OF s0] create_server_ok [OF s1] by (simp add: emit_def clock_gettime_def runw_init_def)
  then obtain s2 where "WasmVMInit E (argv ! 2) s1 = Inr s2"
    using assms(2) by (auto simp: WasmVMInit_def runw_defs setup_succeeds_def)
  with s0 s1 assms show ?thesis
    by (simp add: runw_setup_server_def case_prod_beta Let_def setup_succeeds_def)
qed

text \<open>An environment in which two connections arrive, the second without a name.\<close>

definition demo_env :: env where
  "demo_env = \<lparr>env_open = (\<lambda>_. 3), env_setns = (\<lambda>_. 0), env_configure = True, env_socket = 3,
     env_reuseaddr = 0, env_nodelay = 0, env_bind = 0, env_listen = 0, env_accept = (\<lambda>i. 4 + int i),
     env_getsockname = (\<lambda>i. if i = 1 then - 1 else 0), env_send = (\<lambda>_. 0), env_vm_create = (\<lambda>_. True),
     env_wasi = (\<lambda>_. True), env_run_ok = (\<lambda>_. True), env_clock = (\<lambda>n. (int n, 0)), env_fmt = (\<lambda>_. ''0'')\<rparr>"

lemma demo_env_ok: "setup_succeeds demo_env n" "\<forall>v. env_vm_create demo_env v \<and> env_wasi demo_env v"
  by (simp_all add: setup_succeeds_def demo_env_def)



text \<open>
  (C6) One virtual machine per request: whatever the operating system and WasmEdge answer,
  in the trace of the server virtual machines are created one after the other, each is
  initialised before it runs, runs at most one request, and is deleted before the next one
  is created. At the head of the loop a fresh machine is ready and has not run; when the
  server gives up, no machine is left. A deleted machine is never run.
\<close>

theorem runw_isolation:
  assumes "4 \<le> length argv"
  shows "case runw_main E argv n of
      Inr s \<Rightarrow> VMCxt s = Some (vm_count s - 1) \<and> vm_steps (NoVM 0) (trace s) = Some (Ready (vm_count s - 1))
    | Inl (Exit c s) \<Rightarrow> c \<in> {- 1, 1} \<and> VMCxt s = None \<and> (\<exists>v. vm_steps (NoVM 0) (trace s) = Some (NoVM v))
    | Inl Undefined \<Rightarrow> False"
proof (cases rule: runw_main_cases [OF assms, of E n])
  case (1 e)
  with setup_exit [OF 1(1) assms] show ?thesis by (auto split: stop.splits)
next
  case (2 fd s)
  with serve_vm [OF 2(2), of E "argv ! 1" "argv ! 2" 0 n] show ?thesis
    by (auto simp: vm_ready_def vm_gone_def split: sum.splits stop.splits)
qed

text \<open>
  (C14) Every connection that was accepted and could be named gets exactly one answer, in the
  order of the connections and on its own descriptor: the success page with the timings if
  the function ran, the failure page otherwise. The descriptors that stay open are the
  listening socket and one for every accepted connection whose \<open>getsockname\<close> failed: these
  are never closed.
\<close>

theorem runw_answers:
  assumes "runw_main E argv n = Inr s" "4 \<le> length argv" "0 \<le> env_open E (netns_path (atoi (argv ! 3)))"
  shows "list_all2 (response_for E) (filter (answered E) [0..<n]) (sends (trace s)) \<and>
    descriptors s = map (env_accept E) (rev (filter (leaked E) [0..<n])) @ [env_socket E] \<and>
    hd (trace s) = SetNs (netns_path (atoi (argv ! 3))) \<and> 1 \<le> runw_setup_msec s"
proof (cases rule: runw_main_cases [OF assms(2), of E n])
  case (2 fd s0)
  note ok = setup_ok [OF 2(1)]
  have run: "serve E (argv ! 1) (argv ! 2) 0 n s0 = Inr s" using 2(3) assms(1) by simp
  obtain es where es: "trace s0 = SetNs (netns_path (atoi (argv ! 3))) # es" "\<forall>fd r. Send fd r \<notin> set es"
    using ok(5) by blast
  have "sends (trace s0) = []" using es sends_none by simp
  with serve_clients [OF 2(2) run] ok(6) [OF assms(3)] have
    "list_all2 (response_for E) (filter (answered E) [0..<n]) (sends (trace s)) \<and>
     descriptors s = map (env_accept E) (rev (filter (leaked E) [0..<n])) @ [env_socket E]" by auto
  moreover have "hd (trace s) = SetNs (netns_path (atoi (argv ! 3)))"
    using serve_trace [OF 2(2) run] es(1) by auto
  moreover have "1 \<le> runw_setup_msec s"
    using serve_vm [OF 2(2), of E "argv ! 1" "argv ! 2" 0 n] run ok(2) by simp
  ultimately show ?thesis by blast
qed (use assms(1) in simp)

theorem runw_isolation_witness:
  "case runw_main demo_env [''runw'', ''f.wasm'', ''/'', ''7''] 2 of
      Inr s \<Rightarrow> VMCxt s = Some (vm_count s - 1) \<and> vm_steps (NoVM 0) (trace s) = Some (Ready (vm_count s - 1))
    | Inl (Exit c s) \<Rightarrow> c \<in> {- 1, 1} \<and> VMCxt s = None \<and> (\<exists>v. vm_steps (NoVM 0) (trace s) = Some (NoVM v))
    | Inl Undefined \<Rightarrow> False"
  by (rule runw_isolation) simp

theorem runw_answers_witness:
  "\<exists>s. runw_main demo_env [''runw'', ''f.wasm'', ''/'', ''7''] 2 = Inr s \<and>
    list_all2 (response_for demo_env) (filter (answered demo_env) [0..<2]) (sends (trace s)) \<and>
    descriptors s = [5, 3] \<and> hd (trace s) = SetNs (netns_path (atoi ''7'')) \<and> 1 \<le> runw_setup_msec s"
proof -
  obtain fd s0 where s0: "runw_setup_server demo_env [''runw'', ''f.wasm'', ''/'', ''7''] = Inr (fd, s0)"
    using setup_returns [of "[''runw'', ''f.wasm'', ''/'', ''7'']" demo_env] demo_env_ok by auto
  obtain s where s: "runw_main demo_env [''runw'', ''f.wasm'', ''/'', ''7''] 2 = Inr s"
    using s0 serve_returns [OF setup_ok(1) [OF s0] demo_env_ok(2), of "''f.wasm''" "''/''" 0 2] by (auto simp: runw_main_def)
  have fds: "map (env_accept demo_env) (rev (filter (leaked demo_env) [0..<2])) @ [env_socket demo_env] = [5, 3]"
    by (simp add: demo_env_def leaked_def upt_rec)
  have "0 \<le> env_open demo_env (netns_path (atoi ([''runw'', ''f.wasm'', ''/'', ''7''] ! 3)))"
    by (simp add: demo_env_def)
  from runw_answers [OF s _ this] s fds show ?thesis by simp
qed

end
