(* ===== verification/Trees_Props.thy ===== *)
theory Trees_Props
  imports Trees_Blocks
begin

text \<open>
  Properties of the tables and of the symbol buffer of \<open>trees.c\<close>: the initialised tables of
  \<open>trees.h\<close>, the two ways to tally a symbol, and the guess whether the data is text.
\<close>

section \<open>The generated tables\<close>

text \<open>A canonical tree with no unused symbol is determined by its lengths.\<close>

lemma tree_canonical_unique:
  assumes "tree_canonical t lens" "tree_canonical t' lens" "length t = length lens" "length t' = length lens"
    "\<forall>l \<in> set lens. l \<noteq> 0"
  shows "t = t'"
proof (rule nth_equalityI)
  fix k assume "k < length t"
  then have k: "k < length lens" "lens ! k \<noteq> 0" using assms by simp_all
  with assms(1,2) have "fc (t ! k) = fc (t' ! k)" "unat (dl (t ! k)) = unat (dl (t' ! k))"
    by (simp_all add: tree_canonical_def Len_def)
  then show "t ! k = t' ! k" by (cases "t ! k", cases "t' ! k") (simp add: word_unat_eq_iff)
qed (use assms in simp)

lemma static_llens_facts: "length static_llens = 288" "l \<in> set static_llens \<Longrightarrow> l \<noteq> 0 \<and> l < 16"
  by (auto simp: static_llens_def)

lemma init_ltree_eq: "init_ltree = static_ltree"
proof (rule tree_canonical_unique [OF _ static_ltree_canonical])
  let ?t = "map (\<lambda>l. \<lparr>fc = 0, dl = of_nat l\<rparr>) static_llens :: ct_data list"
  have "Len ?t k = static_llens ! k" if "k < 288" for k
    using that static_llens_facts(2) [of "static_llens ! k"] nth_mem [of k static_llens]
    by (simp add: Len_def static_llens_facts(1) unat_of_nat take_bit_nat_eq_self)
  then have t: "static_llens = tree_lens ?t (L_CODES + 1)"
    by (intro nth_equalityI)
      (simp_all add: tree_lens_def static_llens_facts(1) L_CODES_def LITERALS_def LENGTH_CODES_def del: upt_Suc)
  have c: "map (\<lambda>l. of_nat (count_list static_llens l)) [0..<Suc MAX_BITS] ! l = (of_nat (count_list static_llens l) :: ush)"
    if "l < 16" for l
    using that by (simp add: MAX_BITS_def del: upt_Suc)
  have "count_list static_llens 0 = 0" using static_llens_facts(2) [of 0] by (auto simp: count_list_0_iff)
  then show "tree_canonical init_ltree static_llens" unfolding init_ltree_def
    by (intro gen_codes_canonical [OF t])
      (auto simp: static_llens_facts c L_CODES_def LITERALS_def LENGTH_CODES_def simp del: upt_Suc map_append map_map list.map)
qed (auto simp: static_llens_facts init_ltree_def static_ltree_def)

lemma init_dtree_eq: "init_dtree = static_dtree"
proof (rule nth_equalityI)
  show "length init_dtree = length static_dtree" by (simp add: init_dtree_def static_dtree_def D_CODES_def)
  fix k assume "k < length init_dtree"
  then have k: "k < 30" by (simp add: init_dtree_def D_CODES_def)
  have l: "length static_dtree = 30" by (simp add: static_dtree_def)
  have "map (\<lambda>t. uint (fc t)) static_dtree = code_run 5 0 30" "map dl static_dtree = replicate 30 5" by code_simp+
  note t = arg_cong [OF this(1), of "\<lambda>xs. xs ! k"] arg_cong [OF this(2), of "\<lambda>xs. xs ! k"]
  have "ucast (bi_reverse (of_nat k) 5) = rev_code k 5"
    using k by (simp add: rev_code_def ucast_ush_uint)
  then have "uint (fc (init_dtree ! k)) = rev_int 5 (int k)" "dl (init_dtree ! k) = 5"
    using k uint_rev_code [of 5 k] by (simp_all add: init_dtree_def D_CODES_def)
  moreover have "uint (fc (static_dtree ! k)) = rev_int 5 (int k)" "dl (static_dtree ! k) = 5"
    using k t l by simp_all
  ultimately show "init_dtree ! k = static_dtree ! k"
    by (cases "init_dtree ! k", cases "static_dtree ! k") (simp add: word_uint_eq_iff)
qed

text \<open>
  (C18) The initialised tables of \<open>trees.h\<close> are the ones that \<open>tr_static_init\<close> computes: the
  length and distance codes with their bases, and the two static trees.
\<close>

theorem static_tables_generated:
  "init_lengths = (base_length, length_code) \<and> init_dists = (base_dist, dist_code) \<and>
   init_ltree = static_ltree \<and> init_dtree = static_dtree"
  by (simp only: init_lengths_eq init_dists_eq init_ltree_eq init_dtree_eq)

section \<open>Tallying symbols\<close>

lemma unat_ucast_uint: "unat (ucast (d :: ush) :: uint) = unat d" "unat (ucast (c :: byte) :: uint) = unat c"
  using unsigned_less [of d, where 'a = nat] unsigned_less [of c, where 'a = nat]
  by (simp_all add: unsigned_ucast_eq take_bit_nat_eq_self)

lemma ucast_bytes:
  "(ucast (ucast (dist :: ush) :: uint) :: byte) = ucast dist"
  "(ucast (drop_bit 8 (ucast (dist :: ush) :: uint)) :: byte) = ucast (drop_bit 8 dist)"
  "(ucast (ucast (c :: byte) :: uint) :: byte) = c"
  by (rule bit_word_eqI, auto simp: bit_simps)+

lemma unat_dist_minus_1: "dist \<noteq> 0 \<Longrightarrow> unat ((ucast (dist :: ush) :: uint) - 1) = unat (dist - 1)"
proof -
  assume "dist \<noteq> 0"
  then have "1 \<le> unat dist" by (simp add: unat_gt_0 Suc_le_eq)
  then have "1 \<le> dist" "1 \<le> (ucast dist :: uint)" by (simp_all add: word_le_nat_alt unat_ucast_uint)
  then show ?thesis by (simp add: unat_sub unat_ucast_uint)
qed

text \<open>
  (C19) The inline tallies of \<open>deflate.h\<close> do to the state and return what the function
  \<open>_tr_tally\<close> does, except that they do not count the match.
\<close>

theorem tally_inline_equiv:
  "tr_tally_lit s c = tr_tally s 0 (ucast c) \<and>
   tr_tally s (ucast dist) (ucast c) =
     (if dist = 0 then tr_tally_lit s c
      else (fst (tr_tally_dist s dist c), (snd (tr_tally_dist s dist c))\<lparr>matches := matches s + 1\<rparr>))"
proof (intro conjI)
  show lit: "tr_tally_lit s c = tr_tally s 0 (ucast c)"
    by (simp add: tr_tally_lit_def tr_tally_def Let_def ucast_bytes unat_ucast_uint)
  have "(ucast dist :: uint) \<noteq> 0" if "dist \<noteq> 0"
    using that unat_ucast_uint(1) [of dist] by (metis unat_eq_zero)
  then show "tr_tally s (ucast dist) (ucast c) =
     (if dist = 0 then tr_tally_lit s c
      else (fst (tr_tally_dist s dist c), (snd (tr_tally_dist s dist c))\<lparr>matches := matches s + 1\<rparr>))"
    by (simp add: lit tr_tally_dist_def tr_tally_def Let_def ucast_bytes unat_ucast_uint unat_dist_minus_1 store_sym_def)
qed

section \<open>Text or binary\<close>

lemma block_mask_bits: "n < 32 \<Longrightarrow> bit block_mask n \<longleftrightarrow> n \<le> 6 \<or> 14 \<le> n \<and> n \<le> 25 \<or> 28 \<le> n"
proof -
  assume "n < 32"
  moreover have "list_all (\<lambda>n. bit block_mask n \<longleftrightarrow> n \<le> 6 \<or> 14 \<le> n \<and> n \<le> 25 \<or> 28 \<le> n) [0..<32]"
    by code_simp
  ultimately show ?thesis by (simp add: list_all_iff del: upt_rec_numeral)
qed


end
